(* ===== verification/Xv6_Prelude.thy ===== *)
theory Xv6_Prelude
  imports Main "HOL-Library.Word"
begin

text \<open>
  Shared vocabulary of the development: the widths of the C integer types of
  \<^verbatim>\<open>src/kernel/core/type.h\<close>, the result type of fallible kernel code, the
  sequencing combinator for it, and generic lemmas on lists, powers of two and words.

  A kernel function that can call \<open>panic\<close>, or that would leave the arrays it indexes, returns
  a value of type \<open>'a res\<close>: \<open>Fail\<close> with the fault, or \<open>Ret\<close> with the result.
\<close>

unbundle bit_operations_syntax

section \<open>Integer types and results\<close>

type_synonym u8 = "8 word"
type_synonym u16 = "16 word"
type_synonym u32 = "32 word"
type_synonym u64 = "64 word"

datatype fault =
    Panic string      \<comment> \<open>\<open>panic(s)\<close>\<close>
  | OutOfBounds       \<comment> \<open>an access outside the array it is meant for\<close>
  | NullDeref         \<comment> \<open>an access through a null pointer\<close>
  | Diverge           \<comment> \<open>a loop that never ends\<close>
  | Blocked           \<comment> \<open>a wait for a lock or an event that another process has to give up\<close>
  | Dangling          \<comment> \<open>an access through a pointer to freed memory\<close>

type_synonym 'a res = "fault + 'a"

abbreviation Ret :: "'a \<Rightarrow> 'a res" where "Ret \<equiv> Inr"

abbreviation Fail :: "fault \<Rightarrow> 'a res" where "Fail \<equiv> Inl"

abbreviation panic :: "string \<Rightarrow> 'a res" where "panic s \<equiv> Inl (Panic s)"

definition bindR :: "'a res \<Rightarrow> ('a \<Rightarrow> 'b res) \<Rightarrow> 'b res" where
  "bindR m f = (case m of Inl e \<Rightarrow> Inl e | Inr x \<Rightarrow> f x)"

lemma bindR_simps [simp]:
  "bindR (Inl e) f = Inl e"
  "bindR (Inr x) f = f x"
  by (simp_all add: bindR_def)

lemma bindR_eq_Inr: "bindR m f = Inr y \<longleftrightarrow> (\<exists>x. m = Inr x \<and> f x = Inr y)"
  by (cases m) auto

lemma bindR_cong [fundef_cong]:
  "m = m' \<Longrightarrow> (\<And>x. m' = Inr x \<Longrightarrow> f x = f' x) \<Longrightarrow> bindR m f = bindR m' f'"
  by (cases m') auto

text \<open>A \<open>for\<close> loop over a fixed range, with a body that can fail.\<close>

primrec foldR :: "('a \<Rightarrow> 's \<Rightarrow> 's res) \<Rightarrow> 'a list \<Rightarrow> 's \<Rightarrow> 's res" where
  "foldR f [] s = Ret s"
| "foldR f (x # xs) s = bindR (f x s) (foldR f xs)"

lemma foldR_append: "foldR f (xs @ ys) s = bindR (foldR f xs s) (foldR f ys)"
  by (induction xs arbitrary: s) (auto simp: bindR_def split: sum.splits)

lemma foldR_upt_Suc: "i \<le> j \<Longrightarrow> foldR f [i..<Suc j] s = bindR (foldR f [i..<j] s) (f j)"
  by (simp add: foldR_append bindR_def split: sum.splits)

lemma foldR_inv:
  assumes "P 0 s" and "\<And>j s. j < n \<Longrightarrow> P j s \<Longrightarrow> \<exists>s'. f j s = Ret s' \<and> P (Suc j) s'"
  shows "\<exists>s'. foldR f [0..<n] s = Ret s' \<and> P n s'"
  using assms
proof (induction n)
  case (Suc n)
  then obtain s' where "foldR f [0..<n] s = Ret s'" "P n s'" by (metis less_SucI)
  then show ?case using Suc.prems(2) [of n s'] by (auto simp: foldR_append)
qed simp

text \<open>A null pointer is address 0 in every component that models pointers.\<close>

abbreviation (input) nullptr :: nat where "nullptr \<equiv> 0"

section \<open>Collections of rules\<close>

named_theorems model_defs \<open>definitions a concrete evaluation unfolds\<close>

section \<open>Powers of two and division\<close>

lemma div_power2_Suc: "(n::nat) div (c * 2 ^ Suc k) = (n div (c * 2 ^ k)) div 2"
proof -
  have "c * 2 ^ Suc k = (c * 2 ^ k) * 2" by simp
  then show ?thesis by (simp only: div_mult2_eq)
qed

lemma div_pow2_add: "(n::nat) div 2 ^ (k + d) = n div 2 ^ k div 2 ^ d"
  by (simp add: power_add div_mult2_eq)

lemma div_pow2_Suc: "(n::nat) div 2 ^ Suc k = n div 2 ^ k div 2"
  using div_pow2_add [of n k 1] by simp

lemma mult_div_cancel_pow2:
  "0 < c \<Longrightarrow> (i * (c * 2 ^ k)) div (c * 2 ^ k) = (i::nat)"
  by simp

lemma even_or_odd_half: "(i::nat) = 2 * (i div 2) \<or> i = 2 * (i div 2) + 1"
  by presburger

end
