(* ===== verification/Kmonad.thy ===== *)
theory Kmonad
  imports Xv6_Prelude
begin

text \<open>
  Sequencing of kernel code that works on a state and can fault, and the one judgement the proofs
  about it use: \<open>ok m s Q\<close> says that \<open>m\<close> started in \<open>s\<close> ends without a fault in a result and a state
  that satisfy \<open>Q\<close>.
\<close>

type_synonym ('s, 'a) kmon = "'s \<Rightarrow> ('a \<times> 's) res"

definition retK :: "'a \<Rightarrow> ('s, 'a) kmon" where
  "retK x = (\<lambda>s. Ret (x, s))"

definition failK :: "fault \<Rightarrow> ('s, 'a) kmon" where
  "failK f = (\<lambda>s. Fail f)"

definition bindK :: "('s, 'a) kmon \<Rightarrow> ('a \<Rightarrow> ('s, 'b) kmon) \<Rightarrow> ('s, 'b) kmon" where
  "bindK m f = (\<lambda>s. bindR (m s) (\<lambda>(x, s'). f x s'))"

definition thenK :: "('s, 'a) kmon \<Rightarrow> ('s, 'b) kmon \<Rightarrow> ('s, 'b) kmon" where
  "thenK m n = bindK m (\<lambda>_. n)"

definition getK :: "('s \<Rightarrow> 'a) \<Rightarrow> ('s, 'a) kmon" where
  "getK f = (\<lambda>s. Ret (f s, s))"

definition modK :: "('s \<Rightarrow> 's) \<Rightarrow> ('s, unit) kmon" where
  "modK f = (\<lambda>s. Ret ((), f s))"

definition whenK :: "bool \<Rightarrow> ('s, unit) kmon \<Rightarrow> ('s, unit) kmon" where
  "whenK c m = (if c then m else retK ())"

abbreviation panicK :: "string \<Rightarrow> ('s, 'a) kmon" where
  "panicK x \<equiv> failK (Panic x)"

text \<open>A result that does not depend on the state.\<close>

definition liftR :: "'a res \<Rightarrow> ('s, 'a) kmon" where
  "liftR r = (\<lambda>s. bindR r (\<lambda>x. Ret (x, s)))"

text \<open>A \<open>for\<close> loop without an early exit.\<close>

primrec forK :: "'i list \<Rightarrow> ('i \<Rightarrow> ('s, unit) kmon) \<Rightarrow> ('s, unit) kmon" where
  "forK [] f = retK ()"
| "forK (i # is) f = thenK (f i) (forK is f)"

lemmas kmon_defs = retK_def failK_def bindK_def thenK_def getK_def modK_def whenK_def liftR_def

lemma kmon_run [simp]:
  "retK x s = Ret (x, s)" "failK f s = Fail f" "getK g s = Ret (g s, s)" "modK u s = Ret ((), u s)"
  "liftR (Ret x) s = Ret (x, s)" "liftR (Fail e) s = Fail e"
  "whenK True m = m" "whenK False m' = retK ()"
  by (simp_all add: kmon_defs)

lemma bindK_Ret: "m s = Ret (x, s') \<Longrightarrow> bindK m f s = f x s'"
  by (simp add: bindK_def)

lemma bindK_Fail: "m s = Fail e \<Longrightarrow> bindK m f s = Fail e"
  by (simp add: bindK_def)

lemma bindK_run [simp]:
  "bindK (retK x) f1 s = f1 x s" "bindK (failK e) f2 s = Fail e" "bindK (getK g) f3 s = f3 (g s) s"
  "bindK (modK u) f4 s = f4 () (u s)" "bindK (liftR (Ret y)) f5 s = f5 y s" "bindK (liftR (Fail e)) f6 s = Fail e"
  "thenK (retK x) n1 s = n1 s" "thenK (failK e) n2 s = Fail e" "thenK (getK g) n3 s = n3 s"
  "thenK (modK u) n4 s = n4 (u s)"
  by (simp_all add: kmon_defs)

lemma bindK_cong [fundef_cong]:
  assumes "m s = m' s" and "\<And>x s'. m' s = Ret (x, s') \<Longrightarrow> f x s' = f' x s'" and "s = t"
  shows "bindK m f s = bindK m' f' t"
  using assms by (auto simp: bindK_def intro: bindR_cong)

lemma bindK_assoc: "bindK (bindK m f) g = bindK m (\<lambda>x. bindK (f x) g)"
  by (auto simp: bindK_def bindR_def fun_eq_iff split: sum.splits)

lemma thenK_assoc:
  "thenK (thenK m n) k = thenK m (thenK n k)" "thenK (bindK m f) k = bindK m (\<lambda>x. thenK (f x) k)"
  "bindK (thenK m n) f = thenK m (bindK n f)"
  by (simp_all add: thenK_def bindK_assoc)

section \<open>Running without a fault\<close>

definition ok :: "('s, 'a) kmon \<Rightarrow> 's \<Rightarrow> ('a \<Rightarrow> 's \<Rightarrow> bool) \<Rightarrow> bool" where
  "ok m s Q \<longleftrightarrow> (\<exists>x s'. m s = Ret (x, s') \<and> Q x s')"

lemma okI: "m s = Ret (x, s') \<Longrightarrow> Q x s' \<Longrightarrow> ok m s Q"
  by (auto simp: ok_def)

lemma okE: "ok m s Q \<Longrightarrow> (\<And>x s'. m s = Ret (x, s') \<Longrightarrow> Q x s' \<Longrightarrow> R) \<Longrightarrow> R"
  by (auto simp: ok_def)

lemma ok_mono: "ok m s Q \<Longrightarrow> (\<And>x s'. Q x s' \<Longrightarrow> Q' x s') \<Longrightarrow> ok m s Q'"
  by (auto simp: ok_def)

lemma ok_bind: "ok m s (\<lambda>x s'. ok (f x) s' Q) \<Longrightarrow> ok (bindK m f) s Q"
  by (auto simp: ok_def bindK_def)

lemma ok_then: "ok m s (\<lambda>x s'. ok n s' Q) \<Longrightarrow> ok (thenK m n) s Q"
  by (auto simp: thenK_def intro: ok_bind)

lemma ok_bindE: "ok m s P \<Longrightarrow> (\<And>x s'. P x s' \<Longrightarrow> ok (f x) s' Q) \<Longrightarrow> ok (bindK m f) s Q"
  by (auto simp: ok_def bindK_def)

lemma ok_thenE: "ok m s P \<Longrightarrow> (\<And>x s'. P x s' \<Longrightarrow> ok n s' Q) \<Longrightarrow> ok (thenK m n) s Q"
  by (auto simp: thenK_def intro: ok_bindE)

lemma ok_simps [simp]:
  "ok (retK x) s Q1 \<longleftrightarrow> Q1 x s" "ok (getK g) s Q2 \<longleftrightarrow> Q2 (g s) s" "ok (modK u) s Q3 \<longleftrightarrow> Q3 () (u s)"
  "\<not> ok (failK e) s Q4" "ok (liftR (Ret y)) s Q5 \<longleftrightarrow> Q5 y s"
  "ok (bindK (retK x) f1) s Q6 \<longleftrightarrow> ok (f1 x) s Q6" "ok (bindK (getK g) f2) s Q7 \<longleftrightarrow> ok (f2 (g s)) s Q7"
  "ok (bindK (modK u) f3) s Q8 \<longleftrightarrow> ok (f3 ()) (u s) Q8" "ok (thenK (modK u) n1) s Q9 \<longleftrightarrow> ok n1 (u s) Q9"
  "ok (thenK (retK x) n2) s Q10 \<longleftrightarrow> ok n2 s Q10" "ok (bindK (liftR (Ret y)) f4) s Q11 \<longleftrightarrow> ok (f4 y) s Q11"
  by (simp_all add: ok_def)

text \<open>A counting loop keeps an indexed invariant.\<close>

lemma ok_forK_from:
  assumes "P a s" "a \<le> n"
    and "\<And>i t. a \<le> i \<Longrightarrow> i < n \<Longrightarrow> P i t \<Longrightarrow> ok (f i) t (\<lambda>_. P (Suc i))"
  shows "ok (forK [a..<n] f) s (\<lambda>_. P n)"
  using assms
proof (induction "n - a" arbitrary: a s)
  case (Suc k)
  then have "[a..<n] = a # [Suc a..<n]" by (simp add: upt_conv_Cons)
  moreover have "ok (forK [Suc a..<n] f) t (\<lambda>_. P n)" if "P (Suc a) t" for t
    by (rule Suc.hyps(1)) (use Suc that in auto)
  moreover have "ok (f a) s (\<lambda>_. P (Suc a))" by (rule Suc.prems(3)) (use Suc in auto)
  ultimately show ?case by (auto intro: ok_thenE)
qed simp

lemma ok_forK:
  assumes "P 0 s" and "\<And>i t. i < n \<Longrightarrow> P i t \<Longrightarrow> ok (f i) t (\<lambda>_. P (Suc i))"
  shows "ok (forK [0..<n] f) s (\<lambda>_. P n)"
  by (rule ok_forK_from) (use assms in auto)

end
