(* ===== verification/Bytes.thy ===== *)
theory Bytes
  imports Xv6_Prelude
begin

text \<open>
  Reading and writing the 16- and 32-bit little-endian integers that C structures overlaid on a disk
  block consist of, and copying of byte ranges into blocks.
\<close>

type_synonym block = "u8 list"

definition load16 :: "block \<Rightarrow> nat \<Rightarrow> u16" where
  "load16 xs i = ucast (xs ! i) OR push_bit 8 (ucast (xs ! (i + 1)))"

definition load32 :: "block \<Rightarrow> nat \<Rightarrow> u32" where
  "load32 xs i = ucast (xs ! i) OR push_bit 8 (ucast (xs ! (i + 1))) OR
     push_bit 16 (ucast (xs ! (i + 2))) OR push_bit 24 (ucast (xs ! (i + 3)))"

definition store16 :: "block \<Rightarrow> nat \<Rightarrow> u16 \<Rightarrow> block" where
  "store16 xs i w = xs[i := ucast w, i + 1 := ucast (drop_bit 8 w)]"

definition store32 :: "block \<Rightarrow> nat \<Rightarrow> u32 \<Rightarrow> block" where
  "store32 xs i w = xs[i := ucast w, i + 1 := ucast (drop_bit 8 w),
     i + 2 := ucast (drop_bit 16 w), i + 3 := ucast (drop_bit 24 w)]"

lemma store_length [simp]:
  "length (store16 xs i w) = length xs" "length (store32 xs i w') = length xs"
  by (simp_all add: store16_def store32_def)

lemma load16_store16 [simp]: "i + 1 < length xs \<Longrightarrow> load16 (store16 xs i w) i = w"
  by (rule bit_word_eqI) (auto simp: load16_def store16_def bit_simps)

lemma load32_store32 [simp]: "i + 3 < length xs \<Longrightarrow> load32 (store32 xs i w) i = w"
proof (rule bit_word_eqI)
  fix n assume i: "i + 3 < length xs" and "n < LENGTH(32)"
  then consider "n < 8" | "8 \<le> n" "n < 16" | "16 \<le> n" "n < 24" | "24 \<le> n" "n < 32" by fastforce
  then show "bit (load32 (store32 xs i w) i) n = bit w n"
    by cases (use i in \<open>auto simp: load32_def store32_def bit_simps\<close>)
qed

text \<open>Integers in disjoint bytes do not interfere.\<close>

lemma load16_cong: "xs ! i = ys ! i \<Longrightarrow> xs ! (i + 1) = ys ! (i + 1) \<Longrightarrow> load16 xs i = load16 ys i"
  by (simp add: load16_def)

lemma load32_cong:
  assumes "\<And>k. k < 4 \<Longrightarrow> xs ! (i + k) = ys ! (i + k)"
  shows "load32 xs i = load32 ys i"
  using assms [of 0] assms [of 1] assms [of 2] assms [of 3] by (simp add: load32_def)

lemma store16_nth: "k < i \<or> i + 2 \<le> k \<Longrightarrow> store16 xs i w ! k = xs ! k"
  by (auto simp: store16_def)

lemma store32_nth: "k < i \<or> i + 4 \<le> k \<Longrightarrow> store32 xs i w ! k = xs ! k"
  by (auto simp: store32_def)

lemma load_store_other:
  "i + 2 \<le> j \<or> j + 2 \<le> i \<Longrightarrow> load16 (store16 xs i w16) j = load16 xs j"
  "i + 2 \<le> j \<or> j + 4 \<le> i \<Longrightarrow> load32 (store16 xs i w16) j = load32 xs j"
  "i + 4 \<le> j \<or> j + 2 \<le> i \<Longrightarrow> load16 (store32 xs i w32) j = load16 xs j"
  "i + 4 \<le> j \<or> j + 4 \<le> i \<Longrightarrow> load32 (store32 xs i w32) j = load32 xs j"
  by (auto simp: load16_def load32_def store16_nth store32_nth)

text \<open>Replacing a range of bytes.\<close>

definition splice :: "block \<Rightarrow> nat \<Rightarrow> u8 list \<Rightarrow> block" where
  "splice xs i ys = take i xs @ ys @ drop (i + length ys) xs"

lemma splice_length [simp]: "i + length ys \<le> length xs \<Longrightarrow> length (splice xs i ys) = length xs"
  by (simp add: splice_def)

lemma splice_nth:
  "i + length ys \<le> length xs \<Longrightarrow> k < length xs \<Longrightarrow>
   splice xs i ys ! k = (if i \<le> k \<and> k < i + length ys then ys ! (k - i) else xs ! k)"
  by (auto simp: splice_def nth_append min_def)

end
