(* ===== verification/Locks.thy ===== *)
theory Locks
  imports Xv6_Prelude
begin

text \<open>
  Spin locks (\<^verbatim>\<open>src/kernel/sync/spinlock.c\<close>) and sleep locks (\<^verbatim>\<open>src/kernel/sync/sleeplock.c\<close>).

  The spin locks run on several CPUs at once, so \<open>acquire\<close> and \<open>release\<close> are split at their atomic
  instructions: \<open>acquire\<close> is the part before the swap, each attempt of the atomic swap, and the store
  of the owner; \<open>release\<close> is the check with the clearing of the owner, and the atomic store with
  \<open>pop_off\<close>. \<open>lock_step\<close> interleaves these parts on all CPUs; the invariant gives mutual exclusion.
\<close>

section \<open>Spin locks\<close>

record spinlock =
  locked :: bool
  owner :: "nat option"

record cpu =
  noff :: int
  intena :: bool
  intr :: bool

definition initlock :: spinlock where
  "initlock = \<lparr>locked = False, owner = None\<rparr>"

definition holding :: "nat \<Rightarrow> spinlock \<Rightarrow> bool" where
  "holding c lk \<longleftrightarrow> locked lk \<and> owner lk = Some c"

definition push_off :: "cpu \<Rightarrow> cpu" where
  "push_off c =
     (let old = intr c; c1 = c\<lparr>intr := False\<rparr>;
          c2 = (if noff c1 = 0 then c1\<lparr>intena := old\<rparr> else c1)
      in c2\<lparr>noff := noff c2 + 1\<rparr>)"

definition pop_off :: "cpu \<Rightarrow> cpu res" where
  "pop_off c =
     (if intr c then panic ''pop_off - interruptible''
      else if noff c < 1 then panic ''pop_off''
      else let c1 = c\<lparr>noff := noff c - 1\<rparr> in
           Ret (if noff c1 = 0 \<and> intena c1 then c1\<lparr>intr := True\<rparr> else c1))"

text \<open>The parts of \<open>acquire\<close> and \<open>release\<close>.\<close>

definition acquire_enter :: "nat \<Rightarrow> spinlock \<Rightarrow> cpu \<Rightarrow> cpu res" where
  "acquire_enter c lk p = (if holding c lk then panic ''acquire'' else Ret (push_off p))"

definition test_and_set :: "spinlock \<Rightarrow> bool \<times> spinlock" where
  "test_and_set lk = (locked lk, lk\<lparr>locked := True\<rparr>)"

definition acquire_record :: "nat \<Rightarrow> spinlock \<Rightarrow> spinlock" where
  "acquire_record c lk = lk\<lparr>owner := Some c\<rparr>"

definition release_clear :: "nat \<Rightarrow> spinlock \<Rightarrow> spinlock res" where
  "release_clear c lk = (if holding c lk then Ret (lk\<lparr>owner := None\<rparr>) else panic ''release'')"

definition release_store :: "spinlock \<Rightarrow> spinlock" where
  "release_store lk = lk\<lparr>locked := False\<rparr>"

subsection \<open>Interleaving\<close>

text \<open>What a CPU is doing, the locks it has acquired (last first), and the whole machine.\<close>

datatype activity = Running | Spinning nat | Swapped nat | Releasing nat | Panicked

record machine =
  cpus :: "nat \<Rightarrow> cpu"
  locks :: "nat \<Rightarrow> spinlock"
  doing :: "nat \<Rightarrow> activity"
  held :: "nat \<Rightarrow> nat set"

text \<open>
  One step of one CPU. A panic is a step to \<open>Panicked\<close>; the runs considered are those in which no CPU
  asks for a lock it already holds. Outside of critical sections a CPU may switch its interrupts.
\<close>

inductive lock_step :: "machine \<Rightarrow> machine \<Rightarrow> bool" where
  enter: "doing s c = Running \<Longrightarrow> acquire_enter c (locks s l) (cpus s c) = Ret p \<Longrightarrow>
    lock_step s (s\<lparr>cpus := (cpus s)(c := p), doing := (doing s)(c := Spinning l)\<rparr>)"
| enter_panic: "doing s c = Running \<Longrightarrow> l \<notin> held s c \<Longrightarrow> acquire_enter c (locks s l) (cpus s c) = Fail f \<Longrightarrow>
    lock_step s (s\<lparr>doing := (doing s)(c := Panicked)\<rparr>)"
| swap: "doing s c = Spinning l \<Longrightarrow> test_and_set (locks s l) = (old, lk) \<Longrightarrow>
    lock_step s (s\<lparr>locks := (locks s)(l := lk), doing := (doing s)(c := if old then Spinning l else Swapped l)\<rparr>)"
| set_owner: "doing s c = Swapped l \<Longrightarrow>
    lock_step s (s\<lparr>locks := (locks s)(l := acquire_record c (locks s l)), doing := (doing s)(c := Running),
                   held := (held s)(c := insert l (held s c))\<rparr>)"
| clear: "doing s c = Running \<Longrightarrow> l \<in> held s c \<Longrightarrow> release_clear c (locks s l) = Ret lk \<Longrightarrow>
    lock_step s (s\<lparr>locks := (locks s)(l := lk), doing := (doing s)(c := Releasing l),
                   held := (held s)(c := held s c - {l})\<rparr>)"
| clear_panic: "doing s c = Running \<Longrightarrow> l \<in> held s c \<Longrightarrow> release_clear c (locks s l) = Fail f \<Longrightarrow>
    lock_step s (s\<lparr>doing := (doing s)(c := Panicked)\<rparr>)"
| store: "doing s c = Releasing l \<Longrightarrow> pop_off (cpus s c) = Ret p \<Longrightarrow>
    lock_step s (s\<lparr>locks := (locks s)(l := release_store (locks s l)), cpus := (cpus s)(c := p),
                   doing := (doing s)(c := Running)\<rparr>)"
| store_panic: "doing s c = Releasing l \<Longrightarrow> pop_off (cpus s c) = Fail f \<Longrightarrow>
    lock_step s (s\<lparr>doing := (doing s)(c := Panicked)\<rparr>)"
| interrupts: "doing s c = Running \<Longrightarrow> noff (cpus s c) = 0 \<Longrightarrow>
    lock_step s (s\<lparr>cpus := (cpus s)(c := (cpus s c)\<lparr>intr := on\<rparr>)\<rparr>)"

definition machine_init :: machine where
  "machine_init = \<lparr>cpus = (\<lambda>_. \<lparr>noff = 0, intena = False, intr = False\<rparr>), locks = (\<lambda>_. initlock),
                   doing = (\<lambda>_. Running), held = (\<lambda>_. {})\<rparr>"

subsection \<open>Mutual exclusion\<close>

text \<open>A CPU has the lock word of \<open>l\<close> from its successful swap to its store.\<close>

definition has_word :: "machine \<Rightarrow> nat \<Rightarrow> nat \<Rightarrow> bool" where
  "has_word s c l \<longleftrightarrow> l \<in> held s c \<or> doing s c = Swapped l \<or> doing s c = Releasing l"

text \<open>The nesting depth a CPU must have recorded.\<close>

definition depth :: "machine \<Rightarrow> nat \<Rightarrow> int" where
  "depth s c = int (card (held s c)) + (if doing s c = Running then 0 else 1)"

definition lock_inv :: "machine \<Rightarrow> bool" where
  "lock_inv s \<longleftrightarrow>
     (\<forall>l. locked (locks s l) \<longleftrightarrow> (\<exists>c. has_word s c l)) \<and>
     (\<forall>l c c'. has_word s c l \<longrightarrow> has_word s c' l \<longrightarrow> c = c') \<and>
     (\<forall>l c. owner (locks s l) = Some c \<longleftrightarrow> l \<in> held s c) \<and>
     (\<forall>c. finite (held s c)) \<and>
     (\<forall>c l. (doing s c = Swapped l \<or> doing s c = Releasing l) \<longrightarrow> l \<notin> held s c) \<and>
     (\<forall>c. doing s c \<noteq> Panicked) \<and>
     (\<forall>c. noff (cpus s c) = depth s c \<and> (0 < depth s c \<longrightarrow> \<not> intr (cpus s c)))"

lemma machine_init_inv: "lock_inv machine_init"
  by (simp add: lock_inv_def machine_init_def has_word_def initlock_def depth_def)

lemma push_off_simps [simp]:
  "noff (push_off c) = noff c + 1" "intr (push_off c) = False"
  by (simp_all add: push_off_def Let_def)

lemma pop_off_Ret: "\<not> intr c \<Longrightarrow> 1 \<le> noff c \<Longrightarrow>
    \<exists>p. pop_off c = Ret p \<and> noff p = noff c - 1 \<and> (0 < noff p \<longrightarrow> \<not> intr p)"
  by (auto simp: pop_off_def Let_def)

lemma lock_word_simps [simp]:
  "locked (acquire_record c lk) = locked lk" "owner (acquire_record c lk) = Some c"
  "locked (release_store lk) = False" "owner (release_store lk) = owner lk"
  by (simp_all add: acquire_record_def release_store_def)

text \<open>The clauses of the invariant as rules.\<close>

lemma lock_invD:
  assumes "lock_inv s"
  shows "locked (locks s l) \<longleftrightarrow> (\<exists>c. has_word s c l)"
    and "has_word s c l \<Longrightarrow> has_word s c' l \<Longrightarrow> c = c'"
    and "owner (locks s l) = Some c \<longleftrightarrow> l \<in> held s c"
    and "finite (held s c)"
    and "doing s c = Swapped l \<or> doing s c = Releasing l \<Longrightarrow> l \<notin> held s c"
    and "doing s c \<noteq> Panicked"
    and "noff (cpus s c) = depth s c" "0 < depth s c \<Longrightarrow> \<not> intr (cpus s c)"
  using assms unfolding lock_inv_def by blast+

lemma lock_invI:
  assumes "\<And>l. locked (locks s l) \<longleftrightarrow> (\<exists>c. has_word s c l)"
    and "\<And>l c c'. has_word s c l \<Longrightarrow> has_word s c' l \<Longrightarrow> c = c'"
    and "\<And>l c. owner (locks s l) = Some c \<longleftrightarrow> l \<in> held s c"
    and "\<And>c. finite (held s c)"
    and "\<And>c l. doing s c = Swapped l \<or> doing s c = Releasing l \<Longrightarrow> l \<notin> held s c"
    and "\<And>c. doing s c \<noteq> Panicked"
    and "\<And>c. noff (cpus s c) = depth s c \<and> (0 < depth s c \<longrightarrow> \<not> intr (cpus s c))"
  shows "lock_inv s"
  using assms unfolding lock_inv_def by blast

text \<open>The panic branches cannot be taken in a state with the invariant.\<close>

lemma no_release_panic: "lock_inv s \<Longrightarrow> l \<in> held s c \<Longrightarrow> release_clear c (locks s l) = Ret ((locks s l)\<lparr>owner := None\<rparr>)"
  using lock_invD(1,3) [of s l] by (auto simp: release_clear_def holding_def has_word_def)

lemma no_pop_off_panic:
  assumes "lock_inv s" "doing s c = Releasing l"
  shows "\<exists>p. pop_off (cpus s c) = Ret p \<and> noff p = int (card (held s c)) \<and> (0 < noff p \<longrightarrow> \<not> intr p)"
proof -
  have d: "depth s c = int (card (held s c)) + 1" using assms(2) by (simp add: depth_def)
  then show ?thesis
    using pop_off_Ret [of "cpus s c"] lock_invD(7,8) [OF assms(1), of c] by auto
qed

lemma enter_inv:
  assumes inv: "lock_inv s" and d: "doing s c = Running"
  shows "lock_inv (s\<lparr>cpus := (cpus s)(c := push_off (cpus s c)), doing := (doing s)(c := Spinning l)\<rparr>)"
    (is "lock_inv ?s")
proof -
  note I = lock_invD [OF inv]
  have hw: "has_word ?s c' l' = has_word s c' l'" for c' l' using d by (auto simp: has_word_def)
  have dp: "depth ?s c' = (if c' = c then depth s c + 1 else depth s c')" for c'
    using d by (simp add: depth_def)
  show ?thesis
    by (rule lock_invI) (use I d in \<open>auto simp: hw dp split: if_splits\<close>)
qed

lemma swap_inv:
  assumes inv: "lock_inv s" and d: "doing s c = Spinning l" and ts: "test_and_set (locks s l) = (old, lk)"
  shows "lock_inv (s\<lparr>locks := (locks s)(l := lk),
                     doing := (doing s)(c := if old then Spinning l else Swapped l)\<rparr>)"
    (is "lock_inv ?s")
proof -
  note I = lock_invD [OF inv]
  have old: "old = locked (locks s l)" and lk: "lk = (locks s l)\<lparr>locked := True\<rparr>"
    using ts by (auto simp: test_and_set_def)
  have hw: "has_word ?s c' l' = (has_word s c' l' \<or> \<not> old \<and> c' = c \<and> l' = l)" for c' l'
    using d by (auto simp: has_word_def)
  have dp: "depth ?s c' = depth s c'" for c' using d by (simp add: depth_def)
  have nh: "l \<notin> held s c" if "\<not> old" using that old I(1) [of l] by (auto simp: has_word_def)
  show ?thesis
  proof (rule lock_invI)
    fix l' show "locked (locks ?s l') = (\<exists>c. has_word ?s c l')"
      unfolding hw using I(1) [of l'] old lk by auto
  next
    fix l' c1 c2 assume "has_word ?s c1 l'" "has_word ?s c2 l'"
    then show "c1 = c2" unfolding hw using I(2) [of c1 l' c2] I(1) [of l] old by auto
  qed (use I lk dp nh in \<open>auto split: if_splits\<close>)
qed

lemma set_owner_inv:
  assumes inv: "lock_inv s" and d: "doing s c = Swapped l"
  shows "lock_inv (s\<lparr>locks := (locks s)(l := acquire_record c (locks s l)), doing := (doing s)(c := Running),
                     held := (held s)(c := insert l (held s c))\<rparr>)"
    (is "lock_inv ?s")
proof -
  note I = lock_invD [OF inv]
  have nh: "l \<notin> held s c" using I(5) d by blast
  have mine: "has_word s c l" using d by (simp add: has_word_def)
  have hw: "has_word ?s c' l' = has_word s c' l'" for c' l' using d by (auto simp: has_word_def)
  have dp: "depth ?s c' = depth s c'" for c' using d nh I(4) [of c] by (simp add: depth_def)
  have ow: "owner (locks ?s l') = Some c' \<longleftrightarrow> l' \<in> held ?s c'" for l' c'
  proof (cases "l' = l")
    case True
    have "l \<in> held s c' \<Longrightarrow> c' = c" using I(2) [OF mine, of c'] by (simp add: has_word_def)
    then show ?thesis using True by auto
  qed (use I(3) in auto)
  show ?thesis
  proof (rule lock_invI)
    fix c' l' assume "doing ?s c' = Swapped l' \<or> doing ?s c' = Releasing l'"
    then show "l' \<notin> held ?s c'" using I(5) by (auto split: if_splits)
  qed (use I ow in \<open>auto simp: hw dp split: if_splits\<close>)
qed

lemma clear_inv:
  assumes inv: "lock_inv s" and d: "doing s c = Running" and l: "l \<in> held s c"
  shows "lock_inv (s\<lparr>locks := (locks s)(l := (locks s l)\<lparr>owner := None\<rparr>), doing := (doing s)(c := Releasing l),
                     held := (held s)(c := held s c - {l})\<rparr>)"
    (is "lock_inv ?s")
proof -
  note I = lock_invD [OF inv]
  have mine: "has_word s c l" using l by (simp add: has_word_def)
  have hw: "has_word ?s c' l' = has_word s c' l'" for c' l' using d l by (auto simp: has_word_def)
  have "card (held s c) = Suc (card (held s c - {l}))" using l I(4) [of c] by (rule card.remove [rotated])
  then have dp: "depth ?s c' = depth s c'" for c' using d by (simp add: depth_def)
  have ow: "owner (locks ?s l') = Some c' \<longleftrightarrow> l' \<in> held ?s c'" for l' c'
  proof (cases "l' = l")
    case True
    have "l \<in> held s c' \<Longrightarrow> c' = c" using I(2) [OF mine, of c'] by (simp add: has_word_def)
    then show ?thesis using True by auto
  qed (use I(3) in auto)
  show ?thesis
  proof (rule lock_invI)
    fix c' l' assume "doing ?s c' = Swapped l' \<or> doing ?s c' = Releasing l'"
    then show "l' \<notin> held ?s c'" using I(5) by (auto split: if_splits)
  qed (use I ow in \<open>auto simp: hw dp split: if_splits\<close>)
qed

lemma store_inv:
  assumes inv: "lock_inv s" and d: "doing s c = Releasing l"
    and p: "noff p = int (card (held s c))" "0 < noff p \<longrightarrow> \<not> intr p"
  shows "lock_inv (s\<lparr>locks := (locks s)(l := release_store (locks s l)), cpus := (cpus s)(c := p),
                     doing := (doing s)(c := Running)\<rparr>)"
    (is "lock_inv ?s")
proof -
  note I = lock_invD [OF inv]
  have mine: "has_word s c l" using d by (simp add: has_word_def)
  have nh: "l \<notin> held s c" using I(5) d by blast
  have hw: "has_word ?s c' l' = (has_word s c' l' \<and> \<not> (c' = c \<and> l' = l))" for c' l'
    using d nh by (auto simp: has_word_def)
  have dp: "depth ?s c' = (if c' = c then int (card (held s c)) else depth s c')" for c' by (simp add: depth_def)
  show ?thesis
  proof (rule lock_invI)
    fix l' show "locked (locks ?s l') = (\<exists>c. has_word ?s c l')"
      unfolding hw using I(1) [of l'] I(2) [OF mine] by auto
  next
    fix l' c1 c2 assume "has_word ?s c1 l'" "has_word ?s c2 l'"
    then show "c1 = c2" unfolding hw using I(2) by blast
  next
    fix c' l' assume "doing ?s c' = Swapped l' \<or> doing ?s c' = Releasing l'"
    then show "l' \<notin> held ?s c'" using I(5) by (auto split: if_splits)
  qed (use I p in \<open>auto simp: dp split: if_splits\<close>)
qed

lemma lock_step_inv: "lock_step s s' \<Longrightarrow> lock_inv s \<Longrightarrow> lock_inv s'"
proof (induction rule: lock_step.induct)
  case (enter s c l p)
  then have "p = push_off (cpus s c)" by (auto simp: acquire_enter_def split: if_splits)
  then show ?case using enter_inv [OF enter(3,1)] by simp
next
  case (swap s c l old lk)
  then show ?case using swap_inv by blast
next
  case (set_owner s c l)
  then show ?case using set_owner_inv by blast
next
  case (clear s c l lk)
  then show ?case using no_release_panic [OF clear(4,2)] clear_inv [OF clear(4,1,2)] by simp
next
  case (store s c l p)
  then show ?case using no_pop_off_panic [OF store(3,1)] store_inv [OF store(3,1), of p] by auto
next
  case (interrupts s c on)
  note I = lock_invD [OF interrupts(3)]
  have "depth s c = 0" using I(7) [of c] interrupts(2) by simp
  moreover have "has_word (s\<lparr>cpus := x\<rparr>) = has_word s" "depth (s\<lparr>cpus := x\<rparr>) = depth s" for x
    by (auto simp: has_word_def depth_def fun_eq_iff)
  ultimately show ?case using I by (intro lock_invI) auto
next
  case (enter_panic s c l f)
  then have "holding c (locks s l)" by (auto simp: acquire_enter_def split: if_splits)
  then show ?case using lock_invD(3) [OF enter_panic(4), of l c] enter_panic(2) by (simp add: holding_def)
next
  case (clear_panic s c l f)
  then show ?case using no_release_panic by simp
next
  case (store_panic s c l f)
  then show ?case using no_pop_off_panic by fastforce
qed

lemma lock_reachable_inv: "lock_step\<^sup>*\<^sup>* machine_init s \<Longrightarrow> lock_inv s"
  by (induction rule: rtranclp_induct) (auto intro: machine_init_inv lock_step_inv)

section \<open>Sleep locks\<close>

text \<open>
  A sleep lock is only used under its own spin lock, so its operations are atomic. \<open>acquiresleep\<close>
  succeeds on a free lock; on a held one the process sleeps, which is the result \<open>Blocked\<close>.
\<close>

record sleeplock =
  sl_locked :: bool
  sl_pid :: int

definition initsleeplock :: sleeplock where
  "initsleeplock = \<lparr>sl_locked = False, sl_pid = 0\<rparr>"

definition acquiresleep :: "int \<Rightarrow> sleeplock \<Rightarrow> sleeplock res" where
  "acquiresleep pid lk =
     (if sl_locked lk then Fail Blocked else Ret (lk\<lparr>sl_locked := True, sl_pid := pid\<rparr>))"

definition releasesleep :: "sleeplock \<Rightarrow> sleeplock" where
  "releasesleep lk = lk\<lparr>sl_locked := False, sl_pid := 0\<rparr>"

definition holdingsleep :: "int \<Rightarrow> sleeplock \<Rightarrow> bool" where
  "holdingsleep pid lk \<longleftrightarrow> sl_locked lk \<and> sl_pid lk = pid"

lemma acquiresleep_Ret [simp]:
  "\<not> sl_locked lk \<Longrightarrow> acquiresleep pid lk = Ret (lk\<lparr>sl_locked := True, sl_pid := pid\<rparr>)"
  by (simp add: acquiresleep_def)

section \<open>Properties\<close>

text \<open>
  C24. Mutual exclusion. In every reachable state of the machine at most one CPU holds a given spin
  lock, \<open>holding\<close> is right about it, a CPU that holds a lock has its interrupts off, and no CPU has
  panicked in \<open>acquire\<close>, \<open>release\<close> or \<open>pop_off\<close>.
\<close>

theorem spinlock_mutual_exclusion:
  assumes "lock_step\<^sup>*\<^sup>* machine_init s"
  shows "(l \<in> held s c \<longrightarrow> l \<in> held s c' \<longrightarrow> c = c') \<and> (holding c (locks s l) \<longleftrightarrow> l \<in> held s c) \<and>
    (held s c \<noteq> {} \<longrightarrow> \<not> intr (cpus s c)) \<and> doing s c \<noteq> Panicked"
proof -
  note inv = lock_reachable_inv [OF assms]
  note I = lock_invD [OF inv]
  have "l \<in> held s c \<longrightarrow> l \<in> held s c' \<longrightarrow> c = c'" using I(2) by (auto simp: has_word_def)
  moreover have "holding c (locks s l) \<longleftrightarrow> l \<in> held s c"
    using I(1,3) by (auto simp: holding_def has_word_def)
  moreover have "held s c \<noteq> {} \<longrightarrow> \<not> intr (cpus s c)"
    using I(4,8) [of c] by (auto simp: depth_def card_gt_0_iff add_pos_nonneg)
  ultimately show ?thesis using I(6) by blast
qed

text \<open>A running CPU can take a free lock in three steps.\<close>

lemma acquire_free:
  assumes d: "doing s c = Running" and free: "\<not> locked (locks s l)"
  shows "\<exists>s'. lock_step\<^sup>*\<^sup>* s s' \<and> l \<in> held s' c"
proof -
  define s1 where "s1 = s\<lparr>cpus := (cpus s)(c := push_off (cpus s c)), doing := (doing s)(c := Spinning l)\<rparr>"
  have s1: "doing s1 c = Spinning l" "locks s1 = locks s" by (simp_all add: s1_def)
  have "lock_step s s1" unfolding s1_def
    by (rule lock_step.enter) (use d free in \<open>simp_all add: acquire_enter_def holding_def\<close>)
  moreover obtain s2 where s2: "lock_step s1 s2" "doing s2 c = Swapped l"
    using lock_step.swap [OF s1(1), of False] s1 free by (simp add: test_and_set_def)
  moreover obtain s3 where "lock_step s2 s3" "l \<in> held s3 c"
    using lock_step.set_owner [OF s2(2)] by fastforce
  ultimately show ?thesis by (meson converse_rtranclp_into_rtranclp r_into_rtranclp)
qed

theorem spinlock_mutual_exclusion_witness:
  "\<exists>s::machine. 5 \<in> held s 0 \<and> holding 0 (locks s 5) \<and> \<not> intr (cpus s 0)"
proof -
  obtain s where "lock_step\<^sup>*\<^sup>* machine_init s" "5 \<in> held s 0" using acquire_free [of machine_init 0 5]
    by (auto simp: machine_init_def initlock_def)
  then show ?thesis using spinlock_mutual_exclusion [of s 5 0 0] by (intro exI [of _ s]) auto
qed

end
