(* ===== verification/Free_List.thy ===== *)
theory Free_List
  imports Xv6_Prelude
begin

text \<open>
  The circular doubly-linked lists of \<^verbatim>\<open>src/kernel/alloc/list.c\<close>. A \<open>struct list\<close> lives
  at an address; the heap maps addresses to nodes, and every assignment of the source is an
  update of the heap, in the source's order.
\<close>

record node =
  nxt :: nat
  prv :: nat

type_synonym heap = "nat \<Rightarrow> node"

definition set_nxt :: "heap \<Rightarrow> nat \<Rightarrow> nat \<Rightarrow> heap" where
  "set_nxt h a v = h(a := (h a)\<lparr>nxt := v\<rparr>)"

definition set_prv :: "heap \<Rightarrow> nat \<Rightarrow> nat \<Rightarrow> heap" where
  "set_prv h a v = h(a := (h a)\<lparr>prv := v\<rparr>)"

definition lst_init :: "heap \<Rightarrow> nat \<Rightarrow> heap" where
  "lst_init h lst =
     (let h1 = set_nxt h lst lst in set_prv h1 lst lst)"

definition lst_empty :: "heap \<Rightarrow> nat \<Rightarrow> bool" where
  "lst_empty h lst \<longleftrightarrow> nxt (h lst) = lst"

definition lst_remove :: "heap \<Rightarrow> nat \<Rightarrow> heap" where
  "lst_remove h nd =
     (let h1 = set_nxt h (prv (h nd)) (nxt (h nd))
      in set_prv h1 (nxt (h1 nd)) (prv (h1 nd)))"

definition lst_pop :: "heap \<Rightarrow> nat \<Rightarrow> (nat \<times> heap) res" where
  "lst_pop h lst =
     (if nxt (h lst) = lst then panic ''lst_pop on en empty list''
      else let p = nxt (h lst) in Ret (p, lst_remove h p))"

definition lst_push :: "heap \<Rightarrow> nat \<Rightarrow> nat \<Rightarrow> heap" where
  "lst_push h lst p =
     (let h1 = set_nxt h p (nxt (h lst));
          h2 = set_prv h1 p lst;
          h3 = set_prv h2 (nxt (h2 lst)) p
      in set_nxt h3 lst p)"

text \<open>\<open>lst_print\<close> walks the ring; it returns the addresses in the order it prints them.\<close>

partial_function (option) lst_walk :: "heap \<Rightarrow> nat \<Rightarrow> nat \<Rightarrow> nat list \<Rightarrow> nat list option" where
  "lst_walk h lst nd out =
     (if nd \<noteq> lst then lst_walk h lst (nxt (h nd)) (out @ [nd]) else Some out)"

definition lst_print :: "heap \<Rightarrow> nat \<Rightarrow> nat list option" where
  "lst_print h lst = lst_walk h lst (nxt (h lst)) []"

subsection \<open>The list a ring represents\<close>

primrec chain :: "heap \<Rightarrow> nat \<Rightarrow> nat list \<Rightarrow> nat \<Rightarrow> bool" where
  "chain h a [] b \<longleftrightarrow> nxt (h a) = b \<and> prv (h b) = a"
| "chain h a (x # xs) b \<longleftrightarrow> nxt (h a) = x \<and> prv (h x) = a \<and> chain h x xs b"

definition dlist :: "heap \<Rightarrow> nat \<Rightarrow> nat list \<Rightarrow> bool" where
  "dlist h l xs \<longleftrightarrow> distinct (l # xs) \<and> chain h l xs l"

lemma chain_append:
  "chain h a (xs @ x # ys) b \<longleftrightarrow> chain h a xs x \<and> chain h x ys b"
  by (induction xs arbitrary: a) auto

text \<open>A chain reads \<open>nxt\<close> of its start and inner nodes and \<open>prv\<close> of its inner and end nodes.\<close>

lemma chain_cong:
  "(\<And>y. y \<in> insert a (set xs) \<Longrightarrow> nxt (h' y) = nxt (h y)) \<Longrightarrow>
   (\<And>y. y \<in> insert b (set xs) \<Longrightarrow> prv (h' y) = prv (h y)) \<Longrightarrow>
   chain h' a xs b = chain h a xs b"
  by (induction xs arbitrary: a) auto

lemma dlist_frame:
  "(\<And>y. y \<in> insert l (set xs) \<Longrightarrow> h' y = h y) \<Longrightarrow> dlist h' l xs = dlist h l xs"
  unfolding dlist_def by (metis chain_cong)

lemma set_nxt_prv_sel [simp]:
  "nxt (set_nxt h a v y) = (if y = a then v else nxt (h y))"
  "prv (set_nxt h a v y) = prv (h y)"
  "nxt (set_prv h a v y) = nxt (h y)"
  "prv (set_prv h a v y) = (if y = a then v else prv (h y))"
  by (simp_all add: set_nxt_def set_prv_def)

lemma dlist_init: "dlist (lst_init h l) l []"
  by (simp add: dlist_def lst_init_def Let_def)

lemma dlist_empty_iff: "dlist h l xs \<Longrightarrow> lst_empty h l \<longleftrightarrow> xs = []"
  by (cases xs) (auto simp: dlist_def lst_empty_def)

lemma dlist_hd: "dlist h l (x # xs) \<Longrightarrow> nxt (h l) = x"
  by (simp add: dlist_def)

lemma chain_ends:
  "chain h a xs b \<Longrightarrow> nxt (h a) = hd (xs @ [b]) \<and> prv (h b) = last (a # xs)"
  by (induction xs arbitrary: a) auto

subsection \<open>Removing, popping, pushing\<close>

lemma dlist_neighbours:
  assumes "dlist h l (xs @ n # ys)"
  shows "prv (h n) = last (l # xs)" "nxt (h n) = hd (ys @ [l])"
  using assms chain_ends by (fastforce simp: dlist_def chain_append)+

lemma lst_remove_fields:
  assumes "dlist h l (xs @ n # ys)"
  shows "nxt (lst_remove h n y) = (if y = last (l # xs) then hd (ys @ [l]) else nxt (h y))"
    and "prv (lst_remove h n y) = (if y = hd (ys @ [l]) then last (l # xs) else prv (h y))"
proof -
  have "last (l # xs) \<noteq> n"
    using assms by (auto simp: dlist_def)
  then show "nxt (lst_remove h n y) = (if y = last (l # xs) then hd (ys @ [l]) else nxt (h y))"
    and "prv (lst_remove h n y) = (if y = hd (ys @ [l]) then last (l # xs) else prv (h y))"
    using dlist_neighbours [OF assms] by (auto simp: lst_remove_def Let_def)
qed

lemma chain_splice:
  "chain h a xs n \<Longrightarrow> chain h n ys b \<Longrightarrow> distinct (a # xs @ n # ys) \<Longrightarrow> b \<notin> set (xs @ n # ys) \<Longrightarrow>
   (\<And>y. nxt (h' y) = (if y = last (a # xs) then hd (ys @ [b]) else nxt (h y))) \<Longrightarrow>
   (\<And>y. prv (h' y) = (if y = hd (ys @ [b]) then last (a # xs) else prv (h y))) \<Longrightarrow>
   chain h' a (xs @ ys) b"
proof (induction xs arbitrary: a)
  case Nil
  show ?case
  proof (cases ys)
    case Nil
    then show ?thesis using Nil.prems by simp
  next
    case (Cons z zs)
    have "chain h' z zs b = chain h z zs b"
      using Nil.prems Cons by (intro chain_cong) auto
    then show ?thesis using Nil.prems Cons by simp
  qed
next
  case (Cons x xs)
  have "chain h' x (xs @ ys) b"
    using Cons.prems by (intro Cons.IH) auto
  moreover have "nxt (h' a) = x"
    using Cons.prems by auto
  moreover have "prv (h' x) = a"
    using Cons.prems by (cases ys) auto
  ultimately show ?case by simp
qed

lemma dlist_remove:
  assumes "dlist h l (xs @ n # ys)"
  shows "dlist (lst_remove h n) l (xs @ ys)"
  unfolding dlist_def
proof
  show "distinct (l # xs @ ys)" using assms by (auto simp: dlist_def)
  show "chain (lst_remove h n) l (xs @ ys) l"
  proof (rule chain_splice [where n = n])
    show "chain h l xs n" "chain h n ys l" "distinct (l # xs @ n # ys)" "l \<notin> set (xs @ n # ys)"
      using assms by (auto simp: dlist_def chain_append)
  qed (rule lst_remove_fields [OF assms])+
qed

lemma lst_remove_other:
  assumes "dlist h l (xs @ n # ys)" "y \<notin> insert l (set (xs @ ys))"
  shows "lst_remove h n y = h y"
proof -
  have "y \<noteq> last (l # xs)" "y \<noteq> hd (ys @ [l])"
    using assms(2) by (auto simp: hd_append dest: last_in_set split: if_splits)
  then show ?thesis
    using lst_remove_fields [OF assms(1), of y]
    by (metis (full_types) old.unit.exhaust node.surjective)
qed

lemma lst_pop_dlist:
  assumes "dlist h l (x # xs)"
  shows "lst_pop h l = Ret (x, lst_remove h x)" "dlist (lst_remove h x) l xs"
  using assms dlist_hd [OF assms] dlist_remove [of h l "[]" x xs]
  by (auto simp: lst_pop_def Let_def dlist_def)

lemma lst_pop_empty: "dlist h l [] \<Longrightarrow> lst_pop h l = panic ''lst_pop on en empty list''"
  by (simp add: lst_pop_def dlist_def)

lemma lst_push_fields:
  assumes "dlist h l xs" "p \<notin> insert l (set xs)"
  shows "nxt (lst_push h l p y) = (if y = l then p else if y = p then hd (xs @ [l]) else nxt (h y))"
    and "prv (lst_push h l p y) =
           (if y = hd (xs @ [l]) then p else if y = p then l else prv (h y))"
proof -
  have "nxt (h l) = hd (xs @ [l])"
    using assms(1) chain_ends by (auto simp: dlist_def)
  moreover have "p \<noteq> l" "p \<noteq> hd (xs @ [l])"
    using assms(2) by (auto simp: hd_append split: if_splits)
  ultimately show "nxt (lst_push h l p y) =
      (if y = l then p else if y = p then hd (xs @ [l]) else nxt (h y))"
    and "prv (lst_push h l p y) =
      (if y = hd (xs @ [l]) then p else if y = p then l else prv (h y))"
    by (auto simp: lst_push_def Let_def)
qed

lemma dlist_push:
  assumes "dlist h l xs" "p \<notin> insert l (set xs)"
  shows "dlist (lst_push h l p) l (p # xs)"
proof (cases xs)
  case Nil
  then show ?thesis
    using assms lst_push_fields [OF assms] by (auto simp: dlist_def)
next
  case (Cons x ys)
  have "chain (lst_push h l p) x ys l = chain h x ys l"
  proof (rule chain_cong)
    fix y assume "y \<in> insert x (set ys)"
    then show "nxt (lst_push h l p y) = nxt (h y)"
      using assms Cons lst_push_fields(1) [OF assms, of y] by (auto simp: dlist_def)
  next
    fix y assume "y \<in> insert l (set ys)"
    then show "prv (lst_push h l p y) = prv (h y)"
      using assms Cons lst_push_fields(2) [OF assms, of y] by (auto simp: dlist_def)
  qed
  then show ?thesis
    using assms Cons lst_push_fields [OF assms] by (auto simp: dlist_def)
qed

lemma lst_push_other:
  assumes "dlist h l xs" "y \<notin> insert p (insert l (set xs))" "p \<notin> insert l (set xs)"
  shows "lst_push h l p y = h y"
proof -
  have "y \<noteq> hd (xs @ [l])"
    using assms(2) by (auto simp: hd_append split: if_splits)
  then show ?thesis
    using lst_push_fields [OF assms(1,3), of y] assms(2)
    by (metis (full_types) insertCI old.unit.exhaust node.surjective)
qed

lemma lst_init_other: "y \<noteq> l \<Longrightarrow> lst_init h l y = h y"
  by (simp add: lst_init_def Let_def set_nxt_def set_prv_def)

subsection \<open>Walking the ring\<close>

lemma lst_walk_chain:
  "chain h a xs l \<Longrightarrow> l \<notin> set xs \<Longrightarrow> lst_walk h l (nxt (h a)) out = Some (out @ xs)"
proof (induction xs arbitrary: a out)
  case Nil
  then show ?case by (simp add: lst_walk.simps)
next
  case (Cons x xs)
  then show ?case by (simp add: lst_walk.simps [of h l x])
qed

lemma lst_print_dlist: "dlist h l xs \<Longrightarrow> lst_print h l = Some xs"
  using lst_walk_chain [of h l xs l "[]"] by (simp add: lst_print_def dlist_def)

subsection \<open>Families of rings in one heap\<close>

text \<open>
  The allocator keeps one ring for each size in the same heap. \<open>rings\<close> says that ring \<open>k\<close>, with its
  head at \<open>fl k\<close>, holds exactly the nodes \<open>A k\<close>; \<open>sep\<close> says that heads and nodes are all apart.
\<close>

definition rings :: "heap \<Rightarrow> nat \<Rightarrow> (nat \<Rightarrow> nat) \<Rightarrow> (nat \<Rightarrow> nat set) \<Rightarrow> bool" where
  "rings h N fl A \<longleftrightarrow> (\<forall>k \<le> N. \<exists>L. dlist h (fl k) L \<and> set L = A k)"

definition sep :: "nat \<Rightarrow> (nat \<Rightarrow> nat) \<Rightarrow> (nat \<Rightarrow> nat set) \<Rightarrow> bool" where
  "sep N fl A \<longleftrightarrow> inj_on fl {..N} \<and> (\<forall>k \<le> N. \<forall>k' \<le> N. fl k \<notin> A k') \<and>
     (\<forall>k \<le> N. \<forall>k' \<le> N. k \<noteq> k' \<longrightarrow> A k \<inter> A k' = {})"

lemma sep_disjoint:
  assumes "sep N fl A" "k \<le> N" "k' \<le> N" "k \<noteq> k'"
  shows "insert (fl k) (A k) \<inter> insert (fl k') (A k') = {}"
proof -
  have "fl k \<noteq> fl k'" using assms by (auto simp: sep_def inj_on_def)
  then show ?thesis using assms by (auto simp: sep_def)
qed

lemma rings_empty: "rings h N fl A \<Longrightarrow> k \<le> N \<Longrightarrow> lst_empty h (fl k) \<longleftrightarrow> A k = {}"
  unfolding rings_def using dlist_empty_iff by (metis set_empty)

lemma rings_pop:
  assumes "rings h N fl A" "k \<le> N" "A k \<noteq> {}"
  shows "\<exists>p \<in> A k. lst_pop h (fl k) = Ret (p, lst_remove h p)"
proof -
  obtain L where L: "dlist h (fl k) L" "set L = A k" using assms(1,2) by (auto simp: rings_def)
  then obtain x xs where "L = x # xs" using assms(3) by (cases L) auto
  then show ?thesis using lst_pop_dlist L by (metis list.set_intros(1))
qed

lemma rings_remove:
  assumes r: "rings h N fl A" and s: "sep N fl A" and k: "k \<le> N" and p: "p \<in> A k"
  shows "rings (lst_remove h p) N fl (A(k := A k - {p}))"
  unfolding rings_def
proof (intro allI impI)
  obtain L where L: "dlist h (fl k) L" "set L = A k" using r k by (auto simp: rings_def)
  then obtain xs ys where xs: "L = xs @ p # ys" using p by (metis split_list)
  have d: "distinct (xs @ p # ys)" using L xs by (auto simp: dlist_def)
  fix k' assume k': "k' \<le> N"
  show "\<exists>L. dlist (lst_remove h p) (fl k') L \<and> set L = (A(k := A k - {p})) k'"
  proof (cases "k' = k")
    case True
    then show ?thesis
      using dlist_remove [of h "fl k" xs p ys] L xs d by (intro exI [of _ "xs @ ys"]) auto
  next
    case False
    obtain L' where L': "dlist h (fl k') L'" "set L' = A k'" using r k' by (auto simp: rings_def)
    have "dlist (lst_remove h p) (fl k') L' = dlist h (fl k') L'"
    proof (rule dlist_frame)
      fix y assume "y \<in> insert (fl k') (set L')"
      then have "y \<notin> insert (fl k) (set (xs @ ys))"
        using sep_disjoint [OF s k k'] False L(2) L'(2) xs by auto
      then show "lst_remove h p y = h y" using lst_remove_other L xs by blast
    qed
    then show ?thesis using L' False by auto
  qed
qed

lemma rings_push:
  assumes r: "rings h N fl A" and s: "sep N fl A" and k: "k \<le> N"
    and p: "\<And>k'. k' \<le> N \<Longrightarrow> p \<noteq> fl k' \<and> p \<notin> A k'"
  shows "rings (lst_push h (fl k) p) N fl (A(k := insert p (A k)))"
  unfolding rings_def
proof (intro allI impI)
  obtain L where L: "dlist h (fl k) L" "set L = A k" using r k by (auto simp: rings_def)
  have fresh: "p \<notin> insert (fl k) (set L)" using p [OF k] L by auto
  fix k' assume k': "k' \<le> N"
  show "\<exists>L. dlist (lst_push h (fl k) p) (fl k') L \<and> set L = (A(k := insert p (A k))) k'"
  proof (cases "k' = k")
    case True
    then show ?thesis using dlist_push [OF L(1) fresh] L by (intro exI [of _ "p # L"]) auto
  next
    case False
    obtain L' where L': "dlist h (fl k') L'" "set L' = A k'" using r k' by (auto simp: rings_def)
    have "dlist (lst_push h (fl k) p) (fl k') L' = dlist h (fl k') L'"
    proof (rule dlist_frame)
      fix y assume "y \<in> insert (fl k') (set L')"
      then have "y \<notin> insert p (insert (fl k) (set L))"
        using sep_disjoint [OF s k k'] False L(2) L'(2) p [OF k'] by auto
      then show "lst_push h (fl k) p y = h y" using lst_push_other [OF L(1) _ fresh] by blast
    qed
    then show ?thesis using L' False by auto
  qed
qed

end
