(* ===== verification/Bio.thy ===== *)
theory Bio
  imports Kmonad Bytes Locks Free_List
begin

text \<open>
  The buffer cache (\<^verbatim>\<open>src/kernel/file/bio.c\<close>). Buffers are the slots \<open>0..<NBUF\<close> of an array; the list
  of buffers in order of use runs through \<open>prev\<close> and \<open>next\<close> links with its head at index \<open>NBUF\<close>, with
  the heap operations of the theory of circular lists. The disk is a function from block numbers to
  blocks, and \<open>writes\<close> records the disk writes in their order, for reasoning about crashes.

  \<open>cache\<close> is the abstract view: the contents of every block as the file system sees it, the contents
  on the disk, the pins of every block and the locked blocks with their slots. \<open>bio_rep\<close> relates a
  state to it, and every operation refines an update of the abstract view.
\<close>

section \<open>The model\<close>

definition MAXOPBLOCKS :: nat where "MAXOPBLOCKS = 10"
definition NBUF :: nat where "NBUF = MAXOPBLOCKS * 3"
definition BSIZE :: nat where "BSIZE = 1024"
definition ROOTDEV :: nat where "ROOTDEV = 1"

record buf =
  b_valid :: bool
  b_dev :: nat
  b_blockno :: nat
  b_lock :: sleeplock
  b_refcnt :: nat
  b_data :: block

record bio =
  running_pid :: int
  bufs :: "nat \<Rightarrow> buf"
  links :: heap
  disk :: "nat \<Rightarrow> block"
  writes :: "(nat \<times> block) list"

text \<open>Reference counts are unsigned: going below zero wraps around. Counting up to \<open>2 ^ 32\<close> references is not modelled.\<close>

definition dec32 :: "nat \<Rightarrow> nat" where
  "dec32 n = (if n = 0 then 2 ^ 32 - 1 else n - 1)"

definition upd_buf :: "nat \<Rightarrow> (buf \<Rightarrow> buf) \<Rightarrow> 'a bio_scheme \<Rightarrow> 'a bio_scheme" where
  "upd_buf b f s = s\<lparr>bufs := (bufs s)(b := f (bufs s b))\<rparr>"

text \<open>A transfer between a buffer and its block on the disk, as the disk driver performs it.\<close>

definition disk_rw :: "nat \<Rightarrow> bool \<Rightarrow> ('a bio_scheme, unit) kmon" where
  "disk_rw b write = modK (\<lambda>s.
     if write then s\<lparr>disk := (disk s)(b_blockno (bufs s b) := b_data (bufs s b)),
                     writes := writes s @ [(b_blockno (bufs s b), b_data (bufs s b))]\<rparr>
     else upd_buf b (b_data_update (\<lambda>_. disk s (b_blockno (bufs s b)))) s)"

definition binit_buf :: "nat \<Rightarrow> 'a bio_scheme \<Rightarrow> 'a bio_scheme" where
  "binit_buf b s = upd_buf b (b_lock_update (\<lambda>_. initsleeplock)) (s\<lparr>links := lst_push (links s) NBUF b\<rparr>)"

definition binit :: "'a bio_scheme \<Rightarrow> 'a bio_scheme" where
  "binit s = fold binit_buf [0..<NBUF] (s\<lparr>links := lst_init (links s) NBUF\<rparr>)"

text \<open>The two searches of \<open>bget\<close>, forward along \<open>next\<close> and backward along \<open>prev\<close>.\<close>

partial_function (option) walk_next :: "(nat \<Rightarrow> bool) \<Rightarrow> heap \<Rightarrow> nat \<Rightarrow> nat option option" where
  "walk_next P h b =
     (if b = NBUF then Some None else if P b then Some (Some b) else walk_next P h (nxt (h b)))"

partial_function (option) walk_prev :: "(nat \<Rightarrow> bool) \<Rightarrow> heap \<Rightarrow> nat \<Rightarrow> nat option option" where
  "walk_prev P h b =
     (if b = NBUF then Some None else if P b then Some (Some b) else walk_prev P h (prv (h b)))"

definition lock_buf :: "nat \<Rightarrow> ('a bio_scheme, nat) kmon" where
  "lock_buf b =
     bindK (getK (\<lambda>s. acquiresleep (running_pid s) (b_lock (bufs s b)))) (\<lambda>r.
     bindK (liftR r) (\<lambda>lk. thenK (modK (upd_buf b (b_lock_update (\<lambda>_. lk)))) (retK b)))"

definition bget :: "nat \<Rightarrow> nat \<Rightarrow> ('a bio_scheme, nat) kmon" where
  "bget dev blockno = (\<lambda>s.
     case walk_next (\<lambda>b. b_dev (bufs s b) = dev \<and> b_blockno (bufs s b) = blockno) (links s) (nxt (links s NBUF)) of
       None \<Rightarrow> Fail Diverge
     | Some (Some b) \<Rightarrow> lock_buf b (upd_buf b (b_refcnt_update (\<lambda>n. n + 1)) s)
     | Some None \<Rightarrow>
        (case walk_prev (\<lambda>b. b_refcnt (bufs s b) = 0) (links s) (prv (links s NBUF)) of
           None \<Rightarrow> Fail Diverge
         | Some (Some b) \<Rightarrow>
             lock_buf b (upd_buf b (\<lambda>u. u\<lparr>b_dev := dev, b_blockno := blockno, b_valid := False, b_refcnt := 1\<rparr>) s)
         | Some None \<Rightarrow> panic ''bget: no buffers''))"

definition bread :: "nat \<Rightarrow> nat \<Rightarrow> ('a bio_scheme, nat) kmon" where
  "bread dev blockno =
     bindK (bget dev blockno) (\<lambda>b.
     bindK (getK (\<lambda>s. b_valid (bufs s b))) (\<lambda>valid.
     thenK (whenK (\<not> valid) (thenK (disk_rw b False) (modK (upd_buf b (b_valid_update (\<lambda>_. True))))))
           (retK b)))"

definition holds_buf :: "nat \<Rightarrow> 'a bio_scheme \<Rightarrow> bool" where
  "holds_buf b s = holdingsleep (running_pid s) (b_lock (bufs s b))"

definition bwrite :: "nat \<Rightarrow> ('a bio_scheme, unit) kmon" where
  "bwrite b = bindK (getK (holds_buf b)) (\<lambda>h. if \<not> h then panicK ''bwrite'' else disk_rw b True)"

text \<open>Taking a buffer out of the list, in the order of \<open>brelse\<close>.\<close>

definition buf_unlink :: "heap \<Rightarrow> nat \<Rightarrow> heap" where
  "buf_unlink h b = (let h1 = set_prv h (nxt (h b)) (prv (h b)) in set_nxt h1 (prv (h1 b)) (nxt (h1 b)))"

definition brelse :: "nat \<Rightarrow> ('a bio_scheme, unit) kmon" where
  "brelse b =
     bindK (getK (holds_buf b)) (\<lambda>h.
     if \<not> h then panicK ''brelse''
     else
       thenK (modK (upd_buf b (b_lock_update releasesleep)))
      (thenK (modK (upd_buf b (b_refcnt_update dec32)))
      (bindK (getK (\<lambda>s. b_refcnt (bufs s b))) (\<lambda>n.
       whenK (n = 0) (modK (\<lambda>s. s\<lparr>links := lst_push (buf_unlink (links s) b) NBUF b\<rparr>))))))"

definition bpin :: "nat \<Rightarrow> ('a bio_scheme, unit) kmon" where
  "bpin b = modK (upd_buf b (b_refcnt_update (\<lambda>n. n + 1)))"

definition bunpin :: "nat \<Rightarrow> ('a bio_scheme, unit) kmon" where
  "bunpin b = modK (upd_buf b (b_refcnt_update dec32))"

text \<open>Access to the data of a buffer by the layers above.\<close>

definition buf_data :: "nat \<Rightarrow> ('a bio_scheme, block) kmon" where
  "buf_data b = getK (\<lambda>s. b_data (bufs s b))"

definition buf_set :: "nat \<Rightarrow> block \<Rightarrow> ('a bio_scheme, unit) kmon" where
  "buf_set b x = modK (upd_buf b (b_data_update (\<lambda>_. x)))"

section \<open>The list of buffers\<close>

lemma walk_next_chain:
  "chain h a xs NBUF \<Longrightarrow> NBUF \<notin> set xs \<Longrightarrow> walk_next P h (nxt (h a)) = Some (find P xs)"
proof (induction xs arbitrary: a)
  case Nil
  then show ?case by (simp add: walk_next.simps)
next
  case (Cons x xs)
  then have "nxt (h a) = x" "walk_next P h (nxt (h x)) = Some (find P xs)" "x \<noteq> NBUF" by auto
  then show ?case by (subst walk_next.simps) simp
qed

lemma walk_prev_chain:
  "chain h NBUF xs b \<Longrightarrow> NBUF \<notin> set xs \<Longrightarrow> walk_prev P h (prv (h b)) = Some (find P (rev xs))"
proof (induction xs arbitrary: b rule: rev_induct)
  case Nil
  then show ?case by (simp add: walk_prev.simps)
next
  case (snoc x xs)
  then have "prv (h b) = x" "walk_prev P h (prv (h x)) = Some (find P (rev xs))" "x \<noteq> NBUF"
    by (auto simp: chain_append)
  then show ?case by (subst walk_prev.simps) simp
qed

lemma buf_unlink_eq: "buf_unlink h b = lst_remove h b"
proof -
  have "set_nxt (set_prv h n p) p n = set_prv (set_nxt h p n) n p" for n p
    by (simp add: set_nxt_def set_prv_def fun_upd_def fun_eq_iff)
  then show ?thesis by (simp add: buf_unlink_def lst_remove_def Let_def)
qed

definition buf_list :: "heap \<Rightarrow> bool" where
  "buf_list h \<longleftrightarrow> (\<exists>xs. dlist h NBUF xs \<and> set xs = {..<NBUF})"

lemma find_SomeD: "find P xs = Some x \<Longrightarrow> x \<in> set xs \<and> P x"
  by (induction xs) (auto split: if_splits)

text \<open>What the searches find, as a function of the predicate.\<close>

lemma buf_list_walks:
  assumes "buf_list h"
  shows "\<exists>f. walk_next P h (nxt (h NBUF)) = Some f \<and> (f = None \<longleftrightarrow> (\<forall>i < NBUF. \<not> P i)) \<and>
           (\<forall>i. f = Some i \<longrightarrow> i < NBUF \<and> P i)"
    and "\<exists>f. walk_prev P h (prv (h NBUF)) = Some f \<and> (f = None \<longleftrightarrow> (\<forall>i < NBUF. \<not> P i)) \<and>
           (\<forall>i. f = Some i \<longrightarrow> i < NBUF \<and> P i)"
proof -
  obtain xs where xs: "dlist h NBUF xs" "set xs = {..<NBUF}" using assms by (auto simp: buf_list_def)
  then have c: "chain h NBUF xs NBUF" "NBUF \<notin> set xs" by (auto simp: dlist_def)
  show "\<exists>f. walk_next P h (nxt (h NBUF)) = Some f \<and> (f = None \<longleftrightarrow> (\<forall>i < NBUF. \<not> P i)) \<and>
           (\<forall>i. f = Some i \<longrightarrow> i < NBUF \<and> P i)"
    unfolding walk_next_chain [OF c] using xs(2) find_SomeD [of P xs] find_None_iff2 [of P xs] by auto
  show "\<exists>f. walk_prev P h (prv (h NBUF)) = Some f \<and> (f = None \<longleftrightarrow> (\<forall>i < NBUF. \<not> P i)) \<and>
           (\<forall>i. f = Some i \<longrightarrow> i < NBUF \<and> P i)"
    unfolding walk_prev_chain [OF c] using xs(2) find_SomeD [of P "rev xs"] find_None_iff2 [of P "rev xs"] by auto
qed

lemma buf_list_move:
  assumes "buf_list h" "b < NBUF"
  shows "buf_list (lst_push (buf_unlink h b) NBUF b)"
proof -
  obtain xs where xs: "dlist h NBUF xs" "set xs = {..<NBUF}" using assms by (auto simp: buf_list_def)
  then obtain ys zs where yz: "xs = ys @ b # zs" using assms(2) by (metis lessThan_iff split_list)
  have "distinct xs" "NBUF \<notin> set xs" using xs by (auto simp: dlist_def)
  then have "dlist (lst_push (lst_remove h b) NBUF b) NBUF (b # ys @ zs)"
    using dlist_push [OF dlist_remove, of h NBUF ys b zs b] xs yz by auto
  then show ?thesis
    unfolding buf_list_def buf_unlink_eq using xs yz by (intro exI [of _ "b # ys @ zs"]) auto
qed

section \<open>The abstract cache\<close>

record cache =
  content :: "nat \<Rightarrow> block"
  stored :: "nat \<Rightarrow> block"
  pins :: "nat \<Rightarrow> nat"
  slots :: "nat \<rightharpoonup> nat"
  written :: "(nat \<times> block) list"

definition cached :: "'a bio_scheme \<Rightarrow> nat \<Rightarrow> nat \<Rightarrow> bool" where
  "cached s b i \<longleftrightarrow> i < NBUF \<and> b_dev (bufs s i) = ROOTDEV \<and> b_blockno (bufs s i) = b"

text \<open>What the abstract view says of one buffer.\<close>

definition buf_ok :: "int \<Rightarrow> cache \<Rightarrow> nat \<Rightarrow> buf \<Rightarrow> bool" where
  "buf_ok pid a i u \<longleftrightarrow> length (b_data u) = BSIZE \<and>
     (if b_dev u = ROOTDEV then
        b_refcnt u = pins a (b_blockno u) + (if sl_locked (b_lock u) then 1 else 0) \<and>
        (sl_locked (b_lock u) \<longleftrightarrow> slots a (b_blockno u) = Some i) \<and>
        (sl_locked (b_lock u) \<longrightarrow> sl_pid (b_lock u) = pid) \<and>
        (0 < b_refcnt u \<longrightarrow> b_valid u) \<and>
        (b_valid u \<longrightarrow> b_data u = content a (b_blockno u)) \<and>
        (b_refcnt u = 0 \<longrightarrow> content a (b_blockno u) = stored a (b_blockno u))
      else b_refcnt u = 0 \<and> \<not> b_valid u \<and> \<not> sl_locked (b_lock u))"

definition bio_rep :: "'a bio_scheme \<Rightarrow> cache \<Rightarrow> bool" where
  "bio_rep s a \<longleftrightarrow> buf_list (links s) \<and>
     (\<forall>b i j. cached s b i \<longrightarrow> cached s b j \<longrightarrow> i = j) \<and>
     (\<forall>i < NBUF. buf_ok (running_pid s) a i (bufs s i)) \<and>
     (\<forall>b i. slots a b = Some i \<longrightarrow> cached s b i) \<and>
     (\<forall>b. 0 < pins a b \<longrightarrow> (\<exists>i. cached s b i)) \<and>
     (\<forall>b. (\<nexists>i. cached s b i) \<longrightarrow> content a b = stored a b) \<and>
     (\<forall>b. length (stored a b) = BSIZE) \<and> stored a = disk s \<and> written a = writes s"

text \<open>The blocks that occupy a buffer.\<close>

definition busy :: "cache \<Rightarrow> nat set" where
  "busy a = {b. 0 < pins a b} \<union> dom (slots a)"

lemma bio_repD:
  assumes "bio_rep s a"
  shows "buf_list (links s)" "cached s b i \<Longrightarrow> cached s b j \<Longrightarrow> i = j"
    "i < NBUF \<Longrightarrow> buf_ok (running_pid s) a i (bufs s i)" "slots a b = Some i \<Longrightarrow> cached s b i"
    "0 < pins a b \<Longrightarrow> \<exists>i. cached s b i" "(\<nexists>i. cached s b i) \<Longrightarrow> content a b = stored a b"
    "length (stored a b) = BSIZE" "stored a = disk s" "written a = writes s"
  using assms unfolding bio_rep_def by blast+

lemma bio_repI:
  assumes "buf_list (links s)" "\<And>b i j. cached s b i \<Longrightarrow> cached s b j \<Longrightarrow> i = j"
    "\<And>i. i < NBUF \<Longrightarrow> buf_ok (running_pid s) a i (bufs s i)" "\<And>b i. slots a b = Some i \<Longrightarrow> cached s b i"
    "\<And>b. 0 < pins a b \<Longrightarrow> \<exists>i. cached s b i" "\<And>b. (\<nexists>i. cached s b i) \<Longrightarrow> content a b = stored a b"
    "\<And>b. length (stored a b) = BSIZE" "stored a = disk s" "written a = writes s"
  shows "bio_rep s a"
  using assms unfolding bio_rep_def by blast

lemma bio_rep_cong:
  "running_pid t = running_pid s \<Longrightarrow> bufs t = bufs s \<Longrightarrow> links t = links s \<Longrightarrow> disk t = disk s \<Longrightarrow>
   writes t = writes s \<Longrightarrow> bio_rep t a = bio_rep s a"
  by (simp add: bio_rep_def cached_def)

lemma bio_rep_slot:
  assumes "bio_rep s a" "slots a b = Some i"
  shows "i < NBUF" "b_dev (bufs s i) = ROOTDEV" "b_blockno (bufs s i) = b" "b_data (bufs s i) = content a b"
    "b_valid (bufs s i)" "sl_locked (b_lock (bufs s i))" "holds_buf i s" "b_refcnt (bufs s i) = Suc (pins a b)"
proof -
  note R = bio_repD [OF assms(1)]
  have c: "cached s b i" using R(4) assms(2) by blast
  then show i: "i < NBUF" "b_dev (bufs s i) = ROOTDEV" "b_blockno (bufs s i) = b" by (auto simp: cached_def)
  have "buf_ok (running_pid s) a i (bufs s i)" using R(3) i(1) by blast
  then show "b_data (bufs s i) = content a b" "b_valid (bufs s i)" "sl_locked (b_lock (bufs s i))"
    "holds_buf i s" "b_refcnt (bufs s i) = Suc (pins a b)"
    using i assms(2) by (auto simp: buf_ok_def holds_buf_def holdingsleep_def)
qed

lemma content_length: assumes "bio_rep s a" shows "length (content a b) = BSIZE"
proof (cases "\<exists>i. cached s b i")
  case True
  then obtain i where "cached s b i" by blast
  then show ?thesis
    using bio_repD(3) [OF assms, of i] bio_repD(7) [OF assms, of b]
    by (cases "b_refcnt (bufs s i) = 0") (auto simp: cached_def buf_ok_def split: if_splits)
next
  case False
  then show ?thesis using bio_repD(6,7) [OF assms, of b] by simp
qed

lemma busy_finite: assumes "bio_rep s a" shows "finite (busy a)"
proof -
  have "b \<in> (\<lambda>i. b_blockno (bufs s i)) ` {..<NBUF}" if b: "b \<in> busy a" for b
  proof -
    obtain i where "cached s b i" using b bio_repD(4,5) [OF assms, of b] by (auto simp: busy_def)
    then show ?thesis by (auto simp: cached_def)
  qed
  then have "busy a \<subseteq> (\<lambda>i. b_blockno (bufs s i)) ` {..<NBUF}" by blast
  then show ?thesis by (rule finite_subset) simp
qed

text \<open>With a block number to spare, some buffer is unused.\<close>

lemma free_buf:
  assumes rep: "bio_rep s a" and few: "card (busy a) < NBUF"
  shows "\<exists>i < NBUF. b_refcnt (bufs s i) = 0"
proof (rule ccontr)
  assume "\<not> ?thesis"
  then have nz: "\<And>i. i < NBUF \<Longrightarrow> 0 < b_refcnt (bufs s i)" by auto
  note R = bio_repD [OF rep]
  have c: "cached s (b_blockno (bufs s i)) i \<and> b_blockno (bufs s i) \<in> busy a" if "i < NBUF" for i
    using R(3) [OF that] nz [OF that] that
    by (auto simp: cached_def buf_ok_def busy_def split: if_splits)
  have "inj_on (\<lambda>i. b_blockno (bufs s i)) {..<NBUF}"
    by (rule inj_onI) (metis R(2) c lessThan_iff)
  then have "card {..<NBUF} \<le> card (busy a)"
    by (rule card_inj_on_le) (use c busy_finite [OF rep] in auto)
  then show False using few by simp
qed

section \<open>Refinement of the operations\<close>

text \<open>The state changes only in the cache; all other components of the kernel stay.\<close>

definition bio_frame :: "'a bio_scheme \<Rightarrow> 'a bio_scheme \<Rightarrow> bool" where
  "bio_frame s s' \<longleftrightarrow> running_pid s' = running_pid s \<and> bio.more s' = bio.more s"

lemma bio_frame_refl [simp]: "bio_frame s s" by (simp add: bio_frame_def)

lemma bio_frame_trans [trans]: "bio_frame s t \<Longrightarrow> bio_frame t u \<Longrightarrow> bio_frame s u"
  by (simp add: bio_frame_def)

text \<open>Loading block \<open>b\<close> into slot \<open>j\<close> that has it already or is unused, and locking it.\<close>

definition loaded :: "int \<Rightarrow> cache \<Rightarrow> nat \<Rightarrow> buf \<Rightarrow> bool" where
  "loaded pid a b u \<longleftrightarrow> b_valid u \<and> b_dev u = ROOTDEV \<and> b_blockno u = b \<and> sl_locked (b_lock u) \<and>
     sl_pid (b_lock u) = pid \<and> b_refcnt u = Suc (pins a b) \<and> b_data u = content a b"

lemma bio_rep_load:
  assumes rep: "bio_rep s a" and j: "j < NBUF" and unlocked: "slots a b = None"
    and slot: "cached s b j \<or> (\<nexists>i. cached s b i) \<and> b_refcnt (bufs s j) = 0"
    and u: "loaded (running_pid s) a b u"
  shows "bio_rep (s\<lparr>bufs := (bufs s)(j := u)\<rparr>) (a\<lparr>slots := (slots a)(b \<mapsto> j)\<rparr>)" (is "bio_rep ?s ?a")
proof -
  note R = bio_repD [OF rep]
  have cb: "cached ?s b' i \<longleftrightarrow> (if i = j then b' = b else cached s b' i)" for b' i
    using j u by (auto simp: cached_def loaded_def)
  have only: "cached s b i \<Longrightarrow> i = j" for i using slot R(2) by blast
  have ju: "buf_ok (running_pid s) a j (bufs s j)" using R(3) j by blast
  have old: "slots a b' \<noteq> Some j" if "b' \<noteq> b" for b'
    using slot bio_rep_slot(3,8) [OF rep, of b' j] that by (auto simp: cached_def)
  have gone: "pins a b' = 0 \<and> content a b' = stored a b'" if "cached s b' j" "b' \<noteq> b" for b'
    using slot that ju by (auto simp: cached_def buf_ok_def split: if_splits)
  have len: "length (content a b) = BSIZE" by (rule content_length [OF rep])
  show ?thesis
  proof (rule bio_repI)
    fix i assume "i < NBUF"
    moreover have "b_dev (bufs s i) = ROOTDEV \<Longrightarrow> b_blockno (bufs s i) = b \<Longrightarrow> i = j"
      using only [of i] \<open>i < NBUF\<close> by (simp add: cached_def)
    ultimately show "buf_ok (running_pid ?s) ?a i (bufs ?s i)"
      using R(3) [of i] u len by (auto simp: buf_ok_def loaded_def)
  next
    fix b1 i1 i2 assume "cached ?s b1 i1" "cached ?s b1 i2"
    then show "i1 = i2" unfolding cb using R(2) only by (auto split: if_splits)
  next
    fix b1 i1 assume "slots ?a b1 = Some i1"
    then show "cached ?s b1 i1" unfolding cb using R(4) old by (auto split: if_splits)
  next
    fix b1 assume "0 < pins ?a b1"
    then show "\<exists>i. cached ?s b1 i" unfolding cb using R(5) [of b1] gone by (metis cache.select_convs(3) cache.update_convs(4) cache.surjective less_irrefl)
  next
    fix b1 assume "\<nexists>i. cached ?s b1 i"
    then show "content ?a b1 = stored ?a b1" unfolding cb using R(6) [of b1] gone by (auto split: if_splits)
  qed (use R in auto)
qed

lemma upd_buf_sel [simp]:
  "bufs (upd_buf b f s) = (bufs s)(b := f (bufs s b))" "links (upd_buf b f s) = links s"
  "disk (upd_buf b f s) = disk s" "writes (upd_buf b f s) = writes s"
  "running_pid (upd_buf b f s) = running_pid s" "bio.more (upd_buf b f s) = bio.more s"
  by (simp_all add: upd_buf_def)

lemma upd_buf_upd_buf [simp]: "upd_buf b g (upd_buf b f s) = upd_buf b (\<lambda>u. g (f u)) s"
  by (simp add: upd_buf_def)

text \<open>\<open>bread\<close> in terms of the buffer \<open>bget\<close> chose.\<close>

definition fill :: "int \<Rightarrow> (nat \<Rightarrow> block) \<Rightarrow> buf \<Rightarrow> buf" where
  "fill pid d u = u\<lparr>b_lock := (b_lock u)\<lparr>sl_locked := True, sl_pid := pid\<rparr>, b_valid := True,
     b_data := if b_valid u then b_data u else d (b_blockno u)\<rparr>"

lemma bread_fill:
  assumes "bget dev b s = lock_buf j (upd_buf j f s)" "\<not> sl_locked (b_lock (f (bufs s j)))"
  shows "bread dev b s = Ret (j, upd_buf j (\<lambda>u. fill (running_pid s) (disk s) (f u)) s)"
  using assms
  by (auto simp: bread_def bindK_def thenK_def lock_buf_def disk_rw_def upd_buf_def fill_def fun_upd_def fun_eq_iff whenK_def
      intro!: buf.equality)

lemma bread_ok:
  assumes rep: "bio_rep s a" and unlocked: "slots a b = None" and few: "0 < pins a b \<or> card (busy a) < NBUF"
  shows "ok (bread ROOTDEV b) s (\<lambda>i s'. bio_rep s' (a\<lparr>slots := (slots a)(b \<mapsto> i)\<rparr>) \<and> bio_frame s s')"
proof -
  note R = bio_repD [OF rep]
  let ?P = "\<lambda>i. b_dev (bufs s i) = ROOTDEV \<and> b_blockno (bufs s i) = b" and ?Q = "\<lambda>i. b_refcnt (bufs s i) = 0"
  obtain f where wf: "walk_next ?P (links s) (nxt (links s NBUF)) = Some f"
    and f: "f = None \<longleftrightarrow> (\<forall>i < NBUF. \<not> ?P i)" "\<forall>i. f = Some i \<longrightarrow> i < NBUF \<and> ?P i"
    using buf_list_walks(1) [OF R(1), of ?P] by blast
  obtain p where wp: "walk_prev ?Q (links s) (prv (links s NBUF)) = Some p"
    and p: "p = None \<longleftrightarrow> (\<forall>i < NBUF. \<not> ?Q i)" "\<forall>i. p = Some i \<longrightarrow> i < NBUF \<and> ?Q i"
    using buf_list_walks(2) [OF R(1), of ?Q] by blast
  show ?thesis
  proof (cases f)
    case (Some j)
    have j: "j < NBUF" "cached s b j" using f(2) Some by (auto simp: cached_def)
    have ju: "buf_ok (running_pid s) a j (bufs s j)" using R(3) j(1) by blast
    have "bread ROOTDEV b s = Ret (j, upd_buf j (\<lambda>u. fill (running_pid s) (disk s) (b_refcnt_update (\<lambda>n. n + 1) u)) s)"
      by (rule bread_fill) (use wf Some ju j unlocked in \<open>auto simp: bget_def buf_ok_def cached_def\<close>)
    moreover have "loaded (running_pid s) a b (fill (running_pid s) (disk s) (b_refcnt_update (\<lambda>n. n + 1) (bufs s j)))"
      using ju j(2) unlocked R(8) by (auto simp: loaded_def fill_def buf_ok_def cached_def)
    ultimately show ?thesis
      using bio_rep_load [OF rep j(1) unlocked] j(2) by (auto intro!: okI simp: bio_frame_def upd_buf_def)
  next
    case None
    have nc: "\<nexists>i. cached s b i" using f(1) None by (auto simp: cached_def)
    then have "card (busy a) < NBUF" using few R(5) by blast
    then obtain j where pj: "p = Some j" using p(1) free_buf [OF rep] by auto
    have j: "j < NBUF" "b_refcnt (bufs s j) = 0" using p(2) pj by auto
    have ju: "buf_ok (running_pid s) a j (bufs s j)" using R(3) j(1) by blast
    let ?u = "\<lambda>u. u\<lparr>b_dev := ROOTDEV, b_blockno := b, b_valid := False, b_refcnt := 1\<rparr>"
    have "bread ROOTDEV b s = Ret (j, upd_buf j (\<lambda>u. fill (running_pid s) (disk s) (?u u)) s)"
      by (rule bread_fill) (use wf wp None pj ju j in \<open>auto simp: bget_def buf_ok_def split: if_splits\<close>)
    moreover have "loaded (running_pid s) a b (fill (running_pid s) (disk s) (?u (bufs s j)))"
      using R(5) [of b] R(6) [OF nc] R(8) nc by (auto simp: loaded_def fill_def)
    ultimately show ?thesis
      using bio_rep_load [OF rep j(1) unlocked] j(2) nc by (auto intro!: okI simp: bio_frame_def upd_buf_def)
  qed
qed

text \<open>The other operations change the buffer of one locked block \<open>b\<close>.\<close>

lemma bio_rep_upd:
  assumes rep: "bio_rep s a" and i: "slots a b = Some i"
    and l: "buf_list (links s')" and pid: "running_pid s' = running_pid s" and b: "bufs s' = (bufs s)(i := u)"
    and u: "b_dev u = ROOTDEV" "b_blockno u = b" "buf_ok (running_pid s) a' i u"
    and off: "\<And>b'. b' \<noteq> b \<Longrightarrow> content a' b' = content a b' \<and> stored a' b' = stored a b' \<and>
                 pins a' b' = pins a b' \<and> slots a' b' = slots a b'"
    and at: "slots a' b \<in> {None, Some i}" "length (stored a' b) = BSIZE"
    and d: "stored a' = disk s'" "written a' = writes s'"
  shows "bio_rep s' a'"
proof -
  note R = bio_repD [OF rep]
  have ci: "cached s b i" using R(4) i by blast
  have cb: "cached s' b' j = cached s b' j" for b' j using b u ci by (auto simp: cached_def)
  show ?thesis
  proof (rule bio_repI)
    fix j assume j: "j < NBUF"
    show "buf_ok (running_pid s') a' j (bufs s' j)"
    proof (cases "j = i")
      case False
      then have "b_dev (bufs s j) = ROOTDEV \<Longrightarrow> b_blockno (bufs s j) \<noteq> b" using R(2) [OF ci, of j] j by (auto simp: cached_def)
      then show ?thesis using False R(3) [OF j] off [of "b_blockno (bufs s j)"] by (auto simp: b pid buf_ok_def)
    qed (use u b pid in simp)
  next
    fix b' i' assume "slots a' b' = Some i'"
    then show "cached s' b' i'" unfolding cb using ci at(1) off [of b'] R(4) [of b' i'] by (cases "b' = b") auto
  next
    fix b' show "length (stored a' b') = BSIZE" using at(2) off [of b'] R(7) [of b'] by (cases "b' = b") auto
  next
    fix b' assume "0 < pins a' b'"
    then show "\<exists>i. cached s' b' i" unfolding cb using ci off [of b'] R(5) [of b'] by (cases "b' = b") auto
  next
    fix b' assume "\<nexists>i. cached s' b' i"
    then show "content a' b' = stored a' b'" unfolding cb using ci off [of b'] R(6) [of b'] by (cases "b' = b") auto
  qed (use l d R(2) cb in blast)+
qed

lemma buf_data_ok:
  assumes "bio_rep s a" "slots a b = Some i"
  shows "buf_data i s = Ret (content a b, s)"
  using bio_rep_slot(4) [OF assms] by (simp add: buf_data_def)

lemma bio_rep_at:
  assumes rep: "bio_rep s a" and i: "slots a b = Some i"
  shows "buf_ok (running_pid s) a i (bufs s i)"
  using bio_repD(3) [OF rep bio_rep_slot(1) [OF rep i]] .

lemma buf_set_ok:
  assumes rep: "bio_rep s a" and i: "slots a b = Some i" and x: "length x = BSIZE"
  shows "ok (buf_set i x) s (\<lambda>_ s'. bio_rep s' (a\<lparr>content := (content a)(b := x)\<rparr>) \<and> bio_frame s s')"
  using bio_rep_slot [OF rep i] bio_rep_at [OF rep i] bio_repD(1,7,8,9) [OF rep] i x
  by (auto simp: buf_set_def bio_frame_def buf_ok_def intro!: bio_rep_upd [OF rep i])

lemma bwrite_ok:
  assumes rep: "bio_rep s a" and i: "slots a b = Some i"
  shows "ok (bwrite i) s (\<lambda>_ s'. bio_rep s' (a\<lparr>stored := (stored a)(b := content a b),
           written := written a @ [(b, content a b)]\<rparr>) \<and> bio_frame s s')"
  using bio_rep_slot [OF rep i] bio_rep_at [OF rep i] bio_repD(1,7,8,9) [OF rep] i content_length [OF rep]
  by (auto simp: bwrite_def disk_rw_def bio_frame_def buf_ok_def intro!: bio_rep_upd [OF rep i, where u = "bufs s i"])

lemma bpin_ok:
  assumes rep: "bio_rep s a" and i: "slots a b = Some i"
  shows "ok (bpin i) s (\<lambda>_ s'. bio_rep s' (a\<lparr>pins := (pins a)(b := Suc (pins a b))\<rparr>) \<and> bio_frame s s')"
  using bio_rep_slot [OF rep i] bio_rep_at [OF rep i] bio_repD(1,7,8,9) [OF rep] i
  by (auto simp: bpin_def bio_frame_def buf_ok_def intro!: bio_rep_upd [OF rep i])

lemma bunpin_ok:
  assumes rep: "bio_rep s a" and i: "slots a b = Some i" and p: "0 < pins a b"
  shows "ok (bunpin i) s (\<lambda>_ s'. bio_rep s' (a\<lparr>pins := (pins a)(b := pins a b - 1)\<rparr>) \<and> bio_frame s s')"
  using bio_rep_slot [OF rep i] bio_rep_at [OF rep i] bio_repD(1,7,8,9) [OF rep] i p
  by (auto simp: bunpin_def bio_frame_def buf_ok_def dec32_def intro!: bio_rep_upd [OF rep i])

lemma brelse_ok:
  assumes rep: "bio_rep s a" and i: "slots a b = Some i" and clean: "0 < pins a b \<or> content a b = stored a b"
  shows "ok (brelse i) s (\<lambda>_ s'. bio_rep s' (a\<lparr>slots := (slots a)(b := None)\<rparr>) \<and> bio_frame s s')"
  using bio_rep_slot [OF rep i] bio_rep_at [OF rep i] bio_repD(1,7,8,9) [OF rep] i clean
    buf_list_move [OF bio_repD(1) [OF rep], of i]
  by (auto simp: brelse_def thenK_def bio_frame_def buf_ok_def dec32_def releasesleep_def whenK_def intro!: bio_rep_upd [OF rep i])

section \<open>Boot\<close>

text \<open>The cache at boot: zeroed memory, then \<open>binit\<close>.\<close>

definition zero_buf :: buf where
  "zero_buf = \<lparr>b_valid = False, b_dev = 0, b_blockno = 0, b_lock = initsleeplock, b_refcnt = 0,
                b_data = replicate BSIZE 0\<rparr>"

definition idle_cache :: "(nat \<Rightarrow> block) \<Rightarrow> (nat \<times> block) list \<Rightarrow> cache" where
  "idle_cache d ws = \<lparr>content = d, stored = d, pins = (\<lambda>_. 0), slots = Map.empty, written = ws\<rparr>"

lemma binit_list:
  assumes "dlist (links s) NBUF xs" "set xs = {..<n}" "n \<le> m" "m \<le> NBUF"
  shows "\<exists>ys. dlist (links (fold binit_buf [n..<m] s)) NBUF ys \<and> set ys = {..<m}"
  using assms
proof (induction "m - n" arbitrary: n s xs)
  case (Suc k)
  have "dlist (links (binit_buf n s)) NBUF (n # xs)"
    using Suc dlist_push [OF Suc.prems(1), of n] by (auto simp: binit_buf_def)
  moreover have "set (n # xs) = {..<Suc n}" using Suc by auto
  moreover have "[n..<m] = n # [Suc n..<m]" using Suc by (simp add: upt_conv_Cons)
  ultimately show ?case using Suc.hyps(1) [of "Suc n" "binit_buf n s" "n # xs"] Suc.hyps(2) Suc.prems(4) by simp
qed auto

lemma binit_buf_sel [simp]:
  "disk (binit_buf b s) = disk s" "writes (binit_buf b s) = writes s" "running_pid (binit_buf b s) = running_pid s"
  "bio.more (binit_buf b s) = bio.more s"
  "bufs (binit_buf b s) i = (if i = b then (bufs s b)\<lparr>b_lock := initsleeplock\<rparr> else bufs s i)"
  by (simp_all add: binit_buf_def)

lemma fold_binit_buf [simp]:
  "disk (fold binit_buf bs s) = disk s" "writes (fold binit_buf bs s) = writes s"
  "running_pid (fold binit_buf bs s) = running_pid s" "bio.more (fold binit_buf bs s) = bio.more s"
  by (induction bs arbitrary: s) auto

lemma fold_binit_zero: "\<forall>i. bufs s i = zero_buf \<Longrightarrow> bufs (fold binit_buf bs s) i = zero_buf"
proof (induction bs arbitrary: s)
  case (Cons b bs)
  have "\<forall>i. bufs (binit_buf b s) i = zero_buf" using Cons.prems by (simp add: zero_buf_def)
  then show ?case using Cons.IH by simp
qed simp

lemma binit_sel: "disk (binit s) = disk s" "writes (binit s) = writes s"
  by (simp_all add: binit_def)

lemma binit_frame: "bio_frame s (binit s)"
  by (simp add: bio_frame_def binit_def)

lemma binit_ok:
  assumes z: "\<forall>i. bufs s i = zero_buf" and d: "\<forall>b. length (disk s b) = BSIZE"
  shows "bio_rep (binit s) (idle_cache (disk s) (writes s))"
proof -
  have zb: "bufs (binit s) i = zero_buf" for i
    unfolding binit_def by (rule fold_binit_zero) (simp add: z)
  have l: "buf_list (links (binit s))"
    using binit_list [of "s\<lparr>links := lst_init (links s) NBUF\<rparr>" "[]" 0 NBUF] dlist_init
    by (auto simp: binit_def buf_list_def)
  show ?thesis
  proof (rule bio_repI)
    fix i show "buf_ok (running_pid (binit s)) (idle_cache (disk s) (writes s)) i (bufs (binit s) i)"
      unfolding zb by (simp add: zero_buf_def buf_ok_def ROOTDEV_def initsleeplock_def)
  qed (use l d in \<open>auto simp: cached_def zb idle_cache_def zero_buf_def ROOTDEV_def binit_sel\<close>)
qed

section \<open>A block store\<close>

text \<open>
  What the layers above rely on: reading a block gives what was last written to it, and neither reading
  nor writing fails.
\<close>

datatype request = ReadBlk nat | WriteBlk nat block

locale block_store =
  fixes rep :: "'s \<Rightarrow> (nat \<Rightarrow> block) \<Rightarrow> bool"
    and rd :: "nat \<Rightarrow> ('s, block) kmon"
    and wr :: "nat \<Rightarrow> block \<Rightarrow> ('s, unit) kmon"
  assumes rd_ok: "rep s m \<Longrightarrow> ok (rd b) s (\<lambda>x s'. x = m b \<and> rep s' m)"
    and wr_ok: "rep s m \<Longrightarrow> length x = BSIZE \<Longrightarrow> ok (wr b x) s (\<lambda>_ s'. rep s' (m(b := x)))"
begin

primrec serve :: "request list \<Rightarrow> ('s, block list) kmon" where
  "serve [] = retK []"
| "serve (r # rs) = (case r of
     ReadBlk b \<Rightarrow> bindK (rd b) (\<lambda>x. bindK (serve rs) (\<lambda>xs. retK (x # xs)))
   | WriteBlk b x \<Rightarrow> thenK (wr b x) (serve rs))"

end

primrec blocks_read :: "(nat \<Rightarrow> block) \<Rightarrow> request list \<Rightarrow> block list" where
  "blocks_read m [] = []"
| "blocks_read m (r # rs) = (case r of
     ReadBlk b \<Rightarrow> m b # blocks_read m rs
   | WriteBlk b x \<Rightarrow> blocks_read (m(b := x)) rs)"

context block_store
begin

lemma serve_ok:
  "rep s m \<Longrightarrow> (\<forall>b x. WriteBlk b x \<in> set rs \<longrightarrow> length x = BSIZE) \<Longrightarrow>
   ok (serve rs) s (\<lambda>xs s'. xs = blocks_read m rs \<and> (\<exists>m'. rep s' m'))"
proof (induction rs arbitrary: s m)
  case (Cons r rs)
  show ?case
  proof (cases r)
    case (ReadBlk b)
    show ?thesis unfolding ReadBlk using Cons
      by (auto intro!: ok_bindE [OF rd_ok [OF Cons.prems(1)]] ok_bindE [OF Cons.IH])
  next
    case (WriteBlk b x)
    then have "length x = BSIZE" using Cons.prems(2) by auto
    then show ?thesis unfolding WriteBlk using Cons
      by (auto intro!: ok_thenE [OF wr_ok [OF Cons.prems(1)]])
  qed
qed auto

end

text \<open>Reading and writing a block through the cache, the way its clients use it.\<close>

definition read_block :: "nat \<Rightarrow> ('a bio_scheme, block) kmon" where
  "read_block b = bindK (bread ROOTDEV b) (\<lambda>i. bindK (buf_data i) (\<lambda>x. thenK (brelse i) (retK x)))"

definition write_block :: "nat \<Rightarrow> block \<Rightarrow> ('a bio_scheme, unit) kmon" where
  "write_block b x = bindK (bread ROOTDEV b) (\<lambda>i. thenK (buf_set i x) (thenK (bwrite i) (brelse i)))"

definition bio_idle :: "'a bio_scheme \<Rightarrow> (nat \<Rightarrow> block) \<Rightarrow> bool" where
  "bio_idle s m \<longleftrightarrow> bio_rep s (idle_cache m (writes s))"

lemma read_block_gen:
  assumes rep: "bio_rep s a" and b: "slots a b = None" and few: "0 < pins a b \<or> card (busy a) < NBUF"
    and clean: "0 < pins a b \<or> content a b = stored a b"
  shows "ok (read_block b) s (\<lambda>x s'. x = content a b \<and> bio_rep s' a \<and> bio_frame s s')"
proof -
  have e: "a\<lparr>slots := (slots a)(b := None)\<rparr> = a" using b by (metis cache.surjective cache.update_convs(4) fun_upd_triv)
  show ?thesis
    unfolding read_block_def
  proof (rule ok_bindE [OF bread_ok [OF rep b few]], elim conjE)
    fix i s1 assume 1: "bio_rep s1 (a\<lparr>slots := (slots a)(b \<mapsto> i)\<rparr>)" "bio_frame s s1"
    show "ok (bindK (buf_data i) (\<lambda>x. thenK (brelse i) (retK x))) s1 (\<lambda>x s'. x = content a b \<and> bio_rep s' a \<and> bio_frame s s')"
      using brelse_ok [OF 1(1), of b i] clean 1(2) e bio_rep_slot(4) [OF 1(1), of b i]
      by (auto simp: buf_data_def bio_frame_def elim!: ok_thenE)
  qed
qed

lemma write_block_gen:
  assumes rep: "bio_rep s a" and b: "slots a b = None" and few: "0 < pins a b \<or> card (busy a) < NBUF" and x: "length x = BSIZE"
  shows "ok (write_block b x) s (\<lambda>_ s'. bio_rep s' (a\<lparr>content := (content a)(b := x),
           stored := (stored a)(b := x), written := written a @ [(b, x)]\<rparr>) \<and> bio_frame s s')"
proof -
  let ?a1 = "\<lambda>i. a\<lparr>slots := (slots a)(b \<mapsto> i)\<rparr>"
  let ?a2 = "\<lambda>i. ?a1 i\<lparr>content := (content a)(b := x)\<rparr>"
  let ?a3 = "\<lambda>i. ?a2 i\<lparr>stored := (stored a)(b := x), written := written a @ [(b, x)]\<rparr>"
  obtain i s1 where 1: "bread ROOTDEV b s = Ret (i, s1)" "bio_rep s1 (?a1 i)" "bio_frame s s1"
    using bread_ok [OF rep b few] by (auto elim!: okE)
  obtain s2 where 2: "buf_set i x s1 = Ret ((), s2)" "bio_rep s2 (?a2 i)" "bio_frame s1 s2"
    using buf_set_ok [OF 1(2) _ x, of b i] by (auto elim!: okE)
  obtain s3 where 3: "bwrite i s2 = Ret ((), s3)" "bio_rep s3 (?a3 i)" "bio_frame s2 s3"
    using bwrite_ok [OF 2(2), of b i] by (auto elim!: okE)
  obtain s4 where 4: "brelse i s3 = Ret ((), s4)" "bio_rep s4 (?a3 i\<lparr>slots := (slots a)(b := None)\<rparr>)" "bio_frame s3 s4"
    using brelse_ok [OF 3(2), of b i] by (auto elim!: okE)
  have "?a3 i\<lparr>slots := (slots a)(b := None)\<rparr> =
      a\<lparr>content := (content a)(b := x), stored := (stored a)(b := x), written := written a @ [(b, x)]\<rparr>"
    using b by (auto intro!: cache.equality)
  then show ?thesis
    using 1 2 3 4 by (intro okI [of _ _ "()" s4]) (simp_all add: write_block_def bindK_def thenK_def bio_frame_def)
qed

lemma idle_cache_simps [simp]:
  "content (idle_cache m ws) = m" "stored (idle_cache m ws) = m" "pins (idle_cache m ws) b = 0"
  "slots (idle_cache m ws) = Map.empty" "written (idle_cache m ws) = ws" "busy (idle_cache m ws) = {}"
  by (simp_all add: idle_cache_def busy_def)

lemma bio_idleI: assumes "bio_rep s (idle_cache m ws)" shows "bio_idle s m"
  using assms bio_repD(9) [OF assms] by (simp add: bio_idle_def)

interpretation write_through: block_store bio_idle read_block write_block
proof
  fix s :: "'a bio_scheme" and m b
  assume "bio_idle s m"
  then have r: "bio_rep s (idle_cache m (writes s))" by (simp add: bio_idle_def)
  show "ok (read_block b) s (\<lambda>x s'. x = m b \<and> bio_idle s' m)"
    by (rule ok_mono [OF read_block_gen [OF r]]) (auto simp: NBUF_def MAXOPBLOCKS_def intro: bio_idleI)
  fix x :: block assume "length x = BSIZE"
  then show "ok (write_block b x) s (\<lambda>_ s'. bio_idle s' (m(b := x)))"
    by (rule ok_mono [OF write_block_gen [OF r, rotated 2]])
      (auto simp: NBUF_def MAXOPBLOCKS_def idle_cache_def busy_def intro!: bio_idleI [unfolded idle_cache_def])
qed

section \<open>Properties\<close>

text \<open>
  C11. The cache is transparent: after \<open>binit\<close>, any sequence of block reads and block writes through
  \<open>bread\<close>, \<open>bwrite\<close> and \<open>brelse\<close>, over any number of blocks, runs without a panic and every read
  returns what an uncached disk would return.
\<close>

theorem cache_transparent:
  assumes "\<forall>i. bufs s i = zero_buf" "\<forall>b. length (disk s b) = BSIZE"
    and "\<forall>b x. WriteBlk b x \<in> set rs \<longrightarrow> length x = BSIZE"
  shows "ok (write_through.serve rs) (binit s) (\<lambda>xs s'. xs = blocks_read (disk s) rs)"
proof -
  have "bio_idle (binit s) (disk s)"
    using binit_ok [OF assms(1,2)] by (simp add: bio_idle_def binit_sel)
  then show ?thesis using write_through.serve_ok assms(3) ok_mono by fastforce
qed

theorem cache_transparent_witness:
  "ok (write_through.serve [ReadBlk 7, WriteBlk 7 (replicate BSIZE 1), ReadBlk 7])
     (binit \<lparr>running_pid = 1, bufs = \<lambda>_. zero_buf, links = \<lambda>_. \<lparr>nxt = 0, prv = 0\<rparr>,
             disk = \<lambda>_. replicate BSIZE 0, writes = []\<rparr>)
     (\<lambda>xs s'. xs = [replicate BSIZE 0, replicate BSIZE 1])"
  by (rule ok_mono [OF cache_transparent]) auto

end
