(* ===== verification/Bits.thy ===== *)
theory Bits
  imports Xv6_Prelude
begin

text \<open>
  The bit vectors of \<^verbatim>\<open>src/kernel/alloc/bits.c\<close>: a byte array in which one bit records
  one block of the buddy allocator. The array is a list of bytes; an index past its end is
  the fault \<open>OutOfBounds\<close>, so that the allocator has to be proved to stay inside its arrays.
  \<open>bits_print\<close> is modelled by the list of ranges it prints.
\<close>

type_synonym bits = "u8 list"

definition bit_mask :: "nat \<Rightarrow> u8" where
  "bit_mask index = push_bit (index mod 8) 1"

definition bits_is_set :: "bits \<Rightarrow> nat \<Rightarrow> bool res" where
  "bits_is_set b index =
     (if index div 8 < length b
      then let cell = b ! (index div 8); mask = bit_mask index
           in Ret (cell AND mask = mask)
      else Fail OutOfBounds)"

definition bits_set :: "bits \<Rightarrow> nat \<Rightarrow> bits res" where
  "bits_set b index =
     (if index div 8 < length b
      then let cell = b ! (index div 8); mask = bit_mask index
           in Ret (b[index div 8 := cell OR mask])
      else Fail OutOfBounds)"

definition bits_clear :: "bits \<Rightarrow> nat \<Rightarrow> bits res" where
  "bits_clear b index =
     (if index div 8 < length b
      then let cell = b ! (index div 8); mask = bit_mask index
           in Ret (b[index div 8 := cell AND NOT mask])
      else Fail OutOfBounds)"

definition bits_switch :: "bits \<Rightarrow> nat \<Rightarrow> bits res" where
  "bits_switch b index =
     bindR (bits_is_set b index) (\<lambda>s. if s then bits_clear b index else bits_set b index)"

text \<open>
  \<open>bits_print\<close> walks a vector of \<open>len\<close> bits and prints half-open ranges; the model returns them
  in the order of printing. \<open>last_bit\<close> starts as 1 and \<open>last_bit_index\<close> as 0, as in the source.
\<close>

function bits_print_loop ::
  "bits \<Rightarrow> nat \<Rightarrow> nat \<Rightarrow> bool \<Rightarrow> nat \<Rightarrow> (nat \<times> nat) list \<Rightarrow> (nat \<times> nat) list res" where
  "bits_print_loop b len bit_index last_bit last_bit_index out =
     (if bit_index < len
      then bindR (bits_is_set b bit_index) (\<lambda>s.
             if last_bit = s
             then bits_print_loop b len (Suc bit_index) last_bit last_bit_index out
             else bits_print_loop b len (Suc bit_index) s bit_index
                    (if last_bit then out @ [(last_bit_index, bit_index)] else out))
      else if last_bit_index = 0 \<or> last_bit
      then Ret (out @ [(last_bit_index, len)])
      else Ret out)"
  by pat_completeness auto
termination
  by (relation "measure (\<lambda>(b, len, i, _). len - i)") auto

declare bits_print_loop.simps [simp del]

definition bits_print :: "bits \<Rightarrow> nat \<Rightarrow> (nat \<times> nat) list res" where
  "bits_print b len = bits_print_loop b len 0 True 0 []"

text \<open>
  The abstract view: \<open>bit_at b i\<close> is the value of bit \<open>i\<close>. Every operation is then a point
  update of this function.
\<close>

definition bit_at :: "bits \<Rightarrow> nat \<Rightarrow> bool" where
  "bit_at b i \<longleftrightarrow> bit (b ! (i div 8)) (i mod 8)"

abbreviation in_bits :: "bits \<Rightarrow> nat \<Rightarrow> bool" where
  "in_bits b i \<equiv> i < 8 * length b"

lemma in_bits_div: "i div 8 < length b \<longleftrightarrow> in_bits b i"
  by (simp add: div_less_iff_less_mult mult.commute)

lemma bit_bit_mask: "bit (bit_mask i) n \<longleftrightarrow> n = i mod 8"
proof -
  have "i mod 8 < 8" by simp
  then show ?thesis
    by (auto simp: bit_mask_def bit_simps)
qed

lemma and_mask_eq: "(c AND bit_mask i = bit_mask i) \<longleftrightarrow> bit c (i mod 8)"
proof
  assume "c AND bit_mask i = bit_mask i"
  then have "bit (c AND bit_mask i) (i mod 8)" by (simp add: bit_bit_mask)
  then show "bit c (i mod 8)" by (simp add: bit_simps)
next
  assume "bit c (i mod 8)"
  then show "c AND bit_mask i = bit_mask i"
    by (auto intro!: bit_eqI simp: bit_simps bit_bit_mask)
qed

lemma bits_is_set_Ret: "in_bits b i \<Longrightarrow> bits_is_set b i = Ret (bit_at b i)"
  by (simp add: bits_is_set_def Let_def in_bits_div and_mask_eq bit_at_def)

lemma same_bit: "(i::nat) div 8 = j div 8 \<Longrightarrow> i mod 8 = j mod 8 \<Longrightarrow> i = j"
  by (metis div_mod_decomp)

lemma bits_set_Ret:
  assumes "in_bits b i"
  shows "\<exists>b'. bits_set b i = Ret b' \<and> length b' = length b \<and>
           (\<forall>j. in_bits b j \<longrightarrow> bit_at b' j = (j = i \<or> bit_at b j))"
  using assms
  by (auto simp: bits_set_def Let_def in_bits_div bit_at_def nth_list_update bit_simps
      bit_bit_mask dest: same_bit)

lemma bits_clear_Ret:
  assumes "in_bits b i"
  shows "\<exists>b'. bits_clear b i = Ret b' \<and> length b' = length b \<and>
           (\<forall>j. in_bits b j \<longrightarrow> bit_at b' j = (j \<noteq> i \<and> bit_at b j))"
proof -
  have "\<And>j. j mod 8 < (8::nat)" by simp
  then show ?thesis
    using assms
    by (auto simp: bits_clear_def Let_def in_bits_div bit_at_def nth_list_update bit_simps
        bit_bit_mask dest: same_bit)
qed

lemma bits_switch_Ret:
  assumes "in_bits b i"
  shows "\<exists>b'. bits_switch b i = Ret b' \<and> length b' = length b \<and>
           (\<forall>j. in_bits b j \<longrightarrow> bit_at b' j = ((j = i) \<noteq> bit_at b j))"
proof (cases "bit_at b i")
  case True
  then show ?thesis
    using bits_clear_Ret [OF assms] bits_is_set_Ret [OF assms]
    by (fastforce simp: bits_switch_def)
next
  case False
  then show ?thesis
    using bits_set_Ret [OF assms] bits_is_set_Ret [OF assms]
    by (fastforce simp: bits_switch_def)
qed

subsection \<open>What \<open>bits_print\<close> prints\<close>

definition ranges :: "(nat \<times> nat) list \<Rightarrow> nat set" where
  "ranges rs = (\<Union>(l, h) \<in> set rs. {l..<h})"

lemma ranges_simps [simp]:
  "ranges [] = {}"
  "ranges (rs @ [(l, h)]) = ranges rs \<union> {l..<h}"
  by (auto simp: ranges_def)

text \<open>
  The loop invariant: the ranges printed so far cover the set bits below \<open>last_bit_index\<close>, and
  all bits from there to the current index equal \<open>last_bit\<close>.
\<close>

definition print_inv :: "bits \<Rightarrow> nat \<Rightarrow> bool \<Rightarrow> nat \<Rightarrow> (nat \<times> nat) list \<Rightarrow> bool" where
  "print_inv b i lb li out \<longleftrightarrow>
     li \<le> i \<and> (\<forall>j. li \<le> j \<and> j < i \<longrightarrow> bit_at b j = lb) \<and> ranges out = {j. j < li \<and> bit_at b j}"

lemma print_inv_same: "print_inv b i lb li out \<Longrightarrow> bit_at b i = lb \<Longrightarrow> print_inv b (Suc i) lb li out"
  by (auto simp: print_inv_def less_Suc_eq)

lemma print_inv_range: "print_inv b i True li out \<Longrightarrow> ranges out \<union> {li..<i} = {j. j < i \<and> bit_at b j}"
  by (auto simp: print_inv_def)

lemma print_inv_gap: "print_inv b i False li out \<Longrightarrow> ranges out = {j. j < i \<and> bit_at b j}"
  by (auto simp: print_inv_def)

lemma print_inv_diff:
  assumes "print_inv b i lb li out"
  shows "print_inv b (Suc i) (bit_at b i) i (if lb then out @ [(li, i)] else out)"
proof -
  have "ranges (if lb then out @ [(li, i)] else out) = {j. j < i \<and> bit_at b j}"
    using assms print_inv_range [of b i li out] print_inv_gap [of b i li out]
    by (cases lb) simp_all
  moreover have "\<forall>j. i \<le> j \<and> j < Suc i \<longrightarrow> bit_at b j = bit_at b i"
    using le_less_Suc_eq by blast
  ultimately show ?thesis unfolding print_inv_def using le_SucI by blast
qed

lemma bits_print_loop_ranges:
  assumes "len \<le> 8 * length b" "i \<le> len" "print_inv b i lb li out" "\<exists>j < len. bit_at b j"
  shows "\<exists>rs. bits_print_loop b len i lb li out = Ret rs \<and> ranges rs = {j. j < len \<and> bit_at b j}"
  using assms
proof (induction "len - i" arbitrary: i lb li out)
  case 0
  then have i: "i = len" by simp
  show ?case
  proof (cases lb)
    case True
    then show ?thesis
      using 0 i print_inv_range [of b i li out] by (subst bits_print_loop.simps) simp
  next
    case False
    have "li \<noteq> 0"
      using 0 i False by (auto simp: print_inv_def)
    then show ?thesis
      using 0 i False print_inv_gap [of b i li out] by (subst bits_print_loop.simps) simp
  qed
next
  case (Suc n)
  then have s: "bits_is_set b i = Ret (bit_at b i)" and i: "i < len"
    by (auto intro: bits_is_set_Ret)
  have n: "n = len - Suc i" using Suc by simp
  show ?case
  proof (cases "lb = bit_at b i")
    case True
    then show ?thesis
      using Suc.hyps(1) [OF n Suc.prems(1) _ print_inv_same [OF Suc.prems(3)] Suc.prems(4)] s i
      by (subst bits_print_loop.simps) simp
  next
    case False
    then show ?thesis
      using Suc.hyps(1) [OF n Suc.prems(1) _ print_inv_diff [OF Suc.prems(3)] Suc.prems(4)] s i
      by (subst bits_print_loop.simps) simp
  qed
qed

lemma bits_print_ranges:
  assumes "len \<le> 8 * length b" "\<exists>j < len. bit_at b j"
  shows "\<exists>rs. bits_print b len = Ret rs \<and> ranges rs = {j. j < len \<and> bit_at b j}"
  unfolding bits_print_def
  by (rule bits_print_loop_ranges) (use assms in \<open>auto simp: print_inv_def\<close>)

lemma bits_print_loop_zeros:
  assumes "len \<le> 8 * length b" "\<forall>j < len. \<not> bit_at b j" "i \<le> len"
  shows "bits_print_loop b len i False 0 out = Ret (out @ [(0, len)])"
  using assms
proof (induction "len - i" arbitrary: i)
  case 0
  then show ?case by (subst bits_print_loop.simps) simp
next
  case (Suc n)
  then have i: "i < len" and s: "bits_is_set b i = Ret False"
    by (auto simp: bits_is_set_Ret)
  have "bits_print_loop b len (Suc i) False 0 out = Ret (out @ [(0, len)])"
    using Suc.hyps(2) i by (intro Suc.hyps(1)) (use assms in auto)
  then show ?case using i s by (subst bits_print_loop.simps) simp
qed

lemma bits_print_all_zero:
  assumes "0 < len" "len \<le> 8 * length b" "\<forall>j < len. \<not> bit_at b j"
  shows "bits_print b len = Ret [(0, 0), (0, len)]"
proof -
  have "bits_is_set b 0 = Ret False" using assms by (subst bits_is_set_Ret) auto
  then show ?thesis
    using assms bits_print_loop_zeros [of len b 1 "[(0, 0)]"]
    by (simp add: bits_print_def bits_print_loop.simps [of b len 0])
qed

end
