(* ===== verification/Buddy_Tree.thy ===== *)
theory Buddy_Tree
  imports Xv6_Prelude
begin

text \<open>
  The abstract specification of the buddy allocator. Block \<open>(k, i)\<close> is the \<open>i\<close>-th block of size
  \<open>k\<close>; its halves are \<open>(k - 1, 2 * i)\<close> and \<open>(k - 1, 2 * i + 1)\<close>. A state says which blocks are
  free, which are used and which are split. The four rules of \<open>buddy_step\<close> are the only ways the
  allocator changes it; \<open>tree_inv\<close> is kept by all of them, and gives that the leaves (the free and
  the used blocks) partition the managed memory.
\<close>

type_synonym block = "nat \<times> nat"

record btree =
  free :: "block set"
  used :: "block set"
  spl :: "block set"

abbreviation blocks :: "btree \<Rightarrow> block set" where
  "blocks t \<equiv> free t \<union> used t \<union> spl t"

definition buddy_of :: "nat \<Rightarrow> nat" where
  "buddy_of bi = (if bi mod 2 = 0 then bi + 1 else bi - 1)"

lemma buddy_of_simps [simp]:
  "buddy_of (2 * i) = 2 * i + 1"
  "buddy_of (Suc (2 * i)) = 2 * i"
  "buddy_of (buddy_of i) = i"
  "buddy_of i div 2 = i div 2"
  "buddy_of i \<noteq> i"
  by (auto simp: buddy_of_def) presburger+

definition tree_inv :: "nat \<Rightarrow> btree \<Rightarrow> bool" where
  "tree_inv N t \<longleftrightarrow>
     (\<forall>k i. (k, i) \<in> blocks t \<longrightarrow> k \<le> N \<and> i < 2 ^ (N - k)) \<and>
     (N, 0) \<in> blocks t \<and>
     (\<forall>i. (0, i) \<notin> spl t) \<and>
     (\<forall>k i. (Suc k, i) \<in> spl t \<longrightarrow> (k, 2 * i) \<in> blocks t \<and> (k, Suc (2 * i)) \<in> blocks t) \<and>
     (\<forall>k i. (k, i) \<in> blocks t \<longrightarrow> k < N \<longrightarrow> (Suc k, i div 2) \<in> spl t) \<and>
     free t \<inter> used t = {} \<and> free t \<inter> spl t = {} \<and> used t \<inter> spl t = {} \<and>
     (\<forall>k i. (k, i) \<in> free t \<longrightarrow> k < N \<longrightarrow> (k, buddy_of i) \<notin> free t)"

lemma tree_invD:
  assumes "tree_inv N t"
  shows "(k, i) \<in> blocks t \<Longrightarrow> k \<le> N \<and> i < 2 ^ (N - k)"
    and "(N, 0) \<in> blocks t"
    and "(0, i) \<notin> spl t"
    and "(Suc k, i) \<in> spl t \<Longrightarrow> (k, 2 * i) \<in> blocks t \<and> (k, Suc (2 * i)) \<in> blocks t"
    and "(k, i) \<in> blocks t \<Longrightarrow> k < N \<Longrightarrow> (Suc k, i div 2) \<in> spl t"
    and "n \<in> free t \<Longrightarrow> n \<notin> used t \<and> n \<notin> spl t"
    and "n \<in> used t \<Longrightarrow> n \<notin> free t \<and> n \<notin> spl t"
    and "n \<in> spl t \<Longrightarrow> n \<notin> free t \<and> n \<notin> used t"
    and "(k, i) \<in> free t \<Longrightarrow> k < N \<Longrightarrow> (k, buddy_of i) \<notin> free t"
  using assms unfolding tree_inv_def by blast+

text \<open>Both halves of a split block exist, so the buddy of a block exists.\<close>

lemma buddy_in_blocks:
  assumes "tree_inv N t" "(k, i) \<in> blocks t" "k < N"
  shows "(k, buddy_of i) \<in> blocks t"
proof -
  have "(Suc k, i div 2) \<in> spl t" using assms by (rule tree_invD)
  then have "(k, 2 * (i div 2)) \<in> blocks t" "(k, Suc (2 * (i div 2))) \<in> blocks t"
    using tree_invD(4) [OF assms(1)] by blast+
  moreover have "buddy_of i = 2 * (i div 2) \<or> buddy_of i = Suc (2 * (i div 2))"
    by (auto simp: buddy_of_def) presburger
  ultimately show ?thesis by auto
qed

section \<open>The steps\<close>

inductive buddy_step :: "nat \<Rightarrow> btree \<Rightarrow> btree \<Rightarrow> bool" for N where
  take: "(k, i) \<in> free t \<Longrightarrow>
    buddy_step N t (t\<lparr>free := free t - {(k, i)}, used := insert (k, i) (used t)\<rparr>)"
| split: "(Suc k, i) \<in> used t \<Longrightarrow>
    buddy_step N t (t\<lparr>free := insert (k, Suc (2 * i)) (free t),
                      used := insert (k, 2 * i) (used t - {(Suc k, i)}),
                      spl := insert (Suc k, i) (spl t)\<rparr>)"
| merge: "(k, i) \<in> used t \<Longrightarrow> k < N \<Longrightarrow> (k, buddy_of i) \<in> free t \<Longrightarrow>
    buddy_step N t (t\<lparr>free := free t - {(k, buddy_of i)},
                      used := insert (Suc k, i div 2) (used t - {(k, i)}),
                      spl := spl t - {(Suc k, i div 2)}\<rparr>)"
| release: "(k, i) \<in> used t \<Longrightarrow> k < N \<longrightarrow> (k, buddy_of i) \<notin> free t \<Longrightarrow>
    buddy_step N t (t\<lparr>free := insert (k, i) (free t), used := used t - {(k, i)}\<rparr>)"

text \<open>Nothing lies below a leaf.\<close>

lemma no_children:
  assumes "tree_inv N t" "(Suc k, i) \<notin> spl t" "k < N" "j div 2 = i"
  shows "(k, j) \<notin> blocks t"
  using assms tree_invD(5) by blast

lemma half_bounds:
  assumes "Suc k \<le> N" "i < 2 ^ (N - Suc k)"
  shows "2 * i < 2 ^ (N - k)" "Suc (2 * i) < 2 ^ (N - k)"
proof -
  have "(2::nat) ^ (N - k) = 2 * 2 ^ (N - Suc k)"
    using assms(1) by (simp add: Suc_diff_le [symmetric] flip: power_Suc)
  then show "2 * i < 2 ^ (N - k)" "Suc (2 * i) < 2 ^ (N - k)" using assms(2) by linarith+
qed

lemma take_inv:
  assumes inv: "tree_inv N t" and n: "(k, i) \<in> free t"
  shows "tree_inv N (t\<lparr>free := free t - {(k, i)}, used := insert (k, i) (used t)\<rparr>)"
    (is "tree_inv N ?t")
proof -
  have "blocks ?t = blocks t" using n by auto
  moreover have "(k, i) \<notin> used t" "(k, i) \<notin> spl t" using tree_invD(6) [OF inv n] by auto
  ultimately show ?thesis
    using inv unfolding tree_inv_def by (simp; blast)
qed

lemma split_inv:
  assumes inv: "tree_inv N t" and n: "(Suc k, i) \<in> used t"
  shows "tree_inv N (t\<lparr>free := insert (k, Suc (2 * i)) (free t),
                      used := insert (k, 2 * i) (used t - {(Suc k, i)}),
                      spl := insert (Suc k, i) (spl t)\<rparr>)"
    (is "tree_inv N ?t")
proof -
  have b: "blocks ?t = insert (k, 2 * i) (insert (k, Suc (2 * i)) (blocks t))"
    using n by auto
  have ki: "Suc k \<le> N" "i < 2 ^ (N - Suc k)" using tree_invD(1) [OF inv, of "Suc k" i] n by auto
  have ns: "(Suc k, i) \<notin> spl t" "(Suc k, i) \<notin> free t" using tree_invD(7) [OF inv n] by auto
  have new: "(k, 2 * i) \<notin> blocks t" "(k, Suc (2 * i)) \<notin> blocks t"
    using no_children [OF inv ns(1)] ki by auto
  show ?thesis
    unfolding tree_inv_def b
  proof (intro conjI)
    show "\<forall>k' i'. (k', i') \<in> insert (k, 2 * i) (insert (k, Suc (2 * i)) (blocks t)) \<longrightarrow>
            k' \<le> N \<and> i' < 2 ^ (N - k')"
      using tree_invD(1) [OF inv] half_bounds [OF ki] ki by auto
    show "\<forall>k' i'. (Suc k', i') \<in> spl ?t \<longrightarrow>
       (k', 2 * i') \<in> insert (k, 2 * i) (insert (k, Suc (2 * i)) (blocks t)) \<and>
       (k', Suc (2 * i')) \<in> insert (k, 2 * i) (insert (k, Suc (2 * i)) (blocks t))"
      using tree_invD(4) [OF inv] by auto
    show "\<forall>k' i'. (k', i') \<in> insert (k, 2 * i) (insert (k, Suc (2 * i)) (blocks t)) \<longrightarrow>
            k' < N \<longrightarrow> (Suc k', i' div 2) \<in> spl ?t"
      using tree_invD(5) [OF inv] by auto
    show "\<forall>k' i'. (k', i') \<in> free ?t \<longrightarrow> k' < N \<longrightarrow> (k', buddy_of i') \<notin> free ?t"
      using tree_invD(9) [OF inv] new by (auto simp: buddy_of_def split: if_splits) presburger+
  qed (use inv new ns in \<open>auto simp: tree_inv_def\<close>)
qed

lemma merge_inv:
  assumes inv: "tree_inv N t" and n: "(k, i) \<in> used t" and k: "k < N"
    and f: "(k, buddy_of i) \<in> free t"
  shows "tree_inv N (t\<lparr>free := free t - {(k, buddy_of i)},
                      used := insert (Suc k, i div 2) (used t - {(k, i)}),
                      spl := spl t - {(Suc k, i div 2)}\<rparr>)"
    (is "tree_inv N ?t")
proof -
  have par: "(Suc k, i div 2) \<in> spl t" using tree_invD(5) [OF inv _ k, of i] n by simp
  have nu: "(k, i) \<notin> free t" "(k, i) \<notin> spl t" using tree_invD(7) [OF inv n] by auto
  have nf: "(k, buddy_of i) \<notin> used t" "(k, buddy_of i) \<notin> spl t" using tree_invD(6) [OF inv f] by auto
  have np: "(Suc k, i div 2) \<notin> free t" "(Suc k, i div 2) \<notin> used t"
    using tree_invD(8) [OF inv par] by auto
  have b: "blocks ?t = blocks t - {(k, i), (k, buddy_of i)}"
    using n f par nu nf np by auto
  have kids: "j div 2 = i div 2 \<Longrightarrow> j = i \<or> j = buddy_of i" for j
    by (auto simp: buddy_of_def) presburger+
  show ?thesis
    unfolding tree_inv_def b
  proof (intro conjI)
    show "\<forall>k' i'. (Suc k', i') \<in> spl ?t \<longrightarrow>
       (k', 2 * i') \<in> blocks t - {(k, i), (k, buddy_of i)} \<and>
       (k', Suc (2 * i')) \<in> blocks t - {(k, i), (k, buddy_of i)}"
    proof (intro allI impI)
      fix k' i' assume a: "(Suc k', i') \<in> spl ?t"
      then have "(k', i') \<noteq> (k, i div 2)" by auto
      then have "(k', 2 * i') \<notin> {(k, i), (k, buddy_of i)}"
        "(k', Suc (2 * i')) \<notin> {(k, i), (k, buddy_of i)}"
        using buddy_of_simps(4) [of i] by (auto simp del: buddy_of_simps)
      with a show "(k', 2 * i') \<in> blocks t - {(k, i), (k, buddy_of i)} \<and>
        (k', Suc (2 * i')) \<in> blocks t - {(k, i), (k, buddy_of i)}"
        using tree_invD(4) [OF inv, of k' i'] by auto
    qed
    show "\<forall>k' i'. (k', i') \<in> blocks t - {(k, i), (k, buddy_of i)} \<longrightarrow>
            k' < N \<longrightarrow> (Suc k', i' div 2) \<in> spl ?t"
      using tree_invD(5) [OF inv] kids by auto
    show "(N, 0) \<in> blocks t - {(k, i), (k, buddy_of i)}"
      using tree_invD(2) [OF inv] k by auto
    show "\<forall>k' i'. (k', i') \<in> free ?t \<longrightarrow> k' < N \<longrightarrow> (k', buddy_of i') \<notin> free ?t"
      using tree_invD(9) [OF inv] by auto
  qed (use inv np nu nf in \<open>auto simp: tree_inv_def\<close>)
qed

lemma release_inv:
  assumes inv: "tree_inv N t" and n: "(k, i) \<in> used t" and "k < N \<longrightarrow> (k, buddy_of i) \<notin> free t"
  shows "tree_inv N (t\<lparr>free := insert (k, i) (free t), used := used t - {(k, i)}\<rparr>)"
    (is "tree_inv N ?t")
proof -
  have b: "blocks ?t = blocks t" using n by auto
  have "(k, i) \<notin> free t" "(k, i) \<notin> spl t" using tree_invD(7) [OF inv n] by auto
  moreover have "\<forall>k' i'. (k', i') \<in> free ?t \<longrightarrow> k' < N \<longrightarrow> (k', buddy_of i') \<notin> free ?t"
    using tree_invD(9) [OF inv] assms(3) buddy_of_simps(3)
    by (auto simp del: buddy_of_simps) (metis buddy_of_simps(3) buddy_of_simps(5))+
  ultimately show ?thesis
    using inv unfolding tree_inv_def b by (intro conjI) (simp_all, blast+)
qed

theorem buddy_step_inv: "buddy_step N t t' \<Longrightarrow> tree_inv N t \<Longrightarrow> tree_inv N t'"
  by (induction rule: buddy_step.induct) (blast intro: take_inv split_inv merge_inv release_inv)+

section \<open>The leaves partition the managed memory\<close>

text \<open>The units (of 16 bytes) that a block covers.\<close>

definition span :: "block \<Rightarrow> nat set" where
  "span n = {snd n * 2 ^ fst n ..< Suc (snd n) * 2 ^ fst n}"

lemma in_span: "u \<in> span (k, i) \<longleftrightarrow> u div 2 ^ k = i"
proof -
  have "u div 2 ^ k = i \<longleftrightarrow> i * 2 ^ k \<le> u \<and> u < Suc i * 2 ^ k"
    using div_less_iff_less_mult [of "2 ^ k" u "Suc i"] less_eq_div_iff_mult_less_eq [of "2 ^ k" i u]
    by auto
  then show ?thesis by (simp add: span_def)
qed

lemma card_span [simp]: "card (span (k, i)) = 2 ^ k" "finite (span n)"
  by (simp_all add: span_def)

lemma ancestor_split:
  assumes "tree_inv N t" "(k, i) \<in> blocks t" "k + Suc d \<le> N"
  shows "(k + Suc d, i div 2 ^ Suc d) \<in> spl t"
  using assms(3)
proof (induction d)
  case 0
  then show ?case using tree_invD(5) [OF assms(1,2)] by simp
next
  case (Suc d)
  then have "(k + Suc d, i div 2 ^ Suc d) \<in> blocks t" by simp
  with Suc.prems have "(Suc (k + Suc d), i div 2 ^ Suc d div 2) \<in> spl t"
    using tree_invD(5) [OF assms(1)] by simp
  moreover have "i div 2 ^ Suc d div 2 = i div 2 ^ Suc (Suc d)"
    by (simp only: div_pow2_Suc [of i "Suc d"])
  ultimately show ?case by (simp del: power_Suc)
qed

lemma leaf_disjoint_aux:
  assumes inv: "tree_inv N t" and n: "(k, i) \<in> free t \<union> used t" and n': "(k', i') \<in> free t \<union> used t"
    and le: "k \<le> k'" and u: "u \<in> span (k, i)" "u \<in> span (k', i')"
  shows "(k, i) = (k', i')"
proof (cases "k = k'")
  case True
  then show ?thesis using u by (simp add: in_span)
next
  case False
  then obtain d where d: "k' = k + Suc d" using le by (metis less_natE order_le_neq_trans add_Suc_right)
  have "i' = i div 2 ^ Suc d"
    using u d div_pow2_add [of u k "Suc d"] by (simp add: in_span del: power_Suc)
  moreover have "k + Suc d \<le> N" using tree_invD(1) [OF inv, of k' i'] n' d by auto
  ultimately have "(k', i') \<in> spl t" using ancestor_split [OF inv, of k i d] n d by auto
  then show ?thesis using tree_invD(8) [OF inv] n' by blast
qed

lemma leaf_disjoint:
  assumes "tree_inv N t" "m \<in> free t \<union> used t" "n \<in> free t \<union> used t" "m \<noteq> n"
  shows "span m \<inter> span n = {}"
proof (rule ccontr)
  assume "span m \<inter> span n \<noteq> {}"
  then obtain u where u: "u \<in> span m" "u \<in> span n" by blast
  obtain k i k' i' where mn: "m = (k, i)" "n = (k', i')" by (cases m, cases n)
  show False
    using leaf_disjoint_aux [OF assms(1), of k i k' i' u] leaf_disjoint_aux [OF assms(1), of k' i' k i u]
      assms(2-4) u mn linorder_le_cases by metis
qed

lemma leaf_cover_aux:
  assumes inv: "tree_inv N t"
  shows "(k, u div 2 ^ k) \<in> blocks t \<Longrightarrow> \<exists>n \<in> free t \<union> used t. u \<in> span n"
proof (induction k)
  case 0
  then show ?case using tree_invD(3) [OF inv] by (force simp: in_span)
next
  case (Suc k)
  show ?case
  proof (cases "(Suc k, u div 2 ^ Suc k) \<in> spl t")
    case True
    then have "(k, 2 * (u div 2 ^ Suc k)) \<in> blocks t" "(k, Suc (2 * (u div 2 ^ Suc k))) \<in> blocks t"
      using tree_invD(4) [OF inv] by blast+
    moreover have "u div 2 ^ Suc k = u div 2 ^ k div 2" by (rule div_pow2_Suc)
    ultimately have "(k, u div 2 ^ k) \<in> blocks t" using even_or_odd_half by (metis Suc_eq_plus1)
    then show ?thesis by (rule Suc.IH)
  next
    case False
    then show ?thesis using Suc.prems by (intro bexI [of _ "(Suc k, u div 2 ^ Suc k)"]) (auto simp: in_span)
  qed
qed

lemma leaf_cover:
  assumes "tree_inv N t" "u < 2 ^ N"
  shows "\<exists>n \<in> free t \<union> used t. u \<in> span n"
  using leaf_cover_aux [OF assms(1), of N u] tree_invD(2) [OF assms(1)] assms(2) by simp

lemma span_bound:
  assumes "tree_inv N t" "n \<in> blocks t"
  shows "span n \<subseteq> {..<2 ^ N}"
proof -
  obtain k i where n: "n = (k, i)" by (cases n)
  then have "k \<le> N" "i < 2 ^ (N - k)" using tree_invD(1) [OF assms(1), of k i] assms(2) by auto
  then have "Suc i * 2 ^ k \<le> 2 ^ (N - k) * 2 ^ k" by (intro mult_right_mono) auto
  also have "\<dots> = 2 ^ N" using \<open>k \<le> N\<close> by (simp flip: power_add)
  finally show ?thesis by (auto simp: span_def n)
qed

lemma finite_blocks: "tree_inv N t \<Longrightarrow> finite (blocks t)"
  by (rule finite_subset [of _ "{..N} \<times> {..<2 ^ N}"])
     (auto dest!: tree_invD(1) simp: subset_eq elim!: less_le_trans)

text \<open>No memory is lost: the sizes of the free and the used blocks add up to the whole.\<close>

lemma leaf_sizes:
  assumes inv: "tree_inv N t"
  shows "(\<Sum>n \<in> free t \<union> used t. 2 ^ fst n) = (2::nat) ^ N"
proof -
  let ?L = "free t \<union> used t"
  have "(\<Sum>n \<in> ?L. 2 ^ fst n) = (\<Sum>n \<in> ?L. card (span n))"
    by (rule sum.cong) auto
  also have "\<dots> = card (\<Union> (span ` ?L))"
    using finite_blocks [OF inv] leaf_disjoint [OF inv]
    by (subst card_UN_disjoint) auto
  also have "\<Union> (span ` ?L) = {..<2 ^ N}"
    using leaf_cover [OF inv] span_bound [OF inv] by fastforce
  finally show ?thesis by simp
qed

section \<open>The tree is determined by its used blocks\<close>

text \<open>
  Because two buddies are never free together, a block without used memory below it is free as a
  whole. So there is only one tree for each set of used blocks: freeing leaves no fragmentation.
\<close>

definition used_in :: "btree \<Rightarrow> nat \<Rightarrow> nat \<Rightarrow> bool" where
  "used_in t k i \<longleftrightarrow> (\<exists>k' i'. (k', i') \<in> used t \<and> k' \<le> k \<and> i' div 2 ^ (k - k') = i)"

lemma used_in_half: "used_in t k j \<Longrightarrow> used_in t (Suc k) (j div 2)"
proof -
  assume "used_in t k j"
  then obtain k' i' where u: "(k', i') \<in> used t" "k' \<le> k" "i' div 2 ^ (k - k') = j"
    by (auto simp: used_in_def)
  then have "i' div 2 ^ (Suc k - k') = j div 2"
    by (metis Suc_diff_le div_pow2_Suc)
  moreover have "k' \<le> Suc k" using u(2) by simp
  ultimately show ?thesis unfolding used_in_def using u(1) by blast
qed

lemma idle_free:
  assumes inv: "tree_inv N t"
  shows "(k, i) \<in> blocks t \<Longrightarrow> \<not> used_in t k i \<Longrightarrow> (k, i) \<in> free t"
proof (induction k arbitrary: i)
  case 0
  then show ?case using tree_invD(3) [OF inv] by (force simp: used_in_def)
next
  case (Suc k)
  have "(Suc k, i) \<notin> used t" using Suc.prems(2) by (force simp: used_in_def)
  moreover have "(Suc k, i) \<notin> spl t"
  proof
    assume s: "(Suc k, i) \<in> spl t"
    have "\<not> used_in t k (2 * i)" "\<not> used_in t k (Suc (2 * i))"
      using Suc.prems(2) used_in_half [of t k "2 * i"] used_in_half [of t k "Suc (2 * i)"] by auto
    then have "(k, 2 * i) \<in> free t" "(k, Suc (2 * i)) \<in> free t"
      using tree_invD(4) [OF inv s] Suc.IH by blast+
    moreover have "k < N" using tree_invD(1) [OF inv, of "Suc k" i] s by simp
    ultimately show False using tree_invD(9) [OF inv, of k "2 * i"] by simp
  qed
  ultimately show ?case using Suc.prems(1) by blast
qed

lemma spl_iff:
  assumes inv: "tree_inv N t"
  shows "(k, i) \<in> spl t \<longleftrightarrow> k \<le> N \<and> used_in t k i \<and> (k, i) \<notin> used t"
proof
  assume s: "(k, i) \<in> spl t"
  then show "k \<le> N \<and> used_in t k i \<and> (k, i) \<notin> used t"
    using idle_free [OF inv, of k i] tree_invD(1) [OF inv, of k i] tree_invD(8) [OF inv s] by blast
next
  assume a: "k \<le> N \<and> used_in t k i \<and> (k, i) \<notin> used t"
  then obtain k' i' where u: "(k', i') \<in> used t" "k' \<le> k" "i' div 2 ^ (k - k') = i"
    by (auto simp: used_in_def)
  then have "k' \<noteq> k" using a by auto
  then obtain d where "k = k' + Suc d" using u(2) by (metis less_natE order_le_neq_trans add_Suc_right)
  then show "(k, i) \<in> spl t" using ancestor_split [OF inv, of k' i' d] u a by simp
qed

lemma tree_unique:
  assumes t: "tree_inv N t" and t': "tree_inv N t'" and u: "used t = used t'"
  shows "free t = free t'" "spl t = spl t'"
proof -
  have ui: "used_in t = used_in t'" by (simp add: used_in_def u fun_eq_iff)
  show s: "spl t = spl t'" using spl_iff [OF t] spl_iff [OF t'] ui u by auto
  have *: "free t1 \<subseteq> free t2" if t1: "tree_inv N t1" and t2: "tree_inv N t2"
    and e: "used t1 = used t2" "spl t1 = spl t2" for t1 t2
  proof
    fix n assume n: "n \<in> free t1"
    obtain k i where ki: "n = (k, i)" by (cases n)
    have "(k, i) \<in> blocks t2"
    proof (cases "k < N")
      case True
      then have "(Suc k, i div 2) \<in> spl t2" using tree_invD(5) [OF t1, of k i] n ki e by auto
      then have "(k, 2 * (i div 2)) \<in> blocks t2" "(k, Suc (2 * (i div 2))) \<in> blocks t2"
        using tree_invD(4) [OF t2] by blast+
      then show ?thesis using even_or_odd_half [of i] by (metis Suc_eq_plus1)
    next
      case False
      then have "k = N" "i = 0" using tree_invD(1) [OF t1, of k i] n ki by auto
      then show ?thesis using tree_invD(2) [OF t2] by simp
    qed
    then show "n \<in> free t2" using tree_invD(6) [OF t1 n] ki e by auto
  qed
  show "free t = free t'" using * [OF t t' u s] * [OF t' t u [symmetric] s [symmetric]] by blast
qed

end
