(* ===== verification/Buddy.thy ===== *)
theory Buddy
  imports Bits Free_List Buddy_Tree
begin

text \<open>
  The buddy allocator of \<^verbatim>\<open>src/kernel/alloc/buddy.c\<close>: allocation and freeing.

  State. \<open>groups\<close> is the array \<open>buddy_size_groups\<close>: one entry for each size \<open>k\<close>, with the bit
  vector \<open>pair_alloc_xor\<close> (one bit for each pair of buddies) and the bit vector \<open>split\<close>. The free
  list of size \<open>k\<close> is the ring headed at the address of \<open>buddy_size_groups[k].freelist\<close>; its nodes
  are the free blocks themselves, in the heap \<open>lists\<close>. Addresses and block indices are natural
  numbers: a pointer handed to the allocator is not below \<open>buddy_base\<close>, and with the 128 MB of
  \<open>kinit\<close> every \<open>int\<close> of the source stays below \<open>2 ^ 31\<close>. \<open>firstk\<close> keeps its 64-bit width, because
  its loop depends on it. The whole bodies run under \<open>buddy_lock\<close> and are atomic here. Output by
  \<open>printf\<close> is not part of the state.
\<close>

section \<open>Data and address arithmetic\<close>

record buddy_size_group_info =
  pair_alloc_xor :: bits
  split :: bits

record buddy =
  lists :: heap
  groups :: "buddy_size_group_info list"
  groups_count :: nat
  buddy_base :: nat

definition LEAF_SIZE :: nat where
  "LEAF_SIZE = 16"

definition BLK_SIZE :: "nat \<Rightarrow> nat" where
  "BLK_SIZE k = 2 ^ k * LEAF_SIZE"

definition MAXSIZE :: "buddy \<Rightarrow> nat" where
  "MAXSIZE b = groups_count b - 1"

definition NBLK :: "buddy \<Rightarrow> nat \<Rightarrow> nat" where
  "NBLK b k = 2 ^ (MAXSIZE b - k)"

definition ROUNDUP :: "nat \<Rightarrow> nat \<Rightarrow> nat" where
  "ROUNDUP n sz = ((n - 1) div sz + 1) * sz"

text \<open>
  \<open>sizeof(buddy_size_group_info)\<close> is 32: a \<open>struct list\<close> of two pointers and two pointers to bytes.
  The array starts at \<open>buddy_base\<close>, so this is the address of the list head of size \<open>k\<close>.
\<close>

definition freelist :: "buddy \<Rightarrow> nat \<Rightarrow> nat" where
  "freelist b k = buddy_base b + 32 * k"

definition buddy_pair_index :: "nat \<Rightarrow> nat" where
  "buddy_pair_index block_index =
     (if block_index mod 2 = 1 then (block_index - 1) div 2 else block_index div 2)"

text \<open>The loop of \<open>firstk\<close>: \<open>size\<close> is an unsigned 64-bit number and doubles with wrap-around.\<close>

partial_function (option) firstk_loop :: "u64 \<Rightarrow> u64 \<Rightarrow> nat \<Rightarrow> nat option" where
  "firstk_loop n sz k = (if sz < n then firstk_loop n (sz * 2) (Suc k) else Some k)"

definition firstk :: "u64 \<Rightarrow> nat option" where
  "firstk n = firstk_loop n 16 0"

definition blk_index :: "buddy \<Rightarrow> nat \<Rightarrow> nat \<Rightarrow> nat" where
  "blk_index b k p = (p - buddy_base b) div BLK_SIZE k"

definition addr :: "buddy \<Rightarrow> nat \<Rightarrow> nat \<Rightarrow> nat" where
  "addr b k bi = buddy_base b + bi * BLK_SIZE k"

subsection \<open>Access to the bit vectors of a size\<close>

definition group_at :: "buddy \<Rightarrow> nat \<Rightarrow> buddy_size_group_info res" where
  "group_at b k = (if k < length (groups b) then Ret (groups b ! k) else Fail OutOfBounds)"

definition xor_is_set :: "buddy \<Rightarrow> nat \<Rightarrow> nat \<Rightarrow> bool res" where
  "xor_is_set b k i = bindR (group_at b k) (\<lambda>g. bits_is_set (pair_alloc_xor g) i)"

definition xor_switch :: "buddy \<Rightarrow> nat \<Rightarrow> nat \<Rightarrow> buddy res" where
  "xor_switch b k i =
     bindR (group_at b k) (\<lambda>g. bindR (bits_switch (pair_alloc_xor g) i) (\<lambda>v.
       Ret (b\<lparr>groups := (groups b)[k := g\<lparr>pair_alloc_xor := v\<rparr>]\<rparr>)))"

definition split_is_set :: "buddy \<Rightarrow> nat \<Rightarrow> nat \<Rightarrow> bool res" where
  "split_is_set b k i = bindR (group_at b k) (\<lambda>g. bits_is_set (split g) i)"

definition split_set :: "buddy \<Rightarrow> nat \<Rightarrow> nat \<Rightarrow> buddy res" where
  "split_set b k i =
     bindR (group_at b k) (\<lambda>g. bindR (bits_set (split g) i) (\<lambda>v.
       Ret (b\<lparr>groups := (groups b)[k := g\<lparr>split := v\<rparr>]\<rparr>)))"

definition split_clear :: "buddy \<Rightarrow> nat \<Rightarrow> nat \<Rightarrow> buddy res" where
  "split_clear b k i =
     bindR (group_at b k) (\<lambda>g. bindR (bits_clear (split g) i) (\<lambda>v.
       Ret (b\<lparr>groups := (groups b)[k := g\<lparr>split := v\<rparr>]\<rparr>)))"

lemma groups_ops_frame:
  "xor_switch b k i = Ret b' \<Longrightarrow> groups_count b' = groups_count b \<and> buddy_base b' = buddy_base b \<and>
     lists b' = lists b"
  "split_set b k i = Ret b' \<Longrightarrow> groups_count b' = groups_count b \<and> buddy_base b' = buddy_base b \<and>
     lists b' = lists b"
  "split_clear b k i = Ret b' \<Longrightarrow> groups_count b' = groups_count b \<and> buddy_base b' = buddy_base b \<and>
     lists b' = lists b"
  by (auto simp: xor_switch_def split_set_def split_clear_def bindR_eq_Inr)

section \<open>Allocation\<close>

text \<open>The scan of \<open>buddy_malloc\<close> for the first size with a non-empty free list.\<close>

function find_group :: "buddy \<Rightarrow> nat \<Rightarrow> nat" where
  "find_group b k =
     (if k < groups_count b \<and> lst_empty (lists b) (freelist b k) then find_group b (Suc k) else k)"
  by pat_completeness auto
termination
  by (relation "measure (\<lambda>(b, k). groups_count b - k)") auto

declare find_group.simps [simp del]

text \<open>
  The splitting loop: the block \<open>p\<close> of size \<open>k\<close> is halved until it has size \<open>fk\<close>; each upper half
  \<open>q\<close> goes to the free list one size below.
\<close>

function split_loop :: "buddy \<Rightarrow> nat \<Rightarrow> nat \<Rightarrow> nat \<Rightarrow> buddy res" where
  "split_loop b fk k p =
     (if k > fk then
        let q = p + BLK_SIZE (k - 1) in
        bindR (split_set b k (blk_index b k p)) (\<lambda>b1.
        bindR (xor_switch b1 (k - 1) (buddy_pair_index (blk_index b1 (k - 1) p))) (\<lambda>b2.
        let b3 = b2\<lparr>lists := lst_push (lists b2) (freelist b2 (k - 1)) q\<rparr> in
        split_loop b3 fk (k - 1) p))
      else Ret b)"
  by pat_completeness auto
termination
  by (relation "measure (\<lambda>(b, fk, k, p). k)") auto

declare split_loop.simps [simp del]

definition buddy_malloc :: "buddy \<Rightarrow> u64 \<Rightarrow> (nat \<times> buddy) res" where
  "buddy_malloc b nbytes =
     (case firstk nbytes of
        None \<Rightarrow> Fail Diverge
      | Some fk \<Rightarrow>
          let k = find_group b fk in
          if k \<ge> groups_count b then Ret (nullptr, b)
          else
            bindR (lst_pop (lists b) (freelist b k)) (\<lambda>(p, h).
            let b1 = b\<lparr>lists := h\<rparr> in
            bindR (xor_switch b1 k (buddy_pair_index (blk_index b1 k p))) (\<lambda>b2.
            bindR (split_loop b2 fk k p) (\<lambda>b3. Ret (p, b3)))))"

section \<open>Freeing\<close>

text \<open>
  \<open>size\<close> looks for the smallest split ancestor of the block at \<open>p\<close>. Its loop condition lets
  \<open>k + 1\<close> reach \<open>buddy_size_groups_count\<close>, one past the end of the array.
\<close>

function size_loop :: "buddy \<Rightarrow> nat \<Rightarrow> nat \<Rightarrow> nat res" where
  "size_loop b k p =
     (if k < groups_count b then
        bindR (split_is_set b (k + 1) (blk_index b (k + 1) p)) (\<lambda>s.
          if s then Ret k else size_loop b (Suc k) p)
      else Ret 0)"
  by pat_completeness auto
termination
  by (relation "measure (\<lambda>(b, k, p). groups_count b - k)") auto

declare size_loop.simps [simp del]

definition block_size :: "buddy \<Rightarrow> nat \<Rightarrow> nat res" where
  "block_size b p = size_loop b 0 p"

function merge_loop :: "buddy \<Rightarrow> nat \<Rightarrow> nat \<Rightarrow> (buddy \<times> nat \<times> nat) res" where
  "merge_loop b k p =
     (if k < MAXSIZE b then
        let bi = blk_index b k p;
            pi = buddy_pair_index bi;
            bud = buddy_of bi
        in bindR (xor_switch b k pi) (\<lambda>b1.
           bindR (xor_is_set b1 k pi) (\<lambda>s.
             if s then Ret (b1, k, p)
             else
               let q = addr b1 k bud;
                   b2 = b1\<lparr>lists := lst_remove (lists b1) q\<rparr>;
                   p' = (if bud mod 2 = 0 then q else p)
               in bindR (split_clear b2 (k + 1) (blk_index b2 (k + 1) p')) (\<lambda>b3.
                  merge_loop b3 (k + 1) p')))
      else Ret (b, k, p))"
  by pat_completeness auto
termination
proof (relation "measure (\<lambda>(b, k, p). MAXSIZE b - k)", goal_cases)
  case (2 b k p x xa xb b1 s x' b2 p' b3)
  then show ?case
    using groups_ops_frame(1) [OF 2(5)] groups_ops_frame(3) [OF 2(11)] by (simp add: MAXSIZE_def)
qed simp

declare merge_loop.simps [simp del]

definition buddy_free :: "buddy \<Rightarrow> nat \<Rightarrow> buddy res" where
  "buddy_free b p =
     bindR (block_size b p) (\<lambda>k.
     bindR (merge_loop b k p) (\<lambda>(b1, k', p').
     Ret (b1\<lparr>lists := lst_push (lists b1) (freelist b1 k') p'\<rparr>)))"

section \<open>The bit vectors as point updates\<close>

abbreviation xorbit :: "buddy \<Rightarrow> nat \<Rightarrow> nat \<Rightarrow> bool" where
  "xorbit b k j \<equiv> bit_at (pair_alloc_xor (groups b ! k)) j"

abbreviation splitbit :: "buddy \<Rightarrow> nat \<Rightarrow> nat \<Rightarrow> bool" where
  "splitbit b k i \<equiv> bit_at (split (groups b ! k)) i"

text \<open>The arrays have an entry for each size, and each vector a bit for each pair or block.\<close>

definition shape :: "nat \<Rightarrow> buddy \<Rightarrow> bool" where
  "shape N b \<longleftrightarrow> groups_count b = Suc N \<and> length (groups b) = Suc N \<and>
     (\<forall>k \<le> N. \<forall>i < 2 ^ (N - k). in_bits (pair_alloc_xor (groups b ! k)) (i div 2)) \<and>
     (\<forall>k \<le> N. 0 < k \<longrightarrow> (\<forall>i < 2 ^ (N - k). in_bits (split (groups b ! k)) i))"

lemma shape_MAXSIZE [simp]: "shape N b \<Longrightarrow> MAXSIZE b = N"
  by (simp add: shape_def MAXSIZE_def)

lemma shape_lists [simp]: "shape N (b\<lparr>lists := h\<rparr>) = shape N b"
  by (simp add: shape_def)

lemma xor_switch_Ret:
  assumes "shape N b" "k \<le> N" "i < 2 ^ (N - k)"
  shows "\<exists>b'. xor_switch b k (i div 2) = Ret b' \<and> shape N b' \<and> lists b' = lists b \<and>
           buddy_base b' = buddy_base b \<and>
           (\<forall>k' \<le> N. \<forall>i' < 2 ^ (N - k'). xorbit b' k' (i' div 2) =
              ((k' = k \<and> i' div 2 = i div 2) \<noteq> xorbit b k' (i' div 2))) \<and>
           (\<forall>k' i'. splitbit b' k' i' = splitbit b k' i')"
proof -
  have r: "in_bits (pair_alloc_xor (groups b ! k)) (i div 2)" and k: "k < length (groups b)"
    using assms by (auto simp: shape_def)
  obtain v where v: "bits_switch (pair_alloc_xor (groups b ! k)) (i div 2) = Ret v"
    "length v = length (pair_alloc_xor (groups b ! k))"
    "\<forall>j. in_bits (pair_alloc_xor (groups b ! k)) j \<longrightarrow>
        bit_at v j = ((j = i div 2) \<noteq> bit_at (pair_alloc_xor (groups b ! k)) j)"
    using bits_switch_Ret [OF r] by blast
  show ?thesis
    using assms k v by (auto simp: xor_switch_def group_at_def shape_def nth_list_update)
qed

lemma split_set_Ret:
  assumes "shape N b" "k \<le> N" "0 < k" "i < 2 ^ (N - k)"
  shows "\<exists>b'. split_set b k i = Ret b' \<and> shape N b' \<and> lists b' = lists b \<and>
           buddy_base b' = buddy_base b \<and>
           (\<forall>k' \<le> N. 0 < k' \<longrightarrow> (\<forall>i' < 2 ^ (N - k'). splitbit b' k' i' =
              ((k' = k \<and> i' = i) \<or> splitbit b k' i'))) \<and>
           (\<forall>k' j. xorbit b' k' j = xorbit b k' j)"
proof -
  have r: "in_bits (split (groups b ! k)) i" and k: "k < length (groups b)"
    using assms by (auto simp: shape_def)
  obtain v where v: "bits_set (split (groups b ! k)) i = Ret v"
    "length v = length (split (groups b ! k))"
    "\<forall>j. in_bits (split (groups b ! k)) j \<longrightarrow> bit_at v j = (j = i \<or> bit_at (split (groups b ! k)) j)"
    using bits_set_Ret [OF r] by blast
  show ?thesis
    using assms k v by (auto simp: split_set_def group_at_def shape_def nth_list_update)
qed

lemma split_clear_Ret:
  assumes "shape N b" "k \<le> N" "0 < k" "i < 2 ^ (N - k)"
  shows "\<exists>b'. split_clear b k i = Ret b' \<and> shape N b' \<and> lists b' = lists b \<and>
           buddy_base b' = buddy_base b \<and>
           (\<forall>k' \<le> N. 0 < k' \<longrightarrow> (\<forall>i' < 2 ^ (N - k'). splitbit b' k' i' =
              (\<not> (k' = k \<and> i' = i) \<and> splitbit b k' i'))) \<and>
           (\<forall>k' j. xorbit b' k' j = xorbit b k' j)"
proof -
  have r: "in_bits (split (groups b ! k)) i" and k: "k < length (groups b)"
    using assms by (auto simp: shape_def)
  obtain v where v: "bits_clear (split (groups b ! k)) i = Ret v"
    "length v = length (split (groups b ! k))"
    "\<forall>j. in_bits (split (groups b ! k)) j \<longrightarrow> bit_at v j = (j \<noteq> i \<and> bit_at (split (groups b ! k)) j)"
    using bits_clear_Ret [OF r] by blast
  show ?thesis
    using assms k v by (auto simp: split_clear_def group_at_def shape_def nth_list_update)
qed

lemma xor_is_set_Ret:
  "shape N b \<Longrightarrow> k \<le> N \<Longrightarrow> i < 2 ^ (N - k) \<Longrightarrow> xor_is_set b k (i div 2) = Ret (xorbit b k (i div 2))"
  by (simp add: xor_is_set_def group_at_def shape_def bits_is_set_Ret)

lemma split_is_set_Ret:
  "shape N b \<Longrightarrow> k \<le> N \<Longrightarrow> 0 < k \<Longrightarrow> i < 2 ^ (N - k) \<Longrightarrow> split_is_set b k i = Ret (splitbit b k i)"
  by (simp add: split_is_set_def group_at_def shape_def bits_is_set_Ret)

section \<open>The representation of an abstract tree\<close>

definition free_addrs :: "buddy \<Rightarrow> btree \<Rightarrow> nat \<Rightarrow> nat set" where
  "free_addrs b t k = addr b k ` {i. (k, i) \<in> free t}"

definition busy :: "btree \<Rightarrow> nat \<Rightarrow> nat \<Rightarrow> bool" where
  "busy t k i \<longleftrightarrow> (k, i) \<in> used t \<union> spl t"

text \<open>
  \<open>repr N b t\<close>: the concrete state \<open>b\<close> represents the tree \<open>t\<close>. The last clause says that the list
  heads, the first 32 bytes times the number of sizes, lie in used blocks: the allocator never
  hands out its own bookkeeping.
\<close>

definition repr :: "nat \<Rightarrow> buddy \<Rightarrow> btree \<Rightarrow> bool" where
  "repr N b t \<longleftrightarrow> tree_inv N t \<and> shape N b \<and>
     (\<forall>k \<le> N. 0 < k \<longrightarrow> (\<forall>i < 2 ^ (N - k). splitbit b k i = ((k, i) \<in> spl t))) \<and>
     (\<forall>k < N. \<forall>i < 2 ^ (N - k). xorbit b k (i div 2) = (busy t k i \<noteq> busy t k (buddy_of i))) \<and>
     rings (lists b) N (freelist b) (free_addrs b t) \<and>
     (\<forall>k \<le> N. (0, 2 * k) \<in> used t)"

lemma reprD:
  assumes "repr N b t"
  shows "tree_inv N t" "shape N b"
    and "k \<le> N \<Longrightarrow> 0 < k \<Longrightarrow> i < 2 ^ (N - k) \<Longrightarrow> splitbit b k i = ((k, i) \<in> spl t)"
    and "k < N \<Longrightarrow> i < 2 ^ (N - k) \<Longrightarrow>
           xorbit b k (i div 2) = (busy t k i \<noteq> busy t k (buddy_of i))"
    and "rings (lists b) N (freelist b) (free_addrs b t)"
    and "k \<le> N \<Longrightarrow> (0, 2 * k) \<in> used t"
  using assms by (auto simp: repr_def)

end
