(* ===== verification/Buddy_Correct.thy ===== *)
theory Buddy_Correct
  imports Buddy
begin

text \<open>
  Correctness of the buddy allocator: \<open>buddy_malloc\<close> and \<open>buddy_free\<close> implement steps of the
  abstract allocator of \<^theory_text>\<open>Buddy_Tree\<close>. Each lemma \<open>repr_*\<close> simulates one abstract step by
  the list and bit operations the source performs for it.
\<close>

section \<open>Address arithmetic\<close>

lemma pair_index_half: "buddy_pair_index i = i div 2"
proof -
  have "i mod 2 = 1 \<Longrightarrow> (i - 1) div 2 = i div 2" by presburger
  then show ?thesis by (simp add: buddy_pair_index_def)
qed

lemma same_pair: "(j div 2 = i div 2) \<longleftrightarrow> (j = i \<or> j = Buddy_Tree.buddy_of i)"
  by (auto simp: buddy_of_def) presburger+

lemma addr_alt: "addr b k i = buddy_base b + 16 * (i * 2 ^ k)"
  by (simp add: addr_def BLK_SIZE_def LEAF_SIZE_def)

lemma addr_halves:
  "addr b k (2 * i) = addr b (Suc k) i"
  "addr b k (Suc (2 * i)) = addr b (Suc k) i + BLK_SIZE k"
  by (simp_all add: addr_alt BLK_SIZE_def LEAF_SIZE_def)

lemma blk_index_addr [simp]: "blk_index b k (addr b k i) = i"
  by (simp add: blk_index_def addr_def BLK_SIZE_def LEAF_SIZE_def)

lemma blk_index_addr_half: "blk_index b k (addr b (Suc k) i) = 2 * i"
  by (metis addr_halves(1) blk_index_addr)

lemma blk_index_parent: "blk_index b (k + d) (addr b k i) = i div 2 ^ d"
proof -
  have "16 * (i * 2 ^ k) div (2 ^ (k + d) * 16) = (i * 2 ^ k) div 2 ^ (k + d)"
    by (simp add: mult.commute [of _ 16])
  also have "\<dots> = i div 2 ^ d" by (simp add: power_add)
  finally show ?thesis by (simp add: blk_index_def addr_alt BLK_SIZE_def LEAF_SIZE_def)
qed

lemma addr_inj: "addr b k i = addr b k j \<longleftrightarrow> i = j"
  by (metis blk_index_addr)

lemma base_cong:
  assumes "buddy_base b' = buddy_base b"
  shows "addr b' = addr b" "freelist b' = freelist b" "blk_index b' = blk_index b"
    "free_addrs b' = free_addrs b"
proof -
  show "addr b' = addr b" "freelist b' = freelist b" "blk_index b' = blk_index b"
    using assms by (auto simp: addr_def freelist_def blk_index_def fun_eq_iff)
  then show "free_addrs b' = free_addrs b" by (simp add: free_addrs_def fun_eq_iff)
qed

lemma lists_update_base [simp]:
  "addr (b\<lparr>lists := h\<rparr>) = addr b" "freelist (b\<lparr>lists := h\<rparr>) = freelist b"
  "blk_index (b\<lparr>lists := h\<rparr>) = blk_index b" "free_addrs (b\<lparr>lists := h\<rparr>) = free_addrs b"
  by (rule base_cong, simp)+

text \<open>Two leaves with the same address are the same block.\<close>

lemma addr_eq_leaf:
  assumes inv: "tree_inv N t" and m: "(k, i) \<in> free t \<union> used t" and n: "(k', i') \<in> free t \<union> used t"
    and eq: "addr b k i = addr b k' i'"
  shows "(k, i) = (k', i')"
proof (rule ccontr)
  assume "(k, i) \<noteq> (k', i')"
  then have "span (k, i) \<inter> span (k', i') = {}" using leaf_disjoint [OF inv m n] by blast
  moreover have "i * 2 ^ k = i' * 2 ^ k'" using eq by (simp add: addr_alt)
  then have "i * 2 ^ k \<in> span (k, i)" "i * 2 ^ k \<in> span (k', i')" by (simp_all add: in_span, metis nonzero_mult_div_cancel_right power_not_zero zero_neq_numeral)
  ultimately show False by blast
qed

lemma freelist_addr: "freelist b k = addr b 0 (2 * k)"
  by (simp add: freelist_def addr_alt)

lemma sep_free:
  assumes inv: "tree_inv N t" and heads: "\<forall>k \<le> N. (0, 2 * k) \<in> used t"
  shows "sep N (freelist b) (free_addrs b t)"
  unfolding sep_def
proof (intro conjI allI impI)
  show "inj_on (freelist b) {..N}" by (auto simp: inj_on_def freelist_def)
next
  fix k k' assume k: "k \<le> N" "k' \<le> N"
  show "freelist b k \<notin> free_addrs b t k'"
  proof
    assume "freelist b k \<in> free_addrs b t k'"
    then obtain i where i: "(k', i) \<in> free t" "addr b 0 (2 * k) = addr b k' i"
      by (auto simp: free_addrs_def freelist_addr)
    have "(0, 2 * k) \<in> used t" using heads k by simp
    then have "(0, 2 * k) = (k', i)" using addr_eq_leaf [OF inv, of 0 "2 * k" k' i b] i by blast
    then show False using tree_invD(6) [OF inv i(1)] \<open>(0, 2 * k) \<in> used t\<close> by simp
  qed
next
  fix k k' assume "k \<le> N" "k' \<le> N" "k \<noteq> k'"
  then show "free_addrs b t k \<inter> free_addrs b t k' = {}"
    using addr_eq_leaf [OF inv, of k _ k' _ b] by (auto simp: free_addrs_def)
qed

lemma repr_sep: "repr N b t \<Longrightarrow> sep N (freelist b) (free_addrs b t)"
  by (simp add: sep_free repr_def)

text \<open>A used block other than the list heads is not on a list and is not a head.\<close>

lemma used_fresh:
  assumes "repr N b t" "(k, i) \<in> used t" "\<forall>j \<le> N. (k, i) \<noteq> (0, 2 * j)" "k' \<le> N"
  shows "addr b k i \<noteq> freelist b k'" "addr b k i \<notin> free_addrs b t k'"
proof -
  note inv = reprD(1) [OF assms(1)]
  show "addr b k i \<noteq> freelist b k'"
    using addr_eq_leaf [OF inv, of k i 0 "2 * k'" b] assms reprD(6) [OF assms(1,4)]
    by (auto simp: freelist_addr)
  show "addr b k i \<notin> free_addrs b t k'"
    using addr_eq_leaf [OF inv, of k i k' _ b] assms(2) tree_invD(7) [OF inv assms(2)]
    by (auto simp: free_addrs_def)
qed

section \<open>Simulation of the abstract steps\<close>

text \<open>Switching the pair bit follows one block becoming busy or idle.\<close>

lemma reprI:
  assumes "tree_inv N t" "shape N b"
    "\<forall>k \<le> N. 0 < k \<longrightarrow> (\<forall>i < 2 ^ (N - k). splitbit b k i = ((k, i) \<in> spl t))"
    "\<forall>k < N. \<forall>i < 2 ^ (N - k). xorbit b k (i div 2) = (busy t k i \<noteq> busy t k (buddy_of i))"
    "rings (lists b) N (freelist b) (free_addrs b t)" "\<forall>k \<le> N. (0, 2 * k) \<in> used t"
  shows "repr N b t"
  using assms unfolding repr_def by (intro conjI)

lemma xor_toggle:
  assumes old: "\<forall>k < N. \<forall>i < 2 ^ (N - k). xorbit b k (i div 2) = (busy t k i \<noteq> busy t k (buddy_of i))"
    and sw: "\<forall>k' \<le> N. \<forall>i' < 2 ^ (N - k'). xorbit b' k' (i' div 2) =
              ((k' = k \<and> i' div 2 = i div 2) \<noteq> xorbit b k' (i' div 2))"
    and tog: "\<And>k' i'. busy t' k' i' = (((k', i') = (k, i)) \<noteq> busy t k' i')"
  shows "\<forall>k < N. \<forall>i < 2 ^ (N - k). xorbit b' k (i div 2) = (busy t' k i \<noteq> busy t' k (buddy_of i))"
proof (intro allI impI)
  fix k' i' assume k': "k' < N" and i': "i' < (2::nat) ^ (N - k')"
  have "xorbit b' k' (i' div 2) = ((k' = k \<and> i' div 2 = i div 2) \<noteq> xorbit b k' (i' div 2))"
    using sw k' i' less_imp_le by blast
  also have "\<dots> = ((k' = k \<and> (i' = i \<or> i' = buddy_of i)) \<noteq>
                   (busy t k' i' \<noteq> busy t k' (buddy_of i')))"
    using old k' i' by (simp only: same_pair)
  also have "\<dots> = (busy t' k' i' \<noteq> busy t' k' (buddy_of i'))"
    by (auto simp: tog)
  finally show "xorbit b' k' (i' div 2) = (busy t' k' i' \<noteq> busy t' k' (buddy_of i'))" .
qed

lemma free_addrs_remove:
  "free_addrs b (t\<lparr>free := free t - {(k, i)}, used := u, spl := s\<rparr>) =
     (free_addrs b t)(k := free_addrs b t k - {addr b k i})"
  by (auto simp: free_addrs_def fun_eq_iff addr_inj)

lemma free_addrs_insert:
  "free_addrs b (t\<lparr>free := insert (k, i) (free t), used := u, spl := s\<rparr>) =
     (free_addrs b t)(k := insert (addr b k i) (free_addrs b t k))"
  by (auto simp: free_addrs_def fun_eq_iff)

lemma repr_take:
  assumes r: "repr N b t" and n: "(k, i) \<in> free t"
  shows "\<exists>b'. xor_switch (b\<lparr>lists := lst_remove (lists b) (addr b k i)\<rparr>) k (i div 2) = Ret b' \<and>
           buddy_base b' = buddy_base b \<and>
           repr N b' (t\<lparr>free := free t - {(k, i)}, used := insert (k, i) (used t)\<rparr>)"
proof -
  let ?b = "b\<lparr>lists := lst_remove (lists b) (addr b k i)\<rparr>"
  let ?t = "t\<lparr>free := free t - {(k, i)}, used := insert (k, i) (used t)\<rparr>"
  note inv = reprD(1) [OF r]
  have ki: "k \<le> N" "i < 2 ^ (N - k)" using tree_invD(1) [OF inv, of k i] n by auto
  obtain b' where b': "xor_switch ?b k (i div 2) = Ret b'" "shape N b'" "lists b' = lists ?b"
    "buddy_base b' = buddy_base b"
    "\<forall>k' \<le> N. \<forall>i' < 2 ^ (N - k'). xorbit b' k' (i' div 2) =
       ((k' = k \<and> i' div 2 = i div 2) \<noteq> xorbit b k' (i' div 2))"
    "\<forall>k' i'. splitbit b' k' i' = splitbit b k' i'"
    using xor_switch_Ret [of N ?b k i] reprD(2) [OF r] ki by auto
  have "rings (lst_remove (lists b) (addr b k i)) N (freelist b)
          ((free_addrs b t)(k := free_addrs b t k - {addr b k i}))"
    using n by (intro rings_remove [OF reprD(5) [OF r] repr_sep [OF r] ki(1)]) (auto simp: free_addrs_def)
  then have "rings (lists b') N (freelist b') (free_addrs b' ?t)"
    using b' free_addrs_remove [of b "spl t" "insert (k, i) (used t)" t k i] by (simp add: base_cong [OF b'(4)])
  moreover have "\<forall>k < N. \<forall>i < 2 ^ (N - k). xorbit b' k (i div 2) = (busy ?t k i \<noteq> busy ?t k (buddy_of i))"
    using r tree_invD(6) [OF inv n] by (intro xor_toggle [OF _ b'(5)]) (auto simp: repr_def busy_def)
  ultimately have "repr N b' ?t"
    using take_inv [OF inv n] b' r by (simp add: repr_def)
  then show ?thesis using b' by blast
qed

lemma split_fresh:
  assumes r: "repr N b t" and n: "(Suc k, i) \<in> used t" and k': "k' \<le> N"
  shows "addr b k (Suc (2 * i)) \<noteq> freelist b k'" "addr b k (Suc (2 * i)) \<notin> free_addrs b t k'"
proof -
  let ?t = "t\<lparr>free := insert (k, Suc (2 * i)) (free t),
               used := insert (k, 2 * i) (used t - {(Suc k, i)}), spl := insert (Suc k, i) (spl t)\<rparr>"
  note inv = reprD(1) [OF r]
  note inv' = split_inv [OF inv n]
  have new: "(k, Suc (2 * i)) \<notin> free t"
    using no_children [OF inv, of k i "Suc (2 * i)"] tree_invD(1,7) [OF inv] n by force
  have head: "(0, 2 * k') \<in> used ?t" using reprD(6) [OF r k'] by simp
  show "addr b k (Suc (2 * i)) \<noteq> freelist b k'"
  proof
    assume "addr b k (Suc (2 * i)) = freelist b k'"
    then have "(k, Suc (2 * i)) = (0, 2 * k')"
      using head by (intro addr_eq_leaf [OF inv', of _ _ _ _ b]) (auto simp: freelist_addr)
    then show False using tree_invD(7) [OF inv' head] by simp
  qed
  show "addr b k (Suc (2 * i)) \<notin> free_addrs b t k'"
  proof
    assume "addr b k (Suc (2 * i)) \<in> free_addrs b t k'"
    then obtain j where j: "(k', j) \<in> free t" "addr b k (Suc (2 * i)) = addr b k' j"
      by (auto simp: free_addrs_def)
    then have "(k, Suc (2 * i)) = (k', j)" by (intro addr_eq_leaf [OF inv', of _ _ _ _ b]) auto
    then show False using j new by simp
  qed
qed

lemma repr_split:
  assumes r: "repr N b t" and n: "(Suc k, i) \<in> used t"
  shows "\<exists>b1 b2. split_set b (Suc k) i = Ret b1 \<and> buddy_base b1 = buddy_base b \<and>
           xor_switch b1 k i = Ret b2 \<and> buddy_base b2 = buddy_base b \<and>
           repr N (b2\<lparr>lists := lst_push (lists b2) (freelist b k) (addr b k (Suc (2 * i)))\<rparr>)
             (t\<lparr>free := insert (k, Suc (2 * i)) (free t),
                used := insert (k, 2 * i) (used t - {(Suc k, i)}), spl := insert (Suc k, i) (spl t)\<rparr>)"
    (is "\<exists>b1 b2. _ \<and> _ \<and> _ \<and> _ \<and> repr N (?b b2) ?t")
proof -
  note inv = reprD(1) [OF r]
  have ki: "Suc k \<le> N" "i < 2 ^ (N - Suc k)" using tree_invD(1) [OF inv, of "Suc k" i] n by auto
  have ns: "(Suc k, i) \<notin> spl t" "(Suc k, i) \<notin> free t" using tree_invD(7) [OF inv n] by auto
  have new: "(k, 2 * i) \<notin> blocks t" "(k, Suc (2 * i)) \<notin> blocks t"
    using no_children [OF inv ns(1)] ki by auto
  obtain b1 where b1: "split_set b (Suc k) i = Ret b1" "shape N b1" "lists b1 = lists b"
    "buddy_base b1 = buddy_base b"
    "\<forall>k' \<le> N. 0 < k' \<longrightarrow> (\<forall>i' < 2 ^ (N - k'). splitbit b1 k' i' =
       ((k' = Suc k \<and> i' = i) \<or> splitbit b k' i'))"
    "\<forall>k' j. xorbit b1 k' j = xorbit b k' j"
    using split_set_Ret [OF reprD(2) [OF r] ki(1) _ ki(2)] by auto
  obtain b2 where b2: "xor_switch b1 k (2 * i div 2) = Ret b2" "shape N b2" "lists b2 = lists b1"
    "buddy_base b2 = buddy_base b1"
    "\<forall>k' \<le> N. \<forall>i' < 2 ^ (N - k'). xorbit b2 k' (i' div 2) =
       ((k' = k \<and> i' div 2 = 2 * i div 2) \<noteq> xorbit b1 k' (i' div 2))"
    "\<forall>k' i'. splitbit b2 k' i' = splitbit b1 k' i'"
    using xor_switch_Ret [OF b1(2), of k "2 * i"] half_bounds [OF ki] ki by auto
  have "rings (lst_push (lists b) (freelist b k) (addr b k (Suc (2 * i)))) N (freelist b)
          ((free_addrs b t)(k := insert (addr b k (Suc (2 * i))) (free_addrs b t k)))"
    using split_fresh [OF r n] ki
    by (intro rings_push [OF reprD(5) [OF r] repr_sep [OF r]]) auto
  then have "rings (lists (?b b2)) N (freelist (?b b2)) (free_addrs (?b b2) ?t)"
    using b1 b2 free_addrs_insert [of b "insert (Suc k, i) (spl t)"
        "insert (k, 2 * i) (used t - {(Suc k, i)})" k "Suc (2 * i)" t]
    by (simp add: base_cong [OF b2(4)] base_cong [OF b1(4)])
  moreover have "\<forall>k < N. \<forall>i < 2 ^ (N - k). xorbit b2 k (i div 2) = (busy ?t k i \<noteq> busy ?t k (buddy_of i))"
    using r b1(6) new n by (intro xor_toggle [OF _ b2(5)]) (auto simp: repr_def busy_def)
  moreover have "\<forall>k \<le> N. 0 < k \<longrightarrow> (\<forall>i < 2 ^ (N - k). splitbit b2 k i = ((k, i) \<in> spl ?t))"
    using b1(5) b2(6) r by (auto simp: repr_def)
  ultimately have "repr N (?b b2) ?t"
    using split_inv [OF inv n] b1 b2 r by (simp add: repr_def)
  then show ?thesis using b1 b2 by auto
qed

text \<open>
  One round of the loop of \<open>buddy_free\<close> up to the test: the pair bit is switched, and is then set
  exactly if the buddy is in use.
\<close>

lemma repr_switch:
  assumes r: "repr N b t" and n: "(k, i) \<in> used t" and k: "k < N"
  shows "\<exists>b1. xor_switch b k (i div 2) = Ret b1 \<and> shape N b1 \<and> lists b1 = lists b \<and>
           buddy_base b1 = buddy_base b \<and>
           (\<forall>k' \<le> N. \<forall>i' < 2 ^ (N - k'). xorbit b1 k' (i' div 2) =
              ((k' = k \<and> i' div 2 = i div 2) \<noteq> xorbit b k' (i' div 2))) \<and>
           (\<forall>k' i'. splitbit b1 k' i' = splitbit b k' i') \<and>
           xor_is_set b1 k (i div 2) = Ret ((k, buddy_of i) \<notin> free t)"
proof -
  note inv = reprD(1) [OF r]
  have i: "i < 2 ^ (N - k)" using tree_invD(1) [OF inv, of k i] n by auto
  have "busy t k i" using n by (simp add: busy_def)
  moreover have "busy t k (buddy_of i) \<longleftrightarrow> (k, buddy_of i) \<notin> free t"
    using buddy_in_blocks [OF inv _ k, of i] n tree_invD(6) [OF inv] by (auto simp: busy_def)
  ultimately show ?thesis
    using xor_switch_Ret [OF reprD(2) [OF r] less_imp_le [OF k] i] reprD(4) [OF r k i] i k
    by (auto simp: xor_is_set_Ret)
qed

lemma repr_merge:
  assumes r: "repr N b t" and n: "(k, i) \<in> used t" and k: "k < N"
    and head: "\<forall>j \<le> N. (k, i) \<noteq> (0, 2 * j)" and f: "(k, buddy_of i) \<in> free t"
    and b1: "shape N b1" "lists b1 = lists b" "buddy_base b1 = buddy_base b"
      "\<forall>k' \<le> N. \<forall>i' < 2 ^ (N - k'). xorbit b1 k' (i' div 2) =
         ((k' = k \<and> i' div 2 = i div 2) \<noteq> xorbit b k' (i' div 2))"
      "\<forall>k' i'. splitbit b1 k' i' = splitbit b k' i'"
  shows "\<exists>b3. split_clear (b1\<lparr>lists := lst_remove (lists b1) (addr b k (buddy_of i))\<rparr>) (Suc k) (i div 2) = Ret b3 \<and>
           buddy_base b3 = buddy_base b \<and>
           repr N b3 (t\<lparr>free := free t - {(k, buddy_of i)},
                        used := insert (Suc k, i div 2) (used t - {(k, i)}),
                        spl := spl t - {(Suc k, i div 2)}\<rparr>)"
    (is "\<exists>b3. _ \<and> _ \<and> repr N b3 ?t")
proof -
  let ?b = "b1\<lparr>lists := lst_remove (lists b1) (addr b k (buddy_of i))\<rparr>"
  note inv = reprD(1) [OF r]
  have par: "(Suc k, i div 2) \<in> spl t" using tree_invD(5) [OF inv _ k, of i] n by simp
  then have i: "i div 2 < 2 ^ (N - Suc k)" using tree_invD(1) [OF inv, of "Suc k" "i div 2"] by auto
  obtain b3 where b3: "split_clear ?b (Suc k) (i div 2) = Ret b3" "shape N b3" "lists b3 = lists ?b"
    "buddy_base b3 = buddy_base b1"
    "\<forall>k' \<le> N. 0 < k' \<longrightarrow> (\<forall>i' < 2 ^ (N - k'). splitbit b3 k' i' =
       (\<not> (k' = Suc k \<and> i' = i div 2) \<and> splitbit b1 k' i'))"
    "\<forall>k' j. xorbit b3 k' j = xorbit b1 k' j"
    using split_clear_Ret [of N ?b "Suc k" "i div 2"] b1(1) k i by auto
  have "rings (lst_remove (lists b) (addr b k (buddy_of i))) N (freelist b)
          ((free_addrs b t)(k := free_addrs b t k - {addr b k (buddy_of i)}))"
    using f k by (intro rings_remove [OF reprD(5) [OF r] repr_sep [OF r]]) (auto simp: free_addrs_def)
  then have ri: "rings (lists b3) N (freelist b3) (free_addrs b3 ?t)"
    using b1 b3 free_addrs_remove [of b "spl t - {(Suc k, i div 2)}"
        "insert (Suc k, i div 2) (used t - {(k, i)})" t k "buddy_of i"]
    by (simp add: base_cong [OF b3(4)] base_cong [OF b1(3)])
  have xs: "\<forall>k' \<le> N. \<forall>i' < 2 ^ (N - k'). xorbit b3 k' (i' div 2) =
      ((k' = k \<and> i' div 2 = i div 2) \<noteq> xorbit b k' (i' div 2))"
  proof (intro allI impI)
    fix k' i' assume "k' \<le> N" "i' < (2::nat) ^ (N - k')"
    then show "xorbit b3 k' (i' div 2) = ((k' = k \<and> i' div 2 = i div 2) \<noteq> xorbit b k' (i' div 2))"
      using b1(4) [rule_format, of k' i'] b3(6) [rule_format, of k' "i' div 2"] by (simp only:)
  qed
  have xo: "\<forall>k < N. \<forall>i < 2 ^ (N - k). xorbit b3 k (i div 2) = (busy ?t k i \<noteq> busy ?t k (buddy_of i))"
    using r n par tree_invD(7) [OF inv n] tree_invD(8) [OF inv par]
    by (intro xor_toggle [OF _ xs]) (auto simp: repr_def busy_def)
  have "\<forall>k \<le> N. 0 < k \<longrightarrow> (\<forall>i < 2 ^ (N - k). splitbit b3 k i = ((k, i) \<in> spl ?t))"
    using b1(5) b3(5) r by (auto simp: repr_def)
  then have "repr N b3 ?t"
    using merge_inv [OF inv n k f] b3(2) ri xo reprD(6) [OF r] head by (intro reprI) auto
  then show ?thesis using b1 b3 by auto
qed

text \<open>Putting the block on the free list of its size, with the pair bit switched below the top.\<close>

lemma repr_release:
  assumes r: "repr N b t" and n: "(k, i) \<in> used t" and head: "\<forall>j \<le> N. (k, i) \<noteq> (0, 2 * j)"
    and nf: "k < N \<longrightarrow> (k, buddy_of i) \<notin> free t"
    and b1: "shape N b1" "lists b1 = lists b" "buddy_base b1 = buddy_base b"
      "k < N \<longrightarrow> (\<forall>k' \<le> N. \<forall>i' < 2 ^ (N - k'). xorbit b1 k' (i' div 2) =
         ((k' = k \<and> i' div 2 = i div 2) \<noteq> xorbit b k' (i' div 2)))"
      "k = N \<longrightarrow> (\<forall>k' j. xorbit b1 k' j = xorbit b k' j)"
      "\<forall>k' i'. splitbit b1 k' i' = splitbit b k' i'"
  shows "repr N (b1\<lparr>lists := lst_push (lists b1) (freelist b1 k) (addr b k i)\<rparr>)
           (t\<lparr>free := insert (k, i) (free t), used := used t - {(k, i)}\<rparr>)"
    (is "repr N ?b ?t")
proof -
  note inv = reprD(1) [OF r]
  have k: "k \<le> N" using tree_invD(1) [OF inv, of k i] n by auto
  have "rings (lst_push (lists b) (freelist b k) (addr b k i)) N (freelist b)
          ((free_addrs b t)(k := insert (addr b k i) (free_addrs b t k)))"
    using used_fresh [OF r n head] by (intro rings_push [OF reprD(5) [OF r] repr_sep [OF r] k]) auto
  then have "rings (lists ?b) N (freelist ?b) (free_addrs ?b ?t)"
    using b1(2) free_addrs_insert [of b "spl t" "used t - {(k, i)}" k i t]
    by (simp add: base_cong [OF b1(3)])
  moreover have "\<forall>k < N. \<forall>i < 2 ^ (N - k). xorbit b1 k (i div 2) = (busy ?t k i \<noteq> busy ?t k (buddy_of i))"
  proof (cases "k = N")
    case True
    then show ?thesis using r b1(5) by (auto simp: repr_def busy_def)
  next
    case False
    then have "k < N" using k by simp
    then show ?thesis
      using r n tree_invD(7) [OF inv n]
      by (intro xor_toggle [OF _ b1(4) [THEN mp]]) (auto simp: repr_def busy_def)
  qed
  moreover have "\<forall>k \<le> N. 0 < k \<longrightarrow> (\<forall>i < 2 ^ (N - k). splitbit b1 k i = ((k, i) \<in> spl ?t))"
    using b1(6) r by (auto simp: repr_def)
  ultimately show ?thesis
    using release_inv [OF inv n nf] b1(1) reprD(6) [OF r] head by (intro reprI) auto
qed

section \<open>The loops\<close>

lemma split_loop_correct:
  "\<lbrakk> repr N b t; (k, i) \<in> used t; fk \<le> k \<rbrakk> \<Longrightarrow>
   \<exists>b' t'. split_loop b fk k (addr b k i) = Ret b' \<and> buddy_base b' = buddy_base b \<and> repr N b' t' \<and>
     (buddy_step N)\<^sup>*\<^sup>* t t' \<and> used t' = insert (fk, i * 2 ^ (k - fk)) (used t - {(k, i)})"
proof (induction k arbitrary: b t i)
  case 0
  then show ?case by (subst split_loop.simps) auto
next
  case (Suc k)
  note inv = reprD(1) [OF Suc.prems(1)]
  show ?case
  proof (cases "Suc k = fk")
    case True
    then show ?thesis using Suc.prems by (subst split_loop.simps) auto
  next
    case False
    then have fk: "fk \<le> k" "fk < Suc k" using Suc.prems(3) by auto
    let ?t = "t\<lparr>free := insert (k, Suc (2 * i)) (free t),
                 used := insert (k, 2 * i) (used t - {(Suc k, i)}), spl := insert (Suc k, i) (spl t)\<rparr>"
    obtain b1 b2 where b1: "split_set b (Suc k) i = Ret b1" "buddy_base b1 = buddy_base b"
      and b2: "xor_switch b1 k i = Ret b2" "buddy_base b2 = buddy_base b"
      and r: "repr N (b2\<lparr>lists := lst_push (lists b2) (freelist b k) (addr b k (Suc (2 * i)))\<rparr>) ?t"
      (is "repr N ?b _")
      using repr_split [OF Suc.prems(1,2)] by blast
    have "split_loop b fk (Suc k) (addr b (Suc k) i) = split_loop ?b fk k (addr b (Suc k) i)"
      using b1 b2 fk(2) addr_halves(2) [of b k i]
      by (subst split_loop.simps)
         (simp add: Let_def pair_index_half blk_index_addr_half base_cong [OF b1(2)] base_cong [OF b2(2)])
    moreover have "addr b (Suc k) i = addr ?b k (2 * i)"
      by (simp add: addr_halves(1) base_cong [OF b2(2)])
    ultimately have eq: "split_loop b fk (Suc k) (addr b (Suc k) i) = split_loop ?b fk k (addr ?b k (2 * i))"
      by (simp only:)
    obtain b' t' where b': "split_loop ?b fk k (addr ?b k (2 * i)) = Ret b'" "buddy_base b' = buddy_base ?b"
      "repr N b' t'" "(buddy_step N)\<^sup>*\<^sup>* ?t t'"
      "used t' = insert (fk, 2 * i * 2 ^ (k - fk)) (used ?t - {(k, 2 * i)})"
      using Suc.IH [OF r _ fk(1), of "2 * i"] by auto
    have "(k, 2 * i) \<notin> used t"
      using no_children [OF inv, of k i "2 * i"] tree_invD(1,7) [OF inv] Suc.prems(2) by force
    then have "used t' = insert (fk, i * 2 ^ (Suc k - fk)) (used t - {(Suc k, i)})"
      using b'(5) fk by (auto simp: Suc_diff_le)
    moreover have "(buddy_step N)\<^sup>*\<^sup>* t t'"
      using buddy_step.split [OF Suc.prems(2), of N] b'(4) by (rule converse_rtranclp_into_rtranclp)
    ultimately show ?thesis using eq b' b2(2) by auto
  qed
qed

lemma merge_loop_correct:
  "\<lbrakk> repr N b t; (k, i) \<in> used t; \<forall>j \<le> N. (k, i) \<noteq> (0, 2 * j) \<rbrakk> \<Longrightarrow>
   \<exists>b' k' p' t'. merge_loop b k (addr b k i) = Ret (b', k', p') \<and> buddy_base b' = buddy_base b \<and>
     repr N (b'\<lparr>lists := lst_push (lists b') (freelist b' k') p'\<rparr>) t' \<and>
     (buddy_step N)\<^sup>*\<^sup>* t t' \<and> used t' = used t - {(k, i)}"
proof (induction "N - k" arbitrary: b t k i)
  case 0
  have "k = N" using tree_invD(1) [OF reprD(1) [OF 0(2)], of k i] 0 by auto
  moreover have "shape N b" using 0(2) by (rule reprD)
  ultimately have "merge_loop b k (addr b k i) = Ret (b, k, addr b k i)"
    by (subst merge_loop.simps) simp
  moreover have "repr N (b\<lparr>lists := lst_push (lists b) (freelist b k) (addr b k i)\<rparr>)
      (t\<lparr>free := insert (k, i) (free t), used := used t - {(k, i)}\<rparr>)"
    using \<open>k = N\<close> \<open>shape N b\<close> by (intro repr_release [OF 0(2,3,4)]) auto
  moreover have "buddy_step N t (t\<lparr>free := insert (k, i) (free t), used := used t - {(k, i)}\<rparr>)"
    using \<open>k = N\<close> by (intro buddy_step.release [OF 0(3)]) auto
  ultimately show ?case by fastforce
next
  case (Suc d)
  then have k: "k < N" and d: "d = N - Suc k" by simp_all
  note inv = reprD(1) [OF Suc(3)]
  obtain b1 where b1: "xor_switch b k (i div 2) = Ret b1" "shape N b1" "lists b1 = lists b"
      "buddy_base b1 = buddy_base b"
      "\<forall>k' \<le> N. \<forall>i' < 2 ^ (N - k'). xorbit b1 k' (i' div 2) =
              ((k' = k \<and> i' div 2 = i div 2) \<noteq> xorbit b k' (i' div 2))"
      "\<forall>k' i'. splitbit b1 k' i' = splitbit b k' i'"
    and x: "xor_is_set b1 k (i div 2) = Ret ((k, buddy_of i) \<notin> free t)"
    using repr_switch [OF Suc(3,4) k] by blast
  have max: "MAXSIZE b = N" using reprD(2) [OF Suc(3)] by simp
  show ?case
  proof (cases "(k, buddy_of i) \<in> free t")
    case False
    then have "merge_loop b k (addr b k i) = Ret (b1, k, addr b k i)"
      using k b1(1) x max by (subst merge_loop.simps) (simp add: pair_index_half)
    moreover have "repr N (b1\<lparr>lists := lst_push (lists b1) (freelist b1 k) (addr b k i)\<rparr>)
        (t\<lparr>free := insert (k, i) (free t), used := used t - {(k, i)}\<rparr>)"
      by (rule repr_release [OF Suc(3,4,5) _ b1(2-4) impI [OF b1(5)] _ b1(6)]) (use False k in auto)
    moreover have "buddy_step N t (t\<lparr>free := insert (k, i) (free t), used := used t - {(k, i)}\<rparr>)"
      using False by (intro buddy_step.release [OF Suc(4)]) auto
    ultimately show ?thesis using b1(4) by fastforce
  next
    case True
    let ?q = "addr b k (buddy_of i)"
    let ?t = "t\<lparr>free := free t - {(k, buddy_of i)}, used := insert (Suc k, i div 2) (used t - {(k, i)}),
                 spl := spl t - {(Suc k, i div 2)}\<rparr>"
    obtain b3 where b3: "split_clear (b1\<lparr>lists := lst_remove (lists b1) ?q\<rparr>) (Suc k) (i div 2) = Ret b3"
      "buddy_base b3 = buddy_base b" and r: "repr N b3 ?t"
      using repr_merge [OF Suc(3,4) k Suc(5) True b1(2-6)] by blast
    have p': "(if buddy_of i mod 2 = 0 then ?q else addr b k i) = addr b (Suc k) (i div 2)"
    proof (cases "even i")
      case True
      then obtain j where "i = 2 * j" by (elim evenE)
      then show ?thesis by (simp add: addr_halves(1))
    next
      case False
      then obtain j where "i = Suc (2 * j)" by (auto elim: oddE)
      then show ?thesis by (simp add: addr_halves(1))
    qed
    have "merge_loop b k (addr b k i) = merge_loop b3 (Suc k) (addr b (Suc k) (i div 2))"
      using k b1(1) x max True b3(1) p'
      by (subst merge_loop.simps) (simp add: pair_index_half Let_def base_cong [OF b1(4)])
    then have eq: "merge_loop b k (addr b k i) = merge_loop b3 (Suc k) (addr b3 (Suc k) (i div 2))"
      by (simp add: base_cong [OF b3(2)])
    obtain b' k' p' t' where b': "merge_loop b3 (Suc k) (addr b3 (Suc k) (i div 2)) = Ret (b', k', p')"
      "buddy_base b' = buddy_base b3" "repr N (b'\<lparr>lists := lst_push (lists b') (freelist b' k') p'\<rparr>) t'"
      "(buddy_step N)\<^sup>*\<^sup>* ?t t'" "used t' = used ?t - {(Suc k, i div 2)}"
      using Suc(1) [OF d r, of "i div 2"] by auto
    have "(Suc k, i div 2) \<notin> used t"
      using tree_invD(5) [OF inv _ k, of i] tree_invD(8) [OF inv] Suc(4) by auto
    then have "used t' = used t - {(k, i)}" using b'(5) by auto
    moreover have "(buddy_step N)\<^sup>*\<^sup>* t t'"
      using buddy_step.merge [OF Suc(4) k True] b'(4) by (rule converse_rtranclp_into_rtranclp)
    ultimately show ?thesis using eq b' b3(2) by auto
  qed
qed

lemma size_loop_correct:
  assumes r: "repr N b t" and n: "(k, i) \<in> used t" and k: "k < N"
  shows "j \<le> k \<Longrightarrow> size_loop b j (addr b k i) = Ret k"
proof (induction "k - j" arbitrary: j)
  case 0
  then have "j = k" by simp
  note inv = reprD(1) [OF r]
  have s: "(Suc k, i div 2) \<in> spl t" using tree_invD(5) [OF inv _ k, of i] n by simp
  then have "i div 2 < 2 ^ (N - Suc k)" using tree_invD(1) [OF inv, of "Suc k" "i div 2"] by simp
  then have "split_is_set b (Suc k) (i div 2) = Ret True"
    using split_is_set_Ret [OF reprD(2) [OF r], of "Suc k" "i div 2"] reprD(3) [OF r, of "Suc k" "i div 2"] k s
    by simp
  then show ?case
    using \<open>j = k\<close> reprD(2) [OF r] blk_index_parent [of b k 1 i] k
    by (subst size_loop.simps) (simp add: shape_def)
next
  case (Suc d)
  then obtain e where e: "k = Suc j + e" by (metis add_Suc_right add_Suc_shift le_iff_add less_imp_Suc_add zero_less_Suc zero_less_diff)
  note inv = reprD(1) [OF r]
  let ?i = "i * 2 ^ e"
  have ix: "blk_index b (Suc j) (addr b k i) = ?i"
  proof -
    have "addr b k i = addr b (Suc j) ?i" by (simp add: addr_alt e power_add)
    then show ?thesis by simp
  qed
  have i: "i < 2 ^ (N - k)" using tree_invD(1) [OF inv, of k i] n by simp
  have "N - Suc j = (N - k) + e" using e k by simp
  then have lt: "?i < 2 ^ (N - Suc j)" using i by (simp add: power_add)
  have ns: "(Suc j, ?i) \<notin> spl t"
  proof
    assume s: "(Suc j, ?i) \<in> spl t"
    have "(k, i) \<in> spl t"
    proof (cases e)
      case 0
      then show ?thesis using s e by simp
    next
      case (Suc e')
      then show ?thesis using ancestor_split [OF inv, of "Suc j" ?i e'] s e k by simp
    qed
    then show False using tree_invD(8) [OF inv] n by blast
  qed
  have "split_is_set b (Suc j) ?i = Ret False"
    using split_is_set_Ret [OF reprD(2) [OF r], of "Suc j" ?i] reprD(3) [OF r, of "Suc j" ?i] lt ns e k by simp
  then have "size_loop b j (addr b k i) = size_loop b (Suc j) (addr b k i)"
    using reprD(2) [OF r] ix e k by (subst size_loop.simps) (simp add: shape_def)
  then show ?case using Suc(1) [of "Suc j"] Suc(2) e by simp
qed

lemma block_size_correct:
  "\<lbrakk> repr N b t; (k, i) \<in> used t; k < N \<rbrakk> \<Longrightarrow> block_size b (addr b k i) = Ret k"
  by (simp add: block_size_def size_loop_correct)

lemma free_list_empty:
  "repr N b t \<Longrightarrow> k \<le> N \<Longrightarrow> lst_empty (lists b) (freelist b k) \<longleftrightarrow> (\<forall>i. (k, i) \<notin> free t)"
  using rings_empty [OF reprD(5), of N b t k] by (auto simp: free_addrs_def)

lemma find_group_correct:
  assumes r: "repr N b t"
  shows "fk \<le> find_group b fk \<and> (\<forall>j i. fk \<le> j \<longrightarrow> j < find_group b fk \<longrightarrow> (j, i) \<notin> free t) \<and>
    (find_group b fk \<le> N \<longrightarrow> (\<exists>i. (find_group b fk, i) \<in> free t))"
proof (induction "Suc N - fk" arbitrary: fk)
  case 0
  then show ?case using reprD(2) [OF r] by (subst (1 2 3 4) find_group.simps) (auto simp: shape_def)
next
  case (Suc d)
  then have fk: "fk \<le> N" "d = Suc N - Suc fk" by auto
  note IH = Suc(1) [OF fk(2)]
  show ?case
  proof (cases "lst_empty (lists b) (freelist b fk)")
    case True
    then have "find_group b fk = find_group b (Suc fk)"
      using reprD(2) [OF r] fk by (subst find_group.simps) (simp add: shape_def)
    moreover have "\<forall>i. (fk, i) \<notin> free t" using free_list_empty [OF r fk(1)] True by simp
    ultimately show ?thesis using IH by (metis Suc_leD Suc_leI le_neq_implies_less)
  next
    case False
    then have "find_group b fk = fk" by (subst find_group.simps) simp
    then show ?thesis using free_list_empty [OF r fk(1)] False by auto
  qed
qed

section \<open>The size class of a request\<close>

lemma unat_pow2_64: "unat (2 ^ j :: u64) = (if j < 64 then 2 ^ j else 0)"
proof -
  have eq: "unat (2 ^ j :: u64) = 2 ^ j mod 2 ^ 64"
    using unat_of_nat [of "2 ^ j", where ?'a = 64] by simp
  show ?thesis
  proof (cases "j < 64")
    case True
    then have "(2::nat) ^ j < 2 ^ 64" by (intro power_strict_increasing) auto
    then show ?thesis using True eq by (simp only: mod_less if_True)
  next
    case False
    then have "(2::nat) ^ 64 dvd 2 ^ j" by (intro le_imp_power_dvd) simp
    then show ?thesis using False eq by (simp only: dvd_imp_mod_0 if_False)
  qed
qed

lemma firstk_loop_Some:
  assumes n: "unat n \<le> 2 ^ 63"
  shows "\<lbrakk> k < 60; k = 0 \<or> 2 ^ (k + 3) < unat n \<rbrakk> \<Longrightarrow>
    \<exists>r. firstk_loop n (2 ^ (k + 4)) k = Some r \<and> r < 60 \<and> unat n \<le> 16 * 2 ^ r \<and>
       (r = 0 \<or> 16 * 2 ^ (r - 1) < unat n)"
proof (induction "59 - k" arbitrary: k)
  case 0
  then have "k = 59" by simp
  have "\<not> (2::u64) ^ (k + 4) < n"
    using n unat_pow2_64 [of 63] by (simp add: \<open>k = 59\<close> word_less_nat_alt)
  then show ?case using 0 n by (subst firstk_loop.simps) (auto simp: \<open>k = 59\<close>)
next
  case (Suc d)
  show ?case
  proof (cases "(2::u64) ^ (k + 4) < n")
    case True
    then have "2 ^ (k + 4) < unat n"
      using unat_pow2_64 [of "k + 4"] Suc(3) Suc(2) by (simp add: word_less_nat_alt)
    then have "2 ^ (Suc k + 3) < unat n" by (simp add: power_add)
    moreover have "firstk_loop n (2 ^ (k + 4)) k = firstk_loop n (2 ^ (Suc k + 4)) (Suc k)"
      using True by (subst firstk_loop.simps) (simp add: power_add mult.commute)
    ultimately show ?thesis using Suc(1) [of "Suc k"] Suc(2) by simp
  next
    case False
    then have "unat n \<le> 2 ^ (k + 4)"
      using unat_pow2_64 [of "k + 4"] Suc(3) by (simp add: word_less_nat_alt)
    then have "unat n \<le> 16 * 2 ^ k" by (simp add: power_add)
    moreover have "firstk_loop n (2 ^ (k + 4)) k = Some k"
      using False by (subst firstk_loop.simps) simp
    moreover have "k = 0 \<or> 16 * 2 ^ (k - 1) < unat n"
      using Suc(4) by (cases k) (auto simp: power_add)
    ultimately show ?thesis using Suc(3) by auto
  qed
qed

lemma firstk_loop_None:
  assumes "firstk_loop n sz k = Some r"
  shows "2 ^ 63 < unat n \<longrightarrow> (\<forall>j. sz \<noteq> 2 ^ j)"
proof (rule firstk_loop.raw_induct [OF _ assms], intro allI impI notI)
  fix loop n sz k r j
  assume IH: "\<And>n sz k r. loop n sz k = Some r \<Longrightarrow> 2 ^ 63 < unat n \<longrightarrow> (\<forall>j. sz \<noteq> 2 ^ j)"
    and body: "(if sz < n then loop n (sz * 2) (Suc k) else Some k) = Some r"
    and n: "2 ^ 63 < unat (n :: u64)" and j: "sz = (2::u64) ^ j"
  have "unat sz \<le> 2 ^ 63"
    using unat_pow2_64 [of j] power_increasing [of j 63 "2::nat"] j by (auto split: if_splits)
  then have "sz < n" using n by (simp add: word_less_nat_alt)
  then have "loop n (sz * 2) (Suc k) = Some r" using body by simp
  then have "sz * 2 \<noteq> 2 ^ Suc j" using IH n by blast
  then show False using j by simp
qed

text \<open>
  \<open>firstk\<close> gives the least size that fits the request, and does not end for requests above
  \<open>2 ^ 63\<close> bytes: \<open>size\<close> goes from \<open>2 ^ 63\<close> to 0 and stays there.
\<close>

lemma firstk_correct:
  assumes "unat n \<le> 2 ^ 63"
  shows "\<exists>k. firstk n = Some k \<and> k < 60 \<and> unat n \<le> BLK_SIZE k \<and> (\<forall>j. unat n \<le> BLK_SIZE j \<longrightarrow> k \<le> j)"
proof -
  obtain r where r: "firstk n = Some r" "r < 60" "unat n \<le> 16 * 2 ^ r"
    "r = 0 \<or> 16 * 2 ^ (r - 1) < unat n"
    using firstk_loop_Some [OF assms, of 0] by (auto simp: firstk_def)
  moreover have "r \<le> j" if "unat n \<le> BLK_SIZE j" for j
  proof (rule ccontr)
    assume "\<not> r \<le> j"
    then have "j \<le> r - 1" "r \<noteq> 0" by auto
    then have "16 * (2::nat) ^ j \<le> 16 * 2 ^ (r - 1)" by (intro mult_le_mono2 power_increasing) auto
    also have "\<dots> < unat n" using r(4) \<open>r \<noteq> 0\<close> by simp
    finally show False using that by (simp add: BLK_SIZE_def LEAF_SIZE_def)
  qed
  ultimately show ?thesis by (auto simp: BLK_SIZE_def LEAF_SIZE_def)
qed

lemma firstk_diverges:
  assumes "2 ^ 63 < unat n"
  shows "firstk n = None"
proof (rule ccontr)
  assume "firstk n \<noteq> None"
  then obtain r where "firstk_loop n (2 ^ 4) 0 = Some r" by (auto simp: firstk_def)
  then show False using firstk_loop_None assms by blast
qed

section \<open>Allocation and freeing\<close>

text \<open>
  A request that some free block can serve gets the first part of a block that was free; the
  abstract allocator reaches the new state by its own steps, and exactly the returned block becomes
  used. Otherwise the result is the null pointer and nothing changes.
\<close>

lemma buddy_malloc_some:
  assumes r: "repr N b t" and fk: "firstk n = Some fk" and ex: "\<exists>k i. fk \<le> k \<and> (k, i) \<in> free t"
  shows "\<exists>b' t' k i. buddy_malloc b n = Ret (addr b fk i, b') \<and> buddy_base b' = buddy_base b \<and>
    repr N b' t' \<and> (buddy_step N)\<^sup>*\<^sup>* t t' \<and> (k, i div 2 ^ (k - fk)) \<in> free t \<and> fk \<le> k \<and>
    (fk, i) \<notin> used t \<and> used t' = insert (fk, i) (used t)"
proof -
  note inv = reprD(1) [OF r]
  let ?k = "find_group b fk"
  note fg = find_group_correct [OF r, of fk]
  obtain k0 i0 where k0: "fk \<le> k0" "(k0, i0) \<in> free t" using ex by blast
  have "k0 \<le> N" using tree_invD(1) [OF inv, of k0 i0] k0 by simp
  moreover have "?k \<le> k0" using fg k0 by (meson not_le)
  ultimately have k: "?k \<le> N" by simp
  then have ne: "free_addrs b t ?k \<noteq> {}" using fg by (auto simp: free_addrs_def)
  obtain p where p: "p \<in> free_addrs b t ?k"
    "lst_pop (lists b) (freelist b ?k) = Ret (p, lst_remove (lists b) p)"
    using rings_pop [OF reprD(5) [OF r] k ne] by blast
  then obtain i where i: "(?k, i) \<in> free t" "p = addr b ?k i" by (auto simp: free_addrs_def)
  let ?t = "t\<lparr>free := free t - {(?k, i)}, used := insert (?k, i) (used t)\<rparr>"
  obtain b2 where b2: "xor_switch (b\<lparr>lists := lst_remove (lists b) p\<rparr>) ?k (i div 2) = Ret b2"
    "buddy_base b2 = buddy_base b" "repr N b2 ?t"
    using repr_take [OF r i(1)] i(2) by blast
  obtain b' t' where b': "split_loop b2 fk ?k (addr b2 ?k i) = Ret b'" "buddy_base b' = buddy_base b2"
    "repr N b' t'" "(buddy_step N)\<^sup>*\<^sup>* ?t t'"
    "used t' = insert (fk, i * 2 ^ (?k - fk)) (used ?t - {(?k, i)})"
    using split_loop_correct [OF b2(3), of ?k i fk] fg by auto
  have nu: "(?k, i) \<notin> used t" "(?k, i) \<notin> spl t" using tree_invD(6) [OF inv i(1)] by auto
  have eq: "p = addr b fk (i * 2 ^ (?k - fk))"
    using i(2) fg by (simp add: addr_alt flip: power_add)
  have "buddy_malloc b n = Ret (p, b')"
    using fk k p b2 b' i reprD(2) [OF r]
    by (simp add: buddy_malloc_def shape_def Let_def pair_index_half base_cong [OF b2(2)])
  moreover have "(buddy_step N)\<^sup>*\<^sup>* t t'"
    using buddy_step.take [OF i(1), of N] b'(4) by (rule converse_rtranclp_into_rtranclp)
  moreover have "(fk, i * 2 ^ (?k - fk)) \<notin> used t"
  proof
    assume u: "(fk, i * 2 ^ (?k - fk)) \<in> used t"
    have "(fk, i * 2 ^ (?k - fk)) = (?k, i)"
      by (rule addr_eq_leaf [OF inv, where b = b]) (use u i eq in auto)
    then show False using nu u by simp
  qed
  moreover have "used t' = insert (fk, i * 2 ^ (?k - fk)) (used t)" using b'(5) nu by auto
  moreover have "i * 2 ^ (?k - fk) div 2 ^ (?k - fk) = i" by simp
  ultimately show ?thesis using b'(2,3) b2(2) i(1) fg eq by (metis (no_types, lifting))
qed

lemma buddy_malloc_none:
  assumes r: "repr N b t" and fk: "firstk n = Some fk" and ex: "\<forall>k i. fk \<le> k \<longrightarrow> (k, i) \<notin> free t"
  shows "buddy_malloc b n = Ret (nullptr, b)"
  using find_group_correct [OF r, of fk] ex fk reprD(2) [OF r]
  by (auto simp: buddy_malloc_def shape_def Let_def not_less_eq_eq)

text \<open>
  Freeing a used block below the top size never faults and removes exactly this block from the
  used ones; merging with free buddies is part of the steps.
\<close>

lemma used_below_top:
  assumes r: "repr N b t" and n: "(k, i) \<in> used t" and N: "0 < N"
  shows "k < N"
proof (rule ccontr)
  note inv = reprD(1) [OF r]
  assume "\<not> k < N"
  then have ki: "k = N" "i = 0" using tree_invD(1) [OF inv, of k i] n by auto
  have "(0, 0) \<in> used t" using reprD(6) [OF r, of 0] by simp
  then have "(k, i) = (0, 0)"
    using n ki by (intro addr_eq_leaf [OF inv, where b = b]) (auto simp: addr_def)
  then show False using ki N by simp
qed

lemma buddy_free_used:
  assumes r: "repr N b t" and n: "(k, i) \<in> used t" and N: "0 < N"
    and head: "\<forall>j \<le> N. (k, i) \<noteq> (0, 2 * j)"
  shows "\<exists>b' t'. buddy_free b (addr b k i) = Ret b' \<and> buddy_base b' = buddy_base b \<and> repr N b' t' \<and>
    (buddy_step N)\<^sup>*\<^sup>* t t' \<and> used t' = used t - {(k, i)}"
  using merge_loop_correct [OF r n head] block_size_correct [OF r n used_below_top [OF r n N]]
  by (fastforce simp: buddy_free_def)

text \<open>The representation does not depend on how the sets of the tree were reached.\<close>

lemma repr_unique: "repr N b t \<Longrightarrow> tree_inv N t' \<Longrightarrow> used t = used t' \<Longrightarrow> repr N b t'"
proof -
  assume r: "repr N b t" and inv: "tree_inv N t'" and u: "used t = used t'"
  note eq = tree_unique [OF reprD(1) [OF r] inv u]
  have "busy t = busy t'" "free_addrs b t = free_addrs b t'"
    by (simp_all add: busy_def free_addrs_def eq u fun_eq_iff)
  then show ?thesis using r inv u eq(2) by (simp add: repr_def)
qed

end
