(* ===== verification/Buddy_Init.thy ===== *)
theory Buddy_Init
  imports Buddy_Correct
begin

text \<open>
  Initialisation of the buddy allocator (\<open>buddy_init\<close> and its helpers in
  \<^verbatim>\<open>src/kernel/alloc/buddy.c\<close>).

  \<open>buddy_init\<close> lays out its tables at the start of the managed memory, marks the tables and the
  part of the last power of two beyond the end of memory as allocated, and puts the rest on the
  free lists. The main lemma, \<open>buddy_init_repr\<close>, says that the result represents a tree of blocks
  whose used blocks are exactly the marked ones.
\<close>

section \<open>Definitions\<close>

definition blk_index_next :: "buddy \<Rightarrow> nat \<Rightarrow> nat \<Rightarrow> nat" where
  "blk_index_next b k p =
     (let n = (p - buddy_base b) div BLK_SIZE k in
      if (p - buddy_base b) mod BLK_SIZE k \<noteq> 0 then n + 1 else n)"

fun log2 :: "nat \<Rightarrow> nat" where
  "log2 n = (if n > 1 then Suc (log2 (n div 2)) else 0)"

declare log2.simps [simp del]

definition mark_block :: "nat \<Rightarrow> nat \<Rightarrow> buddy \<Rightarrow> buddy res" where
  "mark_block k bi b =
     bindR (if k > 0 then split_set b k bi else Ret b) (\<lambda>b1.
       xor_switch b1 k (buddy_pair_index bi))"

definition bd_mark :: "buddy \<Rightarrow> nat \<Rightarrow> nat \<Rightarrow> buddy res" where
  "bd_mark b start stop =
     (if start mod LEAF_SIZE \<noteq> 0 \<or> stop mod LEAF_SIZE \<noteq> 0 then panic ''bd_mark''
      else foldR (\<lambda>k b. foldR (mark_block k) [blk_index b k start ..< blk_index_next b k stop] b)
             [0 ..< groups_count b] b)"

definition bd_initfree_pair_right :: "buddy \<Rightarrow> nat \<Rightarrow> nat \<Rightarrow> (nat \<times> buddy) res" where
  "bd_initfree_pair_right b k bi =
     bindR (xor_is_set b k (buddy_pair_index bi)) (\<lambda>s.
       if s then Ret (BLK_SIZE k, b\<lparr>lists := lst_push (lists b) (freelist b k) (addr b k (buddy_of bi))\<rparr>)
       else Ret (0, b))"

definition bd_initfree_pair_left :: "buddy \<Rightarrow> nat \<Rightarrow> nat \<Rightarrow> (nat \<times> buddy) res" where
  "bd_initfree_pair_left b k bi =
     bindR (xor_is_set b k (buddy_pair_index bi)) (\<lambda>s.
       if s then Ret (BLK_SIZE k, b\<lparr>lists := lst_push (lists b) (freelist b k) (addr b k bi)\<rparr>)
       else Ret (0, b))"

definition initfree_level :: "nat \<Rightarrow> nat \<Rightarrow> nat \<Rightarrow> nat \<times> buddy \<Rightarrow> (nat \<times> buddy) res" where
  "initfree_level bd_left bd_right k s =
     (case s of (fr, b) \<Rightarrow>
        let left = blk_index_next b k bd_left; right = blk_index b k bd_right in
        bindR (bd_initfree_pair_left b k left) (\<lambda>(f1, b1).
          if right \<le> left then Ret (fr + f1, b1)
          else bindR (bd_initfree_pair_right b1 k right) (\<lambda>(f2, b2). Ret (fr + f1 + f2, b2))))"

definition bd_initfree :: "buddy \<Rightarrow> nat \<Rightarrow> nat \<Rightarrow> (nat \<times> buddy) res" where
  "bd_initfree b bd_left bd_right =
     foldR (initfree_level bd_left bd_right) [0 ..< MAXSIZE b] (0, b)"

definition bd_mark_data_structures :: "buddy \<Rightarrow> nat \<Rightarrow> (nat \<times> buddy) res" where
  "bd_mark_data_structures b p =
     (let meta = p - buddy_base b in
      bindR (bd_mark b (buddy_base b) p) (\<lambda>b1. Ret (meta, b1)))"

definition bd_mark_unavailable :: "buddy \<Rightarrow> nat \<Rightarrow> (nat \<times> buddy) res" where
  "bd_mark_unavailable b end' =
     (let un = BLK_SIZE (MAXSIZE b) - (end' - buddy_base b);
          unavailable = (if un > 0 then ROUNDUP un LEAF_SIZE else un);
          bd_end = buddy_base b + BLK_SIZE (MAXSIZE b) - unavailable
      in bindR (bd_mark b bd_end (buddy_base b + BLK_SIZE (MAXSIZE b))) (\<lambda>b1. Ret (unavailable, b1)))"

text \<open>
  The layout loops of \<open>buddy_init\<close>: sizes in bytes of the vectors of size \<open>k\<close>, the zeroed vectors,
  and the initialised list heads. Size 0 has no split vector.
\<close>

definition xor_bytes :: "nat \<Rightarrow> nat \<Rightarrow> nat" where
  "xor_bytes N k = (let sz = ROUNDUP (2 ^ (N - k)) 8 div 8 in if sz div 2 > 0 then sz div 2 else 1)"

definition split_bytes :: "nat \<Rightarrow> nat \<Rightarrow> nat" where
  "split_bytes N k = ROUNDUP (2 ^ (N - k)) 8 div 8"

definition init_groups :: "nat \<Rightarrow> buddy_size_group_info list" where
  "init_groups N = map (\<lambda>k. \<lparr>pair_alloc_xor = replicate (xor_bytes N k) 0,
                              split = (if k = 0 then [] else replicate (split_bytes N k) 0)\<rparr>) [0 ..< Suc N]"

definition init_lists :: "heap \<Rightarrow> nat \<Rightarrow> nat \<Rightarrow> heap" where
  "init_lists h base n = fold (\<lambda>k h. lst_init h (base + 32 * k)) [0 ..< n] h"

definition init_count :: "nat \<Rightarrow> nat" where
  "init_count sz =
     (let count = log2 (sz div LEAF_SIZE) + 1 in
      if sz > BLK_SIZE (count - 1) then count + 1 else count)"

definition tables_end :: "nat \<Rightarrow> nat \<Rightarrow> nat" where
  "tables_end p count =
     (let p1 = p + 32 * count;
          p2 = p1 + sum_list (map (xor_bytes (count - 1)) [0 ..< count]);
          p3 = p2 + sum_list (map (split_bytes (count - 1)) [1 ..< count])
      in ROUNDUP p3 LEAF_SIZE)"

definition buddy_init :: "heap \<Rightarrow> nat \<Rightarrow> nat \<Rightarrow> buddy res" where
  "buddy_init h base end' =
     (let p0 = ROUNDUP base LEAF_SIZE;
          count = init_count (end' - p0);
          b = \<lparr>lists = init_lists h p0 count, groups = init_groups (count - 1),
               groups_count = count, buddy_base = p0\<rparr>;
          p = tables_end p0 count
      in bindR (bd_mark_data_structures b p) (\<lambda>(meta, b1).
         bindR (bd_mark_unavailable b1 end') (\<lambda>(unavailable, b2).
         let bd_end = buddy_base b2 + BLK_SIZE (MAXSIZE b2) - unavailable in
         bindR (bd_initfree b2 p bd_end) (\<lambda>(fr, b3).
           if fr \<noteq> BLK_SIZE (MAXSIZE b3) - meta - unavailable then panic ''bd_init: free mem''
           else Ret b3))))"

section \<open>Marking\<close>

text \<open>
  \<open>b'\<close> is \<open>b\<close> with the blocks of \<open>M\<close> marked, each once: their split bits are set and the bits of
  their pairs switched. The pair bit of the top size is never read, and is left out.
\<close>

definition marked :: "nat \<Rightarrow> (nat \<Rightarrow> nat \<Rightarrow> bool) \<Rightarrow> buddy \<Rightarrow> buddy \<Rightarrow> bool" where
  "marked N M b b' \<longleftrightarrow> shape N b' \<and> lists b' = lists b \<and> buddy_base b' = buddy_base b \<and>
     (\<forall>k < N. \<forall>i < 2 ^ (N - k). xorbit b' k (i div 2) = (xorbit b k (i div 2) \<noteq> (M k i \<noteq> M k (buddy_of i)))) \<and>
     (\<forall>k \<le> N. 0 < k \<longrightarrow> (\<forall>i < 2 ^ (N - k). splitbit b' k i = (splitbit b k i \<or> M k i)))"

lemma marked_refl: "shape N b \<Longrightarrow> (\<And>k i. \<not> M k i) \<Longrightarrow> marked N M b b"
  by (simp add: marked_def)

lemma marked_trans:
  assumes 1: "marked N M b b1" and 2: "marked N M' b1 b2"
    and disj: "\<And>k i. k < N \<Longrightarrow> M k i \<Longrightarrow> \<not> M' k i" and M'': "\<And>k i. M'' k i = (M k i \<or> M' k i)"
  shows "marked N M'' b b2"
  unfolding marked_def
proof (intro conjI allI impI)
  show "shape N b2" "lists b2 = lists b" "buddy_base b2 = buddy_base b"
    using 1 2 by (simp_all add: marked_def)
  fix k i assume k: "k < N" and i: "i < (2::nat) ^ (N - k)"
  have "xorbit b2 k (i div 2) = (xorbit b1 k (i div 2) \<noteq> (M' k i \<noteq> M' k (buddy_of i)))"
    "xorbit b1 k (i div 2) = (xorbit b k (i div 2) \<noteq> (M k i \<noteq> M k (buddy_of i)))"
    using 1 2 k i unfolding marked_def by blast+
  then show "xorbit b2 k (i div 2) = (xorbit b k (i div 2) \<noteq> (M'' k i \<noteq> M'' k (buddy_of i)))"
    using disj [OF k] M'' by auto
next
  fix k i assume k: "k \<le> N" "0 < k" and i: "i < (2::nat) ^ (N - k)"
  have "splitbit b2 k i = (splitbit b1 k i \<or> M' k i)" "splitbit b1 k i = (splitbit b k i \<or> M k i)"
    using 1 2 k i unfolding marked_def by blast+
  then show "splitbit b2 k i = (splitbit b k i \<or> M'' k i)" using M'' by auto
qed

lemma mark_block_marked:
  assumes s: "shape N b" and k: "k \<le> N" and i: "i < 2 ^ (N - k)"
  shows "\<exists>b'. mark_block k i b = Ret b' \<and> marked N (\<lambda>k' i'. k' = k \<and> i' = i) b b'"
proof -
  obtain b1 where b1: "(if k > 0 then split_set b k i else Ret b) = Ret b1" "shape N b1"
    "lists b1 = lists b" "buddy_base b1 = buddy_base b"
    "\<forall>k' \<le> N. 0 < k' \<longrightarrow> (\<forall>i' < 2 ^ (N - k'). splitbit b1 k' i' = ((k' = k \<and> i' = i) \<or> splitbit b k' i'))"
    "\<forall>k' j. xorbit b1 k' j = xorbit b k' j"
    using split_set_Ret [OF s k _ i] s by (cases "k = 0") auto
  obtain b' where b': "xor_switch b1 k (i div 2) = Ret b'" "shape N b'" "lists b' = lists b1"
    "buddy_base b' = buddy_base b1"
    "\<forall>k' \<le> N. \<forall>i' < 2 ^ (N - k'). xorbit b' k' (i' div 2) =
       ((k' = k \<and> i' div 2 = i div 2) \<noteq> xorbit b1 k' (i' div 2))"
    "\<forall>k' i'. splitbit b' k' i' = splitbit b1 k' i'"
    using xor_switch_Ret [OF b1(2) k i] by blast
  have "marked N (\<lambda>k' i'. k' = k \<and> i' = i) b b'"
    unfolding marked_def
  proof (intro conjI allI impI)
    fix k' i' assume k': "k' < N" and i': "i' < (2::nat) ^ (N - k')"
    have "xorbit b' k' (i' div 2) = ((k' = k \<and> i' div 2 = i div 2) \<noteq> xorbit b k' (i' div 2))"
      using b'(5) b1(6) k' i' by (metis less_imp_le)
    then show "xorbit b' k' (i' div 2) =
        (xorbit b k' (i' div 2) \<noteq> ((k' = k \<and> i' = i) \<noteq> (k' = k \<and> buddy_of i' = i)))"
      unfolding same_pair using buddy_of_simps(3,5) by (metis (full_types))
  next
    fix k' i' assume "k' \<le> N" "0 < k'" "i' < (2::nat) ^ (N - k')"
    then show "splitbit b' k' i' = (splitbit b k' i' \<or> k' = k \<and> i' = i)"
      using b'(6) b1(5) by metis
  qed (use b' b1 in auto)
  then show ?thesis using b1(1) b'(1) by (auto simp: mark_block_def pair_index_half)
qed

lemma mark_level_marked:
  assumes s: "shape N b" and k: "k \<le> N" and lo: "lo \<le> hi" and hi: "hi \<le> 2 ^ (N - k)"
  shows "\<exists>b'. foldR (mark_block k) [lo..<hi] b = Ret b' \<and> marked N (\<lambda>k' i. k' = k \<and> lo \<le> i \<and> i < hi) b b'"
  using lo hi
proof (induction hi rule: dec_induct)
  case base
  then show ?case using marked_refl [OF s] by simp
next
  case (step hi)
  then obtain b1 where b1: "foldR (mark_block k) [lo..<hi] b = Ret b1"
    "marked N (\<lambda>k' i. k' = k \<and> lo \<le> i \<and> i < hi) b b1" by auto
  obtain b2 where b2: "mark_block k hi b1 = Ret b2" "marked N (\<lambda>k' i'. k' = k \<and> i' = hi) b1 b2"
    using mark_block_marked [of N b1 k hi] b1(2) k step by (auto simp: marked_def)
  have "marked N (\<lambda>k' i. k' = k \<and> lo \<le> i \<and> i < Suc hi) b b2"
    by (rule marked_trans [OF b1(2) b2(2)]) (use step in auto)
  then show ?case using b1(1) b2(1) step by (simp add: foldR_append)
qed

text \<open>The number of blocks of size \<open>k\<close> that begin before unit \<open>e\<close>.\<close>

definition up :: "nat \<Rightarrow> nat \<Rightarrow> nat" where
  "up e k = (if e mod 2 ^ k = 0 then e div 2 ^ k else Suc (e div 2 ^ k))"

lemma up_alt: "0 < e \<Longrightarrow> up e k = Suc ((e - 1) div 2 ^ k)"
proof -
  assume "0 < e"
  then have "Suc (e - 1) = e" by simp
  then have "e div 2 ^ k = (if e mod 2 ^ k = 0 then Suc ((e - 1) div 2 ^ k) else (e - 1) div 2 ^ k)"
    using div_Suc [of "e - 1" "2 ^ k"] mod_Suc [of "e - 1" "2 ^ k"] by (simp add: dvd_eq_mod_eq_0)
  then show ?thesis by (simp add: up_def split: if_splits)
qed

lemma up_le: "e \<le> 2 ^ N \<Longrightarrow> k \<le> N \<Longrightarrow> up e k \<le> 2 ^ (N - k)"
proof (cases "e = 0")
  case False
  assume a: "e \<le> 2 ^ N" "k \<le> N"
  then have "e - 1 < 2 ^ (N - k) * 2 ^ k" using False by (simp flip: power_add)
  then have "(e - 1) div 2 ^ k < 2 ^ (N - k)" by (simp add: less_mult_imp_div_less)
  then show ?thesis using False by (simp add: up_alt)
qed (simp add: up_def)

lemma blk_index_units: "blk_index b k (buddy_base b + 16 * s) = s div 2 ^ k"
  by (simp add: blk_index_def BLK_SIZE_def LEAF_SIZE_def mult.commute [of "2 ^ k" 16])

lemma blk_index_next_units: "blk_index_next b k (buddy_base b + 16 * e) = up e k"
proof -
  have "16 * e mod (16 * 2 ^ k) = 16 * (e mod 2 ^ k)"
    by (simp only: mult_mod_right)
  then show ?thesis
    by (simp add: blk_index_next_def up_def BLK_SIZE_def LEAF_SIZE_def Let_def mult.commute [of "2 ^ k" 16])
qed

lemma bd_mark_marked:
  assumes s: "shape N b" and b: "buddy_base b mod 16 = 0" and e: "st < e" "e \<le> 2 ^ N"
  shows "\<exists>b'. bd_mark b (buddy_base b + 16 * st) (buddy_base b + 16 * e) = Ret b' \<and>
           marked N (\<lambda>k i. st div 2 ^ k \<le> i \<and> i < up e k) b b'"
proof -
  let ?f = "\<lambda>k b'. foldR (mark_block k) [blk_index b' k (buddy_base b + 16 * st) ..<
              blk_index_next b' k (buddy_base b + 16 * e)] b'"
  let ?P = "\<lambda>j. marked N (\<lambda>k i. k < j \<and> st div 2 ^ k \<le> i \<and> i < up e k) b"
  have "\<exists>b'. foldR ?f [0 ..< Suc N] b = Ret b' \<and> ?P (Suc N) b'"
  proof (rule foldR_inv)
    show "?P 0 b" using s by (simp add: marked_refl)
    fix j b1 assume j: "j < Suc N" and b1: "?P j b1"
    then have base: "shape N b1" "buddy_base b = buddy_base b1" by (simp_all add: marked_def)
    have "st div 2 ^ j \<le> (e - 1) div 2 ^ j" using e by (intro div_le_mono) simp
    then have "st div 2 ^ j \<le> up e j" using e by (simp add: up_alt)
    then obtain b2 where b2: "foldR (mark_block j) [st div 2 ^ j ..< up e j] b1 = Ret b2"
      "marked N (\<lambda>k i. k = j \<and> st div 2 ^ j \<le> i \<and> i < up e j) b1 b2"
      using mark_level_marked [OF base(1), of j "st div 2 ^ j" "up e j"] up_le [OF e(2)] j by auto
    have "?P (Suc j) b2" by (rule marked_trans [OF b1 b2(2)]) (auto simp: less_Suc_eq)
    then show "\<exists>b2. ?f j b1 = Ret b2 \<and> ?P (Suc j) b2"
      using b2(1) by (simp add: base(2) blk_index_units blk_index_next_units)
  qed
  then obtain b' where b': "foldR ?f [0 ..< Suc N] b = Ret b'" "?P (Suc N) b'" by blast
  have "marked N (\<lambda>k i. st div 2 ^ k \<le> i \<and> i < up e k) b b'"
    using b'(2) by (simp add: marked_def less_Suc_eq_le)
  moreover have "groups_count b = Suc N" using s by (simp add: shape_def)
  ultimately show ?thesis
    using b b'(1) by (simp add: bd_mark_def LEAF_SIZE_def mod_add_eq [symmetric] del: upt_Suc)
qed

section \<open>The tree of blocks after initialisation\<close>

text \<open>A block is touched if it contains a unit of \<open>U\<close>.\<close>

definition touch :: "nat set \<Rightarrow> nat \<Rightarrow> nat \<Rightarrow> bool" where
  "touch U k i \<longleftrightarrow> (\<exists>u \<in> U. u div 2 ^ k = i)"

definition init_tree :: "nat \<Rightarrow> nat set \<Rightarrow> btree" where
  "init_tree N U =
     \<lparr>free = {(k, i). k < N \<and> i < 2 ^ (N - k) \<and> \<not> touch U k i \<and> touch U (Suc k) (i div 2)},
      used = {(k, i). k = 0 \<and> i < 2 ^ N \<and> i \<in> U},
      spl = {(k, i). 0 < k \<and> k \<le> N \<and> i < 2 ^ (N - k) \<and> touch U k i}\<rparr>"

lemma touch_0 [simp]: "touch U 0 i \<longleftrightarrow> i \<in> U"
  by (simp add: touch_def)

lemma touch_Suc: "touch U (Suc k) i \<longleftrightarrow> touch U k (2 * i) \<or> touch U k (Suc (2 * i))"
proof -
  have half: "v div 2 = i \<longleftrightarrow> v = 2 * i \<or> v = Suc (2 * i)" for v by presburger
  have "u div 2 ^ Suc k = i \<longleftrightarrow> u div 2 ^ k = 2 * i \<or> u div 2 ^ k = Suc (2 * i)" for u
    unfolding div_pow2_Suc by (rule half)
  then show ?thesis unfolding touch_def by metis
qed

lemma touch_parent: "touch U k i \<Longrightarrow> touch U (Suc k) (i div 2)"
  unfolding touch_def div_pow2_Suc by blast

lemma half_lt: "i < 2 ^ (N - k) \<Longrightarrow> k < N \<Longrightarrow> i div 2 < (2::nat) ^ (N - Suc k)"
proof -
  assume "i < 2 ^ (N - k)" "k < N"
  moreover then have "(2::nat) ^ (N - k) = 2 * 2 ^ (N - Suc k)"
    by (metis Suc_diff_Suc power_Suc)
  ultimately show ?thesis by simp
qed

lemma touch_top: "u \<in> U \<Longrightarrow> u < 2 ^ N \<Longrightarrow> touch U N 0"
  by (auto simp: touch_def intro!: bexI [of _ u])

lemma init_tree_inv:
  assumes N: "0 < N" and U: "U \<noteq> {}" "U \<subseteq> {..<2 ^ N}"
  shows "tree_inv N (init_tree N U)"
  unfolding tree_inv_def
proof (intro conjI allI impI)
  let ?t = "init_tree N U"
  have kid: "(k, j) \<in> blocks ?t" if "(Suc k, j div 2) \<in> spl ?t" "j < 2 ^ (N - k)" for k j
    using that U by (cases k) (auto simp: init_tree_def)
  obtain u where "u \<in> U" using U by blast
  then show "(N, 0) \<in> blocks ?t" using N U touch_top [of u U N] by (auto simp: init_tree_def)
  fix k i
  show "(0, i) \<notin> spl ?t" by (simp add: init_tree_def)
  { assume "(k, i) \<in> blocks ?t"
    then show "k \<le> N" "i < 2 ^ (N - k)" by (auto simp: init_tree_def) }
  { assume s: "(Suc k, i) \<in> spl ?t"
    then have b: "Suc k \<le> N" "i < 2 ^ (N - Suc k)" by (auto simp: init_tree_def)
    then show "(k, 2 * i) \<in> blocks ?t" "(k, Suc (2 * i)) \<in> blocks ?t"
      using s kid [of k "2 * i"] kid [of k "Suc (2 * i)"] half_bounds [OF b] by auto }
  { assume "(k, i) \<in> blocks ?t" "k < N"
    then show "(Suc k, i div 2) \<in> spl ?t"
      using touch_parent [of U k i] half_lt [of i N k] touch_parent [of U 0 i] by (auto simp: init_tree_def) }
  { assume f: "(k, i) \<in> free ?t" "k < N"
    show "(k, buddy_of i) \<notin> free ?t"
    proof
      assume "(k, buddy_of i) \<in> free ?t"
      then have "\<not> touch U k (buddy_of i)" "\<not> touch U k i" "touch U (Suc k) (i div 2)"
        using f by (auto simp: init_tree_def)
      moreover have "{2 * (i div 2), Suc (2 * (i div 2))} = {i, buddy_of i}"
        by (auto simp: buddy_of_def) presburger+
      ultimately show False unfolding touch_Suc by (metis doubleton_eq_iff)
    qed }
qed (auto simp: init_tree_def)

lemma touch_Un: "touch (A \<union> B) k i \<longleftrightarrow> touch A k i \<or> touch B k i"
  by (auto simp: touch_def)

lemma touch_range:
  assumes "st < e"
  shows "touch {st..<e} k i \<longleftrightarrow> st div 2 ^ k \<le> i \<and> i < up e k"
proof
  assume "touch {st..<e} k i"
  then obtain u where u: "st \<le> u" "u \<le> e - 1" "u div 2 ^ k = i" by (auto simp: touch_def)
  then show "st div 2 ^ k \<le> i \<and> i < up e k"
    using assms div_le_mono [OF u(1), of "2 ^ k"] div_le_mono [OF u(2), of "2 ^ k"] by (simp add: up_alt)
next
  assume a: "st div 2 ^ k \<le> i \<and> i < up e k"
  then have "i \<le> (e - 1) div 2 ^ k" using assms by (simp add: up_alt)
  then have le: "i * 2 ^ k \<le> e - 1" by (simp add: less_eq_div_iff_mult_less_eq)
  show "touch {st..<e} k i"
  proof (cases "st \<le> i * 2 ^ k")
    case True
    then show ?thesis using le assms by (auto simp: touch_def intro!: bexI [of _ "i * 2 ^ k"])
  next
    case False
    then have "i \<le> st div 2 ^ k" by (simp add: less_eq_div_iff_mult_less_eq)
    then have "st div 2 ^ k = i" using a by simp
    then show ?thesis using assms by (auto simp: touch_def intro!: bexI [of _ st])
  qed
qed

lemma touch_pair: "touch U (Suc k) (i div 2) \<longleftrightarrow> touch U k i \<or> touch U k (buddy_of i)"
proof -
  have "2 * (i div 2) = i \<and> Suc (2 * (i div 2)) = buddy_of i \<or>
        2 * (i div 2) = buddy_of i \<and> Suc (2 * (i div 2)) = i"
    by (auto simp: buddy_of_def) presburger+
  then show ?thesis unfolding touch_Suc by auto
qed

lemma buddy_of_lt: "i < 2 ^ (N - k) \<Longrightarrow> k < N \<Longrightarrow> buddy_of i < 2 ^ (N - k)"
proof -
  assume i: "i < 2 ^ (N - k)" "k < N"
  then obtain q where "(2::nat) ^ (N - k) = 2 * q" by (metis Suc_diff_Suc power_Suc)
  then show ?thesis using i(1) by (auto simp: buddy_of_def elim!: evenE)
qed

text \<open>
  Below \<open>L\<close> and from \<open>R\<close> on, the blocks of a size are marked. Only the two pairs at the borders can
  have one marked and one unmarked block.
\<close>

lemma border_pairs:
  assumes "L \<le> R" "odd L \<or> R \<noteq> Suc L"
  shows "((L < L \<or> R \<le> L) \<noteq> (buddy_of L < L \<or> R \<le> buddy_of L)) \<longleftrightarrow> L < R \<and> odd L"
    and "L < R \<Longrightarrow> ((R < L \<or> R \<le> R) \<noteq> (buddy_of R < L \<or> R \<le> buddy_of R)) \<longleftrightarrow> odd R"
    and "{i. L \<le> i \<and> i < R \<and> (buddy_of i < L \<or> R \<le> buddy_of i)} =
         (if L < R \<and> odd L then {L} else {}) \<union> (if L < R \<and> odd R then {buddy_of R} else {})"
    and "odd L \<Longrightarrow> odd R \<Longrightarrow> buddy_of R \<noteq> L"
proof -
  show "odd L \<Longrightarrow> odd R \<Longrightarrow> buddy_of R \<noteq> L"
    unfolding buddy_of_def by presburger
  show "((L < L \<or> R \<le> L) \<noteq> (buddy_of L < L \<or> R \<le> buddy_of L)) \<longleftrightarrow> L < R \<and> odd L"
    using assms by (auto simp: buddy_of_def even_iff_mod_2_eq_zero)
  show "L < R \<Longrightarrow> ((R < L \<or> R \<le> R) \<noteq> (buddy_of R < L \<or> R \<le> buddy_of R)) \<longleftrightarrow> odd R"
    by (auto simp: buddy_of_def even_iff_mod_2_eq_zero)
  have 1: "L \<le> i \<and> i < R \<and> (buddy_of i < L \<or> R \<le> buddy_of i) \<longleftrightarrow>
          (L < R \<and> odd L \<and> i = L) \<or> (L < R \<and> odd R \<and> i = R - 1)" for i
  proof (cases "even i")
    case True
    then have "buddy_of i = Suc i" by (simp add: buddy_of_def)
    then show ?thesis using assms True by (auto elim!: evenE oddE)
  next
    case False
    then have "Suc (buddy_of i) = i" by (auto simp: buddy_of_def elim!: oddE)
    then show ?thesis using assms False by (auto elim!: evenE oddE)
  qed
  have 2: "odd R \<Longrightarrow> buddy_of R = R - 1" by (simp add: buddy_of_def odd_iff_mod_2_eq_one)
  show "{i. L \<le> i \<and> i < R \<and> (buddy_of i < L \<or> R \<le> buddy_of i)} =
         (if L < R \<and> odd L then {L} else {}) \<union> (if L < R \<and> odd R then {buddy_of R} else {})"
    unfolding 1 using 2 by auto
qed

section \<open>The free lists after initialisation\<close>

text \<open>The lists while \<open>bd_initfree\<close> is at size \<open>j\<close>, with the blocks of \<open>S\<close> pushed so far.\<close>

definition filled :: "buddy \<Rightarrow> btree \<Rightarrow> nat \<Rightarrow> nat set \<Rightarrow> nat \<Rightarrow> nat set" where
  "filled b t j S k = (if k < j then free_addrs b t k else if k = j then addr b j ` S else {})"

lemma push_free:
  assumes inv: "tree_inv N t" and heads: "\<forall>k \<le> N. (0, 2 * k) \<in> used t"
    and r: "rings (lists b) N (freelist b) (filled b t j S)"
    and S: "\<forall>i \<in> S. (j, i) \<in> free t" and i: "(j, i) \<in> free t" "i \<notin> S"
  shows "rings (lst_push (lists b) (freelist b j) (addr b j i)) N (freelist b) (filled b t j (insert i S))"
proof -
  have sub: "filled b t j S k \<subseteq> free_addrs b t k" for k
    using S by (auto simp: filled_def free_addrs_def)
  have j: "j \<le> N" using tree_invD(1) [OF inv, of j i] i by simp
  have sep: "sep N (freelist b) (filled b t j S)"
    using sep_free [OF inv heads, of b] sub unfolding sep_def by (meson disjoint_iff subsetD)
  have fresh: "addr b j i \<noteq> freelist b k \<and> addr b j i \<notin> filled b t j S k" if "k \<le> N" for k
  proof
    have "addr b j i \<in> free_addrs b t j" using i by (auto simp: free_addrs_def)
    then show "addr b j i \<noteq> freelist b k"
      using sep_free [OF inv heads, of b] that j unfolding sep_def by metis
    show "addr b j i \<notin> filled b t j S k"
    proof (cases "k < j")
      case True
      then show ?thesis
        using addr_eq_leaf [OF inv, of j i k _ b] i by (auto simp: filled_def free_addrs_def)
    qed (use i in \<open>auto simp: filled_def addr_inj\<close>)
  qed
  have "(filled b t j S)(j := insert (addr b j i) (filled b t j S j)) = filled b t j (insert i S)"
    by (auto simp: filled_def fun_eq_iff)
  then show ?thesis using rings_push [OF r sep j, of "addr b j i"] fresh by auto
qed

lemma filled_Suc: "S = {i. (j, i) \<in> free t} \<Longrightarrow> filled b t j S = filled b t (Suc j) {}"
  by (auto simp: filled_def free_addrs_def fun_eq_iff less_Suc_eq)

definition free_below :: "btree \<Rightarrow> nat \<Rightarrow> nat" where
  "free_below t j = (\<Sum>n \<in> {n \<in> free t. fst n < j}. BLK_SIZE (fst n))"

lemma free_below_Suc:
  assumes inv: "tree_inv N t"
  shows "free_below t (Suc j) = free_below t j + card {i. (j, i) \<in> free t} * BLK_SIZE j"
proof -
  let ?F = "Pair j ` {i. (j, i) \<in> free t}"
  have fin: "finite (free t)" using finite_blocks [OF inv] by simp
  then have "finite ?F" by (rule rev_finite_subset) auto
  have "{n \<in> free t. fst n < Suc j} = {n \<in> free t. fst n < j} \<union> ?F" by (auto simp: less_Suc_eq)
  then have "free_below t (Suc j) = free_below t j + (\<Sum>n \<in> ?F. BLK_SIZE (fst n))"
    unfolding free_below_def using fin \<open>finite ?F\<close>
    by (simp only:) (rule sum.union_disjoint, auto)
  also have "(\<Sum>n \<in> ?F. BLK_SIZE (fst n)) = card ?F * BLK_SIZE j"
    by (subst sum.cong [OF refl, of _ _ "\<lambda>_. BLK_SIZE j"]) auto
  also have "card ?F = card {i. (j, i) \<in> free t}" by (rule card_image) (simp add: inj_on_def)
  finally show ?thesis .
qed

text \<open>
  The borders of the free region at size \<open>k\<close>, for tables of \<open>m\<close> units and memory that ends at unit
  \<open>e\<close> of \<open>2 ^ N\<close>.
\<close>

definition layout :: "nat \<Rightarrow> nat \<Rightarrow> nat \<Rightarrow> bool" where
  "layout N m e \<longleftrightarrow> 0 < m \<and> m \<le> 2 ^ (N - 2) \<and> 2 ^ (N - 1) \<le> e \<and> e < 2 ^ N \<and> 2 \<le> N"

abbreviation reserved :: "nat \<Rightarrow> nat \<Rightarrow> nat \<Rightarrow> nat set" where
  "reserved N m e \<equiv> {..<m} \<union> {e..<2 ^ N}"

lemma borders:
  assumes l: "layout N m e" and k: "k < N"
  shows "up m k \<le> e div 2 ^ k" "e div 2 ^ k < 2 ^ (N - k)" "odd (up m k) \<or> e div 2 ^ k \<noteq> Suc (up m k)"
proof -
  have m: "0 < m" "m \<le> 2 ^ (N - 2)" and e: "2 ^ (N - 1) \<le> e" "e < 2 ^ N" and N: "2 \<le> N"
    using l by (auto simp: layout_def)
  have "2 ^ (N - 1 - k) * 2 ^ k \<le> e" using e k by (simp flip: power_add)
  then have R: "2 ^ (N - 1 - k) \<le> e div 2 ^ k" by (simp add: less_eq_div_iff_mult_less_eq)
  have "(2::nat) ^ (N - 2) \<le> 2 ^ (N - 1)" by (intro power_increasing) auto
  with m(2) have "m \<le> 2 ^ (N - 1)" by (rule le_trans)
  then have L: "up m k \<le> 2 ^ (N - 1 - k)" using up_le [of m "N - 1" k] k by simp
  then show "up m k \<le> e div 2 ^ k" using R by simp
  have "e < 2 ^ (N - k) * 2 ^ k" using e k by (simp flip: power_add)
  then show "e div 2 ^ k < 2 ^ (N - k)" by (simp add: less_mult_imp_div_less)
  show "odd (up m k) \<or> e div 2 ^ k \<noteq> Suc (up m k)"
  proof (rule ccontr)
    assume "\<not> ?thesis"
    then have c: "even (up m k)" "e div 2 ^ k = Suc (up m k)" by auto
    have "up m k \<le> 1"
    proof (cases "k = N - 1")
      case True
      then show ?thesis using L by simp
    next
      case False
      then have le: "up m k \<le> 2 ^ (N - 2 - k)" using up_le [OF m(2), of k] k by simp
      have "N - 1 - k = Suc (N - 2 - k)" using False k N by simp
      then have "2 * 2 ^ (N - 2 - k) \<le> Suc (up m k)" using R c(2) by simp
      then show ?thesis using le by simp
    qed
    then show False using c(1) m(1) by (simp add: up_alt)
  qed
qed

lemma touched:
  assumes l: "layout N m e" and k: "k \<le> N" and i: "i < 2 ^ (N - k)"
  shows "touch (reserved N m e) k i \<longleftrightarrow> i < up m k \<or> e div 2 ^ k \<le> i"
proof -
  have "up (2 ^ N) k = 2 ^ (N - k)"
  proof -
    have "(2::nat) ^ N = 2 ^ (N - k) * 2 ^ k" using k by (simp flip: power_add)
    then show ?thesis by (simp add: up_def)
  qed
  moreover have "0 < m" "e < 2 ^ N" using l by (auto simp: layout_def)
  ultimately show ?thesis
    using touch_range [of 0 m k i] touch_range [of e "2 ^ N" k i] i
    by (simp add: touch_Un lessThan_atLeast0)
qed

lemma init_free_level:
  assumes l: "layout N m e" and k: "k < N"
  shows "{i. (k, i) \<in> free (init_tree N (reserved N m e))} =
    (if up m k < e div 2 ^ k \<and> odd (up m k) then {up m k} else {}) \<union>
    (if up m k < e div 2 ^ k \<and> odd (e div 2 ^ k) then {buddy_of (e div 2 ^ k)} else {})"
proof -
  have "(k, i) \<in> free (init_tree N (reserved N m e)) \<longleftrightarrow>
      up m k \<le> i \<and> i < e div 2 ^ k \<and> (buddy_of i < up m k \<or> e div 2 ^ k \<le> buddy_of i)" for i
  proof (cases "i < 2 ^ (N - k)")
    case True
    then show ?thesis
      using touched [OF l less_imp_le [OF k] True] touched [OF l less_imp_le [OF k] buddy_of_lt [OF True k]] k
      by (auto simp: init_tree_def touch_pair)
  next
    case False
    then show ?thesis using borders(2) [OF l k] by (auto simp: init_tree_def)
  qed
  then show ?thesis using border_pairs(3) [OF borders(1,3) [OF l k]] by simp
qed

lemma xor_is_set_init:
  assumes l: "layout N m e" and k: "k < N" and i: "i < 2 ^ (N - k)" and sh: "shape N b"
    and x: "\<forall>k < N. \<forall>i < 2 ^ (N - k). xorbit b k (i div 2) =
              (touch (reserved N m e) k i \<noteq> touch (reserved N m e) k (buddy_of i))"
  shows "xor_is_set b k (buddy_pair_index i) =
    Ret ((i < up m k \<or> e div 2 ^ k \<le> i) \<noteq> (buddy_of i < up m k \<or> e div 2 ^ k \<le> buddy_of i))"
  using xor_is_set_Ret [OF sh less_imp_le [OF k] i] x [rule_format, OF k i]
    touched [OF l less_imp_le [OF k] i] touched [OF l less_imp_le [OF k] buddy_of_lt [OF i k]]
  by (simp add: pair_index_half)

text \<open>The state of \<open>bd_initfree\<close> before size \<open>j\<close>.\<close>

definition initfree_inv :: "nat \<Rightarrow> btree \<Rightarrow> buddy \<Rightarrow> nat \<Rightarrow> nat \<times> buddy \<Rightarrow> bool" where
  "initfree_inv N t b j s \<longleftrightarrow> groups (snd s) = groups b \<and> groups_count (snd s) = groups_count b \<and>
     buddy_base (snd s) = buddy_base b \<and> fst s = free_below t j \<and>
     rings (lists (snd s)) N (freelist (snd s)) (filled (snd s) t j {})"

text \<open>A push of \<open>bd_initfree\<close> on the list of size \<open>k\<close>, for the left or the right border.\<close>

lemma initfree_push:
  assumes inv: "tree_inv N t" and heads: "\<forall>k \<le> N. (0, 2 * k) \<in> used t"
    and ri: "rings (lists c) N (freelist c) (filled c t k S)" and S: "\<forall>i \<in> S. (k, i) \<in> free t"
    and i: "q \<Longrightarrow> (k, i) \<in> free t" "q \<Longrightarrow> i \<notin> S"
  shows "\<exists>c'. (if q then Ret (BLK_SIZE k, c\<lparr>lists := lst_push (lists c) (freelist c k) (addr c k i)\<rparr>)
                else Ret (0, c)) = Ret ((if q then BLK_SIZE k else 0), c') \<and>
           groups c' = groups c \<and> groups_count c' = groups_count c \<and> buddy_base c' = buddy_base c \<and>
           rings (lists c') N (freelist c') (filled c' t k (if q then insert i S else S))"
proof (cases q)
  case True
  then have "rings (lst_push (lists c) (freelist c k) (addr c k i)) N (freelist c)
      (filled c t k (insert i S))"
    using i by (intro push_free [OF inv heads ri S]) auto
  moreover have "filled (c\<lparr>lists := h\<rparr>) = filled c" for h by (simp add: filled_def fun_eq_iff)
  ultimately show ?thesis using True by simp
next
  case False
  then show ?thesis using ri by simp
qed

lemma initfree_step:
  assumes l: "layout N m e" and t: "t = init_tree N (reserved N m e)" and k: "k < N" and sh: "shape N b"
    and x: "\<forall>k < N. \<forall>i < 2 ^ (N - k). xorbit b k (i div 2) =
              (touch (reserved N m e) k i \<noteq> touch (reserved N m e) k (buddy_of i))"
    and heads: "\<forall>k \<le> N. (0, 2 * k) \<in> used t" and inv: "tree_inv N t"
    and s: "initfree_inv N t b k (fr, c)"
  shows "\<exists>s'. initfree_level (buddy_base b + 16 * m) (buddy_base b + 16 * e) k (fr, c) = Ret s' \<and>
    initfree_inv N t b (Suc k) s'"
proof -
  let ?L = "up m k" and ?R = "e div 2 ^ k" and ?F = "{i. (k, i) \<in> free t}"
  let ?qL = "?L < ?R \<and> odd ?L" and ?qR = "?L < ?R \<and> odd ?R"
  let ?S1 = "if ?qL then insert ?L {} else {}"
  have base: "buddy_base b = buddy_base c" and g: "groups c = groups b" "groups_count c = groups_count b"
    and fr: "fr = free_below t k" and ri: "rings (lists c) N (freelist c) (filled c t k {})"
    using s by (simp_all add: initfree_inv_def)
  have x': "\<forall>k < N. \<forall>i < 2 ^ (N - k). xorbit c' k (i div 2) =
      (touch (reserved N m e) k i \<noteq> touch (reserved N m e) k (buddy_of i))" if "groups c' = groups b" for c'
    using x unfolding that .
  have sh': "shape N c'" if "groups c' = groups b" "groups_count c' = groups_count b" for c'
    using sh that by (simp add: shape_def)
  note bo = borders [OF l k] and F = init_free_level [OF l k, folded t]
  have Lt: "?L < 2 ^ (N - k)" using bo by simp
  have xL: "xor_is_set c k (buddy_pair_index ?L) = Ret ?qL"
    unfolding xor_is_set_init [OF l k Lt sh' [OF g] x' [OF g(1)]] border_pairs(1) [OF bo(1,3)] ..
  have q1: "?qL \<Longrightarrow> (k, ?L) \<in> free t" using F by (auto split: if_splits)
  have left: "bd_initfree_pair_left c k ?L =
      (if ?qL then Ret (BLK_SIZE k, c\<lparr>lists := lst_push (lists c) (freelist c k) (addr c k ?L)\<rparr>)
       else Ret (0, c))"
    using xL by (simp add: bd_initfree_pair_left_def)
  obtain c1 where c1: "bd_initfree_pair_left c k ?L = Ret ((if ?qL then BLK_SIZE k else 0), c1)"
    "groups c1 = groups c" "groups_count c1 = groups_count c" "buddy_base c1 = buddy_base c"
    "rings (lists c1) N (freelist c1) (filled c1 t k ?S1)"
    using initfree_push [OF inv heads ri _ q1, of ?qL] unfolding left by blast
  have g1: "groups c1 = groups b" "groups_count c1 = groups_count b" using c1 g by simp_all
  have xR: "?L < ?R \<Longrightarrow> xor_is_set c1 k (buddy_pair_index ?R) = Ret ?qR"
    using border_pairs(2) [OF bo(1,3)]
    unfolding xor_is_set_init [OF l k bo(2) sh' [OF g1] x' [OF g1(1)]] by simp
  have ne: "?qR \<Longrightarrow> buddy_of ?R \<notin> ?S1" using border_pairs(4) [OF bo(1,3)] by auto
  have S1: "\<forall>i \<in> ?S1. (k, i) \<in> free t" and q2: "?qR \<Longrightarrow> (k, buddy_of ?R) \<in> free t"
    using F by (auto split: if_splits)
  have F': "?F = (if ?qR then insert (buddy_of ?R) ?S1 else ?S1)" unfolding F by auto
  obtain c2 where c2: "(if ?qR then Ret (BLK_SIZE k, c1\<lparr>lists := lst_push (lists c1) (freelist c1 k) (addr c1 k (buddy_of ?R))\<rparr>)
                else Ret (0, c1)) = Ret ((if ?qR then BLK_SIZE k else 0), c2)"
    "groups c2 = groups c1" "groups_count c2 = groups_count c1" "buddy_base c2 = buddy_base c1"
    "rings (lists c2) N (freelist c2) (filled c2 t k ?F)"
    using initfree_push [OF inv heads c1(5) S1 q2 ne] unfolding F' by blast
  have card: "card ?F * BLK_SIZE k = (if ?qL then BLK_SIZE k else 0) + (if ?qR then BLK_SIZE k else 0)"
    unfolding F' using ne by (auto split: if_splits)
  have "initfree_level (buddy_base b + 16 * m) (buddy_base b + 16 * e) k (fr, c) =
      Ret (fr + card ?F * BLK_SIZE k, c2)"
  proof (cases "?L < ?R")
    case True
    then show ?thesis
      using c1(1) c2(1) xR card
      by (simp add: initfree_level_def base blk_index_units blk_index_next_units bd_initfree_pair_right_def Let_def)
  next
    case False
    then show ?thesis
      using c1(1) c2(1) card
      by (simp add: initfree_level_def base blk_index_units blk_index_next_units Let_def)
  qed
  moreover have "initfree_inv N t b (Suc k) (fr + card ?F * BLK_SIZE k, c2)"
    using c2 g1 base c1(4) free_below_Suc [OF inv, of k] fr filled_Suc [of ?F k t c2]
    by (simp add: initfree_inv_def)
  ultimately show ?thesis by blast
qed

section \<open>The tables\<close>

lemma ROUNDUP_pow2_8: "ROUNDUP (2 ^ j) 8 div 8 = (if j < 3 then 1 else 2 ^ (j - 3))"
proof (cases "j < 3")
  case True
  then have "j = 0 \<or> j = 1 \<or> j = 2" by auto
  then show ?thesis by (auto simp: ROUNDUP_def)
next
  case False
  then obtain d where j: "j = 3 + d" by (metis le_Suc_ex not_less)
  obtain c where c: "(2::nat) ^ d = Suc c" by (metis not0_implies_Suc power_not_zero zero_neq_numeral)
  have "(8 * 2 ^ d - 1) div 8 = c" unfolding c by simp
  then show ?thesis using c by (simp add: ROUNDUP_def j power_add)
qed

lemma xor_bytes_alt: "xor_bytes N k = (if N - k < 4 then 1 else 2 ^ (N - k - 4))"
proof (cases "N - k < 4")
  case True
  then have "N - k = 0 \<or> N - k = 1 \<or> N - k = 2 \<or> N - k = 3" by auto
  then show ?thesis unfolding xor_bytes_def ROUNDUP_pow2_8 Let_def by auto
next
  case False
  then obtain d where d: "N - k = 4 + d" by (metis le_Suc_ex not_less)
  then have "ROUNDUP (2 ^ (N - k)) 8 div 8 = 2 * 2 ^ d" unfolding ROUNDUP_pow2_8 d by simp
  then show ?thesis unfolding xor_bytes_def Let_def by (simp add: d)
qed

lemma split_bytes_alt: "split_bytes N k = (if N - k < 3 then 1 else 2 ^ (N - k - 3))"
  unfolding split_bytes_def ROUNDUP_pow2_8 ..

lemma pow2_le_bytes:
  "2 ^ j \<le> 8 * (if j < 3 then 1 else (2::nat) ^ (j - 3))"
  "2 ^ j \<le> 16 * (if j < 4 then 1 else (2::nat) ^ (j - 4))"
  "(if j < 3 then 1 else (2::nat) ^ (j - 3)) * 8 \<le> 8 + 2 ^ j"
  "(if j < 4 then 1 else (2::nat) ^ (j - 4)) * 16 \<le> 16 + 2 ^ j"
proof -
  have "j < 3 \<Longrightarrow> j \<in> {0, 1, 2}" "j < 4 \<Longrightarrow> j \<in> {0, 1, 2, 3}" by auto
  moreover have "\<not> j < 3 \<Longrightarrow> \<exists>d. j = 3 + d" "\<not> j < 4 \<Longrightarrow> \<exists>d. j = 4 + d"
    by (metis le_Suc_ex not_less)+
  ultimately show
    "2 ^ j \<le> 8 * (if j < 3 then 1 else (2::nat) ^ (j - 3))"
    "2 ^ j \<le> 16 * (if j < 4 then 1 else (2::nat) ^ (j - 4))"
    "(if j < 3 then 1 else (2::nat) ^ (j - 3)) * 8 \<le> 8 + 2 ^ j"
    "(if j < 4 then 1 else (2::nat) ^ (j - 4)) * 16 \<le> 16 + 2 ^ j"
    by (auto simp: power_add)
qed

lemma init_shape: "shape N \<lparr>lists = h, groups = init_groups N, groups_count = Suc N, buddy_base = p\<rparr>"
proof -
  have 1: "i div 2 < 8 * xor_bytes N k" if "i < 2 ^ (N - k)" for i k
    using less_le_trans [OF that pow2_le_bytes(2)] unfolding xor_bytes_alt by simp
  have 2: "i < 8 * split_bytes N k" if "i < 2 ^ (N - k)" for i k
    using less_le_trans [OF that pow2_le_bytes(1)] unfolding split_bytes_alt by simp
  show ?thesis
    using 1 2 by (simp add: shape_def init_groups_def less_Suc_eq_le del: upt_Suc)
qed

lemma init_bits:
  assumes "groups b = init_groups N" "k \<le> N"
  shows "in_bits (pair_alloc_xor (groups b ! k)) j \<Longrightarrow> \<not> xorbit b k j"
    and "0 < k \<Longrightarrow> in_bits (split (groups b ! k)) j \<Longrightarrow> \<not> splitbit b k j"
  using assms by (auto simp: init_groups_def bit_at_def del: upt_Suc simp del: upt_Suc)

lemma init_lists_other: "(\<And>k. k < n \<Longrightarrow> y \<noteq> p + 32 * k) \<Longrightarrow> init_lists h p n y = h y"
  by (induction n) (auto simp: init_lists_def lst_init_other)

lemma init_lists_dlist: "k < n \<Longrightarrow> dlist (init_lists h p n) (p + 32 * k) []"
proof (induction n)
  case (Suc n)
  have eq: "init_lists h p (Suc n) = lst_init (init_lists h p n) (p + 32 * n)"
    by (simp add: init_lists_def)
  show ?case
  proof (cases "k = n")
    case True
    then show ?thesis unfolding eq using dlist_init by simp
  next
    case False
    then have d: "dlist (init_lists h p n) (p + 32 * k) []" using Suc by simp
    have "dlist (lst_init (init_lists h p n) (p + 32 * n)) (p + 32 * k) [] =
          dlist (init_lists h p n) (p + 32 * k) []"
      by (rule dlist_frame) (use False in \<open>auto simp: lst_init_other\<close>)
    then show ?thesis unfolding eq using d by simp
  qed
qed simp

lemma log2_bounds: "0 < n \<Longrightarrow> 2 ^ log2 n \<le> n \<and> n < 2 * 2 ^ log2 n"
proof (induction n rule: log2.induct)
  case (1 n)
  show ?case
  proof (cases "n > 1")
    case True
    then have "2 ^ log2 (n div 2) \<le> n div 2 \<and> n div 2 < 2 * 2 ^ log2 (n div 2)" using 1 by simp
    then show ?thesis using True by (simp add: log2.simps [of n]) linarith
  next
    case False
    then show ?thesis using 1 by (simp add: log2.simps [of n])
  qed
qed

lemma sum_pow2_rev: "(\<Sum>k<Suc N. (2::nat) ^ (N - k)) < 2 ^ Suc N"
  by (induction N) (simp_all add: sum.lessThan_Suc_shift del: sum.lessThan_Suc)

lemma tables_bytes:
  "16 * sum_list (map (xor_bytes N) [0 ..< Suc N]) + 16 * sum_list (map (split_bytes N) [1 ..< Suc N]) \<le>
     32 * N + 16 + 4 * 2 ^ N"
proof -
  have "16 * sum_list (map (xor_bytes N) [0 ..< Suc N]) = (\<Sum>k<Suc N. xor_bytes N k * 16)"
    by (simp add: interv_sum_list_conv_sum_set_nat sum_distrib_right [symmetric] lessThan_atLeast0 del: upt_Suc sum.op_ivl_Suc)
  also have "\<dots> \<le> (\<Sum>k<Suc N. 16 + 2 ^ (N - k))"
    unfolding xor_bytes_alt by (intro sum_mono pow2_le_bytes(4))
  also have "\<dots> \<le> 16 * Suc N + 2 ^ Suc N"
    using sum_pow2_rev [of N] by (simp only: sum.distrib sum_constant card_lessThan) simp
  finally have X: "16 * sum_list (map (xor_bytes N) [0 ..< Suc N]) \<le> 16 * Suc N + 2 ^ Suc N" .
  have "8 * sum_list (map (split_bytes N) [1 ..< Suc N]) = (\<Sum>k\<in>{1..<Suc N}. split_bytes N k * 8)"
    by (simp add: interv_sum_list_conv_sum_set_nat sum_distrib_right [symmetric] del: upt_Suc sum.op_ivl_Suc)
  also have "\<dots> \<le> (\<Sum>k\<in>{1..<Suc N}. 8 + 2 ^ (N - k))"
    unfolding split_bytes_alt by (intro sum_mono pow2_le_bytes(3))
  also have "\<dots> = 8 * N + (\<Sum>k\<in>{1..<Suc N}. 2 ^ (N - k))"
    by (simp only: sum.distrib sum_constant card_atLeastLessThan) simp
  also have "(\<Sum>k\<in>{1..<Suc N}. (2::nat) ^ (N - k)) \<le> 2 ^ N"
  proof (cases N)
    case (Suc n)
    have "(\<Sum>k\<in>{1..<Suc N}. (2::nat) ^ (N - k)) = (\<Sum>k<Suc n. 2 ^ (n - k))"
      unfolding Suc One_nat_def sum.shift_bounds_Suc_ivl by (simp add: lessThan_atLeast0 del: sum.op_ivl_Suc)
    then show ?thesis using sum_pow2_rev [of n] Suc by simp
  qed simp
  finally show ?thesis using X by simp
qed

lemma quarter: "7 \<le> N \<Longrightarrow> 544 * N + 768 \<le> 240 * 2 ^ (N - 2)"
proof (induction N rule: dec_induct)
  case (step n)
  then have "Suc n - 2 = Suc (n - 2)" by simp
  then show ?case using step by simp
qed simp

lemma tables_end_units:
  assumes "7 \<le> N"
  shows "\<exists>m. tables_end (16 * q) (Suc N) = 16 * q + 16 * m \<and> 2 * N < m \<and> m \<le> 2 ^ (N - 2)"
proof -
  let ?X = "sum_list (map (xor_bytes N) [0 ..< Suc N])" and ?S = "sum_list (map (split_bytes N) [1 ..< Suc N])"
  define y where "y = 32 * N + 31 + ?X + ?S"
  define m where "m = Suc (y div 16)"
  have "tables_end (16 * q) (Suc N) = ROUNDUP (Suc (16 * q + y)) LEAF_SIZE"
    by (simp add: tables_end_def y_def add_ac del: upt_Suc)
  also have "\<dots> = 16 * q + 16 * m"
    by (simp add: ROUNDUP_def LEAF_SIZE_def m_def)
  finally have 1: "tables_end (16 * q) (Suc N) = 16 * q + 16 * m" .
  have "2 * N \<le> y div 16" unfolding y_def by simp
  then have 2: "2 * N < m" by (simp add: m_def)
  have "16 * (y div 16) \<le> y" by simp
  moreover have "16 * y \<le> 512 * N + 496 + (32 * N + 16 + 4 * 2 ^ N)"
    using tables_bytes [of N] unfolding y_def by (simp del: upt_Suc)
  moreover have "(2::nat) ^ N = 4 * 2 ^ (N - 2)"
  proof -
    have "N = 2 + (N - 2)" using assms by simp
    then have "(2::nat) ^ N = 2 ^ 2 * 2 ^ (N - 2)" by (metis power_add)
    then show ?thesis by simp
  qed
  ultimately have "m \<le> 2 ^ (N - 2)" using quarter [OF assms] unfolding m_def by linarith
  then show ?thesis using 1 2 by blast
qed

lemma init_count_size:
  assumes "1024 \<le> sz" "\<forall>j. sz \<noteq> 2 ^ j"
  shows "\<exists>N. init_count sz = Suc N \<and> 7 \<le> N \<and> 2 ^ (N - 1) \<le> sz div 16 \<and> sz < 16 * 2 ^ N"
proof -
  define L where "L = log2 (sz div 16)"
  have b: "2 ^ L \<le> sz div 16" "sz div 16 < 2 * 2 ^ L"
    using log2_bounds [of "sz div 16"] assms(1) by (auto simp: L_def)
  have "sz \<noteq> 2 ^ (L + 4)" using assms(2) by blast
  then have gt: "sz > BLK_SIZE L" using b(1) by (simp add: BLK_SIZE_def LEAF_SIZE_def power_add)
  have "6 \<le> L"
  proof (rule ccontr)
    assume "\<not> 6 \<le> L"
    then have "(2::nat) ^ L \<le> 2 ^ 5" by (intro power_increasing) auto
    then show False using b assms(1) by simp
  qed
  then show ?thesis
    using gt b by (intro exI [of _ "Suc L"]) (simp add: init_count_def Let_def LEAF_SIZE_def flip: L_def)
qed

section \<open>Initialisation establishes the invariant\<close>

lemma free_total:
  assumes l: "layout N m e" and t: "t = init_tree N (reserved N m e)" and inv: "tree_inv N t"
  shows "free_below t N = 16 * (e - m)"
proof -
  have me: "m \<le> e" "e < 2 ^ N" using borders(1) [OF l, of 0] l by (auto simp: layout_def up_def)
  have "used t = Pair 0 ` reserved N m e" using me by (auto simp: t init_tree_def)
  then have u: "(\<Sum>n \<in> used t. 2 ^ fst n) = m + (2 ^ N - e)"
    using me by (simp add: sum.reindex inj_on_def card_Un_disjoint disjoint_iff)
  have "(\<Sum>n \<in> free t. 2 ^ fst n) + (\<Sum>n \<in> used t. 2 ^ fst n) = (2::nat) ^ N"
    using leaf_sizes [OF inv] finite_blocks [OF inv] tree_invD(6) [OF inv]
    by (subst sum.union_disjoint [symmetric]) auto
  then have "(\<Sum>n \<in> free t. 2 ^ fst n) = e - m" using u me by simp
  moreover have "{n \<in> free t. fst n < N} = free t" by (auto simp: t init_tree_def)
  ultimately show ?thesis
    by (simp add: free_below_def BLK_SIZE_def LEAF_SIZE_def mult.commute [of _ 16] flip: sum_distrib_left)
qed

lemma bd_initfree_repr:
  assumes l: "layout N m e" and t: "t = init_tree N (reserved N m e)" and hd: "2 * N < m"
    and b0: "groups b0 = init_groups N" "lists b0 = init_lists h (buddy_base b0) (Suc N)" "shape N b0"
    and mk: "marked N (touch (reserved N m e)) b0 b"
  shows "\<exists>b'. bd_initfree b (buddy_base b + 16 * m) (buddy_base b + 16 * e) = Ret (16 * (e - m), b') \<and>
    buddy_base b' = buddy_base b \<and> repr N b' t"
proof -
  let ?U = "reserved N m e"
  have N: "0 < N" and "0 < m" using l by (auto simp: layout_def)
  have sub: "?U \<subseteq> {..<2 ^ N}" using borders(1) [OF l, of 0] l by (auto simp: layout_def up_def)
  then have inv: "tree_inv N t" unfolding t using N \<open>0 < m\<close> by (intro init_tree_inv) auto
  have heads: "\<forall>k \<le> N. (0, 2 * k) \<in> used t" using hd sub by (auto simp: t init_tree_def)
  have sh: "shape N b" and base: "buddy_base b = buddy_base b0" "lists b = lists b0"
    using mk by (simp_all add: marked_def)
  have x: "\<forall>k < N. \<forall>i < 2 ^ (N - k). xorbit b k (i div 2) = (touch ?U k i \<noteq> touch ?U k (buddy_of i))"
    using mk init_bits(1) [OF b0(1)] b0(3) by (auto simp: marked_def shape_def)
  have sp: "\<forall>k \<le> N. 0 < k \<longrightarrow> (\<forall>i < 2 ^ (N - k). splitbit b k i = touch ?U k i)"
    using mk init_bits(2) [OF b0(1)] b0(3) by (auto simp: marked_def shape_def)
  have "filled b t 0 {} = (\<lambda>_. {})" by (simp add: filled_def fun_eq_iff)
  then have "initfree_inv N t b 0 (0, b)"
    using init_lists_dlist [of _ "Suc N" h "buddy_base b"] b0(2) base
    by (simp add: initfree_inv_def free_below_def rings_def freelist_def less_Suc_eq_le)
  then obtain s where s: "foldR (initfree_level (buddy_base b + 16 * m) (buddy_base b + 16 * e)) [0..<N] (0, b) = Ret s"
    "initfree_inv N t b N s"
    using foldR_inv [of "initfree_inv N t b" "(0, b)" N] initfree_step [OF l t _ sh x heads inv]
    by (metis surj_pair)
  obtain b' where b': "s = (16 * (e - m), b')"
    using s(2) free_total [OF l t inv] by (cases s) (auto simp: initfree_inv_def)
  have g: "groups b' = groups b" "groups_count b' = groups_count b" "buddy_base b' = buddy_base b"
    and r: "rings (lists b') N (freelist b') (filled b' t N {})"
    using s(2) b' by (simp_all add: initfree_inv_def)
  have "filled b' t N {} k = free_addrs b' t k" if "k \<le> N" for k
    using that by (auto simp: filled_def free_addrs_def t init_tree_def)
  then have "rings (lists b') N (freelist b') (free_addrs b' t)" using r by (simp add: rings_def)
  moreover have "shape N b'" using sh g by (simp add: shape_def)
  moreover have "\<forall>k \<le> N. 0 < k \<longrightarrow> (\<forall>i < 2 ^ (N - k). splitbit b' k i = ((k, i) \<in> spl t))"
    using sp unfolding g(1) by (simp add: t init_tree_def)
  moreover have "busy t k i = touch ?U k i" if "k < N" "i < 2 ^ (N - k)" for k i
    using that by (cases k) (auto simp: busy_def t init_tree_def)
  then have "\<forall>k < N. \<forall>i < 2 ^ (N - k). xorbit b' k (i div 2) = (busy t k i \<noteq> busy t k (buddy_of i))"
    using x buddy_of_lt unfolding g(1) by simp
  ultimately have "repr N b' t" using inv heads by (intro reprI) auto
  then show ?thesis using s(1) b' g(3) sh by (auto simp: bd_initfree_def)
qed

lemma buddy_init_repr:
  assumes base: "0 < base" and sz: "sz = end' - ROUNDUP base 16" and big: "1024 \<le> sz" and np: "\<forall>j. sz \<noteq> 2 ^ j"
  shows "\<exists>N m b. buddy_init h base end' = Ret b \<and> buddy_base b = ROUNDUP base 16 \<and>
    sz < 16 * 2 ^ N \<and> 2 * N < m \<and> layout N m (sz div 16) \<and>
    repr N b (init_tree N (reserved N m (sz div 16)))"
proof -
  define p where "p = ROUNDUP base 16"
  define e where "e = sz div 16"
  obtain q where q: "p = 16 * q" using that [of "Suc ((base - 1) div 16)"] by (simp add: p_def ROUNDUP_def)
  obtain N where N: "init_count sz = Suc N" "7 \<le> N" "2 ^ (N - 1) \<le> e" "sz < 16 * 2 ^ N"
    using init_count_size [OF big np] unfolding e_def by blast
  obtain m where m: "tables_end p (Suc N) = p + 16 * m" "2 * N < m" "m \<le> 2 ^ (N - 2)"
    using tables_end_units [OF N(2), of q] unfolding q by blast
  have l: "layout N m e" using m N by (simp add: layout_def e_def less_mult_imp_div_less mult.commute)
  define b0 where "b0 = \<lparr>lists = init_lists h p (Suc N), groups = init_groups N,
      groups_count = Suc N, buddy_base = p\<rparr>"
  have sh0: "shape N b0" unfolding b0_def by (rule init_shape)
  have p16: "p mod 16 = 0" using q by simp
  have em: "0 < m" "m \<le> 2 ^ N" "e < 2 ^ N"
    using borders(1) [OF l, of 0] l by (auto simp: layout_def up_def)
  obtain b1 where b1: "bd_mark b0 p (p + 16 * m) = Ret b1"
    "marked N (\<lambda>k i. i < up m k) b0 b1"
    using bd_mark_marked [OF sh0 _ em(1,2)] p16 by (auto simp: b0_def)
  have s1: "shape N b1" "buddy_base b1 = p" using b1(2) by (simp_all add: marked_def b0_def)
  obtain b2 where b2: "bd_mark b1 (p + 16 * e) (p + 16 * 2 ^ N) = Ret b2"
    "marked N (\<lambda>k i. e div 2 ^ k \<le> i \<and> i < up (2 ^ N) k) b1 b2"
    using bd_mark_marked [OF s1(1) _ em(3)] p16 s1(2) by auto
  have s2: "shape N b2" "buddy_base b2 = p" using b2(2) s1 by (simp_all add: marked_def)
  have mk: "marked N (touch (reserved N m e)) b0 b2"
    by (rule marked_trans [OF b1(2) b2(2)])
       (use borders(1) [OF l] touch_range [OF em(1)] touch_range [OF em(3)] in
         \<open>fastforce simp: touch_Un lessThan_atLeast0\<close>)+
  obtain b3 where b3: "bd_initfree b2 (p + 16 * m) (p + 16 * e) = Ret (16 * (e - m), b3)"
    "buddy_base b3 = p" "repr N b3 (init_tree N (reserved N m e))"
    using bd_initfree_repr [OF l refl m(2) _ _ sh0 mk] s2(2) by (auto simp: b0_def)
  have un: "ROUNDUP (16 * 2 ^ N - sz) 16 = 16 * (2 ^ N - e)"
  proof -
    obtain d where d: "2 ^ N = e + Suc d" using em(3) less_imp_Suc_add by auto
    obtain r where r: "sz = 16 * e + r" "r < 16"
      using that [of "sz mod 16"] by (simp add: e_def)
    have "16 * 2 ^ N - sz - 1 = 16 * d + (15 - r)" unfolding d r(1) using r(2) by simp
    then show ?thesis unfolding ROUNDUP_def d by simp
  qed
  have meta: "bd_mark_data_structures b0 (p + 16 * m) = Ret (16 * m, b1)"
    using b1(1) by (simp add: bd_mark_data_structures_def b0_def)
  have "bd_mark_unavailable b1 end' = Ret (16 * (2 ^ N - e), b2)"
  proof -
    have "p + BLK_SIZE N - 16 * (2 ^ N - e) = p + 16 * e" "p + BLK_SIZE N = p + 16 * 2 ^ N"
      using em(3) by (simp_all add: BLK_SIZE_def LEAF_SIZE_def)
    then show ?thesis
      using b2(1) un s1 N(4) sz
      by (simp add: bd_mark_unavailable_def Let_def p_def BLK_SIZE_def LEAF_SIZE_def mult.commute [of _ 16])
  qed
  moreover have "p + BLK_SIZE N - 16 * (2 ^ N - e) = p + 16 * e"
    "BLK_SIZE N - 16 * m - 16 * (2 ^ N - e) = 16 * (e - m)"
    using em by (simp_all add: BLK_SIZE_def LEAF_SIZE_def)
  ultimately have "buddy_init h base end' = Ret b3"
    using meta b3(1) N(1) m(1) s2 sz reprD(2) [OF b3(3)]
    by (simp add: buddy_init_def LEAF_SIZE_def b0_def [symmetric] p_def [symmetric])
  then show ?thesis using b3 N(4) m(2) l unfolding p_def e_def by blast
qed

end
