(* ===== verification/Ring.thy ===== *)
theory Ring
  imports Xv6_Prelude
begin

text \<open>
  Ring buffers. The pipe, the console input buffer and the UART output buffer keep two free-running
  unsigned counters and index an array by the counter modulo its size. The counters wrap around at
  their width, which is harmless because the size divides \<open>2 ^ w\<close>. The locale \<open>fifo\<close> is the contract
  a first-in-first-out buffer keeps; its clients only use its laws.
\<close>

section \<open>Counters modulo the size\<close>

definition ring_contents :: "'a list \<Rightarrow> 'w::len word \<Rightarrow> 'w word \<Rightarrow> 'a list" where
  "ring_contents buf r w =
     map (\<lambda>j. buf ! (unat (r + word_of_nat j) mod length buf)) [0..<unat (w - r)]"

lemma length_ring_contents [simp]: "length (ring_contents buf r w) = unat (w - r)"
  by (simp add: ring_contents_def)

lemma unat_add_mod:
  fixes r :: "'w::len word"
  assumes "n dvd 2 ^ LENGTH('w)"
  shows "unat (r + word_of_nat j) mod n = (unat r + j) mod n"
proof -
  have "unat (r + word_of_nat j) = (unat r + j) mod 2 ^ LENGTH('w)"
    by (simp add: unat_word_ariths unat_of_nat mod_add_right_eq)
  then show ?thesis using assms by (simp add: mod_mod_cancel)
qed

lemma unat_diff_Suc:
  fixes r w :: "'w::len word"
  assumes "Suc (unat (w - r)) < 2 ^ LENGTH('w)"
  shows "unat (w + 1 - r) = Suc (unat (w - r))"
proof -
  have "unat ((w - r) + 1) = Suc (unat (w - r)) mod 2 ^ LENGTH('w)"
    by (simp only: unat_word_ariths(1) unat_1 Suc_eq_plus1)
  then have "unat ((w - r) + 1) = Suc (unat (w - r))" using assms by simp
  then show ?thesis by (simp add: add_diff_eq add.commute)
qed

lemma ring_put:
  fixes r w :: "'w::len word"
  assumes n: "length buf dvd 2 ^ LENGTH('w)" "length buf < 2 ^ LENGTH('w)" and lt: "unat (w - r) < length buf"
  shows "ring_contents (buf[unat w mod length buf := x]) r (w + 1) = ring_contents buf r w @ [x]"
proof -
  let ?n = "length buf" and ?d = "unat (w - r)"
  have d: "unat (w + 1 - r) = Suc ?d" using n(2) lt by (intro unat_diff_Suc) simp
  have w: "unat w mod ?n = (unat r + ?d) mod ?n"
    using unat_add_mod [OF n(1), of r ?d] by simp
  have neq: "(unat r + j) mod ?n \<noteq> (unat r + ?d) mod ?n" if "j < ?d" for j
  proof
    assume "(unat r + j) mod ?n = (unat r + ?d) mod ?n"
    then have "?n dvd (unat r + ?d) - (unat r + j)" using that by (intro mod_eq_dvd_iff_nat [THEN iffD1]) auto
    then have "?n \<le> ?d - j" using that by (intro dvd_imp_le) auto
    then show False using lt by simp
  qed
  have "?n > 0" using lt by linarith
  have same: "buf[(unat r + ?d) mod ?n := x] ! ((unat r + j) mod ?n) = buf ! ((unat r + j) mod ?n)"
    if "j < ?d" for j using neq [OF that] by (metis nth_list_update_neq)
  show ?thesis
    unfolding ring_contents_def d
    using same w \<open>?n > 0\<close> by (simp add: unat_add_mod [OF n(1)])
qed

lemma ring_get:
  fixes r w :: "'w::len word"
  assumes "0 < unat (w - r)"
  shows "ring_contents buf r w = buf ! (unat r mod length buf) # ring_contents buf (r + 1) w"
proof -
  have "unat (w - (r + 1)) = unat (w - r) - 1"
  proof -
    have "w - r \<noteq> 0" using assms by auto
    then show ?thesis using unat_minus_one [of "w - r"] by (simp add: diff_diff_eq)
  qed
  then have "[0..<unat (w - r)] = 0 # map Suc [0..<unat (w - (r + 1))]"
    using assms by (simp add: map_Suc_upt upt_conv_Cons)
  then show ?thesis by (simp add: ring_contents_def add.assoc)
qed

lemma ring_empty: "ring_contents buf r w = [] \<longleftrightarrow> r = w"
proof -
  have "ring_contents buf r w = [] \<longleftrightarrow> unat (w - r) = 0" by (simp add: ring_contents_def)
  also have "\<dots> \<longleftrightarrow> w - r = 0" by (rule unat_eq_zero)
  finally show ?thesis by (simp add: eq_commute [of r w])
qed

section \<open>The contract of a bounded queue\<close>

text \<open>
  A sequence of steps on a queue: \<open>Inl x\<close> puts \<open>x\<close> if there is room, \<open>Inr ()\<close> takes an element if there
  is one. The result is the final state, the elements accepted and the elements delivered.
\<close>

fun run_queue :: "('s \<Rightarrow> 'a list) \<Rightarrow> nat \<Rightarrow> ('a \<Rightarrow> 's \<Rightarrow> 's) \<Rightarrow> ('s \<Rightarrow> 'a \<times> 's) \<Rightarrow> ('a + unit) list \<Rightarrow> 's \<Rightarrow>
    's \<times> 'a list \<times> 'a list" where
  "run_queue contents cap put get [] s = (s, [], [])"
| "run_queue contents cap put get (Inl x # ops) s =
     (if length (contents s) < cap
      then case run_queue contents cap put get ops (put x s) of (s', i, d) \<Rightarrow> (s', x # i, d)
      else run_queue contents cap put get ops s)"
| "run_queue contents cap put get (Inr u # ops) s =
     (if contents s \<noteq> []
      then case get s of (x, s1) \<Rightarrow>
             case run_queue contents cap put get ops s1 of (s', i, d) \<Rightarrow> (s', i, x # d)
      else run_queue contents cap put get ops s)"

locale fifo =
  fixes ok :: "'s \<Rightarrow> bool" and contents :: "'s \<Rightarrow> 'a list" and cap :: nat
    and put :: "'a \<Rightarrow> 's \<Rightarrow> 's" and get :: "'s \<Rightarrow> 'a \<times> 's"
  assumes bounded: "ok s \<Longrightarrow> length (contents s) \<le> cap"
    and put_law: "ok s \<Longrightarrow> length (contents s) < cap \<Longrightarrow> ok (put x s) \<and> contents (put x s) = contents s @ [x]"
    and get_law: "ok s \<Longrightarrow> contents s \<noteq> [] \<Longrightarrow>
      ok (snd (get s)) \<and> contents s = fst (get s) # contents (snd (get s))"
begin

text \<open>What was in the queue followed by what was accepted is what was delivered followed by what is left.\<close>

lemma run_queue_order:
  "ok s \<Longrightarrow> run_queue contents cap put get ops s = (s', i, d) \<Longrightarrow>
   ok s' \<and> contents s @ i = d @ contents s' \<and> length (contents s') \<le> cap"
proof (induction ops arbitrary: s s' i d)
  case Nil
  then show ?case using bounded by auto
next
  case (Cons op ops)
  show ?case
  proof (cases op)
    case (Inl x)
    show ?thesis
    proof (cases "length (contents s) < cap")
      case True
      obtain s1 i1 d1 where r: "run_queue contents cap put get ops (put x s) = (s1, i1, d1)"
        by (metis prod_cases3)
      then have "ok s1 \<and> contents (put x s) @ i1 = d1 @ contents s1 \<and> length (contents s1) \<le> cap"
        using Cons.IH put_law [OF Cons.prems(1) True] by blast
      then show ?thesis using Cons.prems Inl True r put_law [OF Cons.prems(1) True, of x] by auto
    next
      case False
      then show ?thesis using Cons Inl by auto
    qed
  next
    case (Inr u)
    show ?thesis
    proof (cases "contents s = []")
      case False
      obtain x s1 where g: "get s = (x, s1)" by fastforce
      obtain s2 i2 d2 where r: "run_queue contents cap put get ops s1 = (s2, i2, d2)"
        by (metis prod_cases3)
      have "ok s1" "contents s = x # contents s1" using get_law [OF Cons.prems(1) False] g by auto
      then show ?thesis using Cons.IH [of s1 s2 i2 d2] Cons.prems Inr False r g by auto
    next
      case True
      then have "run_queue contents cap put get ops s = (s', i, d)" using Cons.prems(2) Inr by simp
      then show ?thesis using Cons.IH [OF Cons.prems(1)] by blast
    qed
  qed
qed

end

end
