(* ===== verification/Uart.thy ===== *)
theory Uart
  imports Ring Kmonad
begin

text \<open>
  The driver of the serial port (\<^verbatim>\<open>src/kernel/hardware/uart.c\<close>). The state is the transmit ring of the driver
  and the device: \<open>idle\<close> are the answers that the next reads of the line status register give about the
  transmitter (none left: not idle), \<open>sent\<close> the characters written to the transmit register, \<open>rx\<close> the
  characters received and not read yet, and \<open>regs\<close> the writes to the control registers. The kernel is not
  in \<open>panic\<close>, so \<open>panicked\<close> is 0; a call that would sleep is the fault \<open>Blocked\<close>.
\<close>

section \<open>Registers and state\<close>

definition IER :: nat where "IER = 1"
definition IER_RX_ENABLE :: u8 where "IER_RX_ENABLE = 1"
definition IER_TX_ENABLE :: u8 where "IER_TX_ENABLE = 2"
definition FCR :: nat where "FCR = 2"
definition FCR_FIFO_ENABLE :: u8 where "FCR_FIFO_ENABLE = 1"
definition FCR_FIFO_CLEAR :: u8 where "FCR_FIFO_CLEAR = push_bit 1 3"
definition LCR :: nat where "LCR = 3"
definition LCR_EIGHT_BITS :: u8 where "LCR_EIGHT_BITS = 3"
definition LCR_BAUD_LATCH :: u8 where "LCR_BAUD_LATCH = push_bit 7 1"
definition UART_TX_BUF_SIZE :: nat where "UART_TX_BUF_SIZE = 32"

record uart =
  tx_buf :: "u8 list"
  tx_w :: u64
  tx_r :: u64
  idle :: "bool list"
  sent :: "u8 list"
  rx :: "u8 list"
  regs :: "(nat \<times> u8) list"

definition WriteReg :: "nat \<Rightarrow> u8 \<Rightarrow> uart \<Rightarrow> uart" where
  "WriteReg reg v u = u\<lparr>regs := regs u @ [(reg, v)]\<rparr>"

definition uartinit :: "uart \<Rightarrow> uart" where
  "uartinit u =
     (let u = WriteReg IER 0 u;
          u = WriteReg LCR LCR_BAUD_LATCH u;
          u = WriteReg 0 3 u;
          u = WriteReg 1 0 u;
          u = WriteReg LCR LCR_EIGHT_BITS u;
          u = WriteReg FCR (FCR_FIFO_ENABLE OR FCR_FIFO_CLEAR) u
      in WriteReg IER (IER_TX_ENABLE OR IER_RX_ENABLE) u)"

section \<open>Sending\<close>

definition tx_put :: "u8 \<Rightarrow> uart \<Rightarrow> uart" where
  "tx_put c u = u\<lparr>tx_buf := (tx_buf u)[unat (tx_w u) mod UART_TX_BUF_SIZE := c], tx_w := tx_w u + 1\<rparr>"

definition tx_get :: "uart \<Rightarrow> u8 \<times> uart" where
  "tx_get u = (tx_buf u ! (unat (tx_r u) mod UART_TX_BUF_SIZE), u\<lparr>tx_r := tx_r u + 1\<rparr>)"

text \<open>\<open>uartstart\<close>; the second result tells whether it has called \<open>wakeup(&uart_tx_r)\<close>.\<close>

function uartstart :: "uart \<Rightarrow> uart \<times> bool" where
  "uartstart u =
     (if tx_w u = tx_r u then (u, False)
      else case idle u of
             [] \<Rightarrow> (u, False)
           | ready # later \<Rightarrow>
               let u1 = u\<lparr>idle := later\<rparr> in
               if \<not> ready then (u1, False)
               else let (c, u2) = tx_get u1 in (fst (uartstart (u2\<lparr>sent := sent u2 @ [c]\<rparr>)), True))"
  by pat_completeness auto
termination
  by (relation "measure (\<lambda>u. length (idle u))") (auto simp: tx_get_def)

declare uartstart.simps [simp del]

definition uartputc :: "u8 \<Rightarrow> uart \<Rightarrow> (uart \<times> bool) res" where
  "uartputc c u =
     (if tx_w u = tx_r u + word_of_nat UART_TX_BUF_SIZE then Fail Blocked
      else Ret (uartstart (tx_put c u)))"

text \<open>\<open>uartputc_sync\<close> spins until the transmitter is idle.\<close>

definition uartputc_sync :: "u8 \<Rightarrow> uart \<Rightarrow> uart res" where
  "uartputc_sync c u =
     (case dropWhile Not (idle u) of
        [] \<Rightarrow> Fail Diverge
      | _ # later \<Rightarrow> Ret (u\<lparr>idle := later, sent := sent u @ [c]\<rparr>))"

section \<open>Receiving\<close>

definition uartgetc :: "uart \<Rightarrow> u8 option \<times> uart" where
  "uartgetc u = (case rx u of [] \<Rightarrow> (None, u) | c # cs \<Rightarrow> (Some c, u\<lparr>rx := cs\<rparr>))"

section \<open>The transmit ring is a queue\<close>

definition uart_ok :: "uart \<Rightarrow> bool" where
  "uart_ok u \<longleftrightarrow> length (tx_buf u) = UART_TX_BUF_SIZE \<and> unat (tx_w u - tx_r u) \<le> UART_TX_BUF_SIZE"

definition tx_contents :: "uart \<Rightarrow> u8 list" where
  "tx_contents u = ring_contents (tx_buf u) (tx_r u) (tx_w u)"

interpretation uart_queue: fifo uart_ok tx_contents UART_TX_BUF_SIZE tx_put tx_get
proof
  fix u :: uart and x
  assume ok: "uart_ok u"
  then have l: "length (tx_buf u) = 32" by (simp add: uart_ok_def UART_TX_BUF_SIZE_def)
  show "length (tx_contents u) \<le> UART_TX_BUF_SIZE" using ok by (simp add: uart_ok_def tx_contents_def)
  { assume "length (tx_contents u) < UART_TX_BUF_SIZE"
    then have lt: "unat (tx_w u - tx_r u) < length (tx_buf u)"
      using l by (simp add: tx_contents_def UART_TX_BUF_SIZE_def)
    then have "tx_contents (tx_put x u) = tx_contents u @ [x]"
      using ring_put [of "tx_buf u" "tx_w u" "tx_r u" x] l
      by (simp add: tx_contents_def tx_put_def UART_TX_BUF_SIZE_def)
    moreover have "uart_ok (tx_put x u)"
      using lt l unat_diff_Suc [of "tx_w u" "tx_r u"]
      by (simp add: uart_ok_def tx_put_def UART_TX_BUF_SIZE_def)
    ultimately show "uart_ok (tx_put x u) \<and> tx_contents (tx_put x u) = tx_contents u @ [x]" by simp }
  { assume "tx_contents u \<noteq> []"
    then have "0 < unat (tx_w u - tx_r u)" by (simp add: tx_contents_def ring_contents_def)
    then have c: "tx_contents u = fst (tx_get u) # tx_contents (snd (tx_get u))"
      using ring_get [of "tx_w u" "tx_r u" "tx_buf u"] l
      by (simp add: tx_contents_def tx_get_def UART_TX_BUF_SIZE_def)
    moreover have "uart_ok (snd (tx_get u))"
      using ok l arg_cong [OF c, of length]
      by (simp add: uart_ok_def tx_get_def tx_contents_def UART_TX_BUF_SIZE_def)
    ultimately show "uart_ok (snd (tx_get u)) \<and> tx_contents u = fst (tx_get u) # tx_contents (snd (tx_get u))" by simp }
qed

lemma uart_full: "uart_ok u \<Longrightarrow>
    tx_w u = tx_r u + word_of_nat UART_TX_BUF_SIZE \<longleftrightarrow> length (tx_contents u) = UART_TX_BUF_SIZE"
proof
  assume "tx_w u = tx_r u + word_of_nat UART_TX_BUF_SIZE"
  then show "length (tx_contents u) = UART_TX_BUF_SIZE" by (simp add: tx_contents_def UART_TX_BUF_SIZE_def)
next
  assume "length (tx_contents u) = UART_TX_BUF_SIZE"
  then have "word_of_nat (unat (tx_w u - tx_r u)) = (word_of_nat UART_TX_BUF_SIZE :: u64)"
    by (simp add: tx_contents_def)
  then have "tx_w u - tx_r u = word_of_nat UART_TX_BUF_SIZE" by simp
  then show "tx_w u = tx_r u + word_of_nat UART_TX_BUF_SIZE" by (metis add_diff_cancel_left' add_diff_eq)
qed

text \<open>
  \<open>uartstart\<close> sends as many of the buffered characters as the device takes: one for each leading \<open>True\<close> of
  the answers, in the order of the ring.
\<close>

definition ready_for :: "uart \<Rightarrow> nat" where
  "ready_for u = length (takeWhile (\<lambda>x. x) (idle u))"

lemma uartstart_sends:
  assumes "uart_ok u"
  shows "uart_ok (fst (uartstart u)) \<and>
    tx_contents (fst (uartstart u)) = drop (ready_for u) (tx_contents u) \<and>
    sent (fst (uartstart u)) = sent u @ take (ready_for u) (tx_contents u) \<and>
    rx (fst (uartstart u)) = rx u \<and>
    (snd (uartstart u) \<longleftrightarrow> 0 < ready_for u \<and> tx_contents u \<noteq> [])"
  using assms
proof (induction "length (idle u)" arbitrary: u rule: less_induct)
  case less
  have empty: "tx_contents u = [] \<longleftrightarrow> tx_w u = tx_r u" by (auto simp: tx_contents_def ring_empty)
  show ?case
  proof (cases "tx_w u = tx_r u \<or> idle u = [] \<or> \<not> hd (idle u)")
    case True
    then show ?thesis using less.prems empty
      by (subst (1 2 3 4 5) uartstart.simps)
         (auto simp: ready_for_def uart_ok_def tx_contents_def Let_def split: list.splits)
  next
    case False
    then obtain later where i: "idle u = True # later" by (cases "idle u") auto
    obtain c u2 where g: "tx_get (u\<lparr>idle := later\<rparr>) = (c, u2)" by fastforce
    let ?u1 = "u\<lparr>idle := later\<rparr>" and ?u3 = "u2\<lparr>sent := sent u2 @ [c]\<rparr>"
    have ne: "tx_contents u \<noteq> []" using False empty by blast
    have ok1: "uart_ok ?u1" "tx_contents ?u1 = tx_contents u" using less.prems by (simp_all add: uart_ok_def tx_contents_def)
    have "uart_ok u2 \<and> tx_contents u = c # tx_contents u2"
      using uart_queue.get_law [OF ok1(1)] ok1(2) ne g by simp
    then have u3: "uart_ok ?u3" "tx_contents u = c # tx_contents ?u3" by (simp_all add: uart_ok_def tx_contents_def)
    have rest: "idle ?u3 = later" "sent ?u3 = sent u @ [c]" "rx ?u3 = rx u" "ready_for u = Suc (ready_for ?u3)"
      using g i by (auto simp: tx_get_def ready_for_def)
    have e: "uartstart u = (fst (uartstart ?u3), True)"
      using False i g by (subst uartstart.simps) (simp add: Let_def)
    show ?thesis using less.hyps [of ?u3] i u3 rest e by simp
  qed
qed

lemma uartstart_keeps:
  "uart_ok u \<Longrightarrow> sent (fst (uartstart u)) @ tx_contents (fst (uartstart u)) = sent u @ tx_contents u"
  using uartstart_sends [of u] append_take_drop_id [of "ready_for u" "tx_contents u"] by (metis append_assoc)

text \<open>A sequence of events at the port: a \<open>write\<close> gives a character, or the device interrupts.\<close>

datatype uart_event = Write u8 | Interrupt

fun uart_events :: "uart_event list \<Rightarrow> uart \<Rightarrow> (uart \<times> u8 list)" where
  "uart_events [] u = (u, [])"
| "uart_events (Interrupt # es) u = uart_events es (fst (uartstart u))"
| "uart_events (Write c # es) u =
     (case uartputc c u of
        Inl _ \<Rightarrow> uart_events es u
      | Inr (u', _) \<Rightarrow> (case uart_events es u' of (u'', cs) \<Rightarrow> (u'', c # cs)))"

lemma uartputc_ok:
  assumes "uart_ok u" "uartputc c u = Ret (u', x)"
  shows "uart_ok u' \<and> sent u' @ tx_contents u' = sent u @ tx_contents u @ [c]"
proof -
  have nf: "tx_w u \<noteq> tx_r u + word_of_nat UART_TX_BUF_SIZE" and u': "u' = fst (uartstart (tx_put c u))"
    using assms(2) by (auto simp: uartputc_def split: if_splits)
  have "length (tx_contents u) < UART_TX_BUF_SIZE"
    using nf uart_full [OF assms(1)] uart_queue.bounded [OF assms(1)] by simp
  then have p: "uart_ok (tx_put c u)" "tx_contents (tx_put c u) = tx_contents u @ [c]"
    using uart_queue.put_law [OF assms(1)] by simp_all
  have "sent (tx_put c u) = sent u" by (simp add: tx_put_def)
  then show ?thesis using uartstart_sends [OF p(1)] uartstart_keeps [OF p(1)] p(2) u' by metis
qed

text \<open>
  C32. The serial port sends the characters given to \<open>uartputc\<close> each once and in order, under every
  interleaving of writes and interrupts and whenever the device is ready: what was sent, followed by what
  is still buffered, is what was buffered before followed by the characters accepted.
\<close>

theorem uart_in_order:
  assumes "uart_ok u" "uart_events es u = (u', cs)"
  shows "uart_ok u' \<and> sent u' @ tx_contents u' = sent u @ tx_contents u @ cs"
  using assms
proof (induction es arbitrary: u u' cs)
  case (Cons ev es)
  show ?case
  proof (cases ev)
    case Interrupt
    then show ?thesis using Cons uartstart_sends [OF Cons.prems(1)] uartstart_keeps [OF Cons.prems(1)]
        Cons.IH [of "fst (uartstart u)" u' cs] by (metis append_assoc uart_events.simps(2))
  next
    case (Write c)
    show ?thesis
    proof (cases "uartputc c u")
      case (Inl f)
      then show ?thesis using Cons Write by simp
    next
      case (Inr r)
      obtain u1 x where r: "r = (u1, x)" by (cases r)
      obtain cs1 where cs: "uart_events es u1 = (u', cs1)" "cs = c # cs1"
        using Cons.prems(2) Write Inr r by (auto split: prod.splits)
      have "uart_ok u1 \<and> sent u1 @ tx_contents u1 = sent u @ tx_contents u @ [c]"
        using uartputc_ok [OF Cons.prems(1)] Inr r by blast
      then show ?thesis using Cons.IH [of u1 u' cs1] cs by simp
    qed
  qed
qed simp

definition sample_uart :: uart where
  "sample_uart = \<lparr>tx_buf = replicate 32 0, tx_w = 0, tx_r = 0, idle = [True, False, False, True, True],
                  sent = [], rx = [], regs = []\<rparr>"

lemma sample_uart_ok: "uart_ok sample_uart"
  by (simp add: uart_ok_def sample_uart_def UART_TX_BUF_SIZE_def)

theorem uart_in_order_witness:
  "\<exists>u'. uart_events [Write 104, Write 105, Write 10, Interrupt] sample_uart = (u', [104, 105, 10]) \<and>
        sent u' @ tx_contents u' = [104, 105, 10] \<and> sent u' = [104, 105, 10]"
proof -
  obtain u' cs where e: "uart_events [Write 104, Write 105, Write 10, Interrupt] sample_uart = (u', cs)"
    by fastforce
  have "snd (uart_events [Write 104, Write 105, Write 10, Interrupt] sample_uart) = [104, 105, 10]"
    "sent (fst (uart_events [Write 104, Write 105, Write 10, Interrupt] sample_uart)) = [104, 105, 10]"
    by code_simp+
  then have v: "cs = [104, 105, 10]" "sent u' = [104, 105, 10]" unfolding e by simp_all
  then show ?thesis using uart_in_order [OF sample_uart_ok e] e
    by (simp add: tx_contents_def sample_uart_def ring_contents_def)
qed

end
