(* ===== verification/Pipe.thy ===== *)
theory Pipe
  imports Ring
begin

text \<open>
  Pipes (\<^verbatim>\<open>src/kernel/file/pipe.c\<close>). A call of \<open>pipewrite\<close> or \<open>piperead\<close> runs under the pipe's lock until
  it returns or sleeps; \<open>sleep\<close> gives up the lock, so between two runs of a call the pipe can change.
  Each run is one function here: it gives the pipe, the state of the user memory, the channels woken
  up, and either the value returned or the loop index at which the call sleeps. User memory is a
  parameter: \<open>copyin m i\<close> reads the byte at offset \<open>i\<close> from the user address of the call, and
  \<open>copyout m i c\<close> writes it; both fail on a bad address, as \<open>copyin\<close> and \<open>copyout\<close> of
  \<^verbatim>\<open>src/kernel/memory/vm.c\<close> do.
\<close>

section \<open>Definitions\<close>

definition PIPESIZE :: nat where
  "PIPESIZE = 512"

record pipe =
  data :: "u8 list"
  nread :: u32
  nwrite :: u32
  readopen :: bool
  writeopen :: bool

text \<open>The channels \<open>&pi->nread\<close>, on which readers sleep, and \<open>&pi->nwrite\<close>, on which writers sleep.\<close>

datatype pipe_chan = Nread | Nwrite

datatype run = Returned int | Sleeping nat

text \<open>The initialisation of the pipe in \<open>pipealloc\<close>; \<open>kalloc\<close> leaves the data as it was.\<close>

definition pipe_new :: "u8 list \<Rightarrow> pipe" where
  "pipe_new d = \<lparr>data = d, nread = 0, nwrite = 0, readopen = True, writeopen = True\<rparr>"

definition pipe_put :: "u8 \<Rightarrow> pipe \<Rightarrow> pipe" where
  "pipe_put ch pi = pi\<lparr>data := (data pi)[unat (nwrite pi) mod PIPESIZE := ch], nwrite := nwrite pi + 1\<rparr>"

definition pipe_get :: "pipe \<Rightarrow> u8 \<times> pipe" where
  "pipe_get pi = (data pi ! (unat (nread pi) mod PIPESIZE), pi\<lparr>nread := nread pi + 1\<rparr>)"

text \<open>
  \<open>pipeclose\<close>: the pipe, the channel woken up, and whether the page of the pipe is freed. The second
  argument is the C value of \<open>writable\<close>.
\<close>

definition pipeclose :: "pipe \<Rightarrow> int \<Rightarrow> pipe \<times> pipe_chan \<times> bool" where
  "pipeclose pi writable =
     (let (pi', c) = (if writable \<noteq> 0 then (pi\<lparr>writeopen := False\<rparr>, Nread)
                      else (pi\<lparr>readopen := False\<rparr>, Nwrite))
      in (pi', c, \<not> readopen pi' \<and> \<not> writeopen pi'))"

function pipewrite :: "bool \<Rightarrow> ('m \<Rightarrow> nat \<Rightarrow> u8 option) \<Rightarrow> int \<Rightarrow> nat \<Rightarrow> 'm \<Rightarrow> pipe \<Rightarrow> pipe \<times> pipe_chan list \<times> run" where
  "pipewrite killed copyin n i m pi =
     (if int i < n then
        if \<not> readopen pi \<or> killed then (pi, [], Returned (-1))
        else if nwrite pi = nread pi + word_of_nat PIPESIZE then (pi, [Nread], Sleeping i)
        else case copyin m i of
               None \<Rightarrow> (pi, [Nread], Returned (int i))
             | Some ch \<Rightarrow> pipewrite killed copyin n (i + 1) m (pipe_put ch pi)
      else (pi, [Nread], Returned (int i)))"
  by pat_completeness auto
termination
  by (relation "measure (\<lambda>(killed, copyin, n, i, m, pi). nat (n - int i))") auto

declare pipewrite.simps [simp del]

function piperead_copy :: "('m \<Rightarrow> nat \<Rightarrow> u8 \<Rightarrow> 'm option) \<Rightarrow> int \<Rightarrow> nat \<Rightarrow> 'm \<Rightarrow> pipe \<Rightarrow> pipe \<times> 'm \<times> nat" where
  "piperead_copy copyout n i m pi =
     (if int i < n then
        if nread pi = nwrite pi then (pi, m, i)
        else let (ch, pi') = pipe_get pi in
             case copyout m i ch of
               None \<Rightarrow> (pi', m, i)
             | Some m' \<Rightarrow> piperead_copy copyout n (i + 1) m' pi'
      else (pi, m, i))"
  by pat_completeness auto
termination
  by (relation "measure (\<lambda>(copyout, n, i, m, pi). nat (n - int i))") auto

declare piperead_copy.simps [simp del]

definition piperead :: "bool \<Rightarrow> ('m \<Rightarrow> nat \<Rightarrow> u8 \<Rightarrow> 'm option) \<Rightarrow> int \<Rightarrow> 'm \<Rightarrow> pipe \<Rightarrow>
    pipe \<times> 'm \<times> pipe_chan list \<times> run" where
  "piperead killed copyout n m pi =
     (if nread pi = nwrite pi \<and> writeopen pi then
        if killed then (pi, m, [], Returned (-1)) else (pi, m, [], Sleeping 0)
      else case piperead_copy copyout n 0 m pi of
             (pi', m', i) \<Rightarrow> (pi', m', [Nwrite], Returned (int i)))"

section \<open>A pipe is a queue of bytes\<close>

definition pipe_ok :: "pipe \<Rightarrow> bool" where
  "pipe_ok pi \<longleftrightarrow> length (data pi) = PIPESIZE \<and> unat (nwrite pi - nread pi) \<le> PIPESIZE"

definition pipe_contents :: "pipe \<Rightarrow> u8 list" where
  "pipe_contents pi = ring_contents (data pi) (nread pi) (nwrite pi)"

lemma pipe_full: "pipe_ok pi \<Longrightarrow>
    nwrite pi = nread pi + word_of_nat PIPESIZE \<longleftrightarrow> length (pipe_contents pi) = PIPESIZE"
proof
  assume "nwrite pi = nread pi + word_of_nat PIPESIZE"
  then show "length (pipe_contents pi) = PIPESIZE" by (simp add: pipe_contents_def PIPESIZE_def)
next
  assume "length (pipe_contents pi) = PIPESIZE"
  then have "word_of_nat (unat (nwrite pi - nread pi)) = (word_of_nat PIPESIZE :: u32)"
    by (simp add: pipe_contents_def)
  then have "nwrite pi - nread pi = word_of_nat PIPESIZE" by simp
  then show "nwrite pi = nread pi + word_of_nat PIPESIZE" by (metis add_diff_cancel_left' add_diff_eq)
qed

interpretation pipe_queue: fifo pipe_ok pipe_contents PIPESIZE pipe_put pipe_get
proof
  fix pi :: pipe and x
  assume ok: "pipe_ok pi"
  then have l: "length (data pi) = 512" by (simp add: pipe_ok_def PIPESIZE_def)
  show "length (pipe_contents pi) \<le> PIPESIZE" using ok by (simp add: pipe_ok_def pipe_contents_def)
  { assume "length (pipe_contents pi) < PIPESIZE"
    then have lt: "unat (nwrite pi - nread pi) < length (data pi)" using l by (simp add: pipe_contents_def PIPESIZE_def)
    then have "pipe_contents (pipe_put x pi) = pipe_contents pi @ [x]"
      using ring_put [of "data pi" "nwrite pi" "nread pi" x] l
      by (simp add: pipe_contents_def pipe_put_def PIPESIZE_def)
    moreover have "pipe_ok (pipe_put x pi)"
      using lt l unat_diff_Suc [of "nwrite pi" "nread pi"]
      by (simp add: pipe_ok_def pipe_put_def PIPESIZE_def)
    ultimately show "pipe_ok (pipe_put x pi) \<and> pipe_contents (pipe_put x pi) = pipe_contents pi @ [x]" by simp }
  { assume "pipe_contents pi \<noteq> []"
    then have "0 < unat (nwrite pi - nread pi)" by (simp add: pipe_contents_def ring_contents_def)
    then have c: "pipe_contents pi = fst (pipe_get pi) # pipe_contents (snd (pipe_get pi))"
      using ring_get [of "nwrite pi" "nread pi" "data pi"] l
      by (simp add: pipe_contents_def pipe_get_def PIPESIZE_def)
    moreover have "pipe_ok (snd (pipe_get pi))"
      using ok l arg_cong [OF c, of length]
      by (simp add: pipe_ok_def pipe_get_def pipe_contents_def PIPESIZE_def)
    ultimately show "pipe_ok (snd (pipe_get pi)) \<and>
        pipe_contents pi = fst (pipe_get pi) # pipe_contents (snd (pipe_get pi))" by simp }
qed

section \<open>Reading and writing\<close>

text \<open>The bytes a run of \<open>pipewrite\<close> takes from user memory: from offset \<open>i\<close> up to offset \<open>j\<close>.\<close>

definition user_bytes :: "('m \<Rightarrow> nat \<Rightarrow> u8 option) \<Rightarrow> 'm \<Rightarrow> nat \<Rightarrow> nat \<Rightarrow> u8 list" where
  "user_bytes copyin m i j = map (\<lambda>k. the (copyin m k)) [i..<j]"

lemma user_bytes_Cons:
  "i < j \<Longrightarrow> copyin m i = Some ch \<Longrightarrow> user_bytes copyin m i j = ch # user_bytes copyin m (Suc i) j"
  by (simp add: user_bytes_def upt_conv_Cons)

text \<open>
  The result of a run of \<open>pipewrite\<close> from index \<open>i\<close>: the bytes up to offset \<open>j\<close> were appended. It
  sleeps only on a full pipe with an open reader; it returns \<open>-1\<close> only before it has written
  anything, because the reader is gone or the process is killed; otherwise it returns the number
  of bytes written so far, all of them unless user memory could not be read.
\<close>

definition write_post :: "bool \<Rightarrow> ('m \<Rightarrow> nat \<Rightarrow> u8 option) \<Rightarrow> int \<Rightarrow> 'm \<Rightarrow> pipe \<Rightarrow> nat \<Rightarrow> nat \<Rightarrow>
    pipe \<times> pipe_chan list \<times> run \<Rightarrow> bool" where
  "write_post killed copyin n m pi i j res \<longleftrightarrow> (case res of (pi', ws, r) \<Rightarrow>
     i \<le> j \<and> pipe_ok pi' \<and> pipe_contents pi' = pipe_contents pi @ user_bytes copyin m i j \<and>
     readopen pi' = readopen pi \<and> writeopen pi' = writeopen pi \<and>
     (\<forall>k \<in> {i..<j}. copyin m k \<noteq> None) \<and>
     (case r of
        Sleeping k \<Rightarrow> k = j \<and> int j < n \<and> readopen pi \<and> \<not> killed \<and>
          length (pipe_contents pi') = PIPESIZE \<and> ws = [Nread]
      | Returned v \<Rightarrow> v = -1 \<and> i = j \<and> int i < n \<and> (\<not> readopen pi \<or> killed) \<or>
          v = int j \<and> ws = [Nread] \<and> (n \<le> int j \<or> copyin m j = None)))"

lemma pipe_put_open [simp]: "readopen (pipe_put ch pi) = readopen pi" "writeopen (pipe_put ch pi) = writeopen pi"
  by (simp_all add: pipe_put_def)

lemma write_post_step:
  assumes w: "write_post killed copyin n m (pipe_put ch pi) (Suc i) j res" and ch: "copyin m i = Some ch"
    and c: "pipe_contents (pipe_put ch pi) = pipe_contents pi @ [ch]" and r: "readopen pi" "\<not> killed"
  shows "write_post killed copyin n m pi i j res"
proof -
  have j: "Suc i \<le> j" using w by (auto simp: write_post_def)
  have "{i..<j} = insert i {Suc i..<j}" using j by auto
  moreover have "user_bytes copyin m i j = ch # user_bytes copyin m (Suc i) j"
    using user_bytes_Cons [of i j copyin m ch] j ch by simp
  ultimately show ?thesis
    using w c ch r by (cases res) (auto simp: write_post_def split: run.splits)
qed

lemma pipewrite_post:
  "pipe_ok pi \<Longrightarrow> \<exists>j. write_post killed copyin n m pi i j (pipewrite killed copyin n i m pi)"
proof (induction killed copyin n i m pi rule: pipewrite.induct)
  case (1 killed copyin n i m pi)
  note full = pipe_full [OF 1(2)]
  show ?case
  proof (cases "int i < n \<and> readopen pi \<and> \<not> killed \<and> nwrite pi \<noteq> nread pi + word_of_nat PIPESIZE \<and> copyin m i \<noteq> None")
    case True
    then obtain ch where ch: "copyin m i = Some ch" by auto
    have len: "length (pipe_contents pi) < PIPESIZE"
      using True full pipe_queue.bounded [OF 1(2)] by simp
    have p: "pipe_ok (pipe_put ch pi)" "pipe_contents (pipe_put ch pi) = pipe_contents pi @ [ch]"
      using pipe_queue.put_law [OF 1(2) len] by auto
    have eq: "pipewrite killed copyin n i m pi = pipewrite killed copyin n (i + 1) m (pipe_put ch pi)"
      using True ch by (subst pipewrite.simps) simp
    obtain j where "write_post killed copyin n m (pipe_put ch pi) (i + 1) j (pipewrite killed copyin n (i + 1) m (pipe_put ch pi))"
      using 1(1) [OF _ _ _ ch p(1)] True by blast
    then show ?thesis unfolding eq using write_post_step ch p(2) True by (metis Suc_eq_plus1)
  next
    case False
    have "write_post killed copyin n m pi i i (pipewrite killed copyin n i m pi)"
      using 1(2) full False
      by (subst pipewrite.simps) (auto simp: write_post_def user_bytes_def split: option.splits)
    then show ?thesis by blast
  qed
qed

text \<open>Writing a list of bytes to user memory from offset \<open>i\<close> on.\<close>

primrec copyout_bytes :: "('m \<Rightarrow> nat \<Rightarrow> u8 \<Rightarrow> 'm option) \<Rightarrow> 'm \<Rightarrow> nat \<Rightarrow> u8 list \<Rightarrow> 'm option" where
  "copyout_bytes copyout m i [] = Some m"
| "copyout_bytes copyout m i (c # cs) =
     (case copyout m i c of None \<Rightarrow> None | Some m' \<Rightarrow> copyout_bytes copyout m' (Suc i) cs)"

definition read_post :: "('m \<Rightarrow> nat \<Rightarrow> u8 \<Rightarrow> 'm option) \<Rightarrow> int \<Rightarrow> nat \<Rightarrow> 'm \<Rightarrow> pipe \<Rightarrow> u8 list \<Rightarrow> pipe \<times> 'm \<times> nat \<Rightarrow> bool" where
  "read_post copyout n i m pi xs res \<longleftrightarrow> (case res of (pi', m', i') \<Rightarrow>
     pipe_ok pi' \<and> readopen pi' = readopen pi \<and> writeopen pi' = writeopen pi \<and>
     i' = i + length xs \<and> copyout_bytes copyout m i xs = Some m' \<and>
     (pipe_contents pi = xs @ pipe_contents pi' \<and> (n \<le> int i' \<or> pipe_contents pi' = []) \<or>
      (\<exists>c. pipe_contents pi = xs @ c # pipe_contents pi' \<and> int i' < n \<and> copyout m' i' c = None)))"

lemma pipe_get_open [simp]:
  "readopen (snd (pipe_get pi)) = readopen pi" "writeopen (snd (pipe_get pi)) = writeopen pi"
  by (simp_all add: pipe_get_def)

lemma piperead_copy_post:
  "pipe_ok pi \<Longrightarrow> \<exists>xs. read_post copyout n i m pi xs (piperead_copy copyout n i m pi)"
proof (induction copyout n i m pi rule: piperead_copy.induct)
  case (1 copyout n i m pi)
  have empty: "nread pi = nwrite pi \<longleftrightarrow> pipe_contents pi = []"
    using ring_empty [of "data pi" "nread pi" "nwrite pi"] by (simp add: pipe_contents_def)
  show ?case
  proof (cases "int i < n \<and> nread pi \<noteq> nwrite pi")
    case True
    obtain ch p where g: "pipe_get pi = (ch, p)" by fastforce
    have p: "pipe_ok p" "pipe_contents pi = ch # pipe_contents p"
      using pipe_queue.get_law [OF 1(2)] True empty g by auto
    have op: "readopen p = readopen pi" "writeopen p = writeopen pi" using pipe_get_open [of pi] g by auto
    show ?thesis
    proof (cases "copyout m i ch")
      case None
      then have "read_post copyout n i m pi [] (piperead_copy copyout n i m pi)"
        using True g p op by (subst piperead_copy.simps) (simp add: read_post_def)
      then show ?thesis by blast
    next
      case (Some m')
      have eq: "piperead_copy copyout n i m pi = piperead_copy copyout n (i + 1) m' p"
        using True g Some by (subst piperead_copy.simps) simp
      obtain xs where "read_post copyout n (i + 1) m' p xs (piperead_copy copyout n (i + 1) m' p)"
        using 1(1) [of "(ch, p)" ch p m'] True g Some p(1) by auto
      then have "read_post copyout n i m pi (ch # xs) (piperead_copy copyout n i m pi)"
        unfolding eq using p op Some by (auto simp: read_post_def split: prod.splits)
      then show ?thesis by blast
    qed
  next
    case False
    then have "read_post copyout n i m pi [] (piperead_copy copyout n i m pi)"
      using 1(2) empty by (subst piperead_copy.simps) (auto simp: read_post_def)
    then show ?thesis by blast
  qed
qed

section \<open>Interleaved calls\<close>

text \<open>
  Any number of processes work on a pipe. \<open>Inl (bs, i)\<close> is a run of a write call with the buffer
  \<open>bs\<close> from index \<open>i\<close> on; \<open>Inr n\<close> is a run of a call that reads up to \<open>n\<close> bytes. The two logs are the
  bytes taken from writers and the bytes given to readers. A run that sleeps may be followed by any
  runs of other calls before it continues.
\<close>

definition log_copyin :: "u8 list \<Rightarrow> nat \<Rightarrow> u8 option" where
  "log_copyin bs i = (if i < length bs then Some (bs ! i) else None)"

definition log_copyout :: "u8 list \<Rightarrow> nat \<Rightarrow> u8 \<Rightarrow> u8 list option" where
  "log_copyout out i c = Some (out @ [c])"

definition run_index :: "nat \<Rightarrow> run \<Rightarrow> nat" where
  "run_index i r = (case r of Sleeping k \<Rightarrow> k | Returned v \<Rightarrow> if v < 0 then i else nat v)"

fun pipe_schedule :: "(u8 list \<times> nat + int) list \<Rightarrow> pipe \<times> u8 list \<times> u8 list \<Rightarrow> pipe \<times> u8 list \<times> u8 list" where
  "pipe_schedule [] s = s"
| "pipe_schedule (Inl (bs, i) # es) (pi, sent, recv) =
     (case pipewrite False log_copyin (int (length bs)) i bs pi of
        (pi', ws, r) \<Rightarrow> pipe_schedule es (pi', sent @ drop i (take (run_index i r) bs), recv))"
| "pipe_schedule (Inr n # es) (pi, sent, recv) =
     (case piperead False log_copyout n recv pi of
        (pi', recv', ws, r) \<Rightarrow> pipe_schedule es (pi', sent, recv'))"

lemma log_copyout_bytes: "copyout_bytes log_copyout out i xs = Some (out @ xs)"
  by (induction xs arbitrary: out i) (simp_all add: log_copyout_def)

lemma log_user_bytes: "\<forall>k \<in> {i..<j}. log_copyin bs k \<noteq> None \<Longrightarrow> user_bytes log_copyin bs i j = drop i (take j bs)"
proof (cases "i < j")
  case True
  assume "\<forall>k \<in> {i..<j}. log_copyin bs k \<noteq> None"
  then have "log_copyin bs (j - 1) \<noteq> None" using True by simp
  then have "j \<le> length bs" using True by (auto simp: log_copyin_def split: if_splits)
  then show ?thesis by (auto simp: user_bytes_def log_copyin_def intro!: nth_equalityI)
qed (auto simp: user_bytes_def)

lemma pipewrite_sent:
  assumes "pipe_ok pi"
  shows "case pipewrite False log_copyin (int (length bs)) i bs pi of
    (pi', ws, r) \<Rightarrow> pipe_ok pi' \<and> pipe_contents pi' = pipe_contents pi @ drop i (take (run_index i r) bs)"
proof -
  obtain j where j: "write_post False log_copyin (int (length bs)) bs pi i j (pipewrite False log_copyin (int (length bs)) i bs pi)"
    using pipewrite_post [OF assms, where copyin = log_copyin] by blast
  obtain pi' ws r where e: "pipewrite False log_copyin (int (length bs)) i bs pi = (pi', ws, r)"
    by (metis prod_cases3)
  have "run_index i r = j" using j unfolding e by (auto simp: write_post_def run_index_def split: run.splits)
  then show ?thesis using j log_user_bytes unfolding e by (auto simp: write_post_def)
qed

lemma piperead_received:
  assumes "pipe_ok pi"
  shows "case piperead False log_copyout n recv pi of
    (pi', recv', ws, r) \<Rightarrow> pipe_ok pi' \<and> recv @ pipe_contents pi = recv' @ pipe_contents pi'"
proof (cases "nread pi = nwrite pi \<and> writeopen pi")
  case True
  then show ?thesis using assms by (simp add: piperead_def)
next
  case False
  obtain xs where xs: "read_post log_copyout n 0 recv pi xs (piperead_copy log_copyout n 0 recv pi)"
    using piperead_copy_post [OF assms, where copyout = log_copyout] by blast
  then show ?thesis
    using False by (auto simp: piperead_def read_post_def log_copyout_bytes log_copyout_def split: prod.splits)
qed

lemma pipe_schedule_order:
  "pipe_ok pi \<Longrightarrow> pipe_schedule es (pi, sent, recv) = (pi', sent', recv') \<Longrightarrow>
   sent = recv @ pipe_contents pi \<Longrightarrow> pipe_ok pi' \<and> sent' = recv' @ pipe_contents pi'"
proof (induction es "(pi, sent, recv)" arbitrary: pi sent recv rule: pipe_schedule.induct)
  case (2 bs i es pi sent recv)
  then show ?case using pipewrite_sent [OF 2(2), where bs = bs and i = i] by (auto split: prod.splits)
next
  case (3 n es pi sent recv)
  then show ?case using piperead_received [OF 3(2), where n = n and recv = recv] by (auto split: prod.splits)
qed auto



end
