(* ===== verification/Console.thy ===== *)
theory Console
  imports Uart Pipe
begin

text \<open>
  The console (\<^verbatim>\<open>src/kernel/console.c\<close>): the input ring with its three indices, the interrupt handler that
  does the line editing, and the read and write calls up to the point where they sleep. Characters are
  echoed through \<open>uartputc_sync\<close>. The process list printed on Control-P is the parameter \<open>procdump\<close>.
\<close>

section \<open>Definitions\<close>

definition INPUT_BUF_SIZE :: nat where "INPUT_BUF_SIZE = 128"

definition ctrl :: "u8 \<Rightarrow> u8" where
  "ctrl x = x - 0x40"

record cons =
  c_buf :: "u8 list"
  c_r :: u32
  c_w :: u32
  c_e :: u32

definition LF :: u8 where "LF = 10"

text \<open>\<open>consputc\<close> of a character, and of \<open>BACKSPACE\<close>.\<close>

definition consputc :: "u8 \<Rightarrow> uart \<Rightarrow> uart res" where
  "consputc c u = uartputc_sync c u"

definition consputc_backspace :: "uart \<Rightarrow> uart res" where
  "consputc_backspace u =
     bindR (uartputc_sync 8 u) (\<lambda>u. bindR (uartputc_sync 0x20 u) (\<lambda>u. uartputc_sync 8 u))"

text \<open>
  The loop of \<open>consolewrite\<close> from index \<open>i\<close>: it sleeps when the transmit ring is full. \<open>wake\<close> collects whether
  \<open>uartstart\<close> has called \<open>wakeup\<close>.
\<close>

function consolewrite :: "('m \<Rightarrow> nat \<Rightarrow> u8 option) \<Rightarrow> int \<Rightarrow> nat \<Rightarrow> 'm \<Rightarrow> uart \<Rightarrow> bool \<Rightarrow> uart \<times> bool \<times> run" where
  "consolewrite copyin n i m u wake =
     (if int i < n then
        case copyin m i of
          None \<Rightarrow> (u, wake, Returned (int i))
        | Some c \<Rightarrow>
            (case uartputc c u of
               Inl _ \<Rightarrow> (u, wake, Sleeping i)
             | Inr (u', x) \<Rightarrow> consolewrite copyin n (i + 1) m u' (wake \<or> x))
      else (u, wake, Returned (int i)))"
  by pat_completeness auto
termination
  by (relation "measure (\<lambda>(copyin, n, i, m, u, wake). nat (n - int i))") auto

text \<open>The loop of \<open>consoleread\<close> after \<open>i\<close> bytes, with \<open>target - n\<close> in the code being \<open>i\<close>.\<close>

function consoleread :: "bool \<Rightarrow> ('m \<Rightarrow> nat \<Rightarrow> u8 \<Rightarrow> 'm option) \<Rightarrow> int \<Rightarrow> nat \<Rightarrow> 'm \<Rightarrow> cons \<Rightarrow> cons \<times> 'm \<times> run" where
  "consoleread killed copyout n i m s =
     (if int i < n then
        if c_r s = c_w s then (if killed then (s, m, Returned (-1)) else (s, m, Sleeping i))
        else
          let c = c_buf s ! (unat (c_r s) mod INPUT_BUF_SIZE); s1 = s\<lparr>c_r := c_r s + 1\<rparr> in
          if c = ctrl 0x44 then
            ((if 0 < i then s1\<lparr>c_r := c_r s1 - 1\<rparr> else s1), m, Returned (int i))
          else
            case copyout m i c of
              None \<Rightarrow> (s1, m, Returned (int i))
            | Some m' \<Rightarrow>
                if c = LF then (s1, m', Returned (int (i + 1)))
                else consoleread killed copyout n (i + 1) m' s1
      else (s, m, Returned (int i)))"
  by pat_completeness auto
termination
  by (relation "measure (\<lambda>(killed, copyout, n, i, m, s). nat (n - int i))") auto

declare consolewrite.simps [simp del] consoleread.simps [simp del]

lemma word_dec_less: "e \<noteq> (w :: 'a::len word) \<Longrightarrow> unat (e - 1 - w) < unat (e - w)"
proof -
  assume "e \<noteq> w"
  then have "e - w \<noteq> 0" by simp
  then have "unat (e - w - 1) = unat (e - w) - 1" "0 < unat (e - w)" by (simp_all add: unat_minus_one unat_gt_0)
  then show ?thesis by (simp add: diff_diff_eq add.commute)
qed

text \<open>The loop of Control-U.\<close>

function kill_line :: "cons \<Rightarrow> uart \<Rightarrow> (cons \<times> uart) res" where
  "kill_line s u =
     (if c_e s \<noteq> c_w s \<and> c_buf s ! (unat (c_e s - 1) mod INPUT_BUF_SIZE) \<noteq> LF then
        bindR (consputc_backspace u) (\<lambda>u'. kill_line (s\<lparr>c_e := c_e s - 1\<rparr>) u')
      else Ret (s, u))"
  by pat_completeness auto
termination
  by (relation "measure (\<lambda>(s, u). unat (c_e s - c_w s))") (auto intro: word_dec_less)

declare kill_line.simps [simp del]

text \<open>The last result tells whether \<open>wakeup(&cons.r)\<close> was called.\<close>

definition consoleintr :: "(uart \<Rightarrow> uart res) \<Rightarrow> u8 \<Rightarrow> cons \<Rightarrow> uart \<Rightarrow> (cons \<times> uart \<times> bool) res" where
  "consoleintr procdump c s u =
     (if c = ctrl 0x50 then bindR (procdump u) (\<lambda>u. Ret (s, u, False))
      else if c = ctrl 0x55 then bindR (kill_line s u) (\<lambda>(s, u). Ret (s, u, False))
      else if c = ctrl 0x48 \<or> c = 0x7f then
        if c_e s \<noteq> c_w s then
          bindR (consputc_backspace u) (\<lambda>u. Ret (s\<lparr>c_e := c_e s - 1\<rparr>, u, False))
        else Ret (s, u, False)
      else if c \<noteq> 0 \<and> unat (c_e s - c_r s) < INPUT_BUF_SIZE then
        let c = (if c = 13 then LF else c) in
        bindR (consputc c u) (\<lambda>u.
        let s1 = s\<lparr>c_buf := (c_buf s)[unat (c_e s) mod INPUT_BUF_SIZE := c], c_e := c_e s + 1\<rparr> in
        if c = LF \<or> c = ctrl 0x44 \<or> unat (c_e s1 - c_r s1) = INPUT_BUF_SIZE then
          Ret (s1\<lparr>c_w := c_e s1\<rparr>, u, True)
        else Ret (s1, u, False))
      else Ret (s, u, False))"

text \<open>
  \<open>uartintr\<close>: the loop over the characters that \<open>uartgetc\<close> gives until it returns -1, which are those in
  \<open>rx\<close>, and the call of \<open>uartstart\<close>. The last results are the wakeups of readers and of writers.
\<close>

primrec uartintr_input :: "(uart \<Rightarrow> uart res) \<Rightarrow> u8 list \<Rightarrow> cons \<Rightarrow> uart \<Rightarrow> bool \<Rightarrow> (cons \<times> uart \<times> bool) res" where
  "uartintr_input procdump [] s u wake = Ret (s, u, wake)"
| "uartintr_input procdump (c # cs) s u wake =
     bindR (consoleintr procdump c s (snd (uartgetc u))) (\<lambda>(s, u, x). uartintr_input procdump cs s u (wake \<or> x))"

definition uartintr :: "(uart \<Rightarrow> uart res) \<Rightarrow> cons \<Rightarrow> uart \<Rightarrow> (cons \<times> uart \<times> bool \<times> bool) res" where
  "uartintr procdump s u =
     bindR (uartintr_input procdump (rx u) s u False) (\<lambda>(s, u, wake).
     let (u, tx_wake) = uartstart u in Ret (s, u, wake, tx_wake))"

definition consoleinit :: "uart \<Rightarrow> uart" where
  "consoleinit u = uartinit u"

section \<open>Splitting a ring at an index\<close>

lemma ring_split:
  fixes r w e :: "'w::len word"
  assumes "unat (w - r) \<le> unat (e - r)"
  shows "ring_contents buf r e = ring_contents buf r w @ ring_contents buf w e"
proof -
  have d: "unat (e - w) = unat (e - r) - unat (w - r)"
    using unat_sub [of "w - r" "e - r"] assms by (simp add: word_le_nat_alt)
  have shift: "r + word_of_nat (j + unat (w - r)) = w + word_of_nat j" for j by simp
  have "[0..<unat (e - r)] = [0..<unat (w - r)] @ map (\<lambda>j. j + unat (w - r)) [0..<unat (e - w)]"
    using assms d upt_add_eq_append [of 0 "unat (w - r)" "unat (e - w)"] by (simp add: map_add_upt)
  then show ?thesis unfolding ring_contents_def by (simp only: map_append map_map comp_def shift)
qed

lemma ring_unput:
  fixes r e :: "'w::len word"
  assumes "e \<noteq> r"
  shows "ring_contents buf r (e - 1) = butlast (ring_contents buf r e)"
    "last (ring_contents buf r e) = buf ! (unat (e - 1) mod length buf)"
proof -
  have ne: "e - r \<noteq> 0" using assms by simp
  then have d: "unat (e - 1 - r) = unat (e - r) - 1" using unat_minus_one [OF ne] by (simp add: diff_diff_eq add.commute)
  have pos: "0 < unat (e - r)" using ne by (simp add: unat_gt_0)
  then obtain k where k: "unat (e - r) = Suc k" using gr0_implies_Suc by blast
  then have s: "[0..<unat (e - r)] = [0..<unat (e - r) - 1] @ [unat (e - r) - 1]" by simp
  show "ring_contents buf r (e - 1) = butlast (ring_contents buf r e)"
    unfolding ring_contents_def d s by simp
  have "word_of_nat (unat (e - r) - 1) = e - r - 1" using arg_cong [OF unat_minus_one [OF ne], of "word_of_nat :: nat \<Rightarrow> 'w word"] by simp
  then have "r + word_of_nat (unat (e - r) - 1) = e - 1" by simp
  then show "last (ring_contents buf r e) = buf ! (unat (e - 1) mod length buf)"
    unfolding ring_contents_def s by simp
qed

section \<open>The console is a line editor\<close>

text \<open>
  The reference: the input that a reader may take, and the line that is still being edited. A character is
  appended to the line, unless the two together are full; a newline, Control-D or a full buffer hands the
  line over; Control-H and Delete remove the last character of the line, Control-U the whole line.
\<close>

definition edit :: "u8 \<Rightarrow> u8 list \<times> u8 list \<Rightarrow> u8 list \<times> u8 list" where
  "edit c st =
     (let (ready, line) = st; c' = (if c = 13 then LF else c) in
      if c = ctrl 0x50 then st
      else if c = ctrl 0x55 then (ready, [])
      else if c = ctrl 0x48 \<or> c = 0x7f then (ready, butlast line)
      else if c = 0 \<or> length ready + length line \<ge> INPUT_BUF_SIZE then st
      else if c' = LF \<or> c' = ctrl 0x44 \<or> length ready + length line + 1 = INPUT_BUF_SIZE then
        (ready @ line @ [c'], [])
      else (ready, line @ [c']))"

text \<open>A read of up to \<open>n\<close> bytes takes input up to a newline; Control-D ends it.\<close>

fun take_input :: "bool \<Rightarrow> ('m \<Rightarrow> nat \<Rightarrow> u8 \<Rightarrow> 'm option) \<Rightarrow> int \<Rightarrow> nat \<Rightarrow> 'm \<Rightarrow> u8 list \<Rightarrow> u8 list \<times> 'm \<times> run" where
  "take_input killed copyout n i m [] =
     ([], m, if n \<le> int i then Returned (int i) else if killed then Returned (-1) else Sleeping i)"
| "take_input killed copyout n i m (c # cs) =
     (if n \<le> int i then (c # cs, m, Returned (int i))
      else if c = ctrl 0x44 then ((if 0 < i then c # cs else cs), m, Returned (int i))
      else case copyout m i c of
             None \<Rightarrow> (cs, m, Returned (int i))
           | Some m' \<Rightarrow> if c = LF then (cs, m', Returned (int i + 1))
                        else take_input killed copyout n (i + 1) m' cs)"

definition ready :: "cons \<Rightarrow> u8 list" where
  "ready s = ring_contents (c_buf s) (c_r s) (c_w s)"

definition line :: "cons \<Rightarrow> u8 list" where
  "line s = ring_contents (c_buf s) (c_w s) (c_e s)"

definition cons_ok :: "cons \<Rightarrow> bool" where
  "cons_ok s \<longleftrightarrow> length (c_buf s) = INPUT_BUF_SIZE \<and> unat (c_e s - c_r s) \<le> INPUT_BUF_SIZE \<and>
     unat (c_w s - c_r s) \<le> unat (c_e s - c_r s) \<and> LF \<notin> set (line s)"

lemma cons_split:
  assumes "cons_ok s"
  shows "ring_contents (c_buf s) (c_r s) (c_e s) = ready s @ line s"
    "length (ready s) + length (line s) = unat (c_e s - c_r s)"
proof -
  show e: "ring_contents (c_buf s) (c_r s) (c_e s) = ready s @ line s"
    unfolding ready_def line_def using assms by (intro ring_split) (simp add: cons_ok_def)
  show "length (ready s) + length (line s) = unat (c_e s - c_r s)"
    using arg_cong [OF e, of length] by simp
qed

lemma line_empty: "line s = [] \<longleftrightarrow> c_e s = c_w s"
  by (auto simp: line_def ring_empty)

lemma erase_ok:
  assumes ok: "cons_ok s" and ne: "c_e s \<noteq> c_w s"
  shows "cons_ok (s\<lparr>c_e := c_e s - 1\<rparr>)" "ready (s\<lparr>c_e := c_e s - 1\<rparr>) = ready s"
    "line (s\<lparr>c_e := c_e s - 1\<rparr>) = butlast (line s)"
proof -
  let ?s = "s\<lparr>c_e := c_e s - 1\<rparr>"
  show r: "ready ?s = ready s" by (simp add: ready_def)
  show l: "line ?s = butlast (line s)" using ring_unput(1) [OF ne] by (simp add: line_def)
  have wr: "unat (c_w s - c_r s) \<le> unat (c_e s - c_r s)" "unat (c_e s - c_r s) \<le> INPUT_BUF_SIZE"
    using ok by (simp_all add: cons_ok_def)
  have "c_e s \<noteq> c_r s"
  proof
    assume "c_e s = c_r s"
    then have "unat (c_w s - c_r s) = 0" using wr by simp
    then have "c_w s - c_r s = 0" by (simp only: unat_eq_0)
    then show False using \<open>c_e s = c_r s\<close> ne by simp
  qed
  then have d: "unat (c_e s - c_r s) = Suc (unat (c_e s - 1 - c_r s))"
    using arg_cong [OF ring_unput(1) [of "c_e s" "c_r s" "c_buf s"], of length] by (simp add: unat_gt_0)
  have "unat (c_w s - c_r s) \<noteq> unat (c_e s - c_r s)" using ne by (metis diff_add_cancel word_unat_eq_iff)
  then have "unat (c_w s - c_r s) \<le> unat (c_e s - 1 - c_r s)" using wr d by linarith
  then show "cons_ok ?s" using ok wr d l by (auto simp: cons_ok_def dest: in_set_butlastD)
qed

lemma kill_line_ok:
  assumes "cons_ok s" "kill_line s u = Ret (s', u')"
  shows "cons_ok s' \<and> ready s' = ready s \<and> line s' = []"
  using assms
proof (induction "unat (c_e s - c_w s)" arbitrary: s u rule: less_induct)
  case less
  show ?case
  proof (cases "c_e s = c_w s")
    case True
    then have "s' = s" using less.prems(2) by (subst (asm) kill_line.simps) simp
    then show ?thesis using less.prems(1) True line_empty by simp
  next
    case False
    have "last (line s) \<in> set (line s)" using False line_empty last_in_set by blast
    then have "c_buf s ! (unat (c_e s - 1) mod INPUT_BUF_SIZE) \<noteq> LF"
      using ring_unput(2) [OF False, of "c_buf s"] less.prems(1) by (auto simp: line_def cons_ok_def)
    then obtain u1 where k: "kill_line (s\<lparr>c_e := c_e s - 1\<rparr>) u1 = Ret (s', u')"
      using less.prems(2) False by (subst (asm) kill_line.simps) (auto simp: bindR_eq_Inr)
    have "cons_ok s' \<and> ready s' = ready (s\<lparr>c_e := c_e s - 1\<rparr>) \<and> line s' = []"
      by (rule less.hyps [OF _ erase_ok(1) [OF less.prems(1) False] k]) (simp add: word_dec_less False)
    then show ?thesis using erase_ok(2) [OF less.prems(1) False] by simp
  qed
qed

text \<open>Storing a character, before and after it is handed over.\<close>

lemma type_ok:
  assumes ok: "cons_ok s" and room: "unat (c_e s - c_r s) < INPUT_BUF_SIZE"
    and s1: "s1 = s\<lparr>c_buf := (c_buf s)[unat (c_e s) mod INPUT_BUF_SIZE := c], c_e := c_e s + 1\<rparr>"
  shows "ready s1 = ready s" "line s1 = line s @ [c]"
    "unat (c_e s1 - c_r s1) = length (ready s) + length (line s) + 1"
    "c \<noteq> LF \<Longrightarrow> cons_ok s1" "cons_ok (s1\<lparr>c_w := c_e s1\<rparr>)"
    "ready (s1\<lparr>c_w := c_e s1\<rparr>) = ready s @ line s @ [c]" "line (s1\<lparr>c_w := c_e s1\<rparr>) = []"
proof -
  have len: "length (c_buf s) = 128" using ok by (simp add: cons_ok_def INPUT_BUF_SIZE_def)
  have put: "ring_contents (c_buf s1) (c_r s) (c_e s + 1) = ring_contents (c_buf s) (c_r s) (c_e s) @ [c]"
    using ring_put [of "c_buf s" "c_e s" "c_r s" c] room len by (simp add: s1 INPUT_BUF_SIZE_def)
  have n: "unat (c_e s + 1 - c_r s) = Suc (unat (c_e s - c_r s))"
    by (rule unat_diff_Suc) (use room in \<open>simp add: INPUT_BUF_SIZE_def\<close>)
  have wr: "unat (c_w s - c_r s) \<le> unat (c_e s + 1 - c_r s)" using ok n by (simp add: cons_ok_def)
  have "ready s1 @ line s1 = (ready s @ line s) @ [c]"
    using put cons_split(1) [OF ok] ring_split [OF wr, of "c_buf s1"] by (simp add: ready_def line_def s1)
  moreover have "length (ready s1) = length (ready s)" by (simp add: ready_def s1)
  ultimately show r: "ready s1 = ready s" and l: "line s1 = line s @ [c]" by simp_all
  show "unat (c_e s1 - c_r s1) = length (ready s) + length (line s) + 1"
    using n cons_split(2) [OF ok] by (simp add: s1)
  show "c \<noteq> LF \<Longrightarrow> cons_ok s1" using ok room n wr l unfolding cons_ok_def by (simp add: s1)
  let ?s2 = "s1\<lparr>c_w := c_e s1\<rparr>"
  show "line ?s2 = []" by (simp add: line_empty)
  then show "cons_ok ?s2" using ok room n by (simp add: cons_ok_def s1)
  show "ready ?s2 = ready s @ line s @ [c]"
    using put cons_split(1) [OF ok] by (simp add: ready_def s1)
qed

lemma consoleintr_edits:
  assumes ok: "cons_ok s" and run: "consoleintr procdump c s u = Ret (s', u', wake)"
  shows "cons_ok s' \<and> (ready s', line s') = edit c (ready s, line s) \<and> (wake \<longleftrightarrow> ready s' \<noteq> ready s)"
proof -
  have n: "length (ready s) + length (line s) = unat (c_e s - c_r s)" by (rule cons_split(2) [OF ok])
  consider (dump) "c = ctrl 0x50" | (kill) "c \<noteq> ctrl 0x50" "c = ctrl 0x55"
    | (erase) "c \<noteq> ctrl 0x50" "c \<noteq> ctrl 0x55" "c = ctrl 0x48 \<or> c = 0x7f"
    | (none) "c \<noteq> ctrl 0x50" "c \<noteq> ctrl 0x55" "\<not> (c = ctrl 0x48 \<or> c = 0x7f)"
        "c = 0 \<or> \<not> unat (c_e s - c_r s) < INPUT_BUF_SIZE"
    | (typed) "c \<noteq> ctrl 0x50" "c \<noteq> ctrl 0x55" "\<not> (c = ctrl 0x48 \<or> c = 0x7f)" "c \<noteq> 0"
        "unat (c_e s - c_r s) < INPUT_BUF_SIZE" by blast
  then show ?thesis
  proof cases
    case dump
    then show ?thesis using run ok by (auto simp: consoleintr_def edit_def bindR_eq_Inr)
  next
    case kill
    then have "kill_line s u = Ret (s', u') \<and> \<not> wake" using run by (auto simp: consoleintr_def bindR_eq_Inr)
    then show ?thesis using kill_line_ok [OF ok, of u s' u'] kill by (simp add: edit_def)
  next
    case erase
    show ?thesis
    proof (cases "c_e s = c_w s")
      case True
      then show ?thesis using erase run ok line_empty [of s]
        by (simp add: consoleintr_def edit_def)
    next
      case False
      then have "s' = s\<lparr>c_e := c_e s - 1\<rparr> \<and> \<not> wake"
        using run erase by (simp add: consoleintr_def bindR_eq_Inr)
      then show ?thesis using erase_ok [OF ok False] erase by (simp add: edit_def)
    qed
  next
    case none
    then have "s' = s \<and> \<not> wake" using run by (auto simp: consoleintr_def)
    then show ?thesis using none ok n by (auto simp: edit_def)
  next
    case typed
    define c' where "c' = (if c = 13 then LF else c)"
    define s1 where "s1 = s\<lparr>c_buf := (c_buf s)[unat (c_e s) mod INPUT_BUF_SIZE := c'], c_e := c_e s + 1\<rparr>"
    note t = type_ok [OF ok typed(5) s1_def]
    have i: "c_e s1 = c_e s + 1" "c_r s1 = c_r s" by (simp_all add: s1_def)
    have "s' = (if c' = LF \<or> c' = ctrl 0x44 \<or> unat (c_e s1 - c_r s1) = INPUT_BUF_SIZE then s1\<lparr>c_w := c_e s1\<rparr> else s1) \<and>
        (wake \<longleftrightarrow> c' = LF \<or> c' = ctrl 0x44 \<or> unat (c_e s1 - c_r s1) = INPUT_BUF_SIZE)"
      using run typed by (auto simp: i consoleintr_def bindR_eq_Inr Let_def c'_def [symmetric] s1_def [symmetric] split: if_splits)
    moreover have "edit c (ready s, line s) =
        (if c' = LF \<or> c' = ctrl 0x44 \<or> unat (c_e s1 - c_r s1) = INPUT_BUF_SIZE then (ready s @ line s @ [c'], [])
         else (ready s, line s @ [c']))"
      using typed n t(3) by (simp add: edit_def c'_def)
    ultimately show ?thesis using t by (auto split: if_splits)
  qed
qed

text \<open>Taking a character for a reader.\<close>

lemma take_ok:
  assumes ok: "cons_ok s" and ne: "c_r s \<noteq> c_w s"
  shows "ready s = c_buf s ! (unat (c_r s) mod INPUT_BUF_SIZE) # ready (s\<lparr>c_r := c_r s + 1\<rparr>)"
    "line (s\<lparr>c_r := c_r s + 1\<rparr>) = line s" "cons_ok (s\<lparr>c_r := c_r s + 1\<rparr>)"
proof -
  let ?s = "s\<lparr>c_r := c_r s + 1\<rparr>"
  have pos: "0 < unat (c_w s - c_r s)" using ne by (simp add: unat_gt_0)
  show r: "ready s = c_buf s ! (unat (c_r s) mod INPUT_BUF_SIZE) # ready ?s"
    using ring_get [OF pos, of "c_buf s"] ok by (simp add: ready_def cons_ok_def)
  show l: "line ?s = line s" by (simp add: line_def)
  have "0 < unat (c_e s - c_r s)" using pos ok by (simp add: cons_ok_def)
  then have "unat (c_e s - c_r s) = Suc (unat (c_e s - (c_r s + 1)))"
    "unat (c_w s - c_r s) = Suc (unat (c_w s - (c_r s + 1)))"
    using arg_cong [OF ring_get [of "c_e s" "c_r s" "c_buf s"], of length]
      arg_cong [OF ring_get [OF pos, of "c_buf s"], of length] by simp_all
  then show "cons_ok ?s" using ok l by (simp add: cons_ok_def)
qed

lemma consoleread_takes:
  assumes "cons_ok s" "consoleread killed copyout n i m s = (s', m', res)"
  shows "cons_ok s' \<and> line s' = line s \<and> take_input killed copyout n i m (ready s) = (ready s', m', res)"
  using assms
proof (induction killed copyout n i m s rule: consoleread.induct)
  case (1 killed copyout n i m s)
  have empty: "ready s = [] \<longleftrightarrow> c_r s = c_w s" by (auto simp: ready_def ring_empty)
  show ?case
  proof (cases "int i < n \<and> c_r s \<noteq> c_w s")
    case False
    then have "cons_ok s' \<and> s' = s \<and> m' = m \<and>
        res = (if n \<le> int i then Returned (int i) else if killed then Returned (- 1) else Sleeping i)"
      using 1(2,3) by (subst (asm) consoleread.simps) (auto split: if_splits)
    then show ?thesis using False empty by (cases "ready s") auto
  next
    case True
    define c where "c = c_buf s ! (unat (c_r s) mod INPUT_BUF_SIZE)"
    define s1 where "s1 = s\<lparr>c_r := c_r s + 1\<rparr>"
    note t = take_ok [OF 1(2) conjunct2 [OF True], folded c_def s1_def]
    have undo: "s1\<lparr>c_r := c_r s1 - 1\<rparr> = s" by (simp add: s1_def)
    have e: "consoleread killed copyout n i m s =
        (if c = ctrl 0x44 then ((if 0 < i then s else s1), m, Returned (int i))
         else case copyout m i c of
                None \<Rightarrow> (s1, m, Returned (int i))
              | Some m' \<Rightarrow>
                  if c = LF then (s1, m', Returned (int (i + 1))) else consoleread killed copyout n (i + 1) m' s1)"
      using True by (subst consoleread.simps) (simp add: Let_def c_def [symmetric] s1_def [symmetric] undo cong: option.case_cong)
    show ?thesis
    proof (cases "c = ctrl 0x44 \<or> copyout m i c = None \<or> c = LF")
      case True': True
      then show ?thesis using 1(2,3) True t unfolding e by (auto split: option.splits if_splits)
    next
      case False
      then obtain m1 where m1: "copyout m i c = Some m1" by auto
      have "consoleread killed copyout n (i + 1) m1 s1 = (s', m', res)" using 1(3) False m1 unfolding e by simp
      then have "cons_ok s' \<and> line s' = line s1 \<and>
          take_input killed copyout n (i + 1) m1 (ready s1) = (ready s', m', res)"
        using 1(1) [OF _ _ c_def s1_def _ m1] True False t(3) by simp
      then show ?thesis using True False m1 t by simp
    qed
  qed
qed

text \<open>Characters arriving one after the other.\<close>

primrec consoleintrs :: "(uart \<Rightarrow> uart res) \<Rightarrow> u8 list \<Rightarrow> cons \<Rightarrow> uart \<Rightarrow> (cons \<times> uart) res" where
  "consoleintrs procdump [] s u = Ret (s, u)"
| "consoleintrs procdump (c # cs) s u =
     bindR (consoleintr procdump c s u) (\<lambda>(s, u, _). consoleintrs procdump cs s u)"

lemma consoleintrs_edits:
  "cons_ok s \<Longrightarrow> consoleintrs procdump cs s u = Ret (s', u') \<Longrightarrow>
   cons_ok s' \<and> (ready s', line s') = fold edit cs (ready s, line s)"
proof (induction cs arbitrary: s u)
  case (Cons c cs)
  then obtain s1 u1 w where i: "consoleintr procdump c s u = Ret (s1, u1, w)"
      "consoleintrs procdump cs s1 u1 = Ret (s', u')"
    by (auto simp: bindR_eq_Inr)
  then show ?case using Cons.IH [OF _ i(2)] consoleintr_edits [OF Cons.prems(1) i(1)] by simp
qed simp

text \<open>
  C9. The console refines a line editor. After any characters have arrived, the input that a reader may
  take and the line being edited are those of the reference \<open>edit\<close>, although both live in one ring of 128
  bytes with wrapping indices; and a read takes from that input exactly what the reference \<open>take_input\<close>
  takes, with the same bytes copied out and the same result, and leaves the edited line alone.
\<close>

theorem console_refines_editor:
  assumes "cons_ok s" "consoleintrs procdump cs s u = Ret (s1, u1)"
    "consoleread killed copyout n i m s1 = (s2, m2, res)"
  shows "(ready s1, line s1) = fold edit cs (ready s, line s) \<and>
    take_input killed copyout n i m (ready s1) = (ready s2, m2, res) \<and> line s2 = line s1 \<and> cons_ok s2"
  using consoleintrs_edits [OF assms(1,2)] consoleread_takes [OF _ assms(3)] by blast

definition sample_cons :: cons where
  "sample_cons = \<lparr>c_buf = replicate 128 0, c_r = 0, c_w = 0, c_e = 0\<rparr>"

definition sample_port :: uart where
  "sample_port = sample_uart\<lparr>idle := replicate 20 True\<rparr>"

definition sample_out :: "u8 list \<Rightarrow> nat \<Rightarrow> u8 \<Rightarrow> u8 list option" where
  "sample_out m i c = Some (m @ [c])"

text \<open>The user types \<open>lz\<close>, Control-H, \<open>s\<close> and return, and a program reads up to 16 bytes.\<close>

theorem console_refines_editor_witness:
  "\<exists>s1 u1 s2 m2 res.
     consoleintrs Ret [0x6c, 0x7a, 8, 0x73, 13] sample_cons sample_port = Ret (s1, u1) \<and>
     consoleread False sample_out 16 0 [] s1 = (s2, m2, res) \<and>
     (ready s1, line s1) = ([0x6c, 0x73, 10], []) \<and> m2 = [0x6c, 0x73, 10] \<and> res = Returned 3"
proof -
  let ?cs = "[0x6c, 0x7a, 8, 0x73, 13] :: u8 list"
  have "case consoleintrs Ret ?cs sample_cons sample_port of Inl _ \<Rightarrow> False | Inr _ \<Rightarrow> True" by code_simp
  then obtain s1 u1 where 1: "consoleintrs Ret ?cs sample_cons sample_port = Ret (s1, u1)"
    by (auto split: sum.splits)
  obtain s2 m2 res where 2: "consoleread False sample_out 16 0 [] s1 = (s2, m2, res)" by (metis prod_cases3)
  have ok: "cons_ok sample_cons" "ready sample_cons = []" "line sample_cons = []"
    by (simp_all add: cons_ok_def sample_cons_def ready_def line_def INPUT_BUF_SIZE_def ring_contents_def)
  note r = console_refines_editor [OF ok(1) 1 2]
  have "fold edit ?cs ([], []) = ([0x6c, 0x73, 10], [])" by code_simp
  then have e: "ready s1 = [0x6c, 0x73, 10]" "line s1 = []" using r ok by simp_all
  have "take_input False sample_out 16 0 [] [0x6c, 0x73, 10] = ([], [0x6c, 0x73, 10], Returned 3)" by code_simp
  then have "m2 = [0x6c, 0x73, 10] \<and> res = Returned 3" using r e by simp
  then show ?thesis using 1 2 e by blast
qed

end
