(* ===== verification/Log.thy ===== *)
theory Log
  imports Bio
begin

text \<open>
  The redo log (\<^verbatim>\<open>src/kernel/log.c\<close>). The in-memory header \<open>log.lh\<close> is the list of its first \<open>n\<close> block
  numbers. \<open>begin_op\<close> that would sleep has the result \<open>Blocked\<close>; the calls of \<open>wakeup\<close> let such
  callers try again and have no effect on this state.

  The main result is crash safety: a crash after any number of the disk writes of a commit, followed
  by any number of crashes during recovery, leaves after a complete recovery either every block as it
  was before the transaction or every block as the transaction left it.
\<close>

section \<open>The model\<close>

definition LOGSIZE :: nat where "LOGSIZE = MAXOPBLOCKS * 3"

record logst = bio +
  log_start :: nat
  log_size :: nat
  log_outstanding :: int
  log_committing :: bool
  log_dev :: nat
  log_lh :: "nat list"

text \<open>The header in a block.\<close>

definition get_header :: "block \<Rightarrow> nat list res" where
  "get_header x =
     (let n = sint (load32 x 0)
      in if n > int LOGSIZE then Fail OutOfBounds
         else Ret (map (\<lambda>i. unat (load32 x (4 + 4 * i))) [0..<nat n]))"

definition put_header :: "nat list \<Rightarrow> block \<Rightarrow> block" where
  "put_header lh x =
     fold (\<lambda>i x. store32 x (4 + 4 * i) (of_nat (lh ! i))) [0..<length lh] (store32 x 0 (of_nat (length lh)))"

definition read_head :: "('a logst_scheme, unit) kmon" where
  "read_head =
     bindK (getK log_dev) (\<lambda>dev. bindK (getK log_start) (\<lambda>start.
     bindK (bread dev start) (\<lambda>buf.
     bindK (buf_data buf) (\<lambda>x.
     bindK (liftR (get_header x)) (\<lambda>lh.
     thenK (modK (log_lh_update (\<lambda>_. lh)))
     (brelse buf))))))"

definition write_head :: "('a logst_scheme, unit) kmon" where
  "write_head =
     bindK (getK log_dev) (\<lambda>dev. bindK (getK log_start) (\<lambda>start.
     bindK (bread dev start) (\<lambda>buf.
     bindK (getK log_lh) (\<lambda>lh.
     bindK (buf_data buf) (\<lambda>x.
     thenK (buf_set buf (put_header lh x))
    (thenK (bwrite buf)
           (brelse buf)))))))"

definition install_block :: "bool \<Rightarrow> nat \<Rightarrow> ('a logst_scheme, unit) kmon" where
  "install_block recovering tail =
     bindK (getK log_dev) (\<lambda>dev. bindK (getK log_start) (\<lambda>start. bindK (getK log_lh) (\<lambda>lh.
     bindK (bread dev (start + tail + 1)) (\<lambda>lbuf.
     bindK (bread dev (lh ! tail)) (\<lambda>dbuf.
     bindK (buf_data lbuf) (\<lambda>x.
     thenK (buf_set dbuf x)
    (thenK (bwrite dbuf)
    (thenK (whenK (\<not> recovering) (bunpin dbuf))
    (thenK (brelse lbuf)
           (brelse dbuf))))))))))"

definition install_trans :: "bool \<Rightarrow> ('a logst_scheme, unit) kmon" where
  "install_trans recovering = bindK (getK log_lh) (\<lambda>lh. forK [0..<length lh] (install_block recovering))"

definition recover_from_log :: "('a logst_scheme, unit) kmon" where
  "recover_from_log =
     thenK read_head (thenK (install_trans True) (thenK (modK (log_lh_update (\<lambda>_. []))) write_head))"

text \<open>\<open>sizeof(struct logheader)\<close> is \<open>4 + 4 * LOGSIZE\<close>; the arguments are the fields of the superblock.\<close>

definition initlog :: "nat \<Rightarrow> nat \<Rightarrow> nat \<Rightarrow> ('a logst_scheme, unit) kmon" where
  "initlog dev logstart nlog =
     (if 4 + 4 * LOGSIZE \<ge> BSIZE then panicK ''initlog: too big logheader''
      else thenK (modK (\<lambda>s. s\<lparr>log_start := logstart, log_size := nlog, log_dev := dev\<rparr>)) recover_from_log)"

definition begin_op :: "('a logst_scheme, unit) kmon" where
  "begin_op = bindK (getK id) (\<lambda>s.
     if log_committing s then failK Blocked
     else if int (length (log_lh s)) + (log_outstanding s + 1) * int MAXOPBLOCKS > int LOGSIZE then failK Blocked
     else modK (\<lambda>s. s\<lparr>log_outstanding := log_outstanding s + 1\<rparr>))"

definition write_log_block :: "nat \<Rightarrow> ('a logst_scheme, unit) kmon" where
  "write_log_block tail =
     bindK (getK log_dev) (\<lambda>dev. bindK (getK log_start) (\<lambda>start. bindK (getK log_lh) (\<lambda>lh.
     bindK (bread dev (start + tail + 1)) (\<lambda>to.
     bindK (bread dev (lh ! tail)) (\<lambda>from.
     bindK (buf_data from) (\<lambda>x.
     thenK (buf_set to x)
    (thenK (bwrite to)
    (thenK (brelse from)
           (brelse to)))))))))"

definition write_log :: "('a logst_scheme, unit) kmon" where
  "write_log = bindK (getK log_lh) (\<lambda>lh. forK [0..<length lh] write_log_block)"

definition commit :: "('a logst_scheme, unit) kmon" where
  "commit = bindK (getK log_lh) (\<lambda>lh.
     whenK (length lh > 0)
       (thenK write_log
       (thenK write_head
       (thenK (install_trans False)
       (thenK (modK (log_lh_update (\<lambda>_. [])))
              write_head)))))"

definition end_op :: "('a logst_scheme, unit) kmon" where
  "end_op =
     thenK (modK (\<lambda>s. s\<lparr>log_outstanding := log_outstanding s - 1\<rparr>))
    (bindK (getK id) (\<lambda>s.
     if log_committing s then panicK ''log.committing''
     else whenK (log_outstanding s = 0)
       (thenK (modK (log_committing_update (\<lambda>_. True)))
       (thenK commit
              (modK (log_committing_update (\<lambda>_. False)))))))"

definition log_write :: "nat \<Rightarrow> ('a logst_scheme, unit) kmon" where
  "log_write b = bindK (getK id) (\<lambda>s.
     let n = int (length (log_lh s)); blockno = b_blockno (bufs s b) in
     if n \<ge> int LOGSIZE \<or> n \<ge> int (log_size s) - 1 then panicK ''too big a transaction''
     else if log_outstanding s < 1 then panicK ''log_write outside of trans''
     else if blockno \<in> set (log_lh s) then retK ()
     else thenK (bpin b) (modK (log_lh_update (\<lambda>lh. lh @ [blockno]))))"

section \<open>The header\<close>

lemma put_header_upto:
  assumes "4 + 4 * n \<le> length x"
  shows "length (fold (\<lambda>i x. store32 x (4 + 4 * i) (w i)) [0..<n] x) = length x"
    and "load32 (fold (\<lambda>i x. store32 x (4 + 4 * i) (w i)) [0..<n] x) 0 = load32 x 0"
    and "i < n \<Longrightarrow> load32 (fold (\<lambda>i x. store32 x (4 + 4 * i) (w i)) [0..<n] x) (4 + 4 * i) = w i"
  using assms
proof (induction n)
  case (Suc n)
  { case 1 then show ?case using Suc by simp }
  { case 2 then show ?case using Suc by (simp add: load_store_other) }
  { case 3
    then show ?case using Suc.IH by (cases "i = n") (auto simp: load_store_other) }
qed auto

lemma sint_of_nat_small: "n < 2 ^ 31 \<Longrightarrow> sint (of_nat n :: u32) = int n"
  by (simp add: signed_of_nat signed_take_bit_int_eq_self)

lemma get_put_header:
  assumes "length x = BSIZE" "length lh \<le> LOGSIZE" "\<forall>b \<in> set lh. b < 2 ^ 32"
  shows "get_header (put_header lh x) = Ret lh" "length (put_header lh x) = BSIZE"
proof -
  let ?w = "\<lambda>i. of_nat (lh ! i) :: u32" and ?x = "store32 x 0 (of_nat (length lh))"
  have len: "4 + 4 * length lh \<le> length ?x" using assms(1,2) by (simp add: BSIZE_def LOGSIZE_def MAXOPBLOCKS_def)
  note P = put_header_upto [OF len, where w = ?w]
  have n: "sint (of_nat (length lh) :: u32) = int (length lh)"
    using assms(2) by (intro sint_of_nat_small) (simp_all add: LOGSIZE_def MAXOPBLOCKS_def)
  have "load32 (put_header lh x) 0 = of_nat (length lh)"
    using P(2) assms(1) by (simp add: put_header_def BSIZE_def)
  moreover have "map (\<lambda>i. unat (load32 (put_header lh x) (4 + 4 * i))) [0..<length lh] = lh"
  proof (rule nth_equalityI, goal_cases)
    case (2 i)
    then have "lh ! i < 2 ^ 32" using assms(3) by simp
    then show ?case using 2 P(3) [of i] by (simp add: put_header_def unat_of_nat take_bit_nat_eq_self)
  qed simp
  ultimately show "get_header (put_header lh x) = Ret lh"
    using assms(2) by (simp add: get_header_def n Let_def)
  show "length (put_header lh x) = BSIZE" using P(1) assms(1) by (simp add: put_header_def)
qed

section \<open>Steps of the log on the abstract cache\<close>

lemma bio_frame_log:
  assumes "bio_frame s s'"
  shows "log_start s' = log_start s" "log_size s' = log_size s" "log_outstanding s' = log_outstanding s"
    "log_committing s' = log_committing s" "log_dev s' = log_dev s" "log_lh s' = log_lh s" "logst.more s' = logst.more s"
  using assms by (cases s; cases s'; simp add: bio_frame_def)+

lemma bio_rep_log [simp]:
  "bio_rep (log_lh_update x s) a = bio_rep s a" "bio_rep (log_outstanding_update y s) a = bio_rep s a"
  "bio_rep (log_committing_update z s) a = bio_rep s a"
  "bio_rep (s\<lparr>log_start := u, log_size := v, log_dev := w\<rparr>) a = bio_rep s a"
  by (rule bio_rep_cong; simp)+

text \<open>Writing \<open>x\<close> to block \<open>b\<close> of the cache and the disk.\<close>

definition put_through :: "nat \<Rightarrow> block \<Rightarrow> cache \<Rightarrow> cache" where
  "put_through b x a = a\<lparr>content := (content a)(b := x), stored := (stored a)(b := x), written := written a @ [(b, x)]\<rparr>"

lemma put_through_sel [simp]:
  "content (put_through b x a) = (content a)(b := x)" "stored (put_through b x a) = (stored a)(b := x)"
  "pins (put_through b x a) = pins a" "slots (put_through b x a) = slots a"
  "written (put_through b x a) = written a @ [(b, x)]" "busy (put_through b x a) = busy a"
  by (simp_all add: put_through_def busy_def)

lemma cache_eqI:
  "content a = content c \<Longrightarrow> stored a = stored c \<Longrightarrow> pins a = pins c \<Longrightarrow> slots a = slots c \<Longrightarrow> written a = written c \<Longrightarrow>
   a = (c :: cache)"
  by simp

lemma card_insert_busy: "bio_rep s a \<Longrightarrow> Suc (card (busy a)) < NBUF \<Longrightarrow> card (insert l (busy a)) < NBUF"
  using busy_finite card_insert_le_m1 [of "Suc (card (busy a))" "busy a" l]
  by (metis card_insert_if le_less_trans lessI less_imp_le_nat nat_less_le)

lemma busy_slots: "slots a = Map.empty \<Longrightarrow> busy (a\<lparr>slots := (slots a)(l \<mapsto> i)\<rparr>) = insert l (busy a)"
  by (auto simp: busy_def)

lemma two_breads:
  assumes rep: "bio_rep s a" and sl: "slots a = Map.empty" and lh: "l \<noteq> h" and few: "card (busy a) < NBUF"
    and h: "0 < pins a h \<or> Suc (card (busy a)) < NBUF"
  obtains i s1 j s2 where "bread ROOTDEV l s = Ret (i, s1)" "bread ROOTDEV h s1 = Ret (j, s2)"
    "bio_rep s2 (a\<lparr>slots := [l \<mapsto> i, h \<mapsto> j]\<rparr>)" "bio_frame s s1" "bio_frame s s2"
proof -
  obtain i s1 where 1: "bread ROOTDEV l s = Ret (i, s1)" "bio_rep s1 (a\<lparr>slots := (slots a)(l \<mapsto> i)\<rparr>)" "bio_frame s s1"
    using bread_ok [OF rep, of l] sl few by (auto elim!: okE)
  have "0 < pins (a\<lparr>slots := (slots a)(l \<mapsto> i)\<rparr>) h \<or> card (busy (a\<lparr>slots := (slots a)(l \<mapsto> i)\<rparr>)) < NBUF"
    unfolding busy_slots [OF sl] using h card_insert_busy [OF rep] by auto
  then obtain j s2 where "bread ROOTDEV h s1 = Ret (j, s2)" "bio_frame s1 s2"
      "bio_rep s2 (a\<lparr>slots := [l \<mapsto> i, h \<mapsto> j]\<rparr>)"
    using bread_ok [OF 1(2), of h] sl lh by (auto elim!: okE)
  then show ?thesis using that 1 bio_frame_trans by blast
qed

lemma install_block_ok:
  assumes rep: "bio_rep s a" and sl: "slots a = Map.empty" and dev: "log_dev s = ROOTDEV"
    and h: "h = log_lh s ! tail" and l: "l = log_start s + tail + 1" and lh: "l \<noteq> h"
    and clean: "content a l = stored a l" and few: "card (busy a) < NBUF"
    and r: "if r then Suc (card (busy a)) < NBUF else 0 < pins a h"
  shows "ok (install_block r tail) s (\<lambda>_ s'. bio_rep s' ((put_through h (content a l) a)
           \<lparr>pins := if r then pins a else (pins a)(h := pins a h - 1)\<rparr>) \<and> bio_frame s s')"
proof -
  obtain i s1 j s2 where b: "bread ROOTDEV l s = Ret (i, s1)" "bread ROOTDEV h s1 = Ret (j, s2)"
    and 2: "bio_rep s2 (a\<lparr>slots := [l \<mapsto> i, h \<mapsto> j]\<rparr>)" "bio_frame s s2"
    using two_breads [OF rep sl lh few] r by (metis (full_types))
  have len: "length (content a l) = BSIZE" by (rule content_length [OF rep])
  have x: "buf_data i s2 = Ret (content a l, s2)" using buf_data_ok [OF 2(1), of l i] lh by simp
  obtain s3 where 3: "buf_set j (content a l) s2 = Ret ((), s3)" "bio_frame s2 s3"
      "bio_rep s3 (a\<lparr>slots := [l \<mapsto> i, h \<mapsto> j], content := (content a)(h := content a l)\<rparr>)"
    using buf_set_ok [OF 2(1) _ len, of h j] by (auto elim!: okE)
  obtain s4 where 4: "bwrite j s3 = Ret ((), s4)" "bio_frame s3 s4"
      "bio_rep s4 (put_through h (content a l) (a\<lparr>slots := [l \<mapsto> i, h \<mapsto> j]\<rparr>))"
    using bwrite_ok [OF 3(3), of h j] by (auto simp: put_through_def elim!: okE)
  let ?p = "if r then pins a else (pins a)(h := pins a h - 1)"
  obtain s5 where 5: "whenK (\<not> r) (bunpin j) s4 = Ret ((), s5)" "bio_frame s4 s5"
      "bio_rep s5 ((put_through h (content a l) (a\<lparr>slots := [l \<mapsto> i, h \<mapsto> j]\<rparr>))\<lparr>pins := ?p\<rparr>)"
  proof (cases r)
    case True
    have e: "(put_through h (content a l) (a\<lparr>slots := [l \<mapsto> i, h \<mapsto> j]\<rparr>))\<lparr>pins := ?p\<rparr> = (put_through h (content a l) (a\<lparr>slots := [l \<mapsto> i, h \<mapsto> j]\<rparr>))"
      by (rule cache_eqI) (simp_all add: True)
    show ?thesis by (rule that [of s4], unfold e) (use 4 True in auto)
  next
    case False
    then show ?thesis using bunpin_ok [OF 4(3), of h j] r that by (auto elim!: okE)
  qed
  obtain s6 where 6: "brelse i s5 = Ret ((), s6)" "bio_frame s5 s6"
      "bio_rep s6 ((put_through h (content a l) (a\<lparr>slots := [l \<mapsto> i, h \<mapsto> j]\<rparr>))\<lparr>pins := ?p, slots := [h \<mapsto> j]\<rparr>)"
  proof -
    have e: "[l \<mapsto> i, h \<mapsto> j](l := None) = [h \<mapsto> j]" using lh by auto
    show ?thesis using brelse_ok [OF 5(3), of l i] lh clean that by (auto simp: e elim!: okE)
  qed
  obtain s7 where 7: "brelse j s6 = Ret ((), s7)" "bio_frame s6 s7"
      "bio_rep s7 ((put_through h (content a l) (a\<lparr>slots := [l \<mapsto> i, h \<mapsto> j]\<rparr>))\<lparr>pins := ?p, slots := Map.empty\<rparr>)"
    using brelse_ok [OF 6(3), of h j] by (auto elim!: okE)
  have "(put_through h (content a l) (a\<lparr>slots := [l \<mapsto> i, h \<mapsto> j]\<rparr>))\<lparr>pins := ?p, slots := Map.empty\<rparr> = (put_through h (content a l) a)\<lparr>pins := ?p\<rparr>"
    using sl by (auto intro!: cache_eqI)
  moreover have "install_block r tail s = Ret ((), s7)"
    using b x 3(1) 4(1) 5(1) 6(1) 7(1) by (simp add: install_block_def bindK_def thenK_def dev h l)
  moreover have "bio_frame s s7" using 2(2) 3(2) 4(2) 5(2) 6(2) 7(2) by (simp add: bio_frame_def)
  ultimately show ?thesis using 7(3) by (auto intro: okI)
qed

lemma write_log_block_ok:
  assumes rep: "bio_rep s a" and sl: "slots a = Map.empty" and dev: "log_dev s = ROOTDEV"
    and h: "h = log_lh s ! tail" and l: "l = log_start s + tail + 1" and lh: "l \<noteq> h"
    and few: "card (busy a) < NBUF" and pin: "0 < pins a h"
  shows "ok (write_log_block tail) s (\<lambda>_ s'. bio_rep s' (put_through l (content a h) a) \<and> bio_frame s s')"
proof -
  obtain i s1 j s2 where b: "bread ROOTDEV l s = Ret (i, s1)" "bread ROOTDEV h s1 = Ret (j, s2)"
    and 2: "bio_rep s2 (a\<lparr>slots := [l \<mapsto> i, h \<mapsto> j]\<rparr>)" "bio_frame s s2"
    using two_breads [OF rep sl lh few] pin by metis
  have len: "length (content a h) = BSIZE" by (rule content_length [OF rep])
  have x: "buf_data j s2 = Ret (content a h, s2)" using buf_data_ok [OF 2(1), of h j] by simp
  obtain s3 where 3: "buf_set i (content a h) s2 = Ret ((), s3)" "bio_frame s2 s3"
      "bio_rep s3 (a\<lparr>slots := [l \<mapsto> i, h \<mapsto> j], content := (content a)(l := content a h)\<rparr>)"
    using buf_set_ok [OF 2(1) _ len, of l i] lh by (auto elim!: okE)
  obtain s4 where 4: "bwrite i s3 = Ret ((), s4)" "bio_frame s3 s4"
      "bio_rep s4 (put_through l (content a h) (a\<lparr>slots := [l \<mapsto> i, h \<mapsto> j]\<rparr>))"
    using bwrite_ok [OF 3(3), of l i] lh by (auto simp: put_through_def elim!: okE)
  obtain s5 where 5: "brelse j s4 = Ret ((), s5)" "bio_frame s4 s5"
      "bio_rep s5 ((put_through l (content a h) (a\<lparr>slots := [l \<mapsto> i, h \<mapsto> j]\<rparr>))\<lparr>slots := [l \<mapsto> i]\<rparr>)"
  proof -
    have e: "[l \<mapsto> i](h := None) = [l \<mapsto> i]" using lh by auto
    show ?thesis using brelse_ok [OF 4(3), of h j] pin that by (auto simp: e elim!: okE)
  qed
  obtain s6 where 6: "brelse i s5 = Ret ((), s6)" "bio_frame s5 s6"
      "bio_rep s6 ((put_through l (content a h) (a\<lparr>slots := [l \<mapsto> i, h \<mapsto> j]\<rparr>))\<lparr>slots := Map.empty\<rparr>)"
    using brelse_ok [OF 5(3), of l i] by (auto elim!: okE)
  have "(put_through l (content a h) (a\<lparr>slots := [l \<mapsto> i, h \<mapsto> j]\<rparr>))\<lparr>slots := Map.empty\<rparr> = put_through l (content a h) a"
    using sl by (auto intro!: cache_eqI)
  moreover have "write_log_block tail s = Ret ((), s6)"
    using b x 3(1) 4(1) 5(1) 6(1) by (simp add: write_log_block_def bindK_def thenK_def dev h l)
  moreover have "bio_frame s s6" using 2(2) 3(2) 4(2) 5(2) 6(2) by (simp add: bio_frame_def)
  ultimately show ?thesis using 6(3) by (auto intro: okI)
qed

section \<open>Sequences of writes\<close>

definition apply_writes :: "(nat \<times> block) list \<Rightarrow> (nat \<Rightarrow> block) \<Rightarrow> (nat \<Rightarrow> block)" where
  "apply_writes ws d = fold (\<lambda>(b, x) d. d(b := x)) ws d"

lemma apply_writes_simps [simp]:
  "apply_writes [] d = d" "apply_writes (ws @ [(b, x)]) d = (apply_writes ws d)(b := x)"
  "apply_writes ((b, x) # ws) d = apply_writes ws (d(b := x))"
  by (simp_all add: apply_writes_def)

lemma apply_writes_append: "apply_writes (ws @ ws') d = apply_writes ws' (apply_writes ws d)"
  by (simp add: apply_writes_def)

lemma apply_writes_other: "b \<notin> fst ` set ws \<Longrightarrow> apply_writes ws d b = d b"
  by (induction ws rule: rev_induct) (auto simp: apply_writes_append apply_writes_def)

lemma apply_writes_cong:
  "f b = f' b \<or> b \<in> fst ` set ws \<Longrightarrow> apply_writes ws f b = apply_writes ws f' b"
  by (induction ws rule: rev_induct) (force simp: apply_writes_append apply_writes_def)+

text \<open>Writing each of the distinct blocks \<open>g i\<close> once.\<close>

lemma apply_writes_map:
  "i < n \<Longrightarrow> inj_on g {..<n} \<Longrightarrow> apply_writes (map (\<lambda>i. (g i, x i)) [0..<n]) d (g i) = x i"
proof (induction n)
  case (Suc n)
  have i: "inj_on g {..<n}" using Suc.prems(2) by (rule inj_on_subset) auto
  have "g i \<noteq> g n" if "i \<noteq> n" using inj_onD [OF Suc.prems(2), of i n] that Suc.prems(1) by auto
  then show ?case using Suc.IH [OF _ i] Suc.prems(1) by (cases "i = n") auto
qed simp

definition put_all :: "(nat \<times> block) list \<Rightarrow> cache \<Rightarrow> cache" where
  "put_all ws a = fold (\<lambda>(b, x). put_through b x) ws a"

lemma put_all_snoc [simp]: "put_all [] a = a" "put_all (ws @ [(b, x)]) a = put_through b x (put_all ws a)"
  by (simp_all add: put_all_def)

lemma put_all_sel [simp]:
  "content (put_all ws a) = apply_writes ws (content a)" "stored (put_all ws a) = apply_writes ws (stored a)"
  "pins (put_all ws a) = pins a" "slots (put_all ws a) = slots a" "written (put_all ws a) = written a @ ws"
  "busy (put_all ws a) = busy a"
proof (induction ws rule: rev_induct)
  case (snoc w ws)
  { case 1 then show ?case using snoc by (cases w) simp }
  { case 2 then show ?case using snoc by (cases w) simp }
  { case 3 then show ?case using snoc by (cases w) simp }
  { case 4 then show ?case using snoc by (cases w) simp }
  { case 5 then show ?case using snoc by (cases w) simp }
  { case 6 then show ?case using snoc by (cases w) simp }
qed simp_all

lemma put_all_append: "put_all (ws @ ws') a = put_all ws' (put_all ws a)"
  by (simp add: put_all_def)

section \<open>The loops of the log\<close>

definition log_writes :: "nat \<Rightarrow> nat list \<Rightarrow> (nat \<Rightarrow> block) \<Rightarrow> (nat \<times> block) list" where
  "log_writes start lh c = map (\<lambda>j. (start + j + 1, c (lh ! j))) [0..<length lh]"

definition home_writes :: "nat \<Rightarrow> nat list \<Rightarrow> (nat \<Rightarrow> block) \<Rightarrow> (nat \<times> block) list" where
  "home_writes start lh c = map (\<lambda>j. (lh ! j, c (start + j + 1))) [0..<length lh]"

lemma writes_length [simp]: "length (log_writes st lh c) = length lh" "length (home_writes st lh c) = length lh"
  by (simp_all add: log_writes_def home_writes_def)

lemma take_Suc_writes:
  "j < length lh \<Longrightarrow> take (Suc j) (log_writes st lh c) = take j (log_writes st lh c) @ [(st + j + 1, c (lh ! j))]"
  "j < length lh \<Longrightarrow> take (Suc j) (home_writes st lh c) = take j (home_writes st lh c) @ [(lh ! j, c (st + j + 1))]"
  by (simp_all add: take_Suc_conv_app_nth log_writes_def home_writes_def)

text \<open>Block numbers of a header are distinct and lie outside of the log area.\<close>

definition home :: "nat \<Rightarrow> nat \<Rightarrow> nat \<Rightarrow> bool" where
  "home start sz b \<longleftrightarrow> b < start \<or> start + sz \<le> b"

definition header_ok :: "nat \<Rightarrow> nat \<Rightarrow> nat list \<Rightarrow> bool" where
  "header_ok start sz lh \<longleftrightarrow> distinct lh \<and> length lh < sz \<and> length lh < NBUF \<and>
     (\<forall>b \<in> set lh. b < 2 ^ 32 \<and> home start sz b)"

lemma home_not_log: "header_ok st sz lh \<Longrightarrow> home st sz b \<Longrightarrow> j \<le> length lh \<Longrightarrow> b \<noteq> st + j"
  by (auto simp: header_ok_def home_def)

lemma log_writes_home:
  assumes "header_ok st sz lh" "home st sz b"
  shows "apply_writes (take k (log_writes st lh c)) d b = d b"
proof (rule apply_writes_other)
  have "b \<notin> fst ` set (log_writes st lh c)"
    using assms by (auto simp: log_writes_def header_ok_def home_def)
  then show "b \<notin> fst ` set (take k (log_writes st lh c))" by (meson image_mono set_take_subset subsetD)
qed

lemma home_writes_log:
  assumes "header_ok st sz lh" "\<not> home st sz b"
  shows "apply_writes (take k (home_writes st lh c)) d b = d b"
proof (rule apply_writes_other)
  have "b \<notin> fst ` set (home_writes st lh c)"
    using assms by (auto simp: home_writes_def header_ok_def set_conv_nth)
  then show "b \<notin> fst ` set (take k (home_writes st lh c))" by (meson image_mono set_take_subset subsetD)
qed

lemma write_log_ok:
  assumes rep: "bio_rep s a" and sl: "slots a = Map.empty" and dev: "log_dev s = ROOTDEV"
    and g: "header_ok (log_start s) sz (log_lh s)" and few: "card (busy a) < NBUF"
    and pin: "\<forall>b \<in> set (log_lh s). 0 < pins a b"
  shows "ok write_log s (\<lambda>_ s'. bio_rep s' (put_all (log_writes (log_start s) (log_lh s) (content a)) a) \<and> bio_frame s s')"
proof -
  let ?lh = "log_lh s" and ?st = "log_start s"
  let ?ws = "log_writes ?st ?lh (content a)"
  have "ok (forK [0..<length ?lh] write_log_block) s (\<lambda>_ t. bio_rep t (put_all (take (length ?lh) ?ws) a) \<and> bio_frame s t)"
  proof (rule ok_forK)
    fix j t assume j: "j < length ?lh" and P: "bio_rep t (put_all (take j ?ws) a) \<and> bio_frame s t"
    note f = bio_frame_log [OF conjunct2 [OF P]]
    let ?h = "log_lh t ! j" and ?l = "log_start t + j + 1"
    have h: "home ?st sz (?lh ! j)" using g j by (simp add: header_ok_def)
    have "ok (write_log_block j) t (\<lambda>_ t'. bio_rep t' (put_through ?l (content (put_all (take j ?ws) a) ?h) (put_all (take j ?ws) a)) \<and> bio_frame t t')"
      by (rule write_log_block_ok [OF conjunct1 [OF P]])
        (use sl dev few pin j f h home_not_log [OF g h, of "j + 1"] in \<open>auto simp: add.assoc\<close>)
    moreover have "content (put_all (take j ?ws) a) ?h = content a (?lh ! j)"
      using log_writes_home [OF g h] f by simp
    ultimately show "ok (write_log_block j) t (\<lambda>_ t'. bio_rep t' (put_all (take (Suc j) ?ws) a) \<and> bio_frame s t')"
      using P f by (auto simp: take_Suc_writes [OF j] bio_frame_def elim!: ok_mono)
  qed (use rep in simp)
  then show ?thesis by (simp add: write_log_def)
qed

definition unpinned :: "bool \<Rightarrow> nat set \<Rightarrow> cache \<Rightarrow> cache" where
  "unpinned r B a = a\<lparr>pins := if r then pins a else (\<lambda>b. if b \<in> B then pins a b - 1 else pins a b)\<rparr>"

lemma unpinned_sel [simp]:
  "content (unpinned r B a) = content a" "stored (unpinned r B a) = stored a" "slots (unpinned r B a) = slots a"
  "written (unpinned r B a) = written a" "unpinned r {} a = a"
  "pins (unpinned r B a) b = (if \<not> r \<and> b \<in> B then pins a b - 1 else pins a b)"
  by (simp_all add: unpinned_def)

lemma busy_unpinned: "bio_rep s a \<Longrightarrow> card (busy (unpinned r B a)) \<le> card (busy a)"
  by (rule card_mono [OF busy_finite]) (auto simp: busy_def split: if_splits)

lemma install_trans_ok:
  assumes rep: "bio_rep s a" and sl: "slots a = Map.empty" and dev: "log_dev s = ROOTDEV"
    and g: "header_ok (log_start s) sz (log_lh s)" and few: "card (busy a) < NBUF"
    and clean: "\<And>j. j < length (log_lh s) \<Longrightarrow> content a (log_start s + j + 1) = stored a (log_start s + j + 1)"
    and r: "if r then busy a = {} else \<forall>b \<in> set (log_lh s). 0 < pins a b"
  shows "ok (install_trans r) s (\<lambda>_ s'. bio_rep s' (unpinned r (set (log_lh s))
           (put_all (home_writes (log_start s) (log_lh s) (content a)) a)) \<and> bio_frame s s')"
proof -
  let ?lh = "log_lh s" and ?st = "log_start s"
  let ?ws = "home_writes ?st ?lh (content a)"
  let ?a = "\<lambda>j. unpinned r (set (take j ?lh)) (put_all (take j ?ws) a)"
  have "ok (forK [0..<length ?lh] (install_block r)) s (\<lambda>_ t. bio_rep t (?a (length ?lh)) \<and> bio_frame s t)"
  proof (rule ok_forK)
    fix j t assume j: "j < length ?lh" and P: "bio_rep t (?a j) \<and> bio_frame s t"
    note f = bio_frame_log [OF conjunct2 [OF P]]
    let ?h = "log_lh t ! j" and ?l = "log_start t + j + 1"
    have h: "home ?st sz (?lh ! j)" using g j by (simp add: header_ok_def)
    have l: "\<not> home ?st sz (?st + j + 1)" using g j by (simp add: header_ok_def home_def)
    have new: "?lh ! j \<notin> set (take j ?lh)" using g j by (auto simp: header_ok_def in_set_conv_nth nth_eq_iff_index_eq)
    have "busy (?a j) = busy (unpinned r (set (take j ?lh)) a)" by (simp add: busy_def)
    then have c: "card (busy (?a j)) < NBUF" using busy_unpinned [OF rep, of r "set (take j ?lh)"] few by simp
    have cr: "r \<Longrightarrow> busy (?a j) = {}" using r by (simp add: busy_def)
    have "ok (install_block r j) t (\<lambda>_ t'. bio_rep t' (put_through ?h (content (?a j) ?l) (?a j)
        \<lparr>pins := if r then pins (?a j) else (pins (?a j))(?h := pins (?a j) ?h - 1)\<rparr>) \<and> bio_frame t t')"
      by (rule install_block_ok [OF conjunct1 [OF P]])
        (use sl dev c cr r j f h new home_not_log [OF g h, of "j + 1"] clean [OF j] home_writes_log [OF g l] in
          \<open>auto simp: add.assoc NBUF_def MAXOPBLOCKS_def\<close>)
    moreover have "content (?a j) ?l = content a (?st + j + 1)"
      using home_writes_log [OF g l] f by simp
    moreover have "put_through ?h (content a (?st + j + 1)) (?a j)
        \<lparr>pins := if r then pins (?a j) else (pins (?a j))(?h := pins (?a j) ?h - 1)\<rparr> = ?a (Suc j)"
      using new f by (intro cache_eqI) (auto simp: take_Suc_writes(2) [OF j] take_Suc_conv_app_nth [OF j] unpinned_def fun_eq_iff)
    ultimately show "ok (install_block r j) t (\<lambda>_ t'. bio_rep t' (?a (Suc j)) \<and> bio_frame s t')"
      using P by (auto simp: bio_frame_def elim!: ok_mono)
  qed (use rep in simp)
  then show ?thesis by (simp add: install_trans_def)
qed

section \<open>Header reads and writes\<close>

definition log_frame :: "'a logst_scheme \<Rightarrow> 'a logst_scheme \<Rightarrow> bool" where
  "log_frame s s' \<longleftrightarrow> running_pid s' = running_pid s \<and> log_start s' = log_start s \<and> log_size s' = log_size s \<and>
     log_outstanding s' = log_outstanding s \<and> log_committing s' = log_committing s \<and> log_dev s' = log_dev s \<and>
     logst.more s' = logst.more s"

lemma log_frameD:
  assumes "log_frame s s'"
  shows "log_start s' = log_start s" "log_size s' = log_size s" "log_outstanding s' = log_outstanding s"
    "log_committing s' = log_committing s" "log_dev s' = log_dev s" "logst.more s' = logst.more s"
    "running_pid s' = running_pid s"
  using assms by (simp_all add: log_frame_def)

lemma bio_log_frame: assumes "bio_frame s s'" shows "log_frame s s'"
  unfolding log_frame_def bio_frame_log [OF assms] using assms by (simp add: bio_frame_def)

lemma log_frame_trans [trans]: "log_frame s t \<Longrightarrow> log_frame t u \<Longrightarrow> log_frame s u"
  by (simp add: log_frame_def)

lemma write_head_ok:
  assumes rep: "bio_rep s a" and sl: "slots a = Map.empty" and dev: "log_dev s = ROOTDEV" and few: "card (busy a) < NBUF"
    and lh: "length (log_lh s) \<le> LOGSIZE" "\<forall>b \<in> set (log_lh s). b < 2 ^ 32"
  shows "ok write_head s (\<lambda>_ s'. bio_rep s' (put_through (log_start s) (put_header (log_lh s) (content a (log_start s))) a) \<and>
           bio_frame s s')"
proof -
  let ?b = "log_start s" let ?x = "put_header (log_lh s) (content a ?b)"
  have len: "length ?x = BSIZE" using get_put_header(2) [OF content_length [OF rep] lh] .
  obtain i s1 where 1: "bread ROOTDEV ?b s = Ret (i, s1)" "bio_rep s1 (a\<lparr>slots := (slots a)(?b \<mapsto> i)\<rparr>)" "bio_frame s s1"
    using bread_ok [OF rep, of ?b] sl few by (auto elim!: okE)
  have x: "buf_data i s1 = Ret (content a ?b, s1)" using buf_data_ok [OF 1(2), of ?b i] by simp
  obtain s2 where 2: "buf_set i ?x s1 = Ret ((), s2)" "bio_frame s1 s2"
      "bio_rep s2 (a\<lparr>slots := (slots a)(?b \<mapsto> i), content := (content a)(?b := ?x)\<rparr>)"
    using buf_set_ok [OF 1(2) _ len, of ?b i] by (auto elim!: okE)
  obtain s3 where 3: "bwrite i s2 = Ret ((), s3)" "bio_frame s2 s3"
      "bio_rep s3 (put_through ?b ?x (a\<lparr>slots := (slots a)(?b \<mapsto> i)\<rparr>))"
    using bwrite_ok [OF 2(3), of ?b i] by (auto simp: put_through_def elim!: okE)
  obtain s4 where 4: "brelse i s3 = Ret ((), s4)" "bio_frame s3 s4"
      "bio_rep s4 ((put_through ?b ?x (a\<lparr>slots := (slots a)(?b \<mapsto> i)\<rparr>))\<lparr>slots := (slots a)(?b := None)\<rparr>)"
    using brelse_ok [OF 3(3), of ?b i] by (auto elim!: okE)
  have "(put_through ?b ?x (a\<lparr>slots := (slots a)(?b \<mapsto> i)\<rparr>))\<lparr>slots := (slots a)(?b := None)\<rparr> = put_through ?b ?x a"
    using sl by (intro cache_eqI) auto
  then show ?thesis
    using 1 x 2 3 4 bio_frame_log(6) [OF 1(3)] dev
    by (intro okI [of _ _ "()" s4]) (simp_all add: write_head_def bindK_def thenK_def bio_frame_def)
qed

lemma read_head_ok:
  assumes rep: "bio_rep s a" and sl: "slots a = Map.empty" and dev: "log_dev s = ROOTDEV" and few: "card (busy a) < NBUF"
    and clean: "content a (log_start s) = stored a (log_start s)" and h: "get_header (stored a (log_start s)) = Ret lh"
  shows "ok read_head s (\<lambda>_ s'. bio_rep s' a \<and> log_lh s' = lh \<and> log_frame s s')"
proof -
  let ?b = "log_start s"
  obtain i s1 where 1: "bread ROOTDEV ?b s = Ret (i, s1)" "bio_rep s1 (a\<lparr>slots := (slots a)(?b \<mapsto> i)\<rparr>)" "bio_frame s s1"
    using bread_ok [OF rep, of ?b] sl few by (auto elim!: okE)
  have x: "buf_data i s1 = Ret (content a ?b, s1)" using buf_data_ok [OF 1(2), of ?b i] by simp
  have "bio_rep (s1\<lparr>log_lh := lh\<rparr>) (a\<lparr>slots := (slots a)(?b \<mapsto> i)\<rparr>)" using 1(2) by simp
  from brelse_ok [OF this, of ?b i] clean
  obtain s2 where 2: "brelse i (s1\<lparr>log_lh := lh\<rparr>) = Ret ((), s2)" "bio_frame (s1\<lparr>log_lh := lh\<rparr>) s2"
      "bio_rep s2 (a\<lparr>slots := (slots a)(?b := None)\<rparr>)"
    by (auto elim!: okE)
  have "a\<lparr>slots := (slots a)(?b := None)\<rparr> = a" using sl by (intro cache_eqI) auto
  moreover have "log_frame s s2"
    using bio_log_frame [OF 1(3)] bio_log_frame [OF 2(2)] by (simp add: log_frame_def)
  moreover have "log_lh s2 = lh" using bio_frame_log(6) [OF 2(2)] by simp
  ultimately show ?thesis
    using 1 x 2 clean h dev by (intro okI [of _ _ "()" s2]) (simp_all add: read_head_def bindK_def thenK_def)
qed

section \<open>Commit and recovery as sequences of writes\<close>

definition commit_writes :: "nat \<Rightarrow> nat list \<Rightarrow> (nat \<Rightarrow> block) \<Rightarrow> (nat \<times> block) list" where
  "commit_writes st lh c = log_writes st lh c @ [(st, put_header lh (c st))] @ map (\<lambda>b. (b, c b)) lh @
     [(st, put_header [] (put_header lh (c st)))]"

lemma home_writes_after_log:
  assumes g: "header_ok st sz lh"
  shows "home_writes st lh ((apply_writes (log_writes st lh c) d)(st := x)) = map (\<lambda>b. (b, c b)) lh"
proof (rule nth_equalityI)
  fix i assume i: "i < length (home_writes st lh ((apply_writes (log_writes st lh c) d)(st := x)))"
  have "apply_writes (log_writes st lh c) d (st + i + 1) = c (lh ! i)"
    unfolding log_writes_def
    by (rule apply_writes_map [where g = "\<lambda>i. st + i + 1" and x = "\<lambda>j. c (lh ! j)"]) (use i in \<open>auto simp: inj_on_def\<close>)
  then show "home_writes st lh ((apply_writes (log_writes st lh c) d)(st := x)) ! i = map (\<lambda>b. (b, c b)) lh ! i"
    using i by (simp add: home_writes_def)
qed simp

lemma log_writes_start: "apply_writes (take k (log_writes st lh c)) d st = d st"
  by (rule apply_writes_other) (auto simp: log_writes_def dest!: in_set_takeD)

lemma header_ok_limits: "header_ok st sz lh \<Longrightarrow> length lh \<le> LOGSIZE \<and> (\<forall>b \<in> set lh. b < 2 ^ 32)"
  by (auto simp: header_ok_def LOGSIZE_def NBUF_def MAXOPBLOCKS_def)

lemma commit_ok:
  assumes rep: "bio_rep s a" and sl: "slots a = Map.empty" and dev: "log_dev s = ROOTDEV"
    and g: "header_ok (log_start s) sz (log_lh s)" and ne: "log_lh s \<noteq> []"
    and pin: "pins a = (\<lambda>b. if b \<in> set (log_lh s) then 1 else 0)"
    and clean: "\<forall>b. b \<notin> set (log_lh s) \<longrightarrow> content a b = stored a b"
  shows "ok commit s (\<lambda>_ s'. log_frame s s' \<and> log_lh s' = [] \<and>
     (\<exists>d. bio_rep s' (idle_cache d (written a @ commit_writes (log_start s) (log_lh s) (content a)))))"
proof -
  let ?st = "log_start s" and ?lh = "log_lh s" and ?c = "content a"
  let ?W = "log_writes ?st ?lh ?c" and ?H = "put_header ?lh (?c ?st)"
  have busy: "busy a = set ?lh" using pin sl by (auto simp: busy_def)
  have few: "card (busy a) < NBUF" using g by (simp add: busy distinct_card header_ok_def)
  note lim = header_ok_limits [OF g]
  have st: "\<not> home ?st sz ?st" using g by (auto simp: header_ok_def home_def)
  have st_lh: "?st \<notin> set ?lh" using st g by (auto simp: header_ok_def)
  obtain s1 where 1: "write_log s = Ret ((), s1)" "bio_rep s1 (put_all ?W a)" "bio_frame s s1"
    using write_log_ok [OF rep sl dev g few] pin by (auto elim!: okE)
  note f1 = bio_frame_log [OF 1(3)]
  have cst: "apply_writes ?W ?c ?st = ?c ?st" using log_writes_start [of "length ?W" ?st ?lh ?c] by simp
  obtain s2 where 2: "write_head s1 = Ret ((), s2)" "bio_rep s2 (put_through ?st ?H (put_all ?W a))" "bio_frame s1 s2"
    using write_head_ok [OF 1(2)] sl dev few f1 lim by (auto simp: cst elim!: okE)
  note f2 = bio_frame_log [OF 2(3)]
  let ?a2 = "put_through ?st ?H (put_all ?W a)"
  have cl: "content ?a2 (?st + j + 1) = stored ?a2 (?st + j + 1)" if "j < length ?lh" for j
  proof -
    have "\<not> home ?st sz (?st + j + 1)" using g that by (simp add: header_ok_def home_def)
    then have "?st + j + 1 \<notin> set ?lh" using g by (auto simp: header_ok_def)
    then have "?c (?st + j + 1) = stored a (?st + j + 1)" using clean by blast
    then show ?thesis
      using apply_writes_map [of j "length ?lh" "\<lambda>i. ?st + i + 1" "\<lambda>j. ?c (?lh ! j)"] that
      by (simp add: log_writes_def inj_on_def)
  qed
  have I: "home_writes ?st ?lh (content ?a2) = map (\<lambda>b. (b, ?c b)) ?lh"
    using home_writes_after_log [OF g] by simp
  let ?I = "map (\<lambda>b. (b, ?c b)) ?lh"
  obtain s3 where 3: "install_trans False s2 = Ret ((), s3)" "bio_rep s3 (unpinned False (set ?lh) (put_all ?I ?a2))" "bio_frame s2 s3"
    using install_trans_ok [OF 2(2), of sz False] sl dev g few f1 f2 cl pin I by (auto elim!: okE)
  note f3 = bio_frame_log [OF 3(3)]
  let ?a3 = "unpinned False (set ?lh) (put_all ?I ?a2)"
  have "busy ?a3 = {}" using pin sl by (auto simp: busy_def split: if_splits)
  moreover have "apply_writes ?I (content ?a2) ?st = ?H"
    using st_lh by (subst apply_writes_other) auto
  ultimately obtain s4 where 4: "write_head (s3\<lparr>log_lh := []\<rparr>) = Ret ((), s4)"
      "bio_rep s4 (put_through ?st (put_header [] ?H) ?a3)" "bio_frame (s3\<lparr>log_lh := []\<rparr>) s4"
    using write_head_ok [of "s3\<lparr>log_lh := []\<rparr>" ?a3] 3(2) sl dev f1 f2 f3
    by (auto simp: NBUF_def MAXOPBLOCKS_def elim!: okE)
  let ?d = "content (put_through ?st (put_header [] ?H) ?a3)"
  have "stored (put_through ?st (put_header [] ?H) ?a3) = ?d"
  proof
    fix b
    have "apply_writes ?I ((apply_writes ?W (stored a))(?st := ?H)) b = apply_writes ?I ((apply_writes ?W ?c)(?st := ?H)) b"
      using clean apply_writes_cong [of "stored a" b ?c ?W] by (intro apply_writes_cong) (auto simp: image_iff)
    then show "stored (put_through ?st (put_header [] ?H) ?a3) b = ?d b" by simp
  qed
  then have "put_through ?st (put_header [] ?H) ?a3 = idle_cache ?d (written a @ commit_writes ?st ?lh ?c)"
    using pin sl by (intro cache_eqI) (auto simp: commit_writes_def fun_eq_iff)
  moreover have "log_frame s s4"
    using bio_log_frame [OF 1(3)] bio_log_frame [OF 2(3)] bio_log_frame [OF 3(3)] bio_log_frame [OF 4(3)]
    by (simp add: log_frame_def)
  moreover have "commit s = Ret ((), s4)"
    using 1(1) 2(1) 3(1) 4(1) ne by (simp add: commit_def bindK_def thenK_def whenK_def)
  moreover have "log_lh s4 = []" using bio_frame_log(6) [OF 4(3)] by simp
  ultimately show ?thesis using 4(2) by (intro okI [of _ _ "()" s4]) auto
qed

definition recovery_writes :: "nat \<Rightarrow> nat list \<Rightarrow> (nat \<Rightarrow> block) \<Rightarrow> (nat \<times> block) list" where
  "recovery_writes st lh d = home_writes st lh d @ [(st, put_header [] (d st))]"

lemma put_all_idle:
  "put_all ws (idle_cache d vs) = idle_cache (apply_writes ws d) (vs @ ws)"
  "unpinned True B (idle_cache d vs) = idle_cache d vs"
  "put_through b x (idle_cache d vs) = idle_cache (d(b := x)) (vs @ [(b, x)])"
  by (rule cache_eqI; simp add: fun_eq_iff)+

lemma recover_ok:
  assumes rep: "bio_rep s (idle_cache d ws)" and dev: "log_dev s = ROOTDEV"
    and h: "get_header (d (log_start s)) = Ret lh" and g: "header_ok (log_start s) sz lh"
  shows "ok recover_from_log s (\<lambda>_ s'. log_frame s s' \<and> log_lh s' = [] \<and>
     bio_rep s' (idle_cache (apply_writes (recovery_writes (log_start s) lh d) d) (ws @ recovery_writes (log_start s) lh d)))"
proof -
  let ?st = "log_start s"
  have few: "card ({} :: nat set) < NBUF" by (simp add: NBUF_def MAXOPBLOCKS_def)
  have st: "\<not> home ?st sz ?st" using g by (auto simp: header_ok_def home_def)
  obtain s1 where 1: "read_head s = Ret ((), s1)" "bio_rep s1 (idle_cache d ws)" "log_lh s1 = lh" "log_frame s s1"
    using read_head_ok [OF rep _ dev] h few by (auto elim!: okE)
  note f1 = log_frameD [OF 1(4)]
  let ?d1 = "apply_writes (home_writes ?st lh d) d"
  obtain s2 where 2: "install_trans True s1 = Ret ((), s2)" "bio_frame s1 s2"
      "bio_rep s2 (idle_cache ?d1 (ws @ home_writes ?st lh d))"
    using install_trans_ok [OF 1(2), of sz True] dev g few 1(3) f1 by (auto simp: put_all_idle elim!: okE)
  note f2 = bio_frame_log [OF 2(2)]
  have st1: "?d1 ?st = d ?st" using home_writes_log [OF g st, of "length lh"] by simp
  obtain s3 where 3: "write_head (s2\<lparr>log_lh := []\<rparr>) = Ret ((), s3)" "bio_frame (s2\<lparr>log_lh := []\<rparr>) s3"
      "bio_rep s3 (idle_cache (apply_writes (recovery_writes ?st lh d) d) (ws @ recovery_writes ?st lh d))"
    using write_head_ok [of "s2\<lparr>log_lh := []\<rparr>" "idle_cache ?d1 (ws @ home_writes ?st lh d)"] 2(3) dev few f1 f2 st1
    by (auto simp: put_all_idle recovery_writes_def elim!: okE)
  have "log_frame s s3"
    using 1(4) bio_log_frame [OF 2(2)] bio_log_frame [OF 3(2)] by (simp add: log_frame_def)
  moreover have "log_lh s3 = []" using bio_frame_log(6) [OF 3(2)] by simp
  ultimately show ?thesis
    using 1(1) 2(1) 3 by (intro okI [of _ _ "()" s3]) (simp_all add: recover_from_log_def bindK_def thenK_def)
qed

lemma initlog_ok:
  assumes rep: "bio_rep s (idle_cache d ws)" and h: "get_header (d st) = Ret lh" and g: "header_ok st sz lh"
  shows "ok (initlog ROOTDEV st sz) s (\<lambda>_ s'. log_frame (s\<lparr>log_start := st, log_size := sz, log_dev := ROOTDEV\<rparr>) s' \<and>
     log_lh s' = [] \<and>
     bio_rep s' (idle_cache (apply_writes (recovery_writes st lh d) d) (ws @ recovery_writes st lh d)))"
  using recover_ok [of "s\<lparr>log_start := st, log_size := sz, log_dev := ROOTDEV\<rparr>" d ws lh sz] assms
  by (simp add: initlog_def LOGSIZE_def MAXOPBLOCKS_def BSIZE_def)

section \<open>Crashes\<close>

text \<open>The contents of the home blocks that recovery will produce from a disk with a log.\<close>

definition disk_ok :: "nat \<Rightarrow> nat \<Rightarrow> (nat \<Rightarrow> block) \<Rightarrow> nat list \<Rightarrow> bool" where
  "disk_ok st sz d lh \<longleftrightarrow> (\<forall>b. length (d b) = BSIZE) \<and> get_header (d st) = Ret lh \<and> header_ok st sz lh"

definition logical :: "nat \<Rightarrow> nat list \<Rightarrow> (nat \<Rightarrow> block) \<Rightarrow> nat \<Rightarrow> block" where
  "logical st lh d = apply_writes (home_writes st lh d) d"

lemma logical_empty [simp]: "logical st [] d = d"
  by (simp add: logical_def home_writes_def)

lemma header_ok_Nil: "header_ok st sz lh \<Longrightarrow> header_ok st sz []"
  by (auto simp: header_ok_def)

lemma logical_nth:
  assumes g: "header_ok st sz lh"
  shows "i < length lh \<Longrightarrow> logical st lh d (lh ! i) = d (st + i + 1)"
    and "b \<notin> set lh \<Longrightarrow> logical st lh d b = d b"
proof -
  have "inj_on (\<lambda>i. lh ! i) {..<length lh}" using g by (auto simp: header_ok_def inj_on_def nth_eq_iff_index_eq)
  then show "i < length lh \<Longrightarrow> logical st lh d (lh ! i) = d (st + i + 1)"
    unfolding logical_def home_writes_def by (intro apply_writes_map [where g = "\<lambda>i. lh ! i"])
  show "b \<notin> set lh \<Longrightarrow> logical st lh d b = d b"
    unfolding logical_def by (rule apply_writes_other) (auto simp: home_writes_def)
qed

lemma logical_cong:
  assumes g: "header_ok st sz lh" and log: "\<And>i. i < length lh \<Longrightarrow> d' (st + i + 1) = d (st + i + 1)"
    and off: "b \<notin> set lh \<Longrightarrow> d' b = d b"
  shows "logical st lh d' b = logical st lh d b"
proof (cases "b \<in> set lh")
  case True
  then obtain i where "i < length lh" "b = lh ! i" by (auto simp: in_set_conv_nth)
  then show ?thesis using logical_nth(1) [OF g] log by simp
qed (use logical_nth(2) [OF g] off in simp)

lemma apply_writes_length:
  "\<forall>b. length (d b) = n \<Longrightarrow> \<forall>(b, x) \<in> set ws. length x = n \<Longrightarrow> length (apply_writes ws d b) = n"
  by (induction ws rule: rev_induct) (auto simp: apply_writes_append apply_writes_def split: prod.splits)

lemma put_header_length:
  "length x = BSIZE \<Longrightarrow> header_ok st sz lh \<Longrightarrow> length (put_header lh x) = BSIZE"
  using get_put_header(2) header_ok_limits by blast

lemma get_put_header_ok:
  "length x = BSIZE \<Longrightarrow> header_ok st sz lh \<Longrightarrow> get_header (put_header lh x) = Ret lh"
  using get_put_header(1) header_ok_limits by blast

lemma log_area: "header_ok st sz lh \<Longrightarrow> i \<le> length lh \<Longrightarrow> \<not> home st sz (st + i)"
  by (auto simp: header_ok_def home_def)

lemma home_lh: "header_ok st sz lh \<Longrightarrow> \<not> home st sz b \<Longrightarrow> b \<notin> set lh"
  by (auto simp: header_ok_def)

text \<open>A crash during recovery changes nothing that recovery would produce.\<close>

lemma crash_recovery:
  assumes d: "disk_ok st sz d lh" and d': "d' = apply_writes (take k (recovery_writes st lh d)) d"
  shows "\<exists>lh'. disk_ok st sz d' lh' \<and> (\<forall>b. home st sz b \<longrightarrow> logical st lh' d' b = logical st lh d b)"
proof (cases "k \<le> length lh")
  case True
  note D = d [unfolded disk_ok_def]
  have e: "d' = apply_writes (take k (home_writes st lh d)) d" using True d' by (simp add: recovery_writes_def)
  have log: "d' b = d b" if "\<not> home st sz b" for b using home_writes_log e D that by blast
  have "d' st = d st" using log log_area [of st sz lh 0] D by simp
  moreover have "length (d' b) = BSIZE" for b
    unfolding e by (rule apply_writes_length) (use D in \<open>auto simp: home_writes_def dest!: in_set_takeD\<close>)
  moreover have "logical st lh d' b = logical st lh d b" for b
  proof (rule logical_cong)
    show "d' (st + i + 1) = d (st + i + 1)" if "i < length lh" for i
      using log log_area [of st sz lh "i + 1"] D that by simp
    show "d' b = d b" if "b \<notin> set lh"
      unfolding e by (rule apply_writes_other) (use that in \<open>auto simp: home_writes_def dest!: in_set_takeD\<close>)
  qed (use D in blast)
  ultimately show ?thesis using D by (intro exI [of _ lh]) (auto simp: disk_ok_def)
next
  case False
  note D = d [unfolded disk_ok_def]
  have e: "d' = (logical st lh d)(st := put_header [] (d st))"
    using False d' by (simp add: recovery_writes_def logical_def)
  have nil: "header_ok st sz []" using D header_ok_Nil by blast
  have "length (logical st lh d b) = BSIZE" for b
    unfolding logical_def by (rule apply_writes_length) (use D in \<open>auto simp: home_writes_def\<close>)
  then have "disk_ok st sz d' []"
    using e nil D put_header_length [OF _ nil] get_put_header_ok [OF _ nil] by (auto simp: disk_ok_def)
  moreover have "\<not> home st sz st" using log_area [of st sz lh 0] D by simp
  ultimately show ?thesis using e by (intro exI [of _ "[]"]) auto
qed

text \<open>A crash during a commit leaves a disk from which recovery produces all of the old or all of the new contents.\<close>

lemma crash_commit:
  assumes d: "disk_ok st sz d []" and g: "header_ok st sz lh" and c: "\<forall>b. length (c b) = BSIZE"
    and off: "\<forall>b. b \<notin> set lh \<longrightarrow> c b = d b" and d': "d' = apply_writes (take k (commit_writes st lh c)) d"
  shows "\<exists>lh'. disk_ok st sz d' lh' \<and>
     ((\<forall>b. home st sz b \<longrightarrow> logical st lh' d' b = d b) \<or> (\<forall>b. home st sz b \<longrightarrow> logical st lh' d' b = c b))"
proof -
  note D = d [unfolded disk_ok_def]
  let ?n = "length lh" and ?H = "put_header lh (c st)" and ?I = "map (\<lambda>b. (b, c b)) lh"
  let ?d1 = "(apply_writes (log_writes st lh c) d)(st := ?H)"
  have st: "\<not> home st sz st" "st \<notin> set lh" using log_area [OF g, of 0] home_lh [OF g] by auto
  have len: "length (d' b) = BSIZE" for b
    unfolding d' by (rule apply_writes_length)
      (use D c put_header_length [OF _ g] put_header_length [OF _ header_ok_Nil [OF g]] in
        \<open>auto simp: commit_writes_def log_writes_def dest!: in_set_takeD\<close>)
  consider "k \<le> ?n" | m where "k = ?n + 1 + m" "m \<le> ?n" | "?n + 1 + ?n < k"
    by (metis add_leD1 le_iff_add linorder_not_less not_less_eq_eq Suc_eq_plus1 add_le_cancel_left)
  then show ?thesis
  proof cases
    case 1
    then have e: "d' = apply_writes (take k (log_writes st lh c)) d" using d' by (simp add: commit_writes_def)
    then have "d' st = d st" using log_writes_start by simp
    then have "disk_ok st sz d' []" using D len by (simp add: disk_ok_def)
    moreover have "d' b = d b" if "home st sz b" for b using log_writes_home [OF g that] e by simp
    ultimately show ?thesis by (intro exI [of _ "[]"]) auto
  next
    case (2 m)
    then have e: "d' = apply_writes (take m ?I) ?d1"
      using d' by (simp add: commit_writes_def apply_writes_append)
    have nh: "d' b = ?d1 b" if "b \<notin> set lh" for b
      unfolding e by (rule apply_writes_other) (use that in \<open>auto dest!: in_set_takeD\<close>)
    have "d' st = ?H" using nh st(2) by simp
    then have "disk_ok st sz d' lh" using len g c get_put_header_ok [OF _ g] by (simp add: disk_ok_def)
    moreover have "logical st lh d' b = c b" if b: "home st sz b" for b
    proof (cases "b \<in> set lh")
      case True
      then obtain i where i: "i < ?n" "b = lh ! i" by (auto simp: in_set_conv_nth)
      have "d' (st + i + 1) = ?d1 (st + i + 1)"
        using nh home_lh [OF g] log_area [OF g, of "i + 1"] i by simp
      also have "\<dots> = c (lh ! i)"
        using apply_writes_map [of i ?n "\<lambda>i. st + i + 1" "\<lambda>j. c (lh ! j)"] i by (simp add: log_writes_def inj_on_def)
      finally show ?thesis using logical_nth(1) [OF g] i by simp
    next
      case False
      then have "logical st lh d' b = ?d1 b" using logical_nth(2) [OF g] nh by simp
      also have "\<dots> = d b" using log_writes_home [OF g b, of ?n] b st(1) by auto
      finally show ?thesis using off False by simp
    qed
    ultimately show ?thesis by (intro exI [of _ lh]) auto
  next
    case 3
    then have e: "d' = (apply_writes ?I ?d1)(st := put_header [] ?H)"
      using d' by (simp add: commit_writes_def apply_writes_append)
    have nil: "header_ok st sz []" using header_ok_Nil [OF g] .
    have "disk_ok st sz d' []"
      using len e nil c get_put_header_ok [OF _ nil] put_header_length [OF _ g] by (simp add: disk_ok_def)
    moreover have "d' b = c b" if b: "home st sz b" for b
    proof (cases "b \<in> set lh")
      case True
      then obtain i where i: "i < ?n" "b = lh ! i" by (auto simp: in_set_conv_nth)
      have "?I = map (\<lambda>i. (lh ! i, c (lh ! i))) [0..<?n]" by (rule nth_equalityI) auto
      then have "apply_writes ?I ?d1 (lh ! i) = c (lh ! i)"
        using apply_writes_map [of i ?n "\<lambda>i. lh ! i" "\<lambda>i. c (lh ! i)"] i g
        by (simp add: header_ok_def inj_on_def nth_eq_iff_index_eq)
      then show ?thesis using e i st True by auto
    next
      case False
      then have "apply_writes ?I ?d1 b = ?d1 b" by (intro apply_writes_other) auto
      also have "\<dots> = d b" using log_writes_home [OF g b, of ?n] b st(1) by auto
      finally show ?thesis using e off False b st(1) by auto
    qed
    ultimately show ?thesis by (intro exI [of _ "[]"]) auto
  qed
qed

section \<open>The invariant of the log\<close>

definition log_rep :: "'a logst_scheme \<Rightarrow> cache \<Rightarrow> bool" where
  "log_rep s a \<longleftrightarrow> bio_rep s a \<and> log_dev s = ROOTDEV \<and> log_size s \<le> LOGSIZE \<and>
     header_ok (log_start s) (log_size s) (log_lh s) \<and>
     pins a = (\<lambda>b. if b \<in> set (log_lh s) then 1 else 0) \<and>
     (\<forall>b. b \<notin> set (log_lh s) \<longrightarrow> slots a b = None \<longrightarrow> content a b = stored a b) \<and>
     get_header (stored a (log_start s)) = Ret []"

lemma log_repD:
  assumes "log_rep s a"
  shows "bio_rep s a" "log_dev s = ROOTDEV" "log_size s \<le> LOGSIZE" "header_ok (log_start s) (log_size s) (log_lh s)"
    "pins a = (\<lambda>b. if b \<in> set (log_lh s) then 1 else 0)"
    "b \<notin> set (log_lh s) \<Longrightarrow> slots a b = None \<Longrightarrow> content a b = stored a b"
    "get_header (stored a (log_start s)) = Ret []"
  using assms by (auto simp: log_rep_def)

text \<open>Between operations no buffer is locked.\<close>

definition log_idle :: "'a logst_scheme \<Rightarrow> cache \<Rightarrow> bool" where
  "log_idle s a \<longleftrightarrow> log_rep s a \<and> slots a = Map.empty"

lemma begin_op_ok:
  assumes "log_rep s a" "\<not> log_committing s" "int (length (log_lh s)) + (log_outstanding s + 1) * int MAXOPBLOCKS \<le> int LOGSIZE"
  shows "ok begin_op s (\<lambda>_ s'. s' = s\<lparr>log_outstanding := log_outstanding s + 1\<rparr> \<and> log_rep s' a)"
  using assms by (simp add: begin_op_def log_rep_def)

lemma log_write_ok:
  assumes rep: "log_rep s a" and i: "slots a b = Some i" and b: "home (log_start s) (log_size s) b" "b < 2 ^ 32"
    and out: "1 \<le> log_outstanding s" and room: "length (log_lh s) + 1 < log_size s"
  shows "ok (log_write i) s (\<lambda>_ s'. log_rep s' (a\<lparr>pins := (pins a)(b := 1)\<rparr>) \<and> log_frame s s' \<and>
     log_lh s' = (if b \<in> set (log_lh s) then log_lh s else log_lh s @ [b]))"
proof -
  note R = log_repD [OF rep]
  have bn: "b_blockno (bufs s i) = b" using bio_rep_slot(3) [OF R(1) i] .
  have cap: "\<not> int LOGSIZE \<le> int (length (log_lh s))" "\<not> int (log_size s) - 1 \<le> int (length (log_lh s))"
    using room R(3) by auto
  show ?thesis
  proof (cases "b \<in> set (log_lh s)")
    case True
    then have "(pins a)(b := 1) = pins a" using R(5) by auto
    then have "a\<lparr>pins := (pins a)(b := 1)\<rparr> = a" by simp
    then show ?thesis using True rep cap out bn by (simp add: log_write_def Let_def log_frame_def)
  next
    case False
    then have p: "pins a b = 0" using R(5) by simp
    obtain s1 where 1: "bpin i s = Ret ((), s1)" "bio_rep s1 (a\<lparr>pins := (pins a)(b := 1)\<rparr>)" "bio_frame s s1"
      using bpin_ok [OF R(1) i] p by (auto elim!: okE)
    note f = bio_frame_log [OF 1(3)]
    let ?s = "s1\<lparr>log_lh := log_lh s @ [b]\<rparr>"
    have pe: "(pins a)(b := 1) = (\<lambda>x. if x \<in> set (log_lh ?s) then 1 else 0)" unfolding R(5) by auto
    have h: "header_ok (log_start ?s) (log_size ?s) (log_lh ?s)"
      using R(3,4) f(1,2) b room False by (auto simp: header_ok_def LOGSIZE_def NBUF_def)
    have "log_rep ?s (a\<lparr>pins := (pins a)(b := 1)\<rparr>)"
      unfolding log_rep_def using 1(2) R(2,3,6,7) f(1,2,5) h pe by (intro conjI) auto
    moreover have "log_write i s = Ret ((), ?s)"
      using cap out bn False 1(1) f by (simp add: log_write_def Let_def thenK_def bindK_def)
    moreover have "log_frame s ?s" using bio_log_frame [OF 1(3)] by (simp add: log_frame_def)
    ultimately show ?thesis using False by (auto intro!: okI)
  qed
qed

lemma end_op_ok:
  assumes idle: "log_idle s a" and c: "\<not> log_committing s" "log_outstanding s = 1"
  shows "ok end_op s (\<lambda>_ s'. log_lh s' = [] \<and> log_frame (s\<lparr>log_outstanding := 0\<rparr>) s' \<and>
     (\<exists>d. bio_rep s' (idle_cache d (written a @ (if log_lh s = [] then [] else commit_writes (log_start s) (log_lh s) (content a))))))"
proof -
  note R = log_repD [OF conjunct1 [OF idle [unfolded log_idle_def]]]
  have sl: "slots a = Map.empty" using idle by (simp add: log_idle_def)
  let ?s = "s\<lparr>log_outstanding := 0, log_committing := True\<rparr>"
  have en: "end_op s = thenK commit (modK (log_committing_update (\<lambda>_. False))) ?s"
    using c by (simp add: end_op_def whenK_def)
  show ?thesis
  proof (cases "log_lh s = []")
    case True
    then have "a = idle_cache (content a) (written a)"
      using R(5) R(6) sl by (intro cache_eqI) (auto simp: fun_eq_iff)
    then have "bio_rep s (idle_cache (content a) (written a))" using R(1) by simp
    then show ?thesis
      using True c by (intro okI [of _ _ "()" "?s\<lparr>log_committing := False\<rparr>"])
        (auto simp: en commit_def thenK_def bindK_def log_frame_def)
  next
    case False
    have "ok commit ?s (\<lambda>_ s'. log_frame ?s s' \<and> log_lh s' = [] \<and>
        (\<exists>d. bio_rep s' (idle_cache d (written a @ commit_writes (log_start s) (log_lh s) (content a)))))"
      using commit_ok [of ?s a "log_size s"] R sl False by (auto simp: bio_rep_cong [of ?s s])
    then obtain s1 d where 1: "commit ?s = Ret ((), s1)" "log_frame ?s s1" "log_lh s1 = []"
        "bio_rep s1 (idle_cache d (written a @ commit_writes (log_start s) (log_lh s) (content a)))"
      by (auto elim!: okE)
    then show ?thesis
      using False c by (intro okI [of _ _ "()" "s1\<lparr>log_committing := False\<rparr>"])
        (auto simp: en thenK_def bindK_def log_frame_def)
  qed
qed

section \<open>Buffers inside a transaction\<close>

text \<open>The operations on buffers as the file system uses them, between \<open>begin_op\<close> and \<open>end_op\<close>.\<close>

lemma log_rep_frame: "log_rep s a \<Longrightarrow> bio_frame s s' \<Longrightarrow> bio_rep s' a' \<Longrightarrow> pins a' = pins a \<Longrightarrow>
    (\<And>b. b \<notin> set (log_lh s) \<Longrightarrow> slots a' b = None \<Longrightarrow> content a' b = stored a' b) \<Longrightarrow> stored a' = stored a \<Longrightarrow> log_rep s' a'"
  using bio_frame_log [of s s'] by (simp add: log_rep_def)

lemma bread_log:
  assumes rep: "log_rep s a" and b: "slots a b = None" and few: "b \<in> set (log_lh s) \<or> card (busy a) < NBUF"
  shows "ok (bread ROOTDEV b) s (\<lambda>i s'. log_rep s' (a\<lparr>slots := (slots a)(b \<mapsto> i)\<rparr>) \<and> bio_frame s s')"
proof -
  note R = log_repD [OF rep]
  have "0 < pins a b \<or> card (busy a) < NBUF" using few R(5) by auto
  then show ?thesis
    using bread_ok [OF R(1) b] R(6) by (auto elim!: ok_mono intro!: log_rep_frame [OF rep] split: if_splits)
qed

lemma buf_set_log:
  assumes rep: "log_rep s a" and i: "slots a b = Some i" and x: "length x = BSIZE"
  shows "ok (buf_set i x) s (\<lambda>_ s'. log_rep s' (a\<lparr>content := (content a)(b := x)\<rparr>) \<and> bio_frame s s')"
  using buf_set_ok [OF log_repD(1) [OF rep] i x] log_repD(6) [OF rep] i
  by (auto elim!: ok_mono intro!: log_rep_frame [OF rep] split: if_splits)

lemma brelse_log:
  assumes rep: "log_rep s a" and i: "slots a b = Some i" and c: "b \<in> set (log_lh s) \<or> content a b = stored a b"
  shows "ok (brelse i) s (\<lambda>_ s'. log_rep s' (a\<lparr>slots := (slots a)(b := None)\<rparr>) \<and> bio_frame s s')"
proof -
  note R = log_repD [OF rep]
  have "0 < pins a b \<or> content a b = stored a b" using c R(5) by auto
  then show ?thesis
    using brelse_ok [OF R(1) i] R(6) c by (auto elim!: ok_mono intro!: log_rep_frame [OF rep] split: if_splits)
qed

text \<open>Changing one block in a transaction.\<close>

definition update_logged :: "nat \<Rightarrow> (block \<Rightarrow> block) \<Rightarrow> ('a logst_scheme, unit) kmon" where
  "update_logged b f = bindK (bread ROOTDEV b) (\<lambda>i. bindK (buf_data i) (\<lambda>x.
     thenK (buf_set i (f x)) (thenK (log_write i) (brelse i))))"

definition add_block :: "nat \<Rightarrow> nat list \<Rightarrow> nat list" where
  "add_block b lh = (if b \<in> set lh then lh else lh @ [b])"

definition logged :: "nat \<Rightarrow> block \<Rightarrow> cache \<Rightarrow> cache" where
  "logged b x a = a\<lparr>content := (content a)(b := x), pins := (pins a)(b := 1)\<rparr>"

lemma logged_sel [simp]:
  "content (logged b x a) = (content a)(b := x)" "stored (logged b x a) = stored a" "slots (logged b x a) = slots a"
  "pins (logged b x a) = (pins a)(b := 1)" "written (logged b x a) = written a"
  by (simp_all add: logged_def)

lemma update_logged_ok:
  assumes rep: "log_rep s a" and b: "slots a b = None" "home (log_start s) (log_size s) b" "b < 2 ^ 32"
    and few: "b \<in> set (log_lh s) \<or> card (busy a) < NBUF" and f: "length (f (content a b)) = BSIZE"
    and out: "1 \<le> log_outstanding s" and room: "length (log_lh s) + 1 < log_size s"
  shows "ok (update_logged b f) s (\<lambda>_ s'. log_rep s' (logged b (f (content a b)) a) \<and> log_frame s s' \<and>
     log_lh s' = add_block b (log_lh s))"
proof -
  let ?x = "f (content a b)"
  obtain i s1 where 1: "bread ROOTDEV b s = Ret (i, s1)" "log_rep s1 (a\<lparr>slots := (slots a)(b \<mapsto> i)\<rparr>)" "bio_frame s s1"
    using bread_log [OF rep b(1) few] by (auto elim!: okE)
  note f1 = bio_frame_log [OF 1(3)]
  have x: "buf_data i s1 = Ret (content a b, s1)" using buf_data_ok [OF log_repD(1) [OF 1(2)], of b i] by simp
  obtain s2 where 2: "buf_set i ?x s1 = Ret ((), s2)" "bio_frame s1 s2"
      "log_rep s2 (a\<lparr>slots := (slots a)(b \<mapsto> i), content := (content a)(b := ?x)\<rparr>)"
    using buf_set_log [OF 1(2) _ f, of b i] by (auto elim!: okE)
  note f2 = bio_frame_log [OF 2(2)]
  obtain s3 where 3: "log_write i s2 = Ret ((), s3)" "log_frame s2 s3" "log_lh s3 = add_block b (log_lh s)"
      "log_rep s3 (a\<lparr>slots := (slots a)(b \<mapsto> i), content := (content a)(b := ?x), pins := (pins a)(b := 1)\<rparr>)"
    using log_write_ok [OF 2(3), of b i] b out room f1 f2 by (auto simp: add_block_def elim!: okE)
  have "b \<in> set (log_lh s3)" using 3(3) by (simp add: add_block_def)
  then obtain s4 where 4: "brelse i s3 = Ret ((), s4)" "bio_frame s3 s4"
      "log_rep s4 (a\<lparr>slots := (slots a)(b \<mapsto> i), content := (content a)(b := ?x), pins := (pins a)(b := 1), slots := (slots a)(b := None)\<rparr>)"
    using brelse_log [OF 3(4), of b i] by (auto elim!: okE)
  have e: "a\<lparr>slots := (slots a)(b \<mapsto> i), content := (content a)(b := ?x), pins := (pins a)(b := 1), slots := (slots a)(b := None)\<rparr>
      = logged b ?x a"
    using b(1) by (intro cache_eqI) auto
  have "log_frame s s4"
    using bio_log_frame [OF 1(3)] bio_log_frame [OF 2(2)] 3(2) bio_log_frame [OF 4(2)] by (simp add: log_frame_def)
  moreover have "log_lh s4 = add_block b (log_lh s)" using bio_frame_log(6) [OF 4(2)] 3(3) by simp
  moreover have "update_logged b f s = Ret ((), s4)"
    using 1(1) x 2(1) 3(1) 4(1) by (simp add: update_logged_def bindK_def thenK_def)
  ultimately show ?thesis using 4(3) unfolding e by (auto intro: okI)
qed

section \<open>Properties\<close>

text \<open>The contents of block \<open>b\<close> as the file system sees them: the cached copy, or the disk.\<close>

definition view :: "'a bio_scheme \<Rightarrow> nat \<Rightarrow> block" where
  "view s b = (case find (\<lambda>i. b_dev (bufs s i) = ROOTDEV \<and> b_blockno (bufs s i) = b \<and> b_valid (bufs s i)) [0..<NBUF] of
     Some i \<Rightarrow> b_data (bufs s i) | None \<Rightarrow> disk s b)"

lemma view_content:
  assumes rep: "bio_rep s a"
  shows "view s b = content a b"
proof -
  note R = bio_repD [OF rep]
  let ?P = "\<lambda>i. b_dev (bufs s i) = ROOTDEV \<and> b_blockno (bufs s i) = b \<and> b_valid (bufs s i)"
  show ?thesis
  proof (cases "find ?P [0..<NBUF]")
    case (Some i)
    then have "i < NBUF" "?P i" by (auto dest!: find_SomeD)
    then show ?thesis using R(3) [of i] Some by (simp add: view_def buf_ok_def)
  next
    case None
    then have nv: "\<And>i. cached s b i \<Longrightarrow> \<not> b_valid (bufs s i)" by (auto simp: find_None_iff cached_def)
    have "content a b = disk s b"
    proof (cases "\<exists>i. cached s b i")
      case True
      then obtain i where "cached s b i" by blast
      then show ?thesis using nv [of i] R(3) [of i] R(8) by (auto simp: cached_def buf_ok_def)
    qed (use R(6,8) in simp)
    then show ?thesis using None by (simp add: view_def)
  qed
qed

text \<open>A machine that has lost its memory and starts on disk \<open>d\<close>, and its recovery.\<close>

definition dead_memory :: "(nat \<Rightarrow> block) \<Rightarrow> logst" where
  "dead_memory d = \<lparr>running_pid = 1, bufs = \<lambda>_. zero_buf, links = \<lambda>_. \<lparr>nxt = 0, prv = 0\<rparr>, disk = d, writes = [],
     log_start = 0, log_size = 0, log_outstanding = 0, log_committing = False, log_dev = 0, log_lh = []\<rparr>"

definition reboot :: "(nat \<Rightarrow> block) \<Rightarrow> logst" where
  "reboot d = binit (dead_memory d)"

definition recover :: "nat \<Rightarrow> nat \<Rightarrow> (nat \<Rightarrow> block) \<Rightarrow> logst res" where
  "recover st sz d = bindR (initlog ROOTDEV st sz (reboot d)) (\<lambda>(_, t). Ret t)"

text \<open>The disk after \<open>k\<close> of the writes between two states, and after \<open>k\<close> of the writes of a recovery.\<close>

definition crash_disk :: "'a bio_scheme \<Rightarrow> 'a bio_scheme \<Rightarrow> nat \<Rightarrow> nat \<Rightarrow> block" where
  "crash_disk s s' k = apply_writes (take k (drop (length (writes s)) (writes s'))) (disk s)"

definition crash_in_recovery :: "nat \<Rightarrow> nat \<Rightarrow> nat \<Rightarrow> (nat \<Rightarrow> block) \<Rightarrow> (nat \<Rightarrow> block)" where
  "crash_in_recovery st sz k d = (case recover st sz d of Inl _ \<Rightarrow> d | Inr t \<Rightarrow> crash_disk (reboot d) t k)"

lemma reboot_sel [simp]: "disk (reboot d) = d" "writes (reboot d) = []"
  by (simp_all add: reboot_def dead_memory_def binit_sel)

lemma reboot_log: "log_lh (reboot d) = []" "\<not> log_committing (reboot d)" "log_outstanding (reboot d) = 0"
  using bio_frame_log [OF binit_frame [of "dead_memory d"]] by (simp_all add: reboot_def dead_memory_def)

lemma reboot_rep: "\<forall>b. length (d b) = BSIZE \<Longrightarrow> bio_rep (reboot d) (idle_cache d [])"
  using binit_ok [of "dead_memory d"] by (simp add: reboot_def dead_memory_def)

lemma recover_disk:
  assumes d: "disk_ok st sz d lh"
  shows "\<exists>t. recover st sz d = Ret t \<and> writes t = recovery_writes st lh d \<and>
     disk t = apply_writes (recovery_writes st lh d) d"
proof -
  note D = d [unfolded disk_ok_def]
  obtain t where t: "initlog ROOTDEV st sz (reboot d) = Ret ((), t)"
      "bio_rep t (idle_cache (apply_writes (recovery_writes st lh d) d) (recovery_writes st lh d))"
    using initlog_ok [OF reboot_rep, of d st lh sz] D by (auto elim!: okE)
  then show ?thesis using bio_repD(8,9) [OF t(2)] by (simp add: recover_def)
qed

lemma recover_logical:
  assumes "disk_ok st sz d lh"
  shows "\<exists>t. recover st sz d = Ret t \<and> (\<forall>b. home st sz b \<longrightarrow> disk t b = logical st lh d b)"
proof -
  have "\<not> home st sz st" using log_area [of st sz lh 0] assms by (simp add: disk_ok_def)
  then show ?thesis using recover_disk [OF assms] by (auto simp: recovery_writes_def logical_def)
qed

lemma crashes_in_recovery:
  "disk_ok st sz d lh \<Longrightarrow> \<exists>lh'. disk_ok st sz (fold (crash_in_recovery st sz) ks d) lh' \<and>
     (\<forall>b. home st sz b \<longrightarrow> logical st lh' (fold (crash_in_recovery st sz) ks d) b = logical st lh d b)"
proof (induction ks arbitrary: d lh)
  case (Cons k ks)
  have "crash_in_recovery st sz k d = apply_writes (take k (recovery_writes st lh d)) d"
    using recover_disk [OF Cons.prems] by (auto simp: crash_in_recovery_def crash_disk_def)
  then obtain lh1 where 1: "disk_ok st sz (crash_in_recovery st sz k d) lh1"
      "\<forall>b. home st sz b \<longrightarrow> logical st lh1 (crash_in_recovery st sz k d) b = logical st lh d b"
    using crash_recovery [OF Cons.prems] by blast
  then show ?case using Cons.IH [OF 1(1)] by auto
qed auto

text \<open>
  C3. Transactions are atomic with respect to crashes. When the last file system call of a transaction
  ends, \<open>end_op\<close> commits without a fault, and whichever number \<open>k\<close> of its disk writes reach the disk
  before a crash, and however often the machine crashes again during recovery (after \<open>k1\<close>, \<open>k2\<close>, ... of
  the writes of each recovery), a recovery that runs to its end gives either every block as it was on
  the disk before the commit or every block as the transaction left it in memory.
\<close>

theorem end_op_crash_atomic:
  assumes "log_idle s a" "\<not> log_committing s" "log_outstanding s = 1"
  shows "\<exists>s'. end_op s = Ret ((), s') \<and>
    (\<forall>k ks. \<exists>t. recover (log_start s) (log_size s)
         (fold (crash_in_recovery (log_start s) (log_size s)) ks (crash_disk s s' k)) = Ret t \<and>
       ((\<forall>b. home (log_start s) (log_size s) b \<longrightarrow> disk t b = disk s b) \<or>
        (\<forall>b. home (log_start s) (log_size s) b \<longrightarrow> disk t b = view s b)))"
proof -
  let ?st = "log_start s" and ?sz = "log_size s" and ?lh = "log_lh s" and ?c = "content a"
  note R = log_repD [OF conjunct1 [OF assms(1) [unfolded log_idle_def]]]
  note B = bio_repD [OF R(1)]
  have sl: "slots a = Map.empty" using assms(1) by (simp add: log_idle_def)
  have d: "disk_ok ?st ?sz (disk s) []" using B(7,8) R(7) header_ok_Nil [OF R(4)] by (simp add: disk_ok_def)
  have off: "\<forall>b. b \<notin> set ?lh \<longrightarrow> ?c b = disk s b" using R(6) B(8) sl by simp
  have view: "view s b = ?c b" for b by (rule view_content [OF R(1)])
  let ?ws = "if ?lh = [] then [] else commit_writes ?st ?lh ?c"
  obtain s' d' where s': "end_op s = Ret ((), s')" "bio_rep s' (idle_cache d' (written a @ ?ws))"
    using end_op_ok [OF assms] by (auto elim!: okE)
  have "\<exists>t. recover ?st ?sz (fold (crash_in_recovery ?st ?sz) ks (crash_disk s s' k)) = Ret t \<and>
      ((\<forall>b. home ?st ?sz b \<longrightarrow> disk t b = disk s b) \<or> (\<forall>b. home ?st ?sz b \<longrightarrow> disk t b = view s b))" for k ks
  proof -
    have cd: "crash_disk s s' k = apply_writes (take k ?ws) (disk s)"
      using bio_repD(9) [OF s'(2), symmetric] B(9) by (simp add: crash_disk_def)
    have "\<exists>lh'. disk_ok ?st ?sz (crash_disk s s' k) lh' \<and>
        ((\<forall>b. home ?st ?sz b \<longrightarrow> logical ?st lh' (crash_disk s s' k) b = disk s b) \<or>
         (\<forall>b. home ?st ?sz b \<longrightarrow> logical ?st lh' (crash_disk s s' k) b = ?c b))"
    proof (cases "?lh = []")
      case True
      then show ?thesis using d cd by (intro exI [of _ "[]"]) simp
    next
      case False
      then show ?thesis using crash_commit [OF d R(4) _ off, of _ k] content_length [OF R(1)] cd by simp
    qed
    then obtain lh1 where 1: "disk_ok ?st ?sz (crash_disk s s' k) lh1"
        "(\<forall>b. home ?st ?sz b \<longrightarrow> logical ?st lh1 (crash_disk s s' k) b = disk s b) \<or>
         (\<forall>b. home ?st ?sz b \<longrightarrow> logical ?st lh1 (crash_disk s s' k) b = ?c b)" by blast
    let ?d = "fold (crash_in_recovery ?st ?sz) ks (crash_disk s s' k)"
    obtain lh2 where 2: "disk_ok ?st ?sz ?d lh2"
        "\<forall>b. home ?st ?sz b \<longrightarrow> logical ?st lh2 ?d b = logical ?st lh1 (crash_disk s s' k) b"
      using crashes_in_recovery [OF 1(1)] by blast
    obtain t where "recover ?st ?sz ?d = Ret t" "\<forall>b. home ?st ?sz b \<longrightarrow> disk t b = logical ?st lh2 ?d b"
      using recover_logical [OF 2(1)] by blast
    then show ?thesis using 1(2) 2(2) view by auto
  qed
  then show ?thesis using s'(1) by blast
qed

text \<open>A transaction that changes block 100 of a fresh disk.\<close>

lemma sample_transaction:
  "\<exists>(s :: logst) a. log_idle s a \<and> \<not> log_committing s \<and> log_outstanding s = 1 \<and> log_lh s = [100] \<and>
     log_start s = 2 \<and> log_size s = 30 \<and> view s 100 = replicate BSIZE 7 \<and> disk s 100 = replicate BSIZE 0"
proof -
  let ?d = "\<lambda>_ :: nat. replicate BSIZE 0 :: block"
  let ?s = "(reboot ?d)\<lparr>log_start := 2, log_size := 30, log_dev := ROOTDEV, log_outstanding := 1\<rparr>"
  let ?a = "idle_cache ?d []"
  have B: "bio_rep (reboot ?d) ?a" by (rule reboot_rep) simp
  note lh = reboot_log [of ?d]
  have z: "load32 (replicate BSIZE 0) 0 = 0" by (simp add: load32_def BSIZE_def)
  have "log_rep ?s ?a"
    using B lh z by (simp add: log_rep_def bio_rep_cong [of ?s "reboot ?d"] header_ok_def LOGSIZE_def MAXOPBLOCKS_def NBUF_def
        get_header_def idle_cache_def)
  moreover have "home 2 30 (100 :: nat)" by (simp add: home_def)
  ultimately obtain s where s: "log_rep s (logged 100 (replicate BSIZE 7) ?a)" "log_frame ?s s" "log_lh s = [100]"
    using update_logged_ok [of ?s ?a 100 "\<lambda>_. replicate BSIZE 7"] lh
    by (auto simp: NBUF_def MAXOPBLOCKS_def add_block_def elim!: okE)
  note R = log_repD [OF s(1)]
  have "view s 100 = replicate BSIZE 7" using view_content [OF R(1)] by simp
  moreover have "disk s 100 = replicate BSIZE 0" using bio_repD(8) [OF R(1)] by (metis idle_cache_simps(2) logged_sel(2))
  ultimately show ?thesis
    using s lh by (intro exI [of _ s] exI [of _ "logged 100 (replicate BSIZE 7) ?a"]) (auto simp: log_idle_def log_frame_def)
qed

theorem end_op_crash_atomic_witness:
  "\<exists>(s :: logst) s'. log_lh s = [100] \<and> view s 100 = replicate BSIZE 7 \<and> disk s 100 = replicate BSIZE 0 \<and> end_op s = Ret ((), s') \<and>
     (\<forall>k ks. \<exists>t. recover 2 30 (fold (crash_in_recovery 2 30) ks (crash_disk s s' k)) = Ret t \<and>
        (disk t 100 = disk s 100 \<or> disk t 100 = view s 100))"
proof -
  obtain s :: logst and a where s: "log_idle s a" "\<not> log_committing s" "log_outstanding s = 1" "log_lh s = [100]"
      "log_start s = 2" "log_size s = 30" "view s 100 = replicate BSIZE 7" "disk s 100 = replicate BSIZE 0"
    using sample_transaction by blast
  obtain s' where s': "end_op s = Ret ((), s')"
      "\<forall>k ks. \<exists>t. recover 2 30 (fold (crash_in_recovery 2 30) ks (crash_disk s s' k)) = Ret t \<and>
         ((\<forall>b. home 2 30 b \<longrightarrow> disk t b = disk s b) \<or> (\<forall>b. home 2 30 b \<longrightarrow> disk t b = view s b))"
    using end_op_crash_atomic [OF s(1-3)] unfolding s(5,6) by blast
  have h: "home 2 30 (100 :: nat)" by (simp add: home_def)
  have "\<forall>k ks. \<exists>t. recover 2 30 (fold (crash_in_recovery 2 30) ks (crash_disk s s' k)) = Ret t \<and>
        (disk t 100 = disk s 100 \<or> disk t 100 = view s 100)"
    using s'(2) h by meson
  then show ?thesis using s(4,7,8) s'(1) by blast
qed



end
