(* ===== verification/Kstring.thy ===== *)
theory Kstring
  imports Xv6_Prelude
begin

text \<open>
  The memory and string routines of \<^verbatim>\<open>src/kernel/lib/string.c\<close>, over a byte store \<open>mem\<close>. The source
  and the destination are addresses of the same store, so overlapping arguments are covered. A
  length is the number of bytes the loop counts: the \<open>uint\<close> or the non-negative \<open>int\<close> of the
  source.
\<close>

section \<open>Definitions\<close>

type_synonym mem = "nat \<Rightarrow> u8"

definition memset :: "mem \<Rightarrow> nat \<Rightarrow> u32 \<Rightarrow> nat \<Rightarrow> mem" where
  "memset m dst c n = fold (\<lambda>i m. m(dst + i := ucast c)) [0..<n] m"

fun memcmp :: "mem \<Rightarrow> nat \<Rightarrow> nat \<Rightarrow> nat \<Rightarrow> int" where
  "memcmp m s1 s2 0 = 0"
| "memcmp m s1 s2 (Suc n) =
     (if m s1 \<noteq> m s2 then uint (m s1) - uint (m s2)
      else memcmp m (s1 + 1) (s2 + 1) n)"

primrec copy_backward :: "nat \<Rightarrow> nat \<Rightarrow> nat \<Rightarrow> mem \<Rightarrow> mem" where
  "copy_backward d s 0 m = m"
| "copy_backward d s (Suc n) m = copy_backward d s n (m(d + n := m (s + n)))"

fun copy_forward :: "nat \<Rightarrow> nat \<Rightarrow> nat \<Rightarrow> mem \<Rightarrow> mem" where
  "copy_forward d s 0 m = m"
| "copy_forward d s (Suc n) m = copy_forward (d + 1) (s + 1) n (m(d := m s))"

definition memmove :: "mem \<Rightarrow> nat \<Rightarrow> nat \<Rightarrow> nat \<Rightarrow> mem" where
  "memmove m dst src n =
     (if n = 0 then m
      else if src < dst \<and> src + n > dst then copy_backward dst src n m
      else copy_forward dst src n m)"

definition memcpy :: "mem \<Rightarrow> nat \<Rightarrow> nat \<Rightarrow> nat \<Rightarrow> mem" where
  "memcpy m dst src n = memmove m dst src n"

fun strncmp :: "mem \<Rightarrow> nat \<Rightarrow> nat \<Rightarrow> nat \<Rightarrow> int" where
  "strncmp m p q 0 = 0"
| "strncmp m p q (Suc n) =
     (if m p \<noteq> 0 \<and> m p = m q then strncmp m (p + 1) (q + 1) n
      else uint (m p) - uint (m q))"

text \<open>
  The copying loop of \<open>strncpy\<close> and \<open>safestrcpy\<close>: it ends after \<open>n\<close> bytes or after it has copied a
  zero byte, and gives the store, the next destination address and the bytes left.
\<close>

fun copy_string :: "nat \<Rightarrow> nat \<Rightarrow> nat \<Rightarrow> mem \<Rightarrow> mem \<times> nat \<times> nat" where
  "copy_string s t 0 m = (m, s, 0)"
| "copy_string s t (Suc n) m =
     (let m' = m(s := m t) in
      if m t \<noteq> 0 then copy_string (s + 1) (t + 1) n m' else (m', s + 1, n))"

fun zero_fill :: "nat \<Rightarrow> nat \<Rightarrow> mem \<Rightarrow> mem" where
  "zero_fill s 0 m = m"
| "zero_fill s (Suc n) m = zero_fill (s + 1) n (m(s := 0))"

definition strncpy :: "mem \<Rightarrow> nat \<Rightarrow> nat \<Rightarrow> int \<Rightarrow> mem" where
  "strncpy m s t n =
     (case copy_string s t (nat n) m of (m', s', n') \<Rightarrow> zero_fill s' n' m')"

definition safestrcpy :: "mem \<Rightarrow> nat \<Rightarrow> nat \<Rightarrow> int \<Rightarrow> mem" where
  "safestrcpy m s t n =
     (if n \<le> 0 then m
      else case copy_string s t (nat (n - 1)) m of (m', s', n') \<Rightarrow> m'(s' := 0))"

partial_function (option) strlen_loop :: "mem \<Rightarrow> nat \<Rightarrow> nat \<Rightarrow> nat option" where
  "strlen_loop m s n = (if m (s + n) \<noteq> 0 then strlen_loop m s (n + 1) else Some n)"

definition strlen :: "mem \<Rightarrow> nat \<Rightarrow> nat option" where
  "strlen m s = strlen_loop m s 0"

section \<open>Copying and setting bytes\<close>

lemma memset_eq: "memset m dst c n = (\<lambda>a. if dst \<le> a \<and> a < dst + n then ucast c else m a)"
  unfolding memset_def
proof (induction n)
  case (Suc n)
  then show ?case by (auto simp: fun_eq_iff)
qed (auto simp: fun_eq_iff)

lemma copy_backward_eq:
  "s \<le> d \<Longrightarrow> copy_backward d s n m = (\<lambda>a. if d \<le> a \<and> a < d + n then m (s + (a - d)) else m a)"
proof (induction n arbitrary: m)
  case (Suc n)
  then show ?case by (auto simp: fun_eq_iff less_Suc_eq)
qed (auto simp: fun_eq_iff)

lemma copy_forward_eq:
  "d \<le> s \<or> s + n \<le> d \<Longrightarrow>
   copy_forward d s n m = (\<lambda>a. if d \<le> a \<and> a < d + n then m (s + (a - d)) else m a)"
proof (induction d s n m rule: copy_forward.induct)
  case (2 d s n m)
  have IH: "copy_forward (d + 1) (s + 1) n (m(d := m s)) =
      (\<lambda>a. if d + 1 \<le> a \<and> a < d + 1 + n then (m(d := m s)) (s + 1 + (a - (d + 1))) else (m(d := m s)) a)"
    using 2(2) by (intro 2(1)) auto
  show ?case
  proof
    fix a
    have "d + 1 \<le> a \<Longrightarrow> s + 1 + (a - (d + 1)) = s + (a - d)" by simp
    moreover have "d + 1 \<le> a \<Longrightarrow> a < d + 1 + n \<Longrightarrow> s + (a - d) \<noteq> d" using 2(2) by auto
    ultimately show "copy_forward d s (Suc n) m a = (if d \<le> a \<and> a < d + Suc n then m (s + (a - d)) else m a)"
      unfolding copy_forward.simps IH by (cases "a = d") auto
  qed
qed (auto simp: fun_eq_iff)

text \<open>
  C26. \<open>memmove\<close> copies correctly whatever the overlap of source and destination: afterwards the
  destination holds the bytes the source held before, and no other byte has changed.
\<close>

theorem memmove_correct:
  "memmove m dst src n = (\<lambda>a. if dst \<le> a \<and> a < dst + n then m (src + (a - dst)) else m a)"
  using copy_backward_eq [of src dst n m] copy_forward_eq [of dst src n m]
  by (auto simp: memmove_def)

section \<open>Comparing\<close>

lemma memcmp_zero: "memcmp m p q n = 0 \<longleftrightarrow> (\<forall>i < n. m (p + i) = m (q + i))"
proof (induction n arbitrary: p q)
  case (Suc n)
  have "(\<forall>i < Suc n. m (p + i) = m (q + i)) \<longleftrightarrow> m p = m q \<and> (\<forall>i < n. m (p + 1 + i) = m (q + 1 + i))"
    by (auto simp: less_Suc_eq_0_disj)
  then show ?case using Suc by (auto simp: word_uint_eq_iff)
qed simp

lemma strncmp_zero:
  "strncmp m p q n = 0 \<longleftrightarrow>
     (\<forall>i < n. (\<forall>j < i. m (p + j) \<noteq> 0) \<longrightarrow> m (p + i) = m (q + i))"
proof (induction m p q n rule: strncmp.induct)
  case (2 m p q n)
  have split: "(\<forall>i < Suc n. (\<forall>j < i. m (p + j) \<noteq> 0) \<longrightarrow> m (p + i) = m (q + i)) \<longleftrightarrow>
      m p = m q \<and> (m p \<noteq> 0 \<longrightarrow> (\<forall>i < n. (\<forall>j < i. m (p + 1 + j) \<noteq> 0) \<longrightarrow> m (p + 1 + i) = m (q + 1 + i)))"
    unfolding All_less_Suc2 by (auto simp: All_less_Suc2)
  show ?case unfolding split using 2 by (auto simp: word_uint_eq_iff)
qed simp

section \<open>Copying strings\<close>

lemma copy_string_eq:
  assumes "copy_string s t n m = (m', s', n')" "s + n \<le> t \<or> t + n \<le> s"
  shows "s \<le> s' \<and> s' + n' = s + n \<and>
    m' = (\<lambda>a. if s \<le> a \<and> a < s' then m (t + (a - s)) else m a) \<and>
    (\<forall>j. s + j + 1 < s' \<longrightarrow> m (t + j) \<noteq> 0) \<and> (n' > 0 \<longrightarrow> s < s' \<and> m (t + (s' - s - 1)) = 0)"
  using assms
proof (induction s t n m rule: copy_string.induct)
  case (2 s t n m)
  show ?case
  proof (cases "m t = 0")
    case True
    then have e: "m' = m(s := 0)" "s' = Suc s" "n' = n" using 2(2) by (auto simp: Let_def)
    show ?thesis unfolding e using True by (auto simp: fun_eq_iff less_Suc_eq)
  next
    case False
    let ?m = "m(s := m t)"
    have c': "copy_string (s + 1) (t + 1) n ?m = (m', s', n')" using 2(2) False by (simp add: Let_def)
    have d: "s + 1 + n \<le> t + 1 \<or> t + 1 + n \<le> s + 1" using 2(3) by auto
    have ih: "s + 1 \<le> s'" "s' + n' = s + 1 + n"
      "m' = (\<lambda>a. if s + 1 \<le> a \<and> a < s' then ?m (t + 1 + (a - (s + 1))) else ?m a)"
      "\<forall>j. s + 1 + j + 1 < s' \<longrightarrow> ?m (t + 1 + j) \<noteq> 0"
      "n' > 0 \<longrightarrow> s + 1 < s' \<and> ?m (t + 1 + (s' - (s + 1) - 1)) = 0"
      using 2(1) [OF refl False c' d] by blast+
    have far: "t + 1 + i \<noteq> s" if "i < n" for i using 2(3) that by auto
    have m'_eq: "m' = (\<lambda>a. if s \<le> a \<and> a < s' then m (t + (a - s)) else m a)"
    proof
      fix a
      consider "s + 1 \<le> a \<and> a < s'" | "a = s" | "\<not> (s \<le> a \<and> a < s')" by linarith
      then show "m' a = (if s \<le> a \<and> a < s' then m (t + (a - s)) else m a)"
      proof cases
        case 1
        then have "t + 1 + (a - (s + 1)) = t + (a - s)" "a - (s + 1) < n" using ih(1,2) by auto
        then show ?thesis unfolding ih(3) using 1 far [of "a - (s + 1)"] by simp
      qed (use ih(1) in \<open>auto simp: ih(3)\<close>)
    qed
    have nz: "\<forall>j. s + j + 1 < s' \<longrightarrow> m (t + j) \<noteq> 0"
    proof (intro allI impI)
      fix j assume j: "s + j + 1 < s'"
      show "m (t + j) \<noteq> 0"
      proof (cases j)
        case (Suc i)
        then show ?thesis using ih(4) [rule_format, of i] far [of i] ih(2) j by simp
      qed (use False in simp)
    qed
    have "n' > 0 \<longrightarrow> s < s' \<and> m (t + (s' - s - 1)) = 0"
    proof
      assume "n' > 0"
      then have lt: "s + 1 < s'" "?m (t + 1 + (s' - (s + 1) - 1)) = 0" "s' - (s + 1) - 1 < n"
        using ih(2,5) by auto
      moreover have "t + 1 + (s' - (s + 1) - 1) = t + (s' - s - 1)" using lt(1) by simp
      ultimately show "s < s' \<and> m (t + (s' - s - 1)) = 0" using far [of "s' - (s + 1) - 1"] by simp
    qed
    then show ?thesis using m'_eq nz ih(1,2) by auto
  qed
qed (auto simp: fun_eq_iff)

lemma zero_fill_eq: "zero_fill s n m = (\<lambda>a. if s \<le> a \<and> a < s + n then 0 else m a)"
  by (induction n arbitrary: s m) (auto simp: fun_eq_iff)

lemma strncpy_eq:
  assumes "s + nat n \<le> t \<or> t + nat n \<le> s"
  shows "strncpy m s t n =
    (\<lambda>a. if s \<le> a \<and> a < s + nat n
         then if \<forall>j < a - s. m (t + j) \<noteq> 0 then m (t + (a - s)) else 0
         else m a)"
proof -
  obtain m' s' n' where c: "copy_string s t (nat n) m = (m', s', n')" by (metis prod_cases3)
  note e = copy_string_eq [OF c assms]
  show ?thesis
  proof
    fix a
    consider "\<not> (s \<le> a \<and> a < s + nat n)" | "s \<le> a" "a < s'" | "s' \<le> a" "a < s + nat n" using e by linarith
    then show "strncpy m s t n a = (if s \<le> a \<and> a < s + nat n
         then if \<forall>j < a - s. m (t + j) \<noteq> 0 then m (t + (a - s)) else 0 else m a)"
    proof cases
      case 1
      then show ?thesis using e by (auto simp: strncpy_def c zero_fill_eq)
    next
      case 2
      then have "\<forall>j < a - s. m (t + j) \<noteq> 0" using e by auto
      then show ?thesis using 2 e by (simp add: strncpy_def c zero_fill_eq)
    next
      case 3
      then have "n' > 0" "s' - s - 1 < a - s" using e by auto
      then have "\<not> (\<forall>j < a - s. m (t + j) \<noteq> 0)" using e by blast
      then show ?thesis using 3 e by (auto simp: strncpy_def c zero_fill_eq)
    qed
  qed
qed

text \<open>
  C27. \<open>safestrcpy\<close> on arguments that do not overlap: it writes only the \<open>n\<close> bytes of the destination,
  the result holds a zero byte among them, and up to the end of the copied string the bytes are
  those of the source.
\<close>

theorem safestrcpy_terminates:
  assumes "0 < n" "s + nat n \<le> t \<or> t + nat n \<le> s"
  shows "\<exists>i < nat n. safestrcpy m s t n (s + i) = 0 \<and>
    (\<forall>j < i. safestrcpy m s t n (s + j) = m (t + j) \<and> m (t + j) \<noteq> 0) \<and>
    (m (t + i) = 0 \<or> Suc i = nat n) \<and>
    (\<forall>a. a < s \<or> s + nat n \<le> a \<longrightarrow> safestrcpy m s t n a = m a)"
proof -
  obtain m' s' n' where c: "copy_string s t (nat (n - 1)) m = (m', s', n')" by (metis prod_cases3)
  have "s + nat (n - 1) \<le> t \<or> t + nat (n - 1) \<le> s" using assms by linarith
  note e = copy_string_eq [OF c this]
  have n: "nat n = Suc (nat (n - 1))" using assms(1) by simp
  have r: "safestrcpy m s t n = m'(s' := 0)" using assms(1) by (simp add: safestrcpy_def c)
  show ?thesis
  proof (cases "s < s' \<and> m (t + (s' - s - 1)) = 0")
    case True
    then obtain l where l: "s' = Suc (s + l)" by (auto simp: less_iff_Suc_add)
    have m': "m' = (\<lambda>a. if s \<le> a \<and> a < s' then m (t + (a - s)) else m a)" using e by blast
    have z: "m (t + l) = 0" using True l by simp
    have "safestrcpy m s t n (s + j) = m (t + j) \<and> m (t + j) \<noteq> 0" if "j < l" for j
      using that e l by (auto simp: r m')
    moreover have "safestrcpy m s t n (s + l) = 0" using z by (simp add: r m' l)
    moreover have "l < nat n" using e n l by auto
    moreover have "\<forall>a. a < s \<or> s + nat n \<le> a \<longrightarrow> safestrcpy m s t n a = m a"
      using e n l by (auto simp: r m')
    ultimately show ?thesis using z by blast
  next
    case False
    then have "n' = 0" "s' = s + nat (n - 1)" using e by auto
    moreover have "m (t + j) \<noteq> 0" if "j < s' - s" for j
    proof (cases "j = s' - s - 1")
      case True
      then show ?thesis using False that by auto
    next
      case False
      then show ?thesis using e that by auto
    qed
    ultimately show ?thesis using e n by (intro exI [of _ "s' - s"]) (auto simp: r)
  qed
qed

theorem safestrcpy_terminates_witness:
  "\<exists>i < 4. safestrcpy (\<lambda>a. if 100 \<le> a \<and> a < 103 then 97 else 0) 0 100 4 (0 + i) = 0"
  using safestrcpy_terminates [of 4 0 100 "\<lambda>a. if 100 \<le> a \<and> a < 103 then 97 else 0"] by auto

section \<open>The length of a string\<close>

lemma strlen_loop_eq:
  "m (s + (n + k)) = 0 \<Longrightarrow> \<forall>j < k. m (s + (n + j)) \<noteq> 0 \<Longrightarrow> strlen_loop m s n = Some (n + k)"
proof (induction k arbitrary: n)
  case (Suc k)
  have "m (s + n) \<noteq> 0" using Suc.prems(2) by (metis add_0_right zero_less_Suc)
  moreover have "\<forall>j < k. m (s + (n + 1 + j)) \<noteq> 0" using Suc.prems(2) by (metis Suc_less_eq add.assoc plus_1_eq_Suc)
  ultimately show ?case using Suc.IH [of "n + 1"] Suc.prems(1) by (subst strlen_loop.simps) simp
qed (simp add: strlen_loop.simps)

lemma strlen_eq:
  assumes "m (s + k) = 0" "\<forall>j < k. m (s + j) \<noteq> 0"
  shows "strlen m s = Some k"
  using strlen_loop_eq [of m s 0 k] assms by (simp add: strlen_def)

end
