(* ===== verification/Fs.thy ===== *)
theory Fs
  imports Log Kstring
begin

text \<open>
  The file system (\<^verbatim>\<open>src/kernel/file/fs.c\<close>, \<^verbatim>\<open>fs.h\<close>): block allocator, inodes, file contents, directories and
  path names, on top of the log. An inode pointer is the index of its entry in \<open>itable\<close>; where the
  code tests for null the type is \<open>nat option\<close>.

  \<open>readi\<close> and \<open>writei\<close> take the copy routine as an argument, because \<open>either_copyout\<close> and
  \<open>either_copyin\<close> belong to the process layer: \<open>cp dst bytes m\<close> copies to address \<open>dst\<close> of the memory \<open>m\<close>
  and gives the result of the C function with the new memory; \<open>cin src n\<close> gives the bytes copied
  before the call returned and its result.
\<close>

section \<open>On-disk structures\<close>

definition ROOTINO :: nat where "ROOTINO = 1"
definition FSMAGIC :: nat where "FSMAGIC = 0x10203040"
definition NDIRECT :: nat where "NDIRECT = 12"
definition NINDIRECT :: nat where "NINDIRECT = BSIZE div 4"
definition MAXFILE :: nat where "MAXFILE = NDIRECT + NINDIRECT"
definition IPB :: nat where "IPB = BSIZE div 64"
definition BPB :: nat where "BPB = BSIZE * 8"
definition DIRSIZ :: nat where "DIRSIZ = 14"
definition NINODE :: nat where "NINODE = 50"
definition T_DIR :: u16 where "T_DIR = 1"
definition T_FILE :: u16 where "T_FILE = 2"
definition T_DEVICE :: u16 where "T_DEVICE = 3"

record superblock =
  sb_magic :: nat
  sb_size :: nat
  sb_nblocks :: nat
  sb_ninodes :: nat
  sb_nlog :: nat
  sb_logstart :: nat
  sb_inodestart :: nat
  sb_bmapstart :: nat

definition IBLOCK :: "nat \<Rightarrow> superblock \<Rightarrow> nat" where
  "IBLOCK i sb = i div IPB + sb_inodestart sb"

definition BBLOCK :: "nat \<Rightarrow> superblock \<Rightarrow> nat" where
  "BBLOCK b sb = b div BPB + sb_bmapstart sb"

text \<open>\<open>struct dinode\<close>: four 16-bit fields, the size and 13 block addresses in 64 bytes.\<close>

record dinode =
  d_type :: u16
  d_major :: u16
  d_minor :: u16
  d_nlink :: u16
  d_size :: u32
  d_addrs :: "nat list"

definition get_dinode :: "block \<Rightarrow> nat \<Rightarrow> dinode" where
  "get_dinode x k =
     \<lparr>d_type = load16 x (64 * k), d_major = load16 x (64 * k + 2), d_minor = load16 x (64 * k + 4),
      d_nlink = load16 x (64 * k + 6), d_size = load32 x (64 * k + 8),
      d_addrs = map (\<lambda>i. unat (load32 x (64 * k + 12 + 4 * i))) [0..<NDIRECT + 1]\<rparr>"

definition put_addrs :: "nat \<Rightarrow> nat list \<Rightarrow> block \<Rightarrow> block" where
  "put_addrs p as x = fold (\<lambda>i x. store32 x (p + 4 * i) (of_nat (as ! i))) [0..<length as] x"

definition put_dinode :: "block \<Rightarrow> nat \<Rightarrow> dinode \<Rightarrow> block" where
  "put_dinode x k d =
     (let x1 = store16 x (64 * k) (d_type d); x2 = store16 x1 (64 * k + 2) (d_major d);
          x3 = store16 x2 (64 * k + 4) (d_minor d); x4 = store16 x3 (64 * k + 6) (d_nlink d);
          x5 = store32 x4 (64 * k + 8) (d_size d)
      in put_addrs (64 * k + 12) (d_addrs d) x5)"

definition zero_dinode :: dinode where
  "zero_dinode = \<lparr>d_type = 0, d_major = 0, d_minor = 0, d_nlink = 0, d_size = 0, d_addrs = replicate (NDIRECT + 1) 0\<rparr>"

section \<open>State\<close>

record inode =
  i_dev :: nat
  i_inum :: nat
  i_ref :: int
  i_lock :: sleeplock
  i_valid :: bool
  i_type :: u16
  i_major :: u16
  i_minor :: u16
  i_nlink :: u16
  i_size :: u32
  i_addrs :: "nat list"

record fsst = logst +
  sb :: superblock
  inodes :: "nat \<Rightarrow> inode"
  printed :: "string list"

definition upd_inode :: "nat \<Rightarrow> (inode \<Rightarrow> inode) \<Rightarrow> 'a fsst_scheme \<Rightarrow> 'a fsst_scheme" where
  "upd_inode i f s = s\<lparr>inodes := (inodes s)(i := f (inodes s i))\<rparr>"

definition print_line :: "string \<Rightarrow> ('a fsst_scheme, unit) kmon" where
  "print_line l = modK (\<lambda>s. s\<lparr>printed := printed s @ [l]\<rparr>)"

section \<open>Superblock and blocks\<close>

definition readsb :: "nat \<Rightarrow> ('a fsst_scheme, unit) kmon" where
  "readsb dev =
     bindK (bread dev 1) (\<lambda>bp.
     bindK (buf_data bp) (\<lambda>x.
     let f = \<lambda>i. unat (load32 x (4 * i)) in
     thenK (modK (\<lambda>s. s\<lparr>sb := \<lparr>sb_magic = f 0, sb_size = f 1, sb_nblocks = f 2, sb_ninodes = f 3, sb_nlog = f 4,
                            sb_logstart = f 5, sb_inodestart = f 6, sb_bmapstart = f 7\<rparr>\<rparr>))
     (brelse bp)))"

definition fsinit :: "nat \<Rightarrow> ('a fsst_scheme, unit) kmon" where
  "fsinit dev =
     thenK (readsb dev)
    (bindK (getK sb) (\<lambda>sb.
     if sb_magic sb \<noteq> FSMAGIC then panicK ''invalid file system''
     else initlog dev (sb_logstart sb) (sb_nlog sb)))"

definition bzero :: "nat \<Rightarrow> nat \<Rightarrow> ('a fsst_scheme, unit) kmon" where
  "bzero dev bno =
     bindK (bread dev bno) (\<lambda>bp.
     thenK (buf_set bp (replicate BSIZE 0))
    (thenK (log_write bp)
           (brelse bp)))"

text \<open>Bit \<open>bi\<close> of a bitmap block.\<close>

definition bit_used :: "block \<Rightarrow> nat \<Rightarrow> bool" where
  "bit_used x bi \<longleftrightarrow> x ! (bi div 8) AND push_bit (bi mod 8) 1 \<noteq> 0"

definition bit_mark :: "block \<Rightarrow> nat \<Rightarrow> block" where
  "bit_mark x bi = x[bi div 8 := x ! (bi div 8) OR push_bit (bi mod 8) 1]"

definition bit_clear :: "block \<Rightarrow> nat \<Rightarrow> block" where
  "bit_clear x bi = x[bi div 8 := x ! (bi div 8) AND NOT (push_bit (bi mod 8) 1)]"

text \<open>The outer loop of \<open>balloc\<close>, over the first blocks \<open>b\<close> of the bitmap blocks.\<close>

primrec balloc_loop :: "nat \<Rightarrow> nat list \<Rightarrow> ('a fsst_scheme, nat) kmon" where
  "balloc_loop dev [] = thenK (print_line ''balloc: out of blocks'') (retK 0)"
| "balloc_loop dev (b # bs) =
     bindK (getK sb) (\<lambda>sb.
     bindK (bread dev (BBLOCK b sb)) (\<lambda>bp.
     bindK (buf_data bp) (\<lambda>x.
     case find (\<lambda>bi. \<not> bit_used x bi) [0..<min BPB (sb_size sb - b)] of
       Some bi \<Rightarrow>
         thenK (buf_set bp (bit_mark x bi))
        (thenK (log_write bp)
        (thenK (brelse bp)
        (thenK (bzero dev (b + bi))
               (retK (b + bi)))))
     | None \<Rightarrow> thenK (brelse bp) (balloc_loop dev bs))))"

definition balloc :: "nat \<Rightarrow> ('a fsst_scheme, nat) kmon" where
  "balloc dev = bindK (getK sb) (\<lambda>sb. balloc_loop dev (map (\<lambda>k. k * BPB) [0..<(sb_size sb + BPB - 1) div BPB]))"

definition bfree :: "nat \<Rightarrow> nat \<Rightarrow> ('a fsst_scheme, unit) kmon" where
  "bfree dev b =
     bindK (getK sb) (\<lambda>sb.
     bindK (bread dev (BBLOCK b sb)) (\<lambda>bp.
     bindK (buf_data bp) (\<lambda>x.
     let bi = b mod BPB in
     if \<not> bit_used x bi then panicK ''freeing free block''
     else
       thenK (buf_set bp (bit_clear x bi))
      (thenK (log_write bp)
             (brelse bp)))))"

section \<open>Inodes\<close>

definition iinit :: "'a fsst_scheme \<Rightarrow> 'a fsst_scheme" where
  "iinit s = fold (\<lambda>i. upd_inode i (i_lock_update (\<lambda>_. initsleeplock))) [0..<NINODE] s"

definition iget :: "nat \<Rightarrow> nat \<Rightarrow> ('a fsst_scheme, nat) kmon" where
  "iget dev inum = bindK (getK inodes) (\<lambda>t.
     case find (\<lambda>i. i_ref (t i) > 0 \<and> i_dev (t i) = dev \<and> i_inum (t i) = inum) [0..<NINODE] of
       Some i \<Rightarrow> thenK (modK (upd_inode i (\<lambda>ip. ip\<lparr>i_ref := i_ref ip + 1\<rparr>))) (retK i)
     | None \<Rightarrow>
        (case find (\<lambda>i. i_ref (t i) = 0) [0..<NINODE] of
           None \<Rightarrow> panicK ''iget: no inodes''
         | Some i \<Rightarrow>
             thenK (modK (upd_inode i (\<lambda>ip. ip\<lparr>i_dev := dev, i_inum := inum, i_ref := 1, i_valid := False\<rparr>)))
                   (retK i)))"

text \<open>The search of \<open>ialloc\<close> over the inode numbers.\<close>

primrec ialloc_loop :: "nat \<Rightarrow> u16 \<Rightarrow> nat list \<Rightarrow> ('a fsst_scheme, nat option) kmon" where
  "ialloc_loop dev type [] = thenK (print_line ''ialloc: no inodes'') (retK None)"
| "ialloc_loop dev type (inum # rest) =
     bindK (getK sb) (\<lambda>sb.
     bindK (bread dev (IBLOCK inum sb)) (\<lambda>bp.
     bindK (buf_data bp) (\<lambda>x.
     if d_type (get_dinode x (inum mod IPB)) = 0 then
       thenK (buf_set bp (put_dinode x (inum mod IPB) (zero_dinode\<lparr>d_type := type\<rparr>)))
      (thenK (log_write bp)
      (thenK (brelse bp)
      (bindK (iget dev inum) (\<lambda>i. retK (Some i)))))
     else thenK (brelse bp) (ialloc_loop dev type rest))))"

definition ialloc :: "nat \<Rightarrow> u16 \<Rightarrow> ('a fsst_scheme, nat option) kmon" where
  "ialloc dev type = bindK (getK sb) (\<lambda>sb. ialloc_loop dev type [1..<sb_ninodes sb])"

definition disk_copy :: "inode \<Rightarrow> dinode" where
  "disk_copy ip = \<lparr>d_type = i_type ip, d_major = i_major ip, d_minor = i_minor ip, d_nlink = i_nlink ip,
                   d_size = i_size ip, d_addrs = i_addrs ip\<rparr>"

definition iupdate :: "nat \<Rightarrow> ('a fsst_scheme, unit) kmon" where
  "iupdate i =
     bindK (getK (\<lambda>s. inodes s i)) (\<lambda>ip.
     bindK (getK sb) (\<lambda>sb.
     bindK (bread (i_dev ip) (IBLOCK (i_inum ip) sb)) (\<lambda>bp.
     bindK (buf_data bp) (\<lambda>x.
     thenK (buf_set bp (put_dinode x (i_inum ip mod IPB) (disk_copy ip)))
    (thenK (log_write bp)
           (brelse bp))))))"

definition idup :: "nat \<Rightarrow> ('a fsst_scheme, nat) kmon" where
  "idup i = thenK (modK (upd_inode i (\<lambda>ip. ip\<lparr>i_ref := i_ref ip + 1\<rparr>))) (retK i)"

definition inode_load :: "dinode \<Rightarrow> inode \<Rightarrow> inode" where
  "inode_load d ip = ip\<lparr>i_type := d_type d, i_major := d_major d, i_minor := d_minor d, i_nlink := d_nlink d,
                        i_size := d_size d, i_addrs := d_addrs d\<rparr>"

definition lock_inode :: "nat \<Rightarrow> ('a fsst_scheme, unit) kmon" where
  "lock_inode i =
     bindK (getK (\<lambda>s. acquiresleep (running_pid s) (i_lock (inodes s i)))) (\<lambda>r.
     bindK (liftR r) (\<lambda>lk. modK (upd_inode i (i_lock_update (\<lambda>_. lk)))))"

definition ilock :: "nat option \<Rightarrow> ('a fsst_scheme, unit) kmon" where
  "ilock p = (case p of None \<Rightarrow> panicK ''ilock'' | Some i \<Rightarrow>
     bindK (getK (\<lambda>s. inodes s i)) (\<lambda>ip0.
     if i_ref ip0 < 1 then panicK ''ilock''
     else
       thenK (lock_inode i)
      (bindK (getK (\<lambda>s. inodes s i)) (\<lambda>ip.
       whenK (\<not> i_valid ip)
         (bindK (getK sb) (\<lambda>sb.
          bindK (bread (i_dev ip) (IBLOCK (i_inum ip) sb)) (\<lambda>bp.
          bindK (buf_data bp) (\<lambda>x.
          thenK (modK (upd_inode i (inode_load (get_dinode x (i_inum ip mod IPB)))))
         (thenK (brelse bp)
         (thenK (modK (upd_inode i (i_valid_update (\<lambda>_. True))))
         (bindK (getK (\<lambda>s. i_type (inodes s i))) (\<lambda>type.
          whenK (type = 0) (panicK ''ilock: no type'')))))))))))))"

definition holds_inode :: "nat \<Rightarrow> 'a fsst_scheme \<Rightarrow> bool" where
  "holds_inode i s = holdingsleep (running_pid s) (i_lock (inodes s i))"

definition iunlock :: "nat option \<Rightarrow> ('a fsst_scheme, unit) kmon" where
  "iunlock p = (case p of None \<Rightarrow> panicK ''iunlock'' | Some i \<Rightarrow>
     bindK (getK id) (\<lambda>s.
     if \<not> holds_inode i s \<or> i_ref (inodes s i) < 1 then panicK ''iunlock''
     else modK (upd_inode i (i_lock_update releasesleep))))"

section \<open>File contents\<close>

text \<open>Block addresses in an indirect block.\<close>

definition get_addr :: "block \<Rightarrow> nat \<Rightarrow> nat" where
  "get_addr x bn = unat (load32 x (4 * bn))"

definition set_addr :: "nat \<Rightarrow> nat \<Rightarrow> nat \<Rightarrow> ('a fsst_scheme, unit) kmon" where
  "set_addr i n addr = modK (upd_inode i (\<lambda>ip. ip\<lparr>i_addrs := (i_addrs ip)[n := addr]\<rparr>))"

definition bmap :: "nat \<Rightarrow> nat \<Rightarrow> ('a fsst_scheme, nat) kmon" where
  "bmap i bn =
     bindK (getK (\<lambda>s. inodes s i)) (\<lambda>ip.
     if bn < NDIRECT then
       (if i_addrs ip ! bn = 0 then
          bindK (balloc (i_dev ip)) (\<lambda>addr.
          if addr = 0 then retK 0 else thenK (set_addr i bn addr) (retK addr))
        else retK (i_addrs ip ! bn))
     else if bn - NDIRECT < NINDIRECT then
       bindK (if i_addrs ip ! NDIRECT = 0 then
                bindK (balloc (i_dev ip)) (\<lambda>addr.
                if addr = 0 then retK 0 else thenK (set_addr i NDIRECT addr) (retK addr))
              else retK (i_addrs ip ! NDIRECT)) (\<lambda>ind.
       if ind = 0 then retK 0
       else
         bindK (bread (i_dev ip) ind) (\<lambda>bp.
         bindK (buf_data bp) (\<lambda>x.
         bindK (if get_addr x (bn - NDIRECT) = 0 then
                  bindK (balloc (i_dev ip)) (\<lambda>addr.
                  thenK (whenK (addr \<noteq> 0)
                           (thenK (buf_set bp (store32 x (4 * (bn - NDIRECT)) (of_nat addr))) (log_write bp)))
                        (retK addr))
                else retK (get_addr x (bn - NDIRECT))) (\<lambda>addr.
         thenK (brelse bp) (retK addr)))))
     else panicK ''bmap: out of range'')"

definition itrunc :: "nat \<Rightarrow> ('a fsst_scheme, unit) kmon" where
  "itrunc i =
     thenK (forK [0..<NDIRECT] (\<lambda>k.
              bindK (getK (\<lambda>s. inodes s i)) (\<lambda>ip.
              whenK (i_addrs ip ! k \<noteq> 0) (thenK (bfree (i_dev ip) (i_addrs ip ! k)) (set_addr i k 0)))))
    (bindK (getK (\<lambda>s. inodes s i)) (\<lambda>ip.
     thenK (whenK (i_addrs ip ! NDIRECT \<noteq> 0)
             (bindK (bread (i_dev ip) (i_addrs ip ! NDIRECT)) (\<lambda>bp.
              bindK (buf_data bp) (\<lambda>x.
              thenK (forK [0..<NINDIRECT] (\<lambda>j. whenK (get_addr x j \<noteq> 0) (bfree (i_dev ip) (get_addr x j))))
             (thenK (brelse bp)
             (thenK (bfree (i_dev ip) (i_addrs ip ! NDIRECT))
                    (set_addr i NDIRECT 0)))))))
    (thenK (modK (upd_inode i (i_size_update (\<lambda>_. 0))))
           (iupdate i))))"

definition iput :: "nat \<Rightarrow> ('a fsst_scheme, unit) kmon" where
  "iput i =
     bindK (getK (\<lambda>s. inodes s i)) (\<lambda>ip.
     thenK (whenK (i_ref ip = 1 \<and> i_valid ip \<and> i_nlink ip = 0)
             (thenK (lock_inode i)
             (thenK (itrunc i)
             (thenK (modK (upd_inode i (i_type_update (\<lambda>_. 0))))
             (thenK (iupdate i)
             (thenK (modK (upd_inode i (i_valid_update (\<lambda>_. False))))
                    (modK (upd_inode i (i_lock_update releasesleep)))))))))
     (modK (upd_inode i (\<lambda>ip. ip\<lparr>i_ref := i_ref ip - 1\<rparr>))))"

definition iunlockput :: "nat \<Rightarrow> ('a fsst_scheme, unit) kmon" where
  "iunlockput i = thenK (iunlock (Some i)) (iput i)"

record stat =
  st_dev :: nat
  st_ino :: nat
  st_type :: u16
  st_nlink :: u16
  st_size :: u64

definition stati :: "nat \<Rightarrow> ('a fsst_scheme, stat) kmon" where
  "stati i = bindK (getK (\<lambda>s. inodes s i)) (\<lambda>ip.
     retK \<lparr>st_dev = i_dev ip, st_ino = i_inum ip, st_type = i_type ip, st_nlink = i_nlink ip, st_size = ucast (i_size ip)\<rparr>)"

type_synonym 'm copyout = "nat \<Rightarrow> u8 list \<Rightarrow> 'm \<Rightarrow> int \<times> 'm"
type_synonym copyin = "nat \<Rightarrow> nat \<Rightarrow> u8 list \<times> int"

text \<open>The loops of \<open>readi\<close> and \<open>writei\<close>; their callers have excluded that \<open>off + n\<close> overflows.\<close>

function readi_loop ::
  "'m copyout \<Rightarrow> nat \<Rightarrow> nat \<Rightarrow> nat \<Rightarrow> nat \<Rightarrow> nat \<Rightarrow> 'm \<Rightarrow> ('a fsst_scheme, int \<times> 'm) kmon" where
  "readi_loop cp i n tot off dst m =
     (if tot < n then
        bindK (bmap i (off div BSIZE)) (\<lambda>addr.
        if addr = 0 then retK (int tot, m)
        else
          bindK (getK (\<lambda>s. i_dev (inodes s i))) (\<lambda>dev.
          bindK (bread dev addr) (\<lambda>bp.
          bindK (buf_data bp) (\<lambda>x.
          let k = min (n - tot) (BSIZE - off mod BSIZE);
              (r, m') = cp dst (take k (drop (off mod BSIZE) x)) m in
          if r = -1 then thenK (brelse bp) (retK (-1, m'))
          else thenK (brelse bp) (readi_loop cp i n (tot + k) (off + k) (dst + k) m')))))
      else retK (int tot, m))"
  by pat_completeness auto
termination
  by (relation "measure (\<lambda>(cp, i, n, tot, off, dst, m). n - tot)") (auto simp: BSIZE_def)

definition readi :: "'m copyout \<Rightarrow> nat \<Rightarrow> nat \<Rightarrow> u32 \<Rightarrow> u32 \<Rightarrow> 'm \<Rightarrow> ('a fsst_scheme, int \<times> 'm) kmon" where
  "readi cp i dst off n m =
     bindK (getK (\<lambda>s. i_size (inodes s i))) (\<lambda>sz.
     if off > sz \<or> off + n < off then retK (0, m)
     else let n' = (if off + n > sz then sz - off else n)
          in readi_loop cp i (unat n') 0 (unat off) dst m)"

function writei_loop ::
  "copyin \<Rightarrow> nat \<Rightarrow> nat \<Rightarrow> nat \<Rightarrow> nat \<Rightarrow> nat \<Rightarrow> ('a fsst_scheme, nat \<times> nat) kmon" where
  "writei_loop cin i n tot off src =
     (if tot < n then
        bindK (bmap i (off div BSIZE)) (\<lambda>addr.
        if addr = 0 then retK (tot, off)
        else
          bindK (getK (\<lambda>s. i_dev (inodes s i))) (\<lambda>dev.
          bindK (bread dev addr) (\<lambda>bp.
          bindK (buf_data bp) (\<lambda>x.
          let k = min (n - tot) (BSIZE - off mod BSIZE);
              (bytes, r) = cin src k in
          thenK (buf_set bp (splice x (off mod BSIZE) bytes))
          (if r = -1 then thenK (brelse bp) (retK (tot, off))
           else thenK (log_write bp) (thenK (brelse bp) (writei_loop cin i n (tot + k) (off + k) (src + k))))))))
      else retK (tot, off))"
  by pat_completeness auto
termination
  by (relation "measure (\<lambda>(cin, i, n, tot, off, src). n - tot)") (auto simp: BSIZE_def)

definition writei :: "copyin \<Rightarrow> nat \<Rightarrow> nat \<Rightarrow> u32 \<Rightarrow> u32 \<Rightarrow> ('a fsst_scheme, int) kmon" where
  "writei cin i src off n =
     bindK (getK (\<lambda>s. i_size (inodes s i))) (\<lambda>sz.
     if off > sz \<or> off + n < off then retK (-1)
     else if unat (off + n) > MAXFILE * BSIZE then retK (-1)
     else
       bindK (writei_loop cin i (unat n) 0 (unat off) src) (\<lambda>(tot, off').
       thenK (whenK (off' > unat sz) (modK (upd_inode i (i_size_update (\<lambda>_. of_nat off')))))
      (thenK (iupdate i)
             (retK (int tot)))))"

section \<open>Directories\<close>

text \<open>
  A name is the list of bytes before its terminating zero, or \<open>DIRSIZ\<close> bytes. \<open>namecmp\<close> compares two
  names held in memory at two addresses.
\<close>

definition nth0 :: "u8 list \<Rightarrow> nat \<Rightarrow> u8" where
  "nth0 xs i = (if i < length xs then xs ! i else 0)"

definition namecmp :: "u8 list \<Rightarrow> u8 list \<Rightarrow> int" where
  "namecmp s t = strncmp (\<lambda>a. if a < DIRSIZ then nth0 s a else nth0 t (a - DIRSIZ)) 0 DIRSIZ DIRSIZ"

record dirent =
  de_inum :: u16
  de_name :: "u8 list"

definition get_dirent :: "u8 list \<Rightarrow> dirent" where
  "get_dirent x = \<lparr>de_inum = load16 x 0, de_name = take DIRSIZ (drop 2 x)\<rparr>"

definition put_dirent :: "dirent \<Rightarrow> u8 list" where
  "put_dirent d = store16 (replicate 2 0) 0 (de_inum d) @ de_name d"

definition DIRENT :: nat where "DIRENT = 16"

text \<open>Copying to and from a \<open>struct dirent\<close> of the kernel always succeeds.\<close>

definition kernel_out :: "u8 list copyout" where
  "kernel_out dst bytes m = (0, splice m dst bytes)"

definition kernel_in :: "u8 list \<Rightarrow> copyin" where
  "kernel_in m src n = (take n (drop src m), 0)"

definition read_dirent :: "string \<Rightarrow> nat \<Rightarrow> nat \<Rightarrow> ('a fsst_scheme, dirent) kmon" where
  "read_dirent msg dp off =
     bindK (readi kernel_out dp 0 (of_nat off) (of_nat DIRENT) (replicate DIRENT 0)) (\<lambda>(r, m).
     if r \<noteq> int DIRENT then panicK msg else retK (get_dirent m))"

function dirlookup_loop :: "nat \<Rightarrow> u8 list \<Rightarrow> nat \<Rightarrow> nat \<Rightarrow> ('a fsst_scheme, (nat \<times> nat) option) kmon" where
  "dirlookup_loop dp name sz off =
     (if off < sz then
        bindK (read_dirent ''dirlookup read'' dp off) (\<lambda>de.
        if de_inum de = 0 then dirlookup_loop dp name sz (off + DIRENT)
        else if namecmp name (de_name de) = 0 then
          bindK (getK (\<lambda>s. i_dev (inodes s dp))) (\<lambda>dev.
          bindK (iget dev (unat (de_inum de))) (\<lambda>i. retK (Some (i, off))))
        else dirlookup_loop dp name sz (off + DIRENT))
      else retK None)"
  by pat_completeness auto
termination
  by (relation "measure (\<lambda>(dp, name, sz, off). sz - off)") (auto simp: DIRENT_def)

definition dirlookup :: "nat \<Rightarrow> u8 list \<Rightarrow> ('a fsst_scheme, (nat \<times> nat) option) kmon" where
  "dirlookup dp name =
     bindK (getK (\<lambda>s. inodes s dp)) (\<lambda>ip.
     if i_type ip \<noteq> T_DIR then panicK ''dirlookup not DIR''
     else dirlookup_loop dp name (unat (i_size ip)) 0)"

function dirlink_slot :: "nat \<Rightarrow> nat \<Rightarrow> nat \<Rightarrow> ('a fsst_scheme, nat) kmon" where
  "dirlink_slot dp sz off =
     (if off < sz then
        bindK (read_dirent ''dirlink read'' dp off) (\<lambda>de.
        if de_inum de = 0 then retK off else dirlink_slot dp sz (off + DIRENT))
      else retK off)"
  by pat_completeness auto
termination
  by (relation "measure (\<lambda>(dp, sz, off). sz - off)") (auto simp: DIRENT_def)

definition pad_name :: "u8 list \<Rightarrow> u8 list" where
  "pad_name name = take DIRSIZ (name @ replicate DIRSIZ 0)"

definition dirlink :: "nat \<Rightarrow> u8 list \<Rightarrow> nat \<Rightarrow> ('a fsst_scheme, int) kmon" where
  "dirlink dp name inum =
     bindK (dirlookup dp name) (\<lambda>r.
     case r of
       Some (ip, _) \<Rightarrow> thenK (iput ip) (retK (-1))
     | None \<Rightarrow>
         bindK (getK (\<lambda>s. i_size (inodes s dp))) (\<lambda>sz.
         bindK (dirlink_slot dp (unat sz) 0) (\<lambda>off.
         bindK (writei (kernel_in (put_dirent \<lparr>de_inum = of_nat inum, de_name = pad_name name\<rparr>)) dp 0
                  (of_nat off) (of_nat DIRENT)) (\<lambda>n.
         retK (if n \<noteq> int DIRENT then -1 else 0)))))"

section \<open>Path names\<close>

definition SLASH :: u8 where "SLASH = 47"

text \<open>\<open>skipelem\<close> on the bytes of a path before its terminating zero: the rest of the path and the name.\<close>

definition skipelem :: "u8 list \<Rightarrow> (u8 list \<times> u8 list) option" where
  "skipelem path =
     (let s = dropWhile (\<lambda>c. c = SLASH) path
      in if s = [] then None
         else let elem = takeWhile (\<lambda>c. c \<noteq> SLASH) s;
                  name = (if length elem \<ge> DIRSIZ then take DIRSIZ elem else elem);
                  rest = dropWhile (\<lambda>c. c \<noteq> SLASH) s
              in Some (dropWhile (\<lambda>c. c = SLASH) rest, name))"

lemma skipelem_shorter: "skipelem path = Some (rest, name) \<Longrightarrow> length rest < length path"
proof -
  assume a: "skipelem path = Some (rest, name)"
  let ?s = "dropWhile (\<lambda>c. c = SLASH) path"
  have ne: "?s \<noteq> []" and r: "rest = dropWhile (\<lambda>c. c = SLASH) (dropWhile (\<lambda>c. c \<noteq> SLASH) ?s)"
    using a by (auto simp: skipelem_def Let_def split: if_splits)
  have "hd ?s \<noteq> SLASH" using hd_dropWhile [OF ne] by simp
  then have "dropWhile (\<lambda>c. c \<noteq> SLASH) ?s = dropWhile (\<lambda>c. c \<noteq> SLASH) (tl ?s)" using ne by (cases ?s) auto
  then have "length rest \<le> length (tl ?s)" unfolding r by (metis length_dropWhile_le le_trans)
  also have "\<dots> < length ?s" using ne by (cases ?s) auto
  also have "\<dots> \<le> length path" by (rule length_dropWhile_le)
  finally show ?thesis .
qed

text \<open>The loop of \<open>namex\<close> from inode \<open>i\<close>; \<open>name\<close> is the buffer the last element was copied to.\<close>

function namex_loop :: "bool \<Rightarrow> u8 list \<Rightarrow> u8 list \<Rightarrow> nat \<Rightarrow> ('a fsst_scheme, (nat \<times> u8 list) option) kmon" where
  "namex_loop nameiparent path name i =
     (case skipelem path of
        None \<Rightarrow> if nameiparent then thenK (iput i) (retK None) else retK (Some (i, name))
      | Some (rest, name') \<Rightarrow>
          thenK (ilock (Some i))
         (bindK (getK (\<lambda>s. i_type (inodes s i))) (\<lambda>type.
          if type \<noteq> T_DIR then thenK (iunlockput i) (retK None)
          else if nameiparent \<and> rest = [] then thenK (iunlock (Some i)) (retK (Some (i, name')))
          else
            bindK (dirlookup i name') (\<lambda>r.
            case r of
              None \<Rightarrow> thenK (iunlockput i) (retK None)
            | Some (nx, _) \<Rightarrow> thenK (iunlockput i) (namex_loop nameiparent rest name' nx)))))"
  by pat_completeness auto
termination
  by (relation "measure (\<lambda>(np, path, name, i). length path)") (auto dest: skipelem_shorter)

text \<open>\<open>cwd\<close> is the current directory of the calling process.\<close>

definition namex :: "nat \<Rightarrow> u8 list \<Rightarrow> bool \<Rightarrow> ('a fsst_scheme, (nat \<times> u8 list) option) kmon" where
  "namex cwd path nameiparent =
     bindK (if path \<noteq> [] \<and> hd path = SLASH then iget ROOTDEV ROOTINO else idup cwd) (\<lambda>i.
     namex_loop nameiparent path [] i)"

definition namei :: "nat \<Rightarrow> u8 list \<Rightarrow> ('a fsst_scheme, nat option) kmon" where
  "namei cwd path = bindK (namex cwd path False) (\<lambda>r. retK (map_option fst r))"

definition nameiparent :: "nat \<Rightarrow> u8 list \<Rightarrow> ('a fsst_scheme, (nat \<times> u8 list) option) kmon" where
  "nameiparent cwd path = namex cwd path True"

declare readi_loop.simps [simp del] writei_loop.simps [simp del] dirlookup_loop.simps [simp del]
  dirlink_slot.simps [simp del] namex_loop.simps [simp del]

end
