(* ===== verification/Kalloc.thy ===== *)
theory Kalloc
  imports Buddy_Init
begin

text \<open>
  The page allocator of \<^verbatim>\<open>src/kernel/alloc/kalloc.c\<close>, a thin layer over the buddy allocator, and the
  contract its clients (page tables, pipes, kernel stacks) rely on, as the locale
  \<open>page_allocator\<close>, with the model of \<open>kalloc\<close> and \<open>kfree\<close> as its interpretation.
\<close>

section \<open>Definitions\<close>

definition PGSIZE :: nat where
  "PGSIZE = 4096"

definition PGROUNDUP :: "nat \<Rightarrow> nat" where
  "PGROUNDUP sz = (sz + PGSIZE - 1) div PGSIZE * PGSIZE"

definition PGROUNDDOWN :: "nat \<Rightarrow> nat" where
  "PGROUNDDOWN a = a div PGSIZE * PGSIZE"

definition KERNBASE :: nat where
  "KERNBASE = 0x80000000"

definition PHYSTOP :: nat where
  "PHYSTOP = KERNBASE + 128 * 1024 * 1024"

definition kinit :: "heap \<Rightarrow> nat \<Rightarrow> buddy res" where
  "kinit h kernel_end = buddy_init h (PGROUNDUP kernel_end) PHYSTOP"

definition kfree :: "buddy \<Rightarrow> nat \<Rightarrow> buddy res" where
  "kfree b pa = buddy_free b pa"

definition kalloc :: "buddy \<Rightarrow> (nat \<times> buddy) res" where
  "kalloc b = buddy_malloc b (word_of_nat PGSIZE)"

section \<open>The contract\<close>

text \<open>
  A client works through a sequence of requests: \<open>None\<close> asks for a page, \<open>Some n\<close> returns the page
  at position \<open>n\<close> of the client's list of pages. A null result leaves the list as it is.
\<close>

primrec run_requests ::
  "('s \<Rightarrow> (nat \<times> 's) res) \<Rightarrow> ('s \<Rightarrow> nat \<Rightarrow> 's res) \<Rightarrow> nat option list \<Rightarrow> 's \<times> nat list \<Rightarrow> ('s \<times> nat list) res" where
  "run_requests alloc release [] s = Ret s"
| "run_requests alloc release (r # rs) s =
     (case r of
        None \<Rightarrow> bindR (alloc (fst s)) (\<lambda>(p, s').
          run_requests alloc release rs (s', if p = nullptr then snd s else p # snd s))
      | Some n \<Rightarrow>
          if n < length (snd s)
          then bindR (release (fst s) (snd s ! n)) (\<lambda>s'.
            run_requests alloc release rs (s', take n (snd s) @ drop (Suc n) (snd s)))
          else run_requests alloc release rs s)"

locale page_allocator =
  fixes out :: "'s \<Rightarrow> nat set \<Rightarrow> bool"
    and alloc :: "'s \<Rightarrow> (nat \<times> 's) res"
    and release :: "'s \<Rightarrow> nat \<Rightarrow> 's res"
  assumes alloc_law: "out s P \<Longrightarrow>
      \<exists>p s'. alloc s = Ret (p, s') \<and> (p = nullptr \<and> s' = s \<or> p \<noteq> nullptr \<and> p \<notin> P \<and> out s' (insert p P))"
    and release_law: "out s P \<Longrightarrow> p \<in> P \<Longrightarrow> \<exists>s'. release s p = Ret s' \<and> out s' (P - {p})"
    and page_law: "out s P \<Longrightarrow> p \<in> P \<Longrightarrow> p mod PGSIZE = 0 \<and> 0 < p \<and> p + PGSIZE \<le> PHYSTOP"
begin

lemma requests_ok:
  "out s (set ps) \<Longrightarrow> distinct ps \<Longrightarrow>
   \<exists>s' ps'. run_requests alloc release rs (s, ps) = Ret (s', ps') \<and> out s' (set ps') \<and> distinct ps'"
proof (induction rs arbitrary: s ps)
  case (Cons r rs)
  show ?case
  proof (cases r)
    case None
    obtain p s' where a: "alloc s = Ret (p, s')"
      "p = nullptr \<and> s' = s \<or> p \<noteq> nullptr \<and> p \<notin> set ps \<and> out s' (insert p (set ps))"
      using alloc_law [OF Cons.prems(1)] by blast
    show ?thesis
    proof (cases "p = nullptr")
      case True
      then show ?thesis using a None Cons.IH [OF Cons.prems] by simp
    next
      case False
      then show ?thesis using a None Cons.IH [of s' "p # ps"] Cons.prems by simp
    qed
  next
    case (Some n)
    show ?thesis
    proof (cases "n < length ps")
      case True
      let ?ps = "take n ps @ drop (Suc n) ps"
      have split: "ps = take n ps @ ps ! n # drop (Suc n) ps" using True by (rule id_take_nth_drop)
      then have "distinct (take n ps @ ps ! n # drop (Suc n) ps)" using Cons.prems(2) by metis
      then have d: "distinct ?ps" "ps ! n \<notin> set ?ps" by auto
      then have "set ?ps = set ps - {ps ! n}" by (subst (3) split) auto
      moreover obtain s' where "release s (ps ! n) = Ret s'" "out s' (set ps - {ps ! n})"
        using release_law [OF Cons.prems(1), of "ps ! n"] True by auto
      ultimately show ?thesis using Some True d(1) Cons.IH [of s' ?ps] by simp
    next
      case False
      then show ?thesis using Some Cons by simp
    qed
  qed
qed simp

lemma pages_disjoint:
  assumes "out s P" "p \<in> P" "q \<in> P" "p \<noteq> q"
  shows "{p..<p + PGSIZE} \<inter> {q..<q + PGSIZE} = {}"
proof -
  obtain i j where ij: "p = PGSIZE * i" "q = PGSIZE * j"
    using page_law [OF assms(1)] assms(2,3) by (metis mod_0_imp_dvd dvdE)
  then have "i < j \<or> j < i" using assms(4) by (auto simp: nat_neq_iff)
  then have "PGSIZE * Suc i \<le> PGSIZE * j \<or> PGSIZE * Suc j \<le> PGSIZE * i" by (metis Suc_leI mult_le_mono2)
  then show ?thesis using ij by auto
qed

end

section \<open>The buddy allocator as a page allocator\<close>

lemma firstk_page: "firstk (word_of_nat PGSIZE) = Some 8"
  unfolding firstk_def PGSIZE_def by (simp add: firstk_loop.simps)

text \<open>
  The pages handed out are the used blocks of size 8. The tables and the hole at the end stay in
  use for ever, so a page lies between them.
\<close>

definition pages_out :: "buddy \<Rightarrow> nat set \<Rightarrow> bool" where
  "pages_out b P \<longleftrightarrow>
     (\<exists>N m e t. repr N b t \<and> layout N m e \<and> 8 < N \<and> Pair 0 ` reserved N m e \<subseteq> used t \<and>
        P = {addr b 8 i | i. (8, i) \<in> used t} \<and> buddy_base b mod PGSIZE = 0 \<and> 0 < buddy_base b \<and>
        buddy_base b + 16 * e \<le> PHYSTOP)"

lemma pages_outI:
  "\<lbrakk> repr N b t; layout N m e; 8 < N; Pair 0 ` reserved N m e \<subseteq> used t;
     P = {addr b 8 i | i. (8, i) \<in> used t}; buddy_base b mod PGSIZE = 0; 0 < buddy_base b;
     buddy_base b + 16 * e \<le> PHYSTOP \<rbrakk> \<Longrightarrow> pages_out b P"
  unfolding pages_out_def
  by (rule exI [of _ N], rule exI [of _ m], rule exI [of _ e], rule exI [of _ t]) (intro conjI; assumption)

lemma page_range:
  assumes r: "repr N b t" and res: "Pair 0 ` reserved N m e \<subseteq> used t" and i: "(8, i) \<in> used t"
  shows "16 * m \<le> 4096 * i" "4096 * Suc i \<le> 16 * e"
proof -
  note inv = reprD(1) [OF r]
  have "u \<notin> reserved N m e" if "u div 2 ^ 8 = i" for u
  proof
    assume "u \<in> reserved N m e"
    then have u: "(0, u) \<in> used t" using res by blast
    then have "span (0, u) \<inter> span (8, i) = {}" using leaf_disjoint [OF inv] i by auto
    then show False using that by (auto simp: disjoint_iff in_span)
  qed
  from this [of "256 * i"] this [of "256 * i + 255"]
  have "m \<le> 256 * i" "256 * i + 255 < e \<or> 2 ^ N \<le> 256 * i + 255" by auto
  moreover have "Suc i * 2 ^ 8 \<le> 2 ^ N"
    using span_bound [OF inv, of "(8, i)"] i by (auto simp: span_def subset_iff dest!: spec [of _ "256 * i + 255"])
  ultimately show "16 * m \<le> 4096 * i" "4096 * Suc i \<le> 16 * e" by auto
qed

interpretation kmem: page_allocator pages_out kalloc kfree
proof
  fix b P
  assume "pages_out b P"
  then obtain N m e t where r: "repr N b t" and l: "layout N m e" and N: "8 < N"
    and res: "Pair 0 ` reserved N m e \<subseteq> used t" and P: "P = {addr b 8 i | i. (8, i) \<in> used t}"
    and base: "buddy_base b mod PGSIZE = 0" "0 < buddy_base b" "buddy_base b + 16 * e \<le> PHYSTOP"
    by (auto simp: pages_out_def)
  show "\<exists>p b'. kalloc b = Ret (p, b') \<and>
     (p = nullptr \<and> b' = b \<or> p \<noteq> nullptr \<and> p \<notin> P \<and> pages_out b' (insert p P))"
  proof (cases "\<exists>k i. 8 \<le> k \<and> (k, i) \<in> free t")
    case True
    then obtain b' t' i where b': "kalloc b = Ret (addr b 8 i, b')" "buddy_base b' = buddy_base b"
      "repr N b' t'" "(8, i) \<notin> used t" "used t' = insert (8, i) (used t)"
      using buddy_malloc_some [OF r firstk_page] unfolding kalloc_def by blast
    moreover have "addr b 8 i \<noteq> nullptr" using base by (simp add: addr_def)
    moreover have "addr b 8 i \<notin> P" using b'(4) P by (auto simp: addr_inj)
    moreover have "insert (addr b 8 i) P = {addr b' 8 i | i. (8, i) \<in> used t'}"
      using b'(5) P by (auto simp: base_cong [OF b'(2)])
    then have "pages_out b' (insert (addr b 8 i) P)"
      using b'(2,5) res base by (intro pages_outI [OF b'(3) l N]) auto
    ultimately show ?thesis by blast
  next
    case False
    then show ?thesis using buddy_malloc_none [OF r firstk_page] by (auto simp: kalloc_def)
  qed
  fix p assume p: "p \<in> P"
  then obtain i where i: "p = addr b 8 i" "(8, i) \<in> used t" using P by blast
  show "\<exists>b'. kfree b p = Ret b' \<and> pages_out b' (P - {p})"
  proof -
    have "\<forall>j \<le> N. (8::nat, i) \<noteq> (0, 2 * j)" by simp
    then obtain b' t' where b': "kfree b p = Ret b'" "buddy_base b' = buddy_base b" "repr N b' t'"
      "used t' = used t - {(8, i)}"
      using buddy_free_used [OF r i(2)] N unfolding i(1) kfree_def by blast
    moreover have "P - {p} = {addr b' 8 i | i. (8, i) \<in> used t'}"
      unfolding base_cong [OF b'(2)] b'(4) P i(1) by (auto simp: addr_inj)
    then have "pages_out b' (P - {p})"
      using b'(2,4) res base by (intro pages_outI [OF b'(3) l N]) auto
    ultimately show ?thesis by blast
  qed
  show "p mod PGSIZE = 0 \<and> 0 < p \<and> p + PGSIZE \<le> PHYSTOP"
    using page_range [OF r res i(2)] base i(1)
    by (auto simp: addr_alt PGSIZE_def mod_add_left_eq [symmetric] mod_eq_0_iff_dvd)
qed

lemma not_pow2: "2 ^ j < n \<Longrightarrow> n < 2 ^ Suc j \<Longrightarrow> n \<noteq> (2::nat) ^ i"
  by (metis Suc_leI not_less one_less_numeral_iff power_less_imp_less_exp power_strict_increasing_iff semiring_norm(76))

lemma ROUNDUP_multiple: "0 < q \<Longrightarrow> ROUNDUP (16 * q) 16 = 16 * q"
proof -
  assume "0 < q"
  then obtain c where q: "q = Suc c" by (cases q) auto
  have "(16 * q - 1) div 16 = c" unfolding q by simp
  then show ?thesis by (simp add: ROUNDUP_def q)
qed

lemma layout_free:
  assumes "layout N m e"
  shows "(N - 2, 1) \<in> free (init_tree N (reserved N m e))"
proof -
  obtain n where N: "N = Suc (Suc n)" using assms unfolding layout_def by (metis add_2_eq_Suc le_Suc_ex)
  have l: "0 < m" "m \<le> 2 ^ n" "2 ^ Suc n \<le> e" using assms by (auto simp: layout_def N)
  have "\<not> touch (reserved N m e) n 1"
  proof
    assume "touch (reserved N m e) n 1"
    then obtain u where u: "u \<in> reserved N m e" "u div 2 ^ n = 1" unfolding touch_def by blast
    then have "2 ^ n * 1 \<le> u" "u < 2 ^ n * Suc 1"
      using div_times_less_eq_dividend [of u "2 ^ n"] dividend_less_div_times [of "2 ^ n" u] by (simp_all add: u(2))
    then show False using u(1) l by auto
  qed
  moreover have "touch (reserved N m e) (Suc n) 0" using l(1) by (auto simp: touch_def intro!: bexI [of _ 0])
  ultimately show ?thesis by (simp add: init_tree_def N)
qed

lemma kinit_pages:
  assumes "KERNBASE < kernel_end" "kernel_end \<le> KERNBASE + 0x3ff0000"
  shows "\<exists>b p b'. kinit h kernel_end = Ret b \<and> pages_out b {} \<and> kalloc b = Ret (p, b') \<and> p \<noteq> nullptr"
proof -
  let ?base = "PGROUNDUP kernel_end" and ?sz = "PHYSTOP - PGROUNDUP kernel_end"
  have base: "KERNBASE < ?base" "?base < KERNBASE + 0x3ff1000" "?base mod PGSIZE = 0"
    using assms by (auto simp: PGROUNDUP_def PGSIZE_def KERNBASE_def)
  then have "0 < ?base div 16" "?base = 16 * (?base div 16)" by (auto simp: PGSIZE_def KERNBASE_def)
  then have r: "ROUNDUP ?base 16 = ?base" using ROUNDUP_multiple by metis
  have sz: "2 ^ 26 < ?sz" "?sz < 2 ^ Suc 26" using base by (auto simp: PHYSTOP_def KERNBASE_def)
  then obtain N m b where b: "kinit h kernel_end = Ret b" "buddy_base b = ?base" "?sz < 16 * 2 ^ N"
    "layout N m (?sz div 16)" "repr N b (init_tree N (reserved N m (?sz div 16)))"
    using buddy_init_repr [of ?base ?sz PHYSTOP h] base not_pow2 [OF sz]
    unfolding r kinit_def by auto
  have N: "20 < N"
  proof (rule ccontr)
    assume "\<not> 20 < N"
    then have "(2::nat) ^ N \<le> 2 ^ 20" by (intro power_increasing) auto
    then show False using b(3) sz by simp
  qed
  have "8 \<le> N - 2" using N by simp
  then have "\<exists>k i. 8 \<le> k \<and> (k, i) \<in> free (init_tree N (reserved N m (?sz div 16)))" using layout_free [OF b(4)] by blast
  then obtain i b' where got: "kalloc b = Ret (addr b 8 i, b')"
    using buddy_malloc_some [OF b(5) firstk_page] unfolding kalloc_def by blast
  have nn: "addr b 8 i \<noteq> nullptr" using b(2) base by (simp add: addr_def)
  have "reserved N m (?sz div 16) \<subseteq> {..<2 ^ N}"
    using borders(1) [OF b(4), of 0] b(4) by (auto simp: layout_def up_def)
  then have "Pair 0 ` reserved N m (?sz div 16) \<subseteq> used (init_tree N (reserved N m (?sz div 16)))"
    by (auto simp: init_tree_def)
  then have "pages_out b {}"
    using b base N by (intro pages_outI [OF b(5,4)]) (auto simp: init_tree_def PHYSTOP_def)
  then show ?thesis using b(1) got nn by blast
qed

lemma sample_heap:
  "\<exists>m b. buddy_init h 16 1056 = Ret b \<and> buddy_base b = 16 \<and> 14 < m \<and> m \<le> 32 \<and> repr 7 b (init_tree 7 (reserved 7 m 65))"
proof -
  obtain N m b where b: "buddy_init h 16 1056 = Ret b" "layout N m 65" "2 * N < m"
    "repr N b (init_tree N (reserved N m 65))" "buddy_base b = 16"
    using buddy_init_repr [of 16 1040 1056 h] not_pow2 [of 10 1040] by (auto simp: ROUNDUP_def)
  have l: "2 ^ (N - 1) \<le> (65::nat)" "65 < (2::nat) ^ N" "m \<le> 2 ^ (N - 2)" using b(2) by (auto simp: layout_def)
  have "(2::nat) ^ (N - 1) < 2 ^ 7" "(2::nat) ^ 6 < 2 ^ N" using l by simp_all
  then have "N - 1 < 7" "6 < N"
    using power_less_imp_less_exp [of "2::nat" "N - 1" 7] power_less_imp_less_exp [of "2::nat" 6 N] by simp_all
  then have "N = 7" by simp
  then show ?thesis using b l(3) by auto
qed

lemma sample_heap_free: "0 < m \<Longrightarrow> m \<le> 32 \<Longrightarrow> (5, 1) \<in> free (init_tree 7 (reserved 7 m 65))"
  by (auto simp: init_tree_def touch_def intro!: bexI [of _ 0])

section \<open>Properties of the allocator\<close>



text \<open>
  C2. Freeing refines the abstract allocator. Given any used block other than a list head,
  \<open>buddy_free\<close> finds its size, never faults, and exactly this block stops being used; the new state
  represents a tree that the abstract allocator reaches by merging and releasing.
\<close>

theorem buddy_free_refines:
  assumes "repr N b t" "0 < N" "(k, i) \<in> used t" "\<forall>j \<le> N. (k, i) \<noteq> (0, 2 * j)"
  shows "block_size b (addr b k i) = Ret k \<and>
    (\<exists>b' t'. buddy_free b (addr b k i) = Ret b' \<and> repr N b' t' \<and> (buddy_step N)\<^sup>*\<^sup>* t t' \<and>
       used t' = used t - {(k, i)})"
  using buddy_free_used [OF assms(1,3,2,4)] block_size_correct [OF assms(1,3) used_below_top [OF assms(1,3,2)]]
  by blast

theorem buddy_free_refines_witness:
  "\<exists>N b t. repr N b t \<and> (0, 1) \<in> used t \<and> block_size b (addr b 0 1) = Ret 0 \<and>
     (\<exists>b'. buddy_free b (addr b 0 1) = Ret b')"
proof -
  obtain m b where b: "14 < m" "repr 7 b (init_tree 7 (reserved 7 m 65))" using sample_heap by blast
  have u: "(0, 1) \<in> used (init_tree 7 (reserved 7 m 65))" using b(1) by (auto simp: init_tree_def)
  moreover have "\<forall>j \<le> 7. (0, 1) \<noteq> (0 :: nat, 2 * j :: nat)" by auto
  ultimately show ?thesis using buddy_free_refines [OF b(2) _ u] b(2) by auto
qed



text \<open>
  C23. The size class of a request. \<open>firstk\<close> returns exactly for requests of up to \<open>2 ^ 63\<close> bytes, and
  then gives the least size whose blocks hold the request; for a larger request its loop never
  ends.
\<close>

theorem firstk_least:
  "(firstk n = None \<longleftrightarrow> 2 ^ 63 < unat n) \<and>
   (\<forall>k. firstk n = Some k \<longrightarrow> unat n \<le> BLK_SIZE k \<and> (\<forall>j. unat n \<le> BLK_SIZE j \<longrightarrow> k \<le> j))"
proof (cases "2 ^ 63 < unat n")
  case True
  then show ?thesis using firstk_diverges by auto
next
  case False
  then show ?thesis using firstk_correct [of n] by (auto simp: not_less)
qed

theorem firstk_least_witness:
  "firstk 4096 = Some 8 \<and> 4096 \<le> BLK_SIZE 8"
  using firstk_least [of 4096] firstk_page by (simp add: PGSIZE_def)



text \<open>
  C21. No fragmentation. A block that was allocated and is freed again leaves the allocator in a
  state that represents the very tree from before the allocation: all splits are undone.
\<close>

theorem buddy_malloc_free_undo:
  assumes r: "repr N b t" and N: "0 < N" and p: "buddy_malloc b n = Ret (p, b1)" "p \<noteq> nullptr"
  shows "\<exists>b2. buddy_free b1 p = Ret b2 \<and> repr N b2 t"
proof -
  have n63: "unat n \<le> 2 ^ 63"
    using p(1) firstk_diverges [of n] by (auto simp: buddy_malloc_def not_less [symmetric])
  obtain k where k: "firstk n = Some k" "unat n \<le> BLK_SIZE k" using firstk_correct [OF n63] by blast
  have "\<exists>j i. k \<le> j \<and> (j, i) \<in> free t" using buddy_malloc_none [OF r k(1)] p by fastforce
  then obtain i t' where i: "p = addr b k i" "buddy_base b1 = buddy_base b" "repr N b1 t'"
    "(k, i) \<notin> used t" "used t' = insert (k, i) (used t)"
    using buddy_malloc_some [OF r k(1)] p(1) by (metis (no_types, lifting) Inr_inject prod.inject)
  have pa: "p = addr b1 k i" using i(1) by (simp add: base_cong [OF i(2)])
  obtain b2 t'' where b2: "buddy_free b1 p = Ret b2" "repr N b2 t''" "used t'' = used t' - {(k, i)}"
    using buddy_free_used [OF i(3) _ N, of k i] i(4,5) reprD(6) [OF r] unfolding pa by blast
  then have "used t'' = used t" using i(4,5) by auto
  then show ?thesis using b2 repr_unique [OF b2(2) reprD(1) [OF r]] by blast
qed

theorem buddy_malloc_free_undo_witness:
  "\<exists>N b t p b1 b2. repr N b t \<and> buddy_malloc b 64 = Ret (p, b1) \<and> p \<noteq> nullptr \<and>
     buddy_free b1 p = Ret b2 \<and> repr N b2 t"
proof -
  obtain m b where b: "14 < m" "m \<le> 32" "repr 7 b (init_tree 7 (reserved 7 m 65))"
    "buddy_base b = 16"
    using sample_heap by blast
  have k: "firstk 64 = Some 2" unfolding firstk_def by (simp add: firstk_loop.simps)
  obtain i b1 where b1: "buddy_malloc b 64 = Ret (addr b 2 i, b1)"
    using buddy_malloc_some [OF b(3) k] sample_heap_free [of m] b(1,2) by fastforce
  have "addr b 2 i \<noteq> nullptr" using b(4) by (simp add: addr_def)
  then show ?thesis using buddy_malloc_free_undo [OF b(3) _ b1] b1 b(3) by fastforce
qed



end
