(* ===== verification/Vm.thy ===== *)
theory Vm
  imports Kalloc Kmonad Bytes
begin

text \<open>
  Virtual memory, \<^verbatim>\<open>src/kernel/memory/vm.c\<close> with the page-table macros of
  \<^verbatim>\<open>src/kernel/hardware/riscv.h\<close> and \<^verbatim>\<open>memlayout.h\<close>, and \<open>proc_mapstacks\<close> of
  \<^verbatim>\<open>src/kernel/process/proc.c\<close>.

  The state is the physical memory, a byte at every address, and the page allocator. Page tables live
  in the memory: an entry is the 64-bit word at its address, as the hardware reads it. Physical addresses
  are natural numbers, virtual addresses 64-bit words, so that arithmetic on them wraps around. A null
  page-table or entry pointer is 0 or \<open>None\<close>.
\<close>

section \<open>Layout of addresses and entries\<close>

definition MAXVA :: u64 where "MAXVA = push_bit 38 1"
definition TRAMPOLINE :: u64 where "TRAMPOLINE = MAXVA - 4096"
definition TRAPFRAME :: u64 where "TRAPFRAME = TRAMPOLINE - 4096"
definition UART0 :: u64 where "UART0 = 0x10000000"
definition VIRTIO0 :: u64 where "VIRTIO0 = 0x10001000"
definition PLIC :: u64 where "PLIC = 0x0c000000"
definition NPROC :: nat where "NPROC = 64"

definition KSTACK :: "nat \<Rightarrow> u64" where
  "KSTACK p = TRAMPOLINE - (of_nat p + 1) * 2 * 4096"

definition PTE_V :: u64 where "PTE_V = 1"
definition PTE_R :: u64 where "PTE_R = 2"
definition PTE_W :: u64 where "PTE_W = 4"
definition PTE_X :: u64 where "PTE_X = 8"
definition PTE_U :: u64 where "PTE_U = 16"

definition PA2PTE :: "nat \<Rightarrow> u64" where
  "PA2PTE pa = push_bit 10 (drop_bit 12 (of_nat pa))"

definition PTE2PA :: "u64 \<Rightarrow> nat" where
  "PTE2PA pte = unat (push_bit 12 (drop_bit 10 pte))"

definition PTE_FLAGS :: "u64 \<Rightarrow> u64" where
  "PTE_FLAGS pte = pte AND 0x3FF"

definition PX :: "nat \<Rightarrow> u64 \<Rightarrow> nat" where
  "PX level va = unat (drop_bit (12 + 9 * level) va AND 0x1FF)"

text \<open>\<open>PGROUNDUP\<close> and \<open>PGROUNDDOWN\<close> on virtual addresses and process sizes.\<close>

definition pg_up :: "u64 \<Rightarrow> u64" where
  "pg_up sz = (sz + 4096 - 1) AND NOT 0xFFF"

definition pg_down :: "u64 \<Rightarrow> u64" where
  "pg_down a = a AND NOT 0xFFF"

section \<open>Memory\<close>

record vmst =
  ram :: "nat \<Rightarrow> u8"
  kheap :: buddy

definition put_bytes :: "nat \<Rightarrow> u8 list \<Rightarrow> (nat \<Rightarrow> u8) \<Rightarrow> (nat \<Rightarrow> u8)" where
  "put_bytes p bs m = (\<lambda>a. if p \<le> a \<and> a < p + length bs then bs ! (a - p) else m a)"

definition get_bytes :: "(nat \<Rightarrow> u8) \<Rightarrow> nat \<Rightarrow> nat \<Rightarrow> u8 list" where
  "get_bytes m p n = map (\<lambda>i. m (p + i)) [0..<n]"

text \<open>A 64-bit word in memory, least significant byte first.\<close>

definition load64 :: "(nat \<Rightarrow> u8) \<Rightarrow> nat \<Rightarrow> u64" where
  "load64 m a = foldr (\<lambda>i w. ucast (m (a + i)) OR push_bit 8 w) [0..<8] 0"

definition bytes64 :: "u64 \<Rightarrow> u8 list" where
  "bytes64 v = map (\<lambda>i. ucast (drop_bit (8 * i) v)) [0..<8]"

definition store64 :: "nat \<Rightarrow> u64 \<Rightarrow> (nat \<Rightarrow> u8) \<Rightarrow> (nat \<Rightarrow> u8)" where
  "store64 a v m = put_bytes a (bytes64 v) m"

definition read64 :: "nat \<Rightarrow> (vmst, u64) kmon" where
  "read64 a = getK (\<lambda>s. load64 (ram s) a)"

definition write64 :: "nat \<Rightarrow> u64 \<Rightarrow> (vmst, unit) kmon" where
  "write64 a v = modK (\<lambda>s. s\<lparr>ram := store64 a v (ram s)\<rparr>)"

definition write_bytes :: "nat \<Rightarrow> u8 list \<Rightarrow> (vmst, unit) kmon" where
  "write_bytes a bs = modK (\<lambda>s. s\<lparr>ram := put_bytes a bs (ram s)\<rparr>)"

text \<open>\<open>memset(p, 0, PGSIZE)\<close>. On the null pointer it faults.\<close>

definition zero_page :: "nat \<Rightarrow> (vmst, unit) kmon" where
  "zero_page p = (if p = nullptr then failK NullDeref else write_bytes p (replicate PGSIZE 0))"

definition vm_kalloc :: "(vmst, nat) kmon" where
  "vm_kalloc = (\<lambda>s. bindR (kalloc (kheap s)) (\<lambda>(p, b). Ret (p, s\<lparr>kheap := b\<rparr>)))"

definition vm_kfree :: "nat \<Rightarrow> (vmst, unit) kmon" where
  "vm_kfree p = (\<lambda>s. bindR (kfree (kheap s) p) (\<lambda>b. Ret ((), s\<lparr>kheap := b\<rparr>)))"

section \<open>Walking page tables\<close>

text \<open>The loop of \<open>walk\<close> over the levels 2 and 1; the result is the address of the entry at level 0.\<close>

primrec walk_levels :: "bool \<Rightarrow> u64 \<Rightarrow> nat list \<Rightarrow> nat \<Rightarrow> (vmst, nat option) kmon" where
  "walk_levels alloc va [] pagetable = retK (Some (pagetable + 8 * PX 0 va))"
| "walk_levels alloc va (level # ls) pagetable =
     (let pte = pagetable + 8 * PX level va in
      bindK (read64 pte) (\<lambda>e.
      if e AND PTE_V \<noteq> 0 then walk_levels alloc va ls (PTE2PA e)
      else if \<not> alloc then retK None
      else
        bindK vm_kalloc (\<lambda>p.
        if p = nullptr then retK None
        else
          thenK (zero_page p)
         (thenK (write64 pte (PA2PTE p OR PTE_V))
                (walk_levels alloc va ls p)))))"

definition walk :: "nat \<Rightarrow> u64 \<Rightarrow> bool \<Rightarrow> (vmst, nat option) kmon" where
  "walk pagetable va alloc =
     (if va \<ge> MAXVA then panicK ''walk'' else walk_levels alloc va [2, 1] pagetable)"

definition walkaddr :: "nat \<Rightarrow> u64 \<Rightarrow> (vmst, nat) kmon" where
  "walkaddr pagetable va =
     (if va \<ge> MAXVA then retK 0
      else
        bindK (walk pagetable va False) (\<lambda>pte.
        case pte of
          None \<Rightarrow> retK 0
        | Some pte \<Rightarrow>
            bindK (read64 pte) (\<lambda>e.
            if e AND PTE_V = 0 then retK 0
            else if e AND PTE_U = 0 then retK 0
            else retK (PTE2PA e))))"

text \<open>
  The loop of \<open>mappages\<close>: \<open>n\<close> is the number of pages from \<open>a\<close> to \<open>last\<close>, so \<open>a = last\<close> exactly when
  it is 0. \<open>map_page\<close> is the body before that test.
\<close>

definition map_page :: "nat \<Rightarrow> u64 \<Rightarrow> u64 \<Rightarrow> nat \<Rightarrow> (vmst, int) kmon" where
  "map_page pagetable perm a pa =
     bindK (walk pagetable a True) (\<lambda>pte.
     case pte of
       None \<Rightarrow> retK (-1)
     | Some pte \<Rightarrow>
         bindK (read64 pte) (\<lambda>e.
         if e AND PTE_V \<noteq> 0 then panicK ''mappages: remap''
         else thenK (write64 pte (PA2PTE pa OR perm OR PTE_V)) (retK 0)))"

primrec mappages_loop :: "nat \<Rightarrow> u64 \<Rightarrow> nat \<Rightarrow> u64 \<Rightarrow> nat \<Rightarrow> (vmst, int) kmon" where
  "mappages_loop pagetable perm 0 a pa = map_page pagetable perm a pa"
| "mappages_loop pagetable perm (Suc n) a pa =
     bindK (map_page pagetable perm a pa) (\<lambda>r.
     if r \<noteq> 0 then retK r else mappages_loop pagetable perm n (a + 4096) (pa + PGSIZE))"

definition mappages :: "nat \<Rightarrow> u64 \<Rightarrow> u64 \<Rightarrow> nat \<Rightarrow> u64 \<Rightarrow> (vmst, int) kmon" where
  "mappages pagetable va sz pa perm =
     (if sz = 0 then panicK ''mappages: size''
      else
        let a = pg_down va; last = pg_down (va + sz - 1)
        in mappages_loop pagetable perm (unat (last - a) div PGSIZE) a pa)"

definition kvmmap :: "nat \<Rightarrow> u64 \<Rightarrow> nat \<Rightarrow> u64 \<Rightarrow> u64 \<Rightarrow> (vmst, unit) kmon" where
  "kvmmap kpgtbl va pa sz perm =
     bindK (mappages kpgtbl va sz pa perm) (\<lambda>r. whenK (r \<noteq> 0) (panicK ''kvmmap''))"

definition proc_mapstacks :: "nat \<Rightarrow> (vmst, unit) kmon" where
  "proc_mapstacks kpgtbl = forK [0..<NPROC] (\<lambda>p.
     bindK vm_kalloc (\<lambda>pa.
     if pa = nullptr then panicK ''kalloc''
     else kvmmap kpgtbl (KSTACK p) pa 4096 (PTE_R OR PTE_W)))"

text \<open>\<open>etext\<close> and \<open>trampoline\<close> are symbols of the linker.\<close>

definition kvmmake :: "nat \<Rightarrow> nat \<Rightarrow> (vmst, nat) kmon" where
  "kvmmake etext trampoline =
     bindK vm_kalloc (\<lambda>kpgtbl.
     thenK (zero_page kpgtbl)
    (thenK (kvmmap kpgtbl UART0 (unat UART0) 4096 (PTE_R OR PTE_W))
    (thenK (kvmmap kpgtbl VIRTIO0 (unat VIRTIO0) 4096 (PTE_R OR PTE_W))
    (thenK (kvmmap kpgtbl PLIC (unat PLIC) 0x400000 (PTE_R OR PTE_W))
    (thenK (kvmmap kpgtbl (of_nat KERNBASE) KERNBASE (of_nat etext - of_nat KERNBASE) (PTE_R OR PTE_X))
    (thenK (kvmmap kpgtbl (of_nat etext) etext (of_nat PHYSTOP - of_nat etext) (PTE_R OR PTE_W))
    (thenK (kvmmap kpgtbl TRAMPOLINE trampoline 4096 (PTE_R OR PTE_X))
    (thenK (proc_mapstacks kpgtbl)
           (retK kpgtbl)))))))))"

section \<open>User memory\<close>

text \<open>One round of \<open>uvmunmap\<close>, and its loop over \<open>a = va, va + PGSIZE, ...\<close> below \<open>va + npages * PGSIZE\<close>.\<close>

definition uvmunmap_page :: "nat \<Rightarrow> bool \<Rightarrow> u64 \<Rightarrow> (vmst, unit) kmon" where
  "uvmunmap_page pagetable do_free a =
     bindK (walk pagetable a False) (\<lambda>pte.
     case pte of
       None \<Rightarrow> panicK ''uvmunmap: walk''
     | Some pte \<Rightarrow>
         bindK (read64 pte) (\<lambda>e.
         if e AND PTE_V = 0 then panicK ''uvmunmap: not mapped''
         else if PTE_FLAGS e = PTE_V then panicK ''uvmunmap: not a leaf''
         else thenK (whenK do_free (vm_kfree (PTE2PA e))) (write64 pte 0)))"

definition uvmunmap :: "nat \<Rightarrow> u64 \<Rightarrow> u64 \<Rightarrow> bool \<Rightarrow> (vmst, unit) kmon" where
  "uvmunmap pagetable va npages do_free =
     (if va mod 4096 \<noteq> 0 then panicK ''uvmunmap: not aligned''
      else
        let end' = va + npages * 4096; n = (if va < end' then unat (end' - va) div PGSIZE else 0)
        in forK [0..<n] (\<lambda>i. uvmunmap_page pagetable do_free (va + of_nat i * 4096)))"

definition uvmcreate :: "(vmst, nat) kmon" where
  "uvmcreate =
     bindK vm_kalloc (\<lambda>pagetable.
     if pagetable = nullptr then retK nullptr else thenK (zero_page pagetable) (retK pagetable))"

definition uvmfirst :: "nat \<Rightarrow> u8 list \<Rightarrow> (vmst, unit) kmon" where
  "uvmfirst pagetable src =
     (if length src \<ge> PGSIZE then panicK ''uvmfirst: more than a page''
      else
        bindK vm_kalloc (\<lambda>mem.
        thenK (zero_page mem)
       (bindK (mappages pagetable 0 4096 mem (PTE_W OR PTE_R OR PTE_X OR PTE_U)) (\<lambda>_.
        write_bytes mem src))))"

definition uvmdealloc :: "nat \<Rightarrow> u64 \<Rightarrow> u64 \<Rightarrow> (vmst, u64) kmon" where
  "uvmdealloc pagetable oldsz newsz =
     (if newsz \<ge> oldsz then retK oldsz
      else
        thenK (whenK (pg_up newsz < pg_up oldsz)
                 (let npages = scast (ucast ((pg_up oldsz - pg_up newsz) div 4096) :: u32)
                  in uvmunmap pagetable (pg_up newsz) npages True))
              (retK newsz))"

text \<open>The loop of \<open>uvmalloc\<close>, with the number \<open>n\<close> of pages left up to \<open>newsz\<close>.\<close>

primrec uvmalloc_loop :: "nat \<Rightarrow> u64 \<Rightarrow> u64 \<Rightarrow> u64 \<Rightarrow> nat \<Rightarrow> u64 \<Rightarrow> (vmst, u64) kmon" where
  "uvmalloc_loop pagetable oldsz newsz xperm 0 a = retK newsz"
| "uvmalloc_loop pagetable oldsz newsz xperm (Suc n) a =
     bindK vm_kalloc (\<lambda>mem.
     if mem = nullptr then thenK (uvmdealloc pagetable a oldsz) (retK 0)
     else
       thenK (zero_page mem)
      (bindK (mappages pagetable a 4096 mem (PTE_R OR PTE_U OR xperm)) (\<lambda>r.
       if r \<noteq> 0 then thenK (vm_kfree mem) (thenK (uvmdealloc pagetable a oldsz) (retK 0))
       else uvmalloc_loop pagetable oldsz newsz xperm n (a + 4096))))"

definition pages_below :: "u64 \<Rightarrow> u64 \<Rightarrow> nat" where
  "pages_below a newsz = (if a < newsz then (unat (newsz - a) + PGSIZE - 1) div PGSIZE else 0)"

definition uvmalloc :: "nat \<Rightarrow> u64 \<Rightarrow> u64 \<Rightarrow> u64 \<Rightarrow> (vmst, u64) kmon" where
  "uvmalloc pagetable oldsz newsz xperm =
     (if newsz < oldsz then retK oldsz
      else let old = pg_up oldsz in uvmalloc_loop pagetable old newsz xperm (pages_below old newsz) old)"

text \<open>
  \<open>freewalk\<close> with the depth of the recursion bounded by \<open>depth\<close>: page tables of the kernel have three
  levels. A table nested deeper would be \<open>Diverge\<close>.
\<close>

primrec freewalk_depth :: "nat \<Rightarrow> nat \<Rightarrow> (vmst, unit) kmon" where
  "freewalk_depth 0 pagetable = failK Diverge"
| "freewalk_depth (Suc depth) pagetable =
     thenK (forK [0..<512] (\<lambda>i.
              bindK (read64 (pagetable + 8 * i)) (\<lambda>pte.
              if pte AND PTE_V \<noteq> 0 \<and> pte AND (PTE_R OR PTE_W OR PTE_X) = 0 then
                thenK (freewalk_depth depth (PTE2PA pte)) (write64 (pagetable + 8 * i) 0)
              else if pte AND PTE_V \<noteq> 0 then panicK ''freewalk: leaf''
              else retK ())))
           (vm_kfree pagetable)"

definition freewalk :: "nat \<Rightarrow> (vmst, unit) kmon" where
  "freewalk pagetable = freewalk_depth 3 pagetable"

definition uvmfree :: "nat \<Rightarrow> u64 \<Rightarrow> (vmst, unit) kmon" where
  "uvmfree pagetable sz =
     thenK (whenK (sz > 0) (uvmunmap pagetable 0 (pg_up sz div 4096) True)) (freewalk pagetable)"

text \<open>The loop of \<open>uvmcopy\<close> with \<open>n\<close> pages left; the error path removes the pages copied so far.\<close>

primrec uvmcopy_loop :: "nat \<Rightarrow> nat \<Rightarrow> nat \<Rightarrow> u64 \<Rightarrow> (vmst, int) kmon" where
  "uvmcopy_loop old new 0 i = retK 0"
| "uvmcopy_loop old new (Suc n) i =
     bindK (walk old i False) (\<lambda>pte.
     case pte of
       None \<Rightarrow> panicK ''uvmcopy: pte should exist''
     | Some pte \<Rightarrow>
         bindK (read64 pte) (\<lambda>e.
         if e AND PTE_V = 0 then panicK ''uvmcopy: page not present''
         else
           bindK vm_kalloc (\<lambda>mem.
           if mem = nullptr then thenK (uvmunmap new 0 (i div 4096) True) (retK (-1))
           else
             bindK (getK (\<lambda>s. get_bytes (ram s) (PTE2PA e) PGSIZE)) (\<lambda>bytes.
             thenK (write_bytes mem bytes)
            (bindK (mappages new i 4096 mem (PTE_FLAGS e)) (\<lambda>r.
             if r \<noteq> 0 then thenK (vm_kfree mem) (thenK (uvmunmap new 0 (i div 4096) True) (retK (-1)))
             else uvmcopy_loop old new n (i + 4096)))))))"

definition uvmcopy :: "nat \<Rightarrow> nat \<Rightarrow> u64 \<Rightarrow> (vmst, int) kmon" where
  "uvmcopy old new sz = uvmcopy_loop old new (pages_below 0 sz) 0"

definition uvmclear :: "nat \<Rightarrow> u64 \<Rightarrow> (vmst, unit) kmon" where
  "uvmclear pagetable va =
     bindK (walk pagetable va False) (\<lambda>pte.
     case pte of
       None \<Rightarrow> panicK ''uvmclear''
     | Some pte \<Rightarrow> bindK (read64 pte) (\<lambda>e. write64 pte (e AND NOT PTE_U)))"

section \<open>Copying between kernel and user memory\<close>

lemma and_plus_and_not: "(x AND m) + (x AND NOT m) = (x :: 'a::len word)"
proof -
  have "(x AND m) + (x AND NOT m) = (x AND m) OR (x AND NOT m)"
    by (rule disjunctive_add) (simp add: bit_and_iff bit_not_iff)
  also have "\<dots> = x" by (auto simp: bit_eq_iff bit_or_iff bit_and_iff bit_not_iff)
  finally show ?thesis .
qed

lemma page_offset: "a - pg_down a = a AND 0xFFF"
  using and_plus_and_not [of a "0xFFF"] unfolding pg_down_def by (metis add_diff_cancel_right')

lemma page_offset_less: "unat (a - pg_down a) < PGSIZE"
proof -
  have "a AND 0xFFF \<le> 0xFFF" by (rule word_and_le1)
  then show ?thesis by (simp add: page_offset word_le_nat_alt PGSIZE_def)
qed

text \<open>\<open>copyout\<close> of the bytes \<open>src\<close>; the result of \<open>copyin\<close> are the bytes copied and the return value.\<close>

function copyout :: "nat \<Rightarrow> u64 \<Rightarrow> u8 list \<Rightarrow> (vmst, int) kmon" where
  "copyout pagetable dstva src =
     (if src = [] then retK 0
      else
        let va0 = pg_down dstva; off = unat (dstva - va0); n = min (PGSIZE - off) (length src) in
        bindK (walkaddr pagetable va0) (\<lambda>pa0.
        if pa0 = 0 then retK (-1)
        else
          thenK (write_bytes (pa0 + off) (take n src))
                (copyout pagetable (va0 + 4096) (drop n src))))"
  by pat_completeness auto
termination
  by (relation "measure (\<lambda>(pt, va, src). length src)") (use page_offset_less in \<open>auto simp: min_def\<close>)

function copyin :: "nat \<Rightarrow> u64 \<Rightarrow> nat \<Rightarrow> (vmst, u8 list \<times> int) kmon" where
  "copyin pagetable srcva len =
     (if len = 0 then retK ([], 0)
      else
        let va0 = pg_down srcva; off = unat (srcva - va0); n = min (PGSIZE - off) len in
        bindK (walkaddr pagetable va0) (\<lambda>pa0.
        if pa0 = 0 then retK ([], -1)
        else
          bindK (getK (\<lambda>s. get_bytes (ram s) (pa0 + off) n)) (\<lambda>bytes.
          bindK (copyin pagetable (va0 + 4096) (len - n)) (\<lambda>(rest, r).
          retK (bytes @ rest, r)))))"
  by pat_completeness auto
termination
  by (relation "measure (\<lambda>(pt, va, len). len)") (use page_offset_less in \<open>auto simp: min_def\<close>)

text \<open>
  \<open>copyinstr\<close>: the inner loop takes the bytes of one page up to a zero byte; the result are the bytes
  written to \<open>dst\<close>, with the zero byte if there is one, and the return value.
\<close>

function copyinstr :: "nat \<Rightarrow> u64 \<Rightarrow> nat \<Rightarrow> (vmst, u8 list \<times> int) kmon" where
  "copyinstr pagetable srcva max_len =
     (if max_len = 0 then retK ([], -1)
      else
        let va0 = pg_down srcva; off = unat (srcva - va0); n = min (PGSIZE - off) max_len in
        bindK (walkaddr pagetable va0) (\<lambda>pa0.
        if pa0 = 0 then retK ([], -1)
        else
          bindK (getK (\<lambda>s. get_bytes (ram s) (pa0 + off) n)) (\<lambda>bytes.
          if 0 \<in> set bytes then retK (takeWhile (\<lambda>c. c \<noteq> 0) bytes @ [0], 0)
          else
            bindK (copyinstr pagetable (va0 + 4096) (max_len - n)) (\<lambda>(rest, r).
            retK (bytes @ rest, r)))))"
  by pat_completeness auto
termination
  by (relation "measure (\<lambda>(pt, va, max_len). max_len)") (use page_offset_less in \<open>auto simp: min_def\<close>)

declare copyout.simps [simp del] copyin.simps [simp del] copyinstr.simps [simp del]

end
