(* ===== verification/Vm_Maps.thy ===== *)
theory Vm_Maps
  imports Vm
begin

text \<open>
  Page tables as maps. The memory of a page table is read as a tree of tables (\<open>tbl\<close>) and as the map
  from virtual addresses to entries that it stands for (\<open>pmap\<close>); \<open>walk\<close> and \<open>mappages\<close> keep the tree
  well formed and change the map only where they should. The copying functions are compared with a
  reference that translates every byte by itself.
\<close>

section \<open>Words in memory\<close>

lemma put_bytes_out [simp]: "a < p \<or> p + length bs \<le> a \<Longrightarrow> put_bytes p bs m a = m a"
  by (auto simp: put_bytes_def)

lemma put_bytes_in: "i < length bs \<Longrightarrow> put_bytes p bs m (p + i) = bs ! i"
  by (simp add: put_bytes_def)

lemma upt8: "[0..<8] = [0, 1, 2, 3, 4, 5, 6, 7]"
  by (simp add: upt_rec)

lemma load64_cong: "(\<And>i. i < 8 \<Longrightarrow> m (a + i) = m' (a + i)) \<Longrightarrow> load64 m a = load64 m' a"
  unfolding load64_def by (rule foldr_cong) auto

lemma bytes_of_word:
  "j \<le> k \<Longrightarrow> foldr (\<lambda>i w. ucast (ucast (drop_bit (8 * i) v) :: u8) OR push_bit 8 w) [j..<k] 0 =
     (take_bit (8 * (k - j)) (drop_bit (8 * j) v) :: u64)"
proof (induction "k - j" arbitrary: j)
  case (Suc d)
  then have "[j..<k] = j # [Suc j..<k]" by (simp add: upt_conv_Cons)
  then show ?case
    using Suc.hyps(1) [of "Suc j"] Suc.hyps(2)
    by (intro bit_eqI)
      (auto simp: bit_or_iff bit_push_bit_iff bit_take_bit_iff bit_drop_bit_eq bit_ucast_iff)
qed simp

lemma load64_bytes: "(\<And>i. i < 8 \<Longrightarrow> m (a + i) = bytes64 v ! i) \<Longrightarrow> load64 m a = v"
proof -
  assume a: "\<And>i. i < 8 \<Longrightarrow> m (a + i) = bytes64 v ! i"
  have "m (a + i) = ucast (drop_bit (8 * i) v)" if "i < 8" for i
    using a [OF that] that by (simp add: bytes64_def)
  then have "load64 m a = foldr (\<lambda>i w. ucast (ucast (drop_bit (8 * i) v) :: u8) OR push_bit 8 w) [0..<8] 0"
    unfolding load64_def by (intro foldr_cong) auto
  also have "\<dots> = v" by (subst bytes_of_word) (simp_all add: take_bit_word_eq_self)
  finally show ?thesis .
qed

lemma load64_store64 [simp]: "load64 (store64 a v m) a = v"
  by (rule load64_bytes) (simp add: store64_def put_bytes_in bytes64_def)

lemma load64_store64_other: "b + 8 \<le> a \<or> a + 8 \<le> b \<Longrightarrow> load64 (store64 a v m) b = load64 m b"
  by (rule load64_cong) (auto simp: store64_def bytes64_def)

lemma load64_put_other: "b + 8 \<le> a \<or> a + length bs \<le> b \<Longrightarrow> load64 (put_bytes a bs m) b = load64 m b"
  by (rule load64_cong) auto

lemma load64_zero: "(\<And>i. i < 8 \<Longrightarrow> m (a + i) = 0) \<Longrightarrow> load64 m a = 0"
  using load64_cong [of m a "\<lambda>_. 0"] by (simp add: load64_def upt8)

section \<open>Pages of virtual addresses\<close>

lemma low_bits: "a AND 0xFFF = (a mod 4096 :: u64)"
  using take_bit_eq_mask [of 12 a] take_bit_eq_mod [of 12 a] by (simp add: mask_eq_exp_minus_1)

lemma unat_offset: "unat (a - pg_down a) = unat a mod PGSIZE"
  by (simp add: page_offset low_bits unat_mod PGSIZE_def)

lemma unat_pg_down: "unat (pg_down a) = unat a div PGSIZE * PGSIZE"
proof -
  have "a - pg_down a + pg_down a = a" by simp
  moreover have "pg_down a \<le> a" unfolding pg_down_def by (rule word_and_le2)
  ultimately have "unat (a - pg_down a) + unat (pg_down a) = unat a" by (simp add: unat_sub word_le_nat_alt)
  then show ?thesis using unat_offset [of a] div_mult_mod_eq [of "unat a" PGSIZE] by linarith
qed

lemma unat_in_page:
  assumes "unat (a :: u64) mod PGSIZE + k < PGSIZE"
  shows "unat (a + of_nat k) = unat a + k"
proof -
  have "unat a < 2 ^ LENGTH(64)" by (rule unsigned_less)
  then have "unat a div PGSIZE < 2 ^ 52" by (simp add: PGSIZE_def less_mult_imp_div_less)
  then have "Suc (unat a div PGSIZE) * PGSIZE \<le> 2 ^ 52 * PGSIZE" by (intro mult_le_mono1) simp
  moreover have "unat a + k < Suc (unat a div PGSIZE) * PGSIZE"
    using assms div_mult_mod_eq [of "unat a" PGSIZE] unfolding mult_Suc by linarith
  ultimately have "unat a + k < 2 ^ 64" by (simp add: PGSIZE_def)
  then show ?thesis by (simp add: unat_word_ariths unat_of_nat)
qed

lemma pg_down_in_page:
  assumes "unat a mod PGSIZE + k < PGSIZE"
  shows "pg_down (a + of_nat k) = pg_down a"
proof -
  have "(unat a + k) div PGSIZE = unat a div PGSIZE"
    using assms div_mult_mod_eq [of "unat a" PGSIZE] by (intro div_nat_eqI) (linarith | unfold mult_Suc mult_Suc_right mult.commute [of PGSIZE])+
  then show ?thesis by (simp add: unat_in_page [OF assms] unat_pg_down word_unat_eq_iff)
qed

lemma next_page: "a + of_nat (PGSIZE - unat a mod PGSIZE) = pg_down a + 4096"
proof -
  have "a = pg_down a + of_nat (unat a mod PGSIZE)" by (simp flip: unat_offset)
  moreover have "unat a mod PGSIZE + (PGSIZE - unat a mod PGSIZE) = 4096" by (simp add: PGSIZE_def)
  then have "of_nat (unat a mod PGSIZE) + of_nat (PGSIZE - unat a mod PGSIZE) = (4096 :: u64)"
    by (metis of_nat_add of_nat_numeral)
  ultimately show ?thesis by (metis add.assoc)
qed

section \<open>Reading a page table\<close>

definition child :: "(nat \<Rightarrow> u8) \<Rightarrow> nat \<Rightarrow> nat \<Rightarrow> nat option" where
  "child m p i = (let e = load64 m (p + 8 * i) in if e AND PTE_V \<noteq> 0 then Some (PTE2PA e) else None)"

primrec tbl :: "(nat \<Rightarrow> u8) \<Rightarrow> nat \<Rightarrow> nat list \<Rightarrow> nat option" where
  "tbl m p [] = Some p"
| "tbl m p (i # is) = (case child m p i of None \<Rightarrow> None | Some q \<Rightarrow> tbl m q is)"

definition pmap :: "(nat \<Rightarrow> u8) \<Rightarrow> nat \<Rightarrow> u64 \<Rightarrow> u64 option" where
  "pmap m root va =
     (if va \<ge> MAXVA then None
      else case tbl m root [PX 2 va, PX 1 va] of
        None \<Rightarrow> None
      | Some p \<Rightarrow> let e = load64 m (p + 8 * PX 0 va) in if e AND PTE_V \<noteq> 0 then Some e else None)"

definition user_page :: "(nat \<Rightarrow> u8) \<Rightarrow> nat \<Rightarrow> u64 \<Rightarrow> nat" where
  "user_page m root va =
     (case pmap m root va of None \<Rightarrow> 0 | Some e \<Rightarrow> if e AND PTE_U = 0 then 0 else PTE2PA e)"

definition user_addr :: "(nat \<Rightarrow> u8) \<Rightarrow> nat \<Rightarrow> u64 \<Rightarrow> nat option" where
  "user_addr m root va =
     (let p = user_page m root (pg_down va) in if p = 0 then None else Some (p + unat va mod PGSIZE))"

lemma walk_lookup:
  "va < MAXVA \<Longrightarrow> walk pt va False s = Ret (map_option (\<lambda>p. p + 8 * PX 0 va) (tbl (ram s) pt [PX 2 va, PX 1 va]), s)"
  by (simp add: walk_def read64_def child_def Let_def bindK_def getK_def retK_def not_le[symmetric])

lemma walkaddr_eq: "walkaddr pt va s = Ret (user_page (ram s) pt va, s)"
  by (auto simp: walkaddr_def walk_lookup bindK_def read64_def user_page_def pmap_def Let_def not_le split: option.split)

section \<open>Copying from user memory\<close>

text \<open>The reference: every byte is translated by itself, until one is not mapped.\<close>

primrec read_user :: "(nat \<Rightarrow> u8) \<Rightarrow> nat \<Rightarrow> u64 \<Rightarrow> nat \<Rightarrow> u8 list \<times> int" where
  "read_user m root va 0 = ([], 0)"
| "read_user m root va (Suc n) =
     (case user_addr m root va of
        None \<Rightarrow> ([], -1)
      | Some pa \<Rightarrow> let (bs, r) = read_user m root (va + 1) n in (m pa # bs, r))"

lemma user_addr_in_page:
  assumes "unat a mod PGSIZE + k < PGSIZE"
  shows "user_addr m root (a + of_nat k) =
    (let p = user_page m root (pg_down a) in if p = 0 then None else Some (p + unat a mod PGSIZE + k))"
proof -
  have "(unat a + k) mod PGSIZE = unat a mod PGSIZE + k" using assms by (metis mod_add_left_eq mod_less)
  then show ?thesis using pg_down_in_page [OF assms] unat_in_page [OF assms] by (simp add: user_addr_def Let_def)
qed

lemma get_bytes_Suc: "get_bytes m p (Suc n) = m p # get_bytes m (Suc p) n"
  by (simp add: get_bytes_def upt_conv_Cons map_Suc_upt [symmetric] del: upt_Suc)

lemma read_user_page:
  assumes "unat va mod PGSIZE + n \<le> PGSIZE" "user_page m root (pg_down va) = p" "p \<noteq> 0"
  shows "read_user m root va (n + k) =
    (let (bs, r) = read_user m root (va + of_nat n) k in (get_bytes m (p + unat va mod PGSIZE) n @ bs, r))"
  using assms
proof (induction n arbitrary: va)
  case 0
  then show ?case by (auto simp: get_bytes_def split: prod.split)
next
  case (Suc n)
  have here: "user_addr m root va = Some (p + unat va mod PGSIZE)"
    using Suc.prems user_addr_in_page [of va 0 m root] by (simp add: Let_def)
  show ?case
  proof (cases n)
    case 0
    then show ?thesis using here by (simp add: get_bytes_def split: prod.split)
  next
    case n: (Suc n')
    then have in_page: "unat va mod PGSIZE + 1 < PGSIZE" using Suc.prems by simp
    then have "unat (va + 1) mod PGSIZE = Suc (unat va mod PGSIZE)" "pg_down (va + 1) = pg_down va"
      using unat_in_page [OF in_page] pg_down_in_page [OF in_page] by (simp_all add: mod_Suc)
    then show ?thesis
      using here Suc.IH [of "va + 1"] Suc.prems by (simp add: get_bytes_Suc add.assoc split: prod.split)
  qed
qed

lemma copyin_eq: "copyin pt va n s = Ret (read_user (ram s) pt va n, s)"
proof (induction n arbitrary: va rule: less_induct)
  case (less n)
  show ?case
  proof (cases "n = 0")
    case True
    then show ?thesis by (simp add: copyin.simps)
  next
    case False
    let ?o = "unat va mod PGSIZE" and ?p = "user_page (ram s) pt (pg_down va)"
    define k where "k = min (PGSIZE - ?o) n"
    have o: "?o < PGSIZE" by (simp add: PGSIZE_def)
    have k: "0 < k" "k \<le> n" "?o + k \<le> PGSIZE" using o False by (auto simp: k_def)
    show ?thesis
    proof (cases "?p = 0")
      case True
      then have "user_addr (ram s) pt va = None" by (simp add: user_addr_def)
      then have "read_user (ram s) pt va n = ([], -1)" using False by (cases n) auto
      then show ?thesis using True False by (simp add: copyin.simps walkaddr_eq bindK_def Let_def)
    next
      case p: False
      have rest: "copyin pt (pg_down va + 4096) (n - k) s = Ret (read_user (ram s) pt (pg_down va + 4096) (n - k), s)"
        using less [of "n - k"] k by simp
      have "read_user (ram s) pt (va + of_nat k) (n - k) = read_user (ram s) pt (pg_down va + 4096) (n - k)"
      proof (cases "k = n")
        case False
        then have "k = PGSIZE - ?o" by (simp add: k_def min_def split: if_splits)
        then show ?thesis using next_page [of va] by simp
      qed simp
      then have "read_user (ram s) pt va n =
          (let (bs, r) = read_user (ram s) pt (pg_down va + 4096) (n - k) in (get_bytes (ram s) (?p + ?o) k @ bs, r))"
        using read_user_page [OF k(3) refl p, of "n - k"] k(2) by simp
      then show ?thesis
        using p False rest unfolding k_def
        by (subst copyin.simps) (simp add: walkaddr_eq bindK_def Let_def unat_offset split: prod.split)
    qed
  qed
qed

text \<open>The reference for strings stops after a zero byte, and fails if there is none among the first \<open>n\<close> bytes.\<close>

primrec read_string :: "(nat \<Rightarrow> u8) \<Rightarrow> nat \<Rightarrow> u64 \<Rightarrow> nat \<Rightarrow> u8 list \<times> int" where
  "read_string m root va 0 = ([], -1)"
| "read_string m root va (Suc n) =
     (case user_addr m root va of
        None \<Rightarrow> ([], -1)
      | Some pa \<Rightarrow>
          if m pa = 0 then ([0], 0)
          else let (bs, r) = read_string m root (va + 1) n in (m pa # bs, r))"

lemma read_string_page:
  assumes "unat va mod PGSIZE + n \<le> PGSIZE" "user_page m root (pg_down va) = p" "p \<noteq> 0"
  shows "read_string m root va (n + k) =
    (let bytes = get_bytes m (p + unat va mod PGSIZE) n; (bs, r) = read_string m root (va + of_nat n) k in
     if 0 \<in> set bytes then (takeWhile (\<lambda>c. c \<noteq> 0) bytes @ [0], 0) else (bytes @ bs, r))"
  using assms
proof (induction n arbitrary: va)
  case 0
  then show ?case by (auto simp: get_bytes_def split: prod.split)
next
  case (Suc n)
  have here: "user_addr m root va = Some (p + unat va mod PGSIZE)"
    using Suc.prems user_addr_in_page [of va 0 m root] by (simp add: Let_def)
  show ?case
  proof (cases n)
    case 0
    then show ?thesis using here by (simp add: get_bytes_def split: prod.split)
  next
    case n: (Suc n')
    then have in_page: "unat va mod PGSIZE + 1 < PGSIZE" using Suc.prems by simp
    then have "unat (va + 1) mod PGSIZE = Suc (unat va mod PGSIZE)" "pg_down (va + 1) = pg_down va"
      using unat_in_page [OF in_page] pg_down_in_page [OF in_page] by (simp_all add: mod_Suc)
    then show ?thesis
      using here Suc.IH [of "va + 1"] Suc.prems by (auto simp: get_bytes_Suc add.assoc Let_def split: prod.split)
  qed
qed

lemma copyinstr_eq: "copyinstr pt va n s = Ret (read_string (ram s) pt va n, s)"
proof (induction n arbitrary: va rule: less_induct)
  case (less n)
  show ?case
  proof (cases "n = 0")
    case True
    then show ?thesis by (simp add: copyinstr.simps)
  next
    case False
    let ?o = "unat va mod PGSIZE" and ?p = "user_page (ram s) pt (pg_down va)"
    define k where "k = min (PGSIZE - ?o) n"
    have o: "?o < PGSIZE" by (simp add: PGSIZE_def)
    have k: "0 < k" "k \<le> n" "?o + k \<le> PGSIZE" using o False by (auto simp: k_def)
    show ?thesis
    proof (cases "?p = 0")
      case True
      then have "user_addr (ram s) pt va = None" by (simp add: user_addr_def)
      then have "read_string (ram s) pt va n = ([], -1)" using False by (cases n) auto
      then show ?thesis using True False by (simp add: copyinstr.simps walkaddr_eq bindK_def Let_def)
    next
      case p: False
      have rest: "copyinstr pt (pg_down va + 4096) (n - k) s = Ret (read_string (ram s) pt (pg_down va + 4096) (n - k), s)"
        using less [of "n - k"] k by simp
      have "read_string (ram s) pt (va + of_nat k) (n - k) = read_string (ram s) pt (pg_down va + 4096) (n - k)"
      proof (cases "k = n")
        case False
        then have "k = PGSIZE - ?o" by (simp add: k_def min_def split: if_splits)
        then show ?thesis using next_page [of va] by simp
      qed simp
      then have "read_string (ram s) pt va n =
          (let bytes = get_bytes (ram s) (?p + ?o) k; (bs, r) = read_string (ram s) pt (pg_down va + 4096) (n - k) in
           if 0 \<in> set bytes then (takeWhile (\<lambda>c. c \<noteq> 0) bytes @ [0], 0) else (bytes @ bs, r))"
        using read_string_page [OF k(3) refl p, of "n - k"] k(2) by simp
      then show ?thesis
        using p False rest unfolding k_def
        by (subst copyinstr.simps) (simp add: walkaddr_eq bindK_def Let_def unat_offset split: prod.split)
    qed
  qed
qed

section \<open>The tree of tables\<close>

definition page :: "nat \<Rightarrow> bool" where
  "page p \<longleftrightarrow> p mod PGSIZE = 0 \<and> 0 < p \<and> p + PGSIZE \<le> PHYSTOP"

definition path_ok :: "nat list \<Rightarrow> bool" where
  "path_ok xs \<longleftrightarrow> length xs \<le> 2 \<and> (\<forall>i \<in> set xs. i < 512)"

definition tables :: "(nat \<Rightarrow> u8) \<Rightarrow> nat \<Rightarrow> nat set" where
  "tables m root = {p. \<exists>xs. path_ok xs \<and> tbl m root xs = Some p}"

text \<open>Every table is a page and is reached by one path only.\<close>

definition pt_wf :: "(nat \<Rightarrow> u8) \<Rightarrow> nat \<Rightarrow> bool" where
  "pt_wf m root \<longleftrightarrow>
     (\<forall>p \<in> tables m root. page p) \<and>
     (\<forall>xs ys p. path_ok xs \<longrightarrow> path_ok ys \<longrightarrow> tbl m root xs = Some p \<longrightarrow> tbl m root ys = Some p \<longrightarrow> xs = ys)"

lemma tbl_append: "tbl m p (xs @ ys) = (case tbl m p xs of None \<Rightarrow> None | Some q \<Rightarrow> tbl m q ys)"
  by (induction xs arbitrary: p) (auto split: option.split)

lemma PX_less: "PX l va < 512"
proof -
  have "drop_bit (12 + 9 * l) va AND 0x1FF \<le> 0x1FF" by (rule word_and_le1)
  then show ?thesis by (simp add: PX_def word_le_nat_alt)
qed

lemma page_apart:
  assumes "page p" "page q" "p \<noteq> q"
  shows "q + PGSIZE \<le> p \<or> p + PGSIZE \<le> q"
proof -
  have "\<exists>a. r = a * PGSIZE" if "page r" for r using that by (metis page_def mod_0_imp_dvd dvd_def mult.commute)
  then obtain a b where ab: "p = a * PGSIZE" "q = b * PGSIZE" using assms(1,2) by blast
  then have "a < b \<or> b < a" using assms(3) by (auto simp: nat_neq_iff)
  then have "Suc a * PGSIZE \<le> b * PGSIZE \<or> Suc b * PGSIZE \<le> a * PGSIZE" by (metis Suc_leI mult_le_mono1)
  then show ?thesis using ab by auto
qed

lemma page_entries_apart:
  assumes "page p" "page q" "i < 512" "j < 512" "(p, i) \<noteq> (q, j)"
  shows "q + 8 * j + 8 \<le> p + 8 * i \<or> p + 8 * i + 8 \<le> q + 8 * j"
  using page_apart [OF assms(1,2)] assms(3-5) by (cases "p = q") (auto simp: PGSIZE_def)

section \<open>Entries\<close>

lemma PTE2PA_PA2PTE:
  assumes "page p" "fl AND NOT 0x3FF = 0"
  shows "PTE2PA (PA2PTE p OR fl) = p"
proof -
  have p: "p < 2 ^ 32" "p mod 2 ^ 12 = 0" using assms(1) by (auto simp: page_def PGSIZE_def PHYSTOP_def KERNBASE_def)
  have low: "\<not> bit p n" if "n < 12" for n
    using p(2) that by (metis bit_take_bit_iff bit_0_eq bot_apply bot_bool_def take_bit_eq_mod)
  have high: "\<not> bit p n" if "32 \<le> n" for n
    using p(1) that by (metis bit_take_bit_iff not_le take_bit_nat_eq_self_iff)
  have "\<not> bit fl n" if "10 \<le> n" for n
  proof -
    have "take_bit 10 fl = fl"
      using assms(2) and_plus_and_not [of fl "0x3FF"] take_bit_eq_mask [of 10 fl] by (simp add: mask_eq_exp_minus_1)
    then show ?thesis using that by (metis bit_take_bit_iff not_le)
  qed
  note fl = this
  have "push_bit 12 (drop_bit 10 (PA2PTE p OR fl)) = (of_nat p :: u64)"
  proof (rule bit_eqI)
    fix n
    show "bit (push_bit 12 (drop_bit 10 (PA2PTE p OR fl))) n \<longleftrightarrow> bit (of_nat p :: u64) n"
      using low [of n] high [of n] fl
      by (cases "12 \<le> n") (auto simp: PA2PTE_def bit_or_iff bit_push_bit_iff bit_drop_bit_eq bit_of_nat_iff)
  qed
  then show ?thesis using p(1) by (simp add: PTE2PA_def unat_of_nat)
qed

lemma PTE_V_flag: "PTE_V AND NOT 0x3FF = 0" "(x OR PTE_V) AND PTE_V \<noteq> 0"
  by (simp_all add: PTE_V_def bit_eq_iff bit_or_iff bit_and_iff exI [of _ 0])

lemma PX_nat: "PX l va = unat va div 2 ^ (12 + 9 * l) mod 512"
proof -
  have "drop_bit (12 + 9 * l) va AND 0x1FF = take_bit 9 (drop_bit (12 + 9 * l) va)"
    unfolding take_bit_eq_mask by (simp add: mask_eq_exp_minus_1)
  moreover have "unat va < 2 ^ LENGTH(64)" by (rule unsigned_less)
  then have "take_bit 64 (unat va) = unat va" by (simp add: take_bit_nat_eq_self)
  ultimately have "PX l va = take_bit 9 (drop_bit (12 + 9 * l) (unat va))"
    by (simp only: PX_def unsigned_take_bit_eq unsigned_drop_bit_eq) simp
  then show ?thesis by (simp add: take_bit_eq_mod drop_bit_eq_div)
qed

lemma page_number: "va < MAXVA \<Longrightarrow> unat va div PGSIZE = (PX 2 va * 512 + PX 1 va) * 512 + PX 0 va"
proof -
  assume "va < MAXVA"
  then have "unat va < 2 ^ 38" by (simp add: MAXVA_def word_less_nat_alt)
  then have b: "unat va div 4096 < 2 ^ 26" by (simp add: less_mult_imp_div_less)
  define n where "n = unat va div 4096"
  have "PX 0 va = n mod 512" "PX 1 va = n div 512 mod 512" "PX 2 va = n div 512 div 512 mod 512"
    by (simp_all add: PX_nat n_def div_mult2_eq [symmetric])
  moreover have "n div 512 div 512 < 512" using b by (simp add: n_def less_mult_imp_div_less)
  ultimately show ?thesis unfolding PGSIZE_def n_def [symmetric] by simp
qed

lemma pg_down_eq_iff: "pg_down a = pg_down b \<longleftrightarrow> unat a div PGSIZE = unat b div PGSIZE"
  by (simp add: word_unat_eq_iff unat_pg_down PGSIZE_def)

lemma PX_pg_down [simp]: "PX l (pg_down va) = PX l va"
proof -
  have "unat va div PGSIZE * PGSIZE div PGSIZE = unat va div PGSIZE" by (simp add: PGSIZE_def)
  then have "unat (pg_down va) div 2 ^ 12 = unat va div 2 ^ 12" by (simp add: unat_pg_down) (simp add: PGSIZE_def)
  then show ?thesis by (simp add: PX_nat power_add div_mult2_eq)
qed

lemma pg_down_less_MAXVA [simp]: "pg_down va < MAXVA \<longleftrightarrow> va < MAXVA"
proof -
  have "unat va < 2 ^ 38 \<longleftrightarrow> unat va div PGSIZE < 2 ^ 26" by (simp add: PGSIZE_def div_less_iff_less_mult)
  also have "\<dots> \<longleftrightarrow> unat va div PGSIZE * PGSIZE < 2 ^ 38" by (simp add: PGSIZE_def)
  finally show ?thesis by (simp add: MAXVA_def word_less_nat_alt unat_pg_down)
qed

lemma same_page_iff:
  "va < MAXVA \<Longrightarrow> vb < MAXVA \<Longrightarrow> pg_down va = pg_down vb \<longleftrightarrow> (\<forall>l \<le> 2. PX l va = PX l vb)"
proof -
  assume v: "va < MAXVA" "vb < MAXVA"
  have "(\<forall>l \<le> 2. PX l va = PX l vb) \<Longrightarrow> pg_down va = pg_down vb"
    using page_number [OF v(1)] page_number [OF v(2)] by (simp add: pg_down_eq_iff)
  moreover have "pg_down va = pg_down vb \<Longrightarrow> PX l va = PX l vb" for l by (metis PX_pg_down)
  ultimately show ?thesis by blast
qed

section \<open>Changing one entry\<close>

lemma tablesI: "path_ok xs \<Longrightarrow> tbl m root xs = Some p \<Longrightarrow> p \<in> tables m root"
  by (auto simp: tables_def)

lemma pt_wfD:
  assumes "pt_wf m root"
  shows "p \<in> tables m root \<Longrightarrow> page p"
    and "tbl m root xs = Some p \<Longrightarrow> tbl m root ys = Some p \<Longrightarrow> path_ok xs \<Longrightarrow> path_ok ys \<Longrightarrow> xs = ys"
  using assms by (auto simp: pt_wf_def)

lemma path_snoc: "path_ok (zs @ [j]) \<Longrightarrow> path_ok zs \<and> j < 512 \<and> length zs \<le> 1"
  by (auto simp: path_ok_def)

text \<open>A new table \<open>q\<close> in an empty entry.\<close>

definition with_table :: "nat \<Rightarrow> nat \<Rightarrow> nat \<Rightarrow> (nat \<Rightarrow> u8) \<Rightarrow> (nat \<Rightarrow> u8)" where
  "with_table p i q m = store64 (p + 8 * i) (PA2PTE q OR PTE_V) (put_bytes q (replicate PGSIZE 0) m)"

lemma with_table_child:
  assumes "page p" "page q" "page r" "r \<noteq> q" "p \<noteq> q" "i < 512" "j < 512"
  shows "child (with_table p i q m) r j = (if r = p \<and> j = i then Some q else child m r j)"
    and "load64 (with_table p i q m) (q + 8 * j) = 0"
proof -
  have "load64 (put_bytes q (replicate PGSIZE 0) m) (r + 8 * j) = load64 m (r + 8 * j)"
    using page_apart [OF assms(3,2,4)] assms(7) by (intro load64_put_other) (auto simp: PGSIZE_def)
  note other = this
  show "child (with_table p i q m) r j = (if r = p \<and> j = i then Some q else child m r j)"
  proof (cases "r = p \<and> j = i")
    case True
    then show ?thesis
      using PTE2PA_PA2PTE [OF assms(2) PTE_V_flag(1)] PTE_V_flag(2) [of "PA2PTE q"]
      by (simp add: child_def with_table_def Let_def)
  next
    case False
    then have "r + 8 * j + 8 \<le> p + 8 * i \<or> p + 8 * i + 8 \<le> r + 8 * j"
      using page_entries_apart [OF assms(1,3,6,7)] by blast
    then show ?thesis using False other by (auto simp: child_def with_table_def Let_def load64_store64_other)
  qed
  have "load64 (put_bytes q (replicate PGSIZE 0) m) (q + 8 * j) = 0"
    using assms(7) by (intro load64_zero) (simp add: put_bytes_def PGSIZE_def)
  then show "load64 (with_table p i q m) (q + 8 * j) = 0"
    using page_entries_apart [OF assms(1,2,6,7)] assms(5) by (auto simp: with_table_def load64_store64_other)
qed

lemma PTE_V_zero: "child m q j = None" if "load64 m (q + 8 * j) = 0"
  using that by (simp add: child_def)

lemma tbl_grow:
  assumes wf: "pt_wf m root" and p: "tbl m root xs = Some p" "path_ok (xs @ [i])" "child m p i = None"
    and q: "page q" "q \<notin> tables m root" and ys: "path_ok ys"
  shows "tbl (with_table p i q m) root ys = (if ys = xs @ [i] then Some q else tbl m root ys)"
  using ys
proof (induction ys rule: rev_induct)
  case Nil
  then show ?case by simp
next
  case (snoc j zs)
  let ?m = "with_table p i q m"
  have xs: "path_ok xs" "i < 512" using path_snoc [OF p(2)] by auto
  have zs: "path_ok zs" "j < 512" using path_snoc [OF snoc.prems] by auto
  have P: "page p" "p \<noteq> q" using pt_wfD(1) [OF wf] tablesI [OF xs(1) p(1)] q by auto
  note IH = snoc.IH [OF zs(1)]
  show ?case
  proof (cases "zs = xs @ [i]")
    case True
    have "child ?m q j = None"
      using with_table_child(2) [OF P(1) q(1) P(1) P(2) P(2) xs(2) zs(2)] by (rule PTE_V_zero)
    moreover have "tbl m root (zs @ [j]) = None" using True p(1,3) by (simp add: tbl_append)
    moreover have "tbl ?m root zs = Some q" using IH True by simp
    ultimately show ?thesis using True tbl_append [of ?m root zs "[j]"] by simp
  next
    case False
    show ?thesis
    proof (cases "tbl m root zs")
      case None
      then have "zs \<noteq> xs" using p(1) by auto
      then show ?thesis using None False IH by (simp add: tbl_append)
    next
      case (Some r)
      then have r: "r \<in> tables m root" by (rule tablesI [OF zs(1)])
      then have "r \<noteq> q" using q(2) by auto
      then have "child ?m r j = (if r = p \<and> j = i then Some q else child m r j)"
        by (rule with_table_child(1) [OF P(1) q(1) pt_wfD(1) [OF wf r] _ P(2) xs(2) zs(2)])
      moreover have "r = p \<longleftrightarrow> zs = xs" using pt_wfD(2) [OF wf Some _ zs(1) xs(1)] p(1) Some by auto
      ultimately show ?thesis using Some False IH by (auto simp: tbl_append split: option.splits)
    qed
  qed
qed

lemma path_leaf: "path_ok [PX l va, PX k va]"
  by (auto simp: path_ok_def PX_less)

definition in_tables :: "(nat \<Rightarrow> u8) \<Rightarrow> nat \<Rightarrow> nat \<Rightarrow> bool" where
  "in_tables m root x \<longleftrightarrow> (\<exists>p \<in> tables m root. p \<le> x \<and> x < p + PGSIZE)"

lemma grow_wf:
  assumes wf: "pt_wf m root" and p: "tbl m root xs = Some p" "path_ok (xs @ [i])" "child m p i = None"
    and q: "page q" "q \<notin> tables m root"
  shows "pt_wf (with_table p i q m) root"
    and "tables (with_table p i q m) root = insert q (tables m root)"
    and "pmap (with_table p i q m) root = pmap m root"
    and "\<not> in_tables (with_table p i q m) root x \<Longrightarrow> with_table p i q m x = m x"
proof -
  let ?m = "with_table p i q m"
  note grow = tbl_grow [OF assms]
  have xs: "path_ok xs" "i < 512" using path_snoc [OF p(2)] by auto
  have P: "page p" "p \<noteq> q" "p \<in> tables m root" using pt_wfD(1) [OF wf] tablesI [OF xs(1) p(1)] q by auto
  have none: "tbl m root (xs @ [i]) = None" using p(1,3) by (simp add: tbl_append)
  show T: "tables ?m root = insert q (tables m root)"
  proof (intro set_eqI iffI)
    fix r assume "r \<in> tables ?m root"
    then obtain ys where "path_ok ys" "tbl ?m root ys = Some r" by (auto simp: tables_def)
    then show "r \<in> insert q (tables m root)" using grow [of ys] tablesI [of ys m root r] by (auto split: if_splits)
  next
    fix r assume "r \<in> insert q (tables m root)"
    then consider "r = q" | ys where "path_ok ys" "tbl m root ys = Some r" by (auto simp: tables_def)
    then show "r \<in> tables ?m root"
    proof cases
      case 1
      then show ?thesis using grow [OF p(2)] by (intro tablesI [OF p(2)]) simp
    next
      case 2
      then have "ys \<noteq> xs @ [i]" using none by auto
      then show ?thesis using 2 grow [OF 2(1)] by (intro tablesI [OF 2(1)]) simp
    qed
  qed
  show "pt_wf ?m root"
    unfolding pt_wf_def T
  proof (intro conjI allI impI)
    show "\<forall>r \<in> insert q (tables m root). page r" using q pt_wfD(1) [OF wf] by auto
    fix ys zs r
    assume a: "path_ok ys" "path_ok zs" "tbl ?m root ys = Some r" "tbl ?m root zs = Some r"
    show "ys = zs"
      using a q(2) pt_wfD(2) [OF wf, of ys r zs] tablesI [of ys m root r] tablesI [of zs m root r] grow [OF a(1)] grow [OF a(2)]
      by (auto split: if_splits)
  qed
  show "pmap ?m root = pmap m root"
  proof
    fix va
    let ?ys = "[PX 2 va, PX 1 va]"
    show "pmap ?m root va = pmap m root va"
    proof (cases "?ys = xs @ [i]")
      case True
      then have "tbl m root ?ys = None" "tbl ?m root ?ys = Some q" using none grow [OF path_leaf, of 2 va 1] by metis+
      moreover have "load64 ?m (q + 8 * PX 0 va) = 0"
        by (rule with_table_child(2) [OF P(1) q(1) P(1) P(2) P(2) xs(2) PX_less])
      ultimately show ?thesis by (simp only: pmap_def option.simps Let_def) simp
    next
      case False
      then have *: "tbl ?m root ?ys = tbl m root ?ys" using grow [OF path_leaf, of 2 va 1] by metis
      show ?thesis
      proof (cases "tbl m root ?ys")
        case None
        then show ?thesis using * by (simp only: pmap_def option.simps)
      next
        case (Some r)
        have r: "r \<in> tables m root" by (rule tablesI [OF path_leaf Some])
        have "r \<noteq> p"
        proof
          assume "r = p"
          then have "?ys = xs" using pt_wfD(2) [OF wf Some _ path_leaf xs(1)] p(1) by simp
          then show False using p(2) by (auto simp: path_ok_def)
        qed
        have "r \<noteq> q" using r q(2) by auto
        then have "load64 (put_bytes q (replicate PGSIZE 0) m) (r + 8 * PX 0 va) = load64 m (r + 8 * PX 0 va)"
          using page_apart [OF pt_wfD(1) [OF wf r] q(1)] PX_less [of 0 va] by (intro load64_put_other) (auto simp: PGSIZE_def)
        then have "load64 ?m (r + 8 * PX 0 va) = load64 m (r + 8 * PX 0 va)"
          using page_entries_apart [OF P(1) pt_wfD(1) [OF wf r] xs(2) PX_less, of 0 va] \<open>r \<noteq> p\<close>
          by (auto simp: with_table_def load64_store64_other)
        then show ?thesis using * Some by (simp only: pmap_def option.simps)
      qed
    qed
  qed
  assume x: "\<not> in_tables ?m root x"
  then have "\<not> (p \<le> x \<and> x < p + PGSIZE)" "\<not> (q \<le> x \<and> x < q + PGSIZE)" using P(3) by (auto simp: in_tables_def T)
  then show "?m x = m x"
    using xs(2) by (auto simp: with_table_def store64_def bytes64_def put_bytes_def PGSIZE_def)
qed

text \<open>Storing a leaf entry.\<close>

lemma leaf_wf:
  assumes wf: "pt_wf m root" and va: "va < MAXVA" and p: "tbl m root [PX 2 va, PX 1 va] = Some p"
    and m': "m' = store64 (p + 8 * PX 0 va) e m"
  shows "path_ok xs \<Longrightarrow> tbl m' root xs = tbl m root xs"
    and "pt_wf m' root" "tables m' root = tables m root"
    and "pmap m' root vb = (if pg_down vb = pg_down va then (if e AND PTE_V \<noteq> 0 then Some e else None) else pmap m root vb)"
    and "\<not> in_tables m root x \<Longrightarrow> m' x = m x"
proof -
  let ?l = "[PX 2 va, PX 1 va]"
  have P: "p \<in> tables m root" "page p" using tablesI [OF path_leaf p] pt_wfD(1) [OF wf] by auto
  have T: "tbl m' root xs = tbl m root xs" if "path_ok xs" for xs
    using that
  proof (induction xs rule: rev_induct)
    case (snoc j zs)
    note zs = path_snoc [OF snoc.prems]
    show ?case
    proof (cases "tbl m root zs")
      case None
      then show ?thesis using snoc.IH zs by (simp add: tbl_append)
    next
      case (Some r)
      have "r \<noteq> p" using pt_wfD(2) [OF wf Some _ _ path_leaf] p zs by auto
      then have "child m' r j = child m r j"
        using page_entries_apart [OF P(2) pt_wfD(1) [OF wf tablesI [OF _ Some]] PX_less, of j 0 va] zs
        by (auto simp: child_def m' load64_store64_other)
      then show ?thesis using Some snoc.IH zs by (simp add: tbl_append split: option.split)
    qed
  qed simp
  show "path_ok xs \<Longrightarrow> tbl m' root xs = tbl m root xs" by (rule T)
  show t: "tables m' root = tables m root" using T by (auto simp: tables_def)
  show "pt_wf m' root" using wf t T by (auto simp: pt_wf_def)
  show "pmap m' root vb = (if pg_down vb = pg_down va then (if e AND PTE_V \<noteq> 0 then Some e else None) else pmap m root vb)"
  proof (cases "vb < MAXVA")
    case False
    then have "pg_down vb \<noteq> pg_down va" using va pg_down_less_MAXVA by metis
    then show ?thesis using False by (simp add: pmap_def not_less)
  next
    case vb: True
    have l: "tbl m' root [PX 2 vb, PX 1 vb] = tbl m root [PX 2 vb, PX 1 vb]" by (rule T [OF path_leaf])
    show ?thesis
    proof (cases "pg_down vb = pg_down va")
      case True
      then have "PX l vb = PX l va" for l by (metis PX_pg_down)
      then show ?thesis using True vb p l m' by (simp only: pmap_def option.simps) (simp add: Let_def not_le [symmetric])
    next
      case False
      show ?thesis
      proof (cases "tbl m root [PX 2 vb, PX 1 vb]")
        case None
        then show ?thesis using False l by (simp only: pmap_def option.simps) simp
      next
        case (Some r)
        have "(p, PX 0 va) \<noteq> (r, PX 0 vb)"
        proof
          assume eq: "(p, PX 0 va) = (r, PX 0 vb)"
          then have "?l = [PX 2 vb, PX 1 vb]" using pt_wfD(2) [OF wf p _ path_leaf path_leaf] Some by simp
          then have "\<forall>l \<le> 2. PX l va = PX l vb" using eq by (auto simp: le_Suc_eq numeral_2_eq_2)
          then show False using same_page_iff [OF va vb] False by simp
        qed
        then have "load64 m' (r + 8 * PX 0 vb) = load64 m (r + 8 * PX 0 vb)"
          using page_entries_apart [OF P(2) pt_wfD(1) [OF wf tablesI [OF path_leaf Some]] PX_less PX_less]
          by (auto simp: m' load64_store64_other)
        then show ?thesis using False l Some by (simp only: pmap_def option.simps if_False)
      qed
    qed
  qed
  assume "\<not> in_tables m root x"
  then have "\<not> (p \<le> x \<and> x < p + PGSIZE)" using P by (auto simp: in_tables_def)
  then show "m' x = m x"
    using PX_less [of 0 va] by (auto simp: m' store64_def bytes64_def put_bytes_def PGSIZE_def)
qed

end
