(* ===== verification/Printf.thy ===== *)
theory Printf
  imports Xv6_Prelude
begin

text \<open>
  Formatted output of the kernel (\<^verbatim>\<open>src/kernel/lib/printf.c\<close>) and of user programs
  (\<^verbatim>\<open>src/user/printf.c\<close>). The result of a call is the characters it hands to \<open>consputc\<close> or \<open>putc\<close>, in
  order; the lock around a call keeps two of them apart. Arguments are the 64-bit slots \<open>va_arg\<close> takes
  them from, \<open>str\<close> gives the string at an address, and a slot that was not passed is \<open>OutOfBounds\<close>, as is
  an index outside of the digit buffer.
\<close>

section \<open>Numbers\<close>

definition digits :: string where
  "digits = ''0123456789abcdef''"

definition user_digits :: string where
  "user_digits = ''0123456789ABCDEF''"

text \<open>
  The loop that fills the buffer, least significant digit first. The code only uses the bases 10 and 16;
  for a base below 2 its loop would not end.
\<close>

function digit_loop :: "string \<Rightarrow> nat \<Rightarrow> nat \<Rightarrow> string" where
  "digit_loop ds base x =
     (if base < 2 then [] else ds ! (x mod base) # (if x div base = 0 then [] else digit_loop ds base (x div base)))"
  by pat_completeness auto
termination
  by (relation "measure (\<lambda>(ds, base, x). x)")
     (auto intro!: div_less_dividend simp: div_eq_0_iff Suc_le_eq not_less)

declare digit_loop.simps [simp del]

text \<open>The buffer is filled, the sign last, and then printed from its end.\<close>

definition flush_buf :: "string \<Rightarrow> string res" where
  "flush_buf buf = (if length buf > 16 then Fail OutOfBounds else Ret (rev buf))"

definition printint :: "u32 \<Rightarrow> nat \<Rightarrow> bool \<Rightarrow> string res" where
  "printint xx base sign =
     (let sign' = (sign \<and> xx <s 0); x = (if sign' then - xx else xx)
      in flush_buf (digit_loop digits base (unat x) @ (if sign' then ''-'' else [])))"

definition printptr :: "u64 \<Rightarrow> string" where
  "printptr x = ''0x'' @ map (\<lambda>i. digits ! unat (drop_bit 60 (push_bit (4 * i) x))) [0..<16]"

definition user_printint :: "u32 \<Rightarrow> nat \<Rightarrow> bool \<Rightarrow> string res" where
  "user_printint xx base sgn1 =
     (let neg = (sgn1 \<and> xx <s 0); x = (if neg then - xx else xx)
      in flush_buf (digit_loop user_digits base (unat x) @ (if neg then ''-'' else [])))"

definition user_printptr :: "u64 \<Rightarrow> string" where
  "user_printptr x = ''0x'' @ map (\<lambda>i. user_digits ! unat (drop_bit 60 (push_bit (4 * i) x))) [0..<16]"

section \<open>Formats\<close>

definition va_arg :: "u64 list \<Rightarrow> (u64 \<times> u64 list) res" where
  "va_arg ap = (case ap of [] \<Rightarrow> Fail OutOfBounds | a # ap' \<Rightarrow> Ret (a, ap'))"

text \<open>The string an argument points to.\<close>

definition str_arg :: "(u64 \<Rightarrow> string) \<Rightarrow> u64 \<Rightarrow> string" where
  "str_arg str s = (if s = 0 then ''(null)'' else str s)"

fun printf :: "(u64 \<Rightarrow> string) \<Rightarrow> string \<Rightarrow> u64 list \<Rightarrow> string res" where
  "printf str [] ap = Ret []"
| "printf str [c] ap = Ret (if c = CHR ''%'' then [] else [c])"
| "printf str (c # d # fmt) ap =
     (if c \<noteq> CHR ''%'' then bindR (printf str (d # fmt) ap) (\<lambda>out. Ret (c # out))
      else if d = CHR ''d'' then
        bindR (va_arg ap) (\<lambda>(a, ap'). bindR (printint (ucast a) 10 True) (\<lambda>x.
        bindR (printf str fmt ap') (\<lambda>out. Ret (x @ out))))
      else if d = CHR ''x'' then
        bindR (va_arg ap) (\<lambda>(a, ap'). bindR (printint (ucast a) 16 True) (\<lambda>x.
        bindR (printf str fmt ap') (\<lambda>out. Ret (x @ out))))
      else if d = CHR ''p'' then
        bindR (va_arg ap) (\<lambda>(a, ap'). bindR (printf str fmt ap') (\<lambda>out. Ret (printptr a @ out)))
      else if d = CHR ''s'' then
        bindR (va_arg ap) (\<lambda>(a, ap'). bindR (printf str fmt ap') (\<lambda>out. Ret (str_arg str a @ out)))
      else if d = CHR ''%'' then bindR (printf str fmt ap) (\<lambda>out. Ret (CHR ''%'' # out))
      else bindR (printf str fmt ap) (\<lambda>out. Ret (CHR ''%'' # d # out)))"

text \<open>The user version keeps the \<open>%\<close> it has seen in a state variable.\<close>

fun vprintf :: "(u64 \<Rightarrow> string) \<Rightarrow> bool \<Rightarrow> string \<Rightarrow> u64 list \<Rightarrow> string res" where
  "vprintf str percent [] ap = Ret []"
| "vprintf str percent (c # fmt) ap =
     (if \<not> percent then
        if c = CHR ''%'' then vprintf str True fmt ap
        else bindR (vprintf str False fmt ap) (\<lambda>out. Ret (c # out))
      else if c = CHR ''d'' then
        bindR (va_arg ap) (\<lambda>(a, ap'). bindR (user_printint (ucast a) 10 True) (\<lambda>x.
        bindR (vprintf str False fmt ap') (\<lambda>out. Ret (x @ out))))
      else if c = CHR ''l'' then
        bindR (va_arg ap) (\<lambda>(a, ap'). bindR (user_printint (ucast a) 10 False) (\<lambda>x.
        bindR (vprintf str False fmt ap') (\<lambda>out. Ret (x @ out))))
      else if c = CHR ''x'' then
        bindR (va_arg ap) (\<lambda>(a, ap'). bindR (user_printint (ucast a) 16 False) (\<lambda>x.
        bindR (vprintf str False fmt ap') (\<lambda>out. Ret (x @ out))))
      else if c = CHR ''p'' then
        bindR (va_arg ap) (\<lambda>(a, ap'). bindR (vprintf str False fmt ap') (\<lambda>out. Ret (user_printptr a @ out)))
      else if c = CHR ''s'' then
        bindR (va_arg ap) (\<lambda>(a, ap'). bindR (vprintf str False fmt ap') (\<lambda>out. Ret (str_arg str a @ out)))
      else if c = CHR ''c'' then
        bindR (va_arg ap) (\<lambda>(a, ap'). bindR (vprintf str False fmt ap')
          (\<lambda>out. Ret (char_of (unat (ucast a :: u8)) # out)))
      else if c = CHR ''%'' then bindR (vprintf str False fmt ap) (\<lambda>out. Ret (c # out))
      else bindR (vprintf str False fmt ap) (\<lambda>out. Ret (CHR ''%'' # c # out)))"

section \<open>Reading a number back\<close>

text \<open>The value of a digit, either case, and of a sequence of digits.\<close>

definition digit_val :: "char \<Rightarrow> nat" where
  "digit_val c =
     (let n = of_char c :: nat in if n \<le> 57 then n - 48 else if n \<le> 70 then n - 55 else n - 87)"

definition digits_val :: "nat \<Rightarrow> string \<Rightarrow> nat" where
  "digits_val base cs = foldl (\<lambda>n c. n * base + digit_val c) 0 cs"

definition read_number :: "nat \<Rightarrow> string \<Rightarrow> int" where
  "read_number base cs =
     (if cs \<noteq> [] \<and> hd cs = CHR ''-'' then - int (digits_val base (tl cs)) else int (digits_val base cs))"

definition good_digits :: "string \<Rightarrow> bool" where
  "good_digits ds \<longleftrightarrow> list_all (\<lambda>i. digit_val (ds ! i) = i \<and> ds ! i \<noteq> CHR ''-'') [0..<16]"

lemma good_digit: "good_digits ds \<Longrightarrow> i < 16 \<Longrightarrow> digit_val (ds ! i) = i \<and> ds ! i \<noteq> CHR ''-''"
  by (simp add: good_digits_def list_all_iff del: upt_Suc)

lemma digits_good [simp]: "good_digits digits" "good_digits user_digits"
  by code_simp+

lemma digit_loop_val:
  assumes "good_digits ds" "1 < base" "base \<le> 16"
  shows "digits_val base (rev (digit_loop ds base x)) = x"
proof (induction x rule: less_induct)
  case (less x)
  have m: "x mod base < 16" using assms(2,3) mod_less_divisor [of base x] by linarith
  then have d: "digit_val (ds ! (x mod base)) = x mod base" using assms(1) good_digit by blast
  show ?case
  proof (cases "x div base = 0")
    case True
    then have "x mod base = x" using assms(2) by (simp add: div_eq_0_iff)
    then show ?thesis using True assms(2) d by (subst digit_loop.simps) (simp add: digits_val_def)
  next
    case False
    then have "x div base < x" using assms(2) by (intro div_less_dividend) (auto simp: div_eq_0_iff)
    from less.IH [OF this] show ?thesis using False assms(2) d
      by (subst digit_loop.simps) (simp add: digits_val_def)
  qed
qed

lemma digit_loop_hd:
  assumes "good_digits ds" "1 < base" "base \<le> 16"
  shows "\<forall>c \<in> set (digit_loop ds base x). c \<noteq> CHR ''-''" "digit_loop ds base x \<noteq> []"
proof -
  show "digit_loop ds base x \<noteq> []" using assms(2) by (subst digit_loop.simps) simp
  show "\<forall>c \<in> set (digit_loop ds base x). c \<noteq> CHR ''-''"
  proof (induction x rule: less_induct)
    case (less x)
    have m: "x mod base < 16" using assms(2,3) mod_less_divisor [of base x] by linarith
    then have d: "ds ! (x mod base) \<noteq> CHR ''-''" using assms(1) good_digit by blast
    show ?case
    proof (cases "x div base = 0")
      case True
      then show ?thesis using assms(2) d by (subst digit_loop.simps) simp
    next
      case False
      then have "x div base < x" using assms(2) by (intro div_less_dividend) (auto simp: div_eq_0_iff)
      from less.IH [OF this] show ?thesis using False assms(2) d by (subst digit_loop.simps) simp
    qed
  qed
qed

lemma digit_loop_length:
  assumes "10 \<le> base" "x < 10 ^ Suc k"
  shows "length (digit_loop ds base x) \<le> Suc k"
  using assms(2)
proof (induction k arbitrary: x)
  case 0
  then have "x div base = 0" using assms(1) by simp
  then show ?case using assms(1) by (subst digit_loop.simps) simp
next
  case (Suc k)
  have "x div base \<le> x div 10" using assms(1) by (intro div_le_mono2) auto
  also have "\<dots> < 10 ^ Suc k" using Suc.prems by (simp add: less_mult_imp_div_less)
  finally show ?case using Suc.IH assms(1) by (subst digit_loop.simps) simp
qed

text \<open>Both versions of \<open>printint\<close> are this function of the digit table.\<close>

definition print_number :: "string \<Rightarrow> u32 \<Rightarrow> nat \<Rightarrow> bool \<Rightarrow> string res" where
  "print_number ds xx base sign =
     (let neg = (sign \<and> xx <s 0); x = (if neg then - xx else xx)
      in flush_buf (digit_loop ds base (unat x) @ (if neg then ''-'' else [])))"

lemma printint_number:
  "printint = print_number digits" "user_printint = print_number user_digits"
  by (simp_all add: fun_eq_iff printint_def user_printint_def print_number_def)

lemma unat_neg32:
  fixes xx :: u32
  assumes "xx <s 0"
  shows "int (unat (- xx)) = - sint xx"
proof -
  have neg: "sint xx < 0" using assms by (simp add: word_sless_alt)
  have low: "- (2 ^ 31) \<le> sint xx" using sint_ge [of xx] by simp
  have "int (unat (- xx)) = uint (- xx)" by simp
  also have "\<dots> = (- uint xx) mod 2 ^ 32" by (simp add: uint_word_ariths)
  also have "\<dots> = (- sint xx) mod 2 ^ 32"
    using uint_sint [of xx] by (simp add: take_bit_eq_mod mod_minus_eq)
  also have "\<dots> = - sint xx" using neg low by simp
  finally show ?thesis .
qed

lemma nonneg32: "\<not> xx <s 0 \<Longrightarrow> uint xx = sint (xx :: u32)"
proof -
  assume "\<not> xx <s 0"
  then have "0 \<le> sint xx" by (simp add: word_sless_alt)
  moreover have "sint xx < 2 ^ 31" using sint_lt [of xx] by simp
  ultimately show ?thesis using uint_sint [of xx] by (simp add: take_bit_eq_mod)
qed

lemma read_number_plain:
  "cs \<noteq> [] \<Longrightarrow> \<forall>c \<in> set cs. c \<noteq> CHR ''-'' \<Longrightarrow> read_number base cs = int (digits_val base cs)"
  by (cases cs) (auto simp: read_number_def)

lemma print_number_reads_back:
  assumes ds: "good_digits ds" and base: "base = 10 \<or> base = 16"
  shows "\<exists>cs. print_number ds xx base sign = Ret cs \<and> length cs \<le> 11 \<and>
           read_number base cs = (if sign then sint xx else uint xx)"
proof -
  have b: "1 < base" "base \<le> 16" "10 \<le> base" using base by auto
  define neg where "neg \<longleftrightarrow> sign \<and> xx <s 0"
  define x where "x = (if neg then - xx else xx)"
  define buf where "buf = digit_loop ds base (unat x)"
  have "unat x < 2 ^ LENGTH(32)" by (rule unsigned_less)
  then have "length buf \<le> Suc 9" unfolding buf_def by (intro digit_loop_length b) simp
  then have len: "length (buf @ (if neg then ''-'' else [])) \<le> 11" by simp
  have v: "digits_val base (rev buf) = unat x" unfolding buf_def by (rule digit_loop_val [OF ds b(1,2)])
  have "rev buf \<noteq> []" "\<forall>c \<in> set (rev buf). c \<noteq> CHR ''-''"
    using digit_loop_hd [OF ds b(1,2), of "unat x"] by (simp_all add: buf_def)
  then have r: "read_number base (rev buf) = int (unat x)" using v read_number_plain by metis
  let ?cs = "rev (buf @ (if neg then ''-'' else []))"
  have "read_number base ?cs = (if sign then sint xx else uint xx)"
  proof (cases neg)
    case True
    then have "read_number base ?cs = - int (unat x)" using v by (simp add: read_number_def)
    then show ?thesis using True unat_neg32 by (simp add: neg_def x_def)
  next
    case False
    then have "read_number base ?cs = uint xx" using r by (simp add: x_def)
    then show ?thesis using False nonneg32 by (auto simp: neg_def)
  qed
  moreover have "print_number ds xx base sign = Ret ?cs"
    using len unfolding print_number_def flush_buf_def Let_def buf_def x_def neg_def by simp
  ultimately show ?thesis using len by (intro exI [of _ ?cs]) (simp only: length_rev simp_thms)
qed

text \<open>
  C34. What the kernel's \<open>printint\<close> prints for an \<open>int\<close>, in either base, is a numeral of at most 11
  characters, so the 16-byte buffer never overflows, and reads back as the number: as the signed value
  with \<open>sign\<close>, also for the smallest \<open>int\<close>, whose negation overflows, and as the unsigned value without.
  The user library prints numerals that read back in the same way.
\<close>

theorem printint_reads_back:
  "\<forall>b. b = 10 \<or> b = 16 \<longrightarrow>
     (\<exists>cs. printint xx b sign = Ret cs \<and> length cs \<le> 11 \<and>
        read_number b cs = (if sign then sint xx else uint xx)) \<and>
     (\<exists>cs. user_printint xx b sign = Ret cs \<and> length cs \<le> 11 \<and>
        read_number b cs = (if sign then sint xx else uint xx))"
  unfolding printint_number using print_number_reads_back by simp

theorem printint_reads_back_witness:
  "printint 0x80000000 10 True = Ret ''-2147483648'' \<and> read_number 10 ''-2147483648'' = - 2147483648 \<and>
   (\<exists>cs. printint 0x80000000 10 True = Ret cs \<and> length cs \<le> 11 \<and> read_number 10 cs = sint (0x80000000 :: u32))"
proof -
  have "\<exists>cs. printint 0x80000000 10 True = Ret cs \<and> length cs \<le> 11 \<and> read_number 10 cs = sint (0x80000000 :: u32)"
    using printint_reads_back [of "0x80000000" True, THEN spec, of 10] by simp
  moreover have "printint 0x80000000 10 True = Ret ''-2147483648''"
    by (simp add: printint_def digit_loop.simps flush_buf_def digits_def word_sless_alt)
  moreover have "read_number 10 ''-2147483648'' = - 2147483648"
    by (simp add: read_number_def digits_val_def digit_val_def Let_def)
  ultimately show ?thesis by simp
qed

end
