(* ===== verification/Virtio.thy ===== *)
theory Virtio
  imports Vm
begin

text \<open>
  The disk driver (\<^verbatim>\<open>src/kernel/hardware/virtio_disk.c\<close>). The state is \<open>struct disk\<close> with the queue pages it
  points to and the \<open>disk\<close> flag of the buffers. What a descriptor points to is a value of \<open>dma\<close>: a command
  header, the data of a buffer, or a status byte. A device register is read through a parameter that gives
  its value after the register writes so far; the device itself is not part of the program. A call that
  would sleep is cut there: \<open>virtio_disk_rw\<close> is the part up to the wait for the device and the part after it.
\<close>

section \<open>Definitions\<close>

definition NUM :: nat where "NUM = 8"
definition VRING_DESC_F_NEXT :: u16 where "VRING_DESC_F_NEXT = 1"
definition VRING_DESC_F_WRITE :: u16 where "VRING_DESC_F_WRITE = 2"
definition VIRTIO_BLK_T_IN :: u32 where "VIRTIO_BLK_T_IN = 0"
definition VIRTIO_BLK_T_OUT :: u32 where "VIRTIO_BLK_T_OUT = 1"

datatype dma = Nowhere | Ops nat | Data nat | Status nat

record virtq_desc =
  dd_addr :: dma
  dd_len :: u32
  dd_flags :: u16
  dd_next :: u16

record virtio_blk_req =
  rq_type :: u32
  rq_reserved :: u32
  rq_sector :: u64

record vdisk =
  vd_desc :: "virtq_desc list"
  av_idx :: u16
  av_ring :: "u16 list"
  us_idx :: u16
  us_ring :: "u32 list"
  vd_free :: "bool list"
  vd_used_idx :: u16
  vd_info_b :: "nat option list"
  vd_info_status :: "u8 list"
  vd_ops :: "virtio_blk_req list"
  b_disk :: "nat \<Rightarrow> bool"
  vd_notified :: nat

definition zero_desc :: virtq_desc where
  "zero_desc = \<lparr>dd_addr = Nowhere, dd_len = 0, dd_flags = 0, dd_next = 0\<rparr>"

definition alloc_desc :: "vdisk \<Rightarrow> nat option \<times> vdisk" where
  "alloc_desc v =
     (case find (\<lambda>i. vd_free v ! i) [0..<NUM] of
        None \<Rightarrow> (None, v)
      | Some i \<Rightarrow> (Some i, v\<lparr>vd_free := (vd_free v)[i := False]\<rparr>))"

definition free_desc :: "nat \<Rightarrow> vdisk \<Rightarrow> vdisk res" where
  "free_desc i v =
     (if i \<ge> NUM then panic ''free_desc 1''
      else if vd_free v ! i then panic ''free_desc 2''
      else Ret (v\<lparr>vd_desc := (vd_desc v)[i := zero_desc], vd_free := (vd_free v)[i := True]\<rparr>))"

definition busy_count :: "vdisk \<Rightarrow> nat" where
  "busy_count v = length (filter (\<lambda>i. i < length (vd_free v) \<and> \<not> vd_free v ! i) [0..<NUM])"

lemma filter_upt_less:
  assumes "i < n" "P i" "\<not> Q i" "\<And>j. Q j \<Longrightarrow> P j"
  shows "length (filter Q [0..<n]) < length (filter P [0..<n])"
proof -
  have "set (filter Q [0..<n]) \<subset> set (filter P [0..<n])" using assms by auto
  then have "card (set (filter Q [0..<n])) < card (set (filter P [0..<n]))" by (intro psubset_card_mono) auto
  then show ?thesis using distinct_card [of "filter Q [0..<n]"] distinct_card [of "filter P [0..<n]"] by simp
qed

lemma free_desc_busy:
  assumes "free_desc i v = Ret v'" "i < length (vd_free v)"
  shows "busy_count v' < busy_count v"
proof -
  have i: "i < NUM" "\<not> vd_free v ! i" "vd_free v' = (vd_free v)[i := True]"
    using assms(1) by (auto simp: free_desc_def split: if_splits)
  show ?thesis unfolding busy_count_def i(3)
    by (rule filter_upt_less [of i]) (use i assms(2) in \<open>auto simp: nth_list_update split: if_splits\<close>)
qed

text \<open>
  The loop of \<open>free_chain\<close> ends: every turn frees a descriptor that was not free. An index outside the table
  is caught by \<open>free_desc\<close>.
\<close>

function free_chain :: "nat \<Rightarrow> vdisk \<Rightarrow> vdisk res" where
  "free_chain i v =
     (if i \<ge> length (vd_free v) then panic ''free_desc 1''
      else
        let flag = dd_flags (vd_desc v ! i); nxt = unat (dd_next (vd_desc v ! i)) in
        bindR (free_desc i v) (\<lambda>v'.
        if flag AND VRING_DESC_F_NEXT \<noteq> 0 then free_chain nxt v' else Ret v'))"
  by pat_completeness auto
termination
  by (relation "measure (\<lambda>(i, v). busy_count v)") (auto intro: free_desc_busy)

declare free_chain.simps [simp del]

definition alloc3_desc :: "vdisk \<Rightarrow> ((nat \<times> nat \<times> nat) option \<times> vdisk) res" where
  "alloc3_desc v =
     (case alloc_desc v of
        (None, v) \<Rightarrow> Ret (None, v)
      | (Some i0, v) \<Rightarrow>
          (case alloc_desc v of
             (None, v) \<Rightarrow> bindR (free_desc i0 v) (\<lambda>v. Ret (None, v))
           | (Some i1, v) \<Rightarrow>
               (case alloc_desc v of
                  (None, v) \<Rightarrow> bindR (free_desc i0 v) (\<lambda>v. bindR (free_desc i1 v) (\<lambda>v. Ret (None, v)))
                | (Some i2, v) \<Rightarrow> Ret (Some (i0, i1, i2), v))))"

definition set_desc :: "nat \<Rightarrow> virtq_desc \<Rightarrow> vdisk \<Rightarrow> vdisk" where
  "set_desc i d v = v\<lparr>vd_desc := (vd_desc v)[i := d]\<rparr>"

text \<open>Up to the wait: the result is \<open>idx[0]\<close>.\<close>

definition virtio_disk_rw_start :: "nat \<Rightarrow> u32 \<Rightarrow> bool \<Rightarrow> vdisk \<Rightarrow> (nat \<times> vdisk) res" where
  "virtio_disk_rw_start b blockno write v =
     (let sector = ucast (blockno * (1024 div 512)) in
      bindR (alloc3_desc v) (\<lambda>(idx, v).
      case idx of
        None \<Rightarrow> Fail Blocked
      | Some (i0, i1, i2) \<Rightarrow>
          let v = v\<lparr>vd_ops := (vd_ops v)[i0 := \<lparr>rq_type = (if write then VIRTIO_BLK_T_OUT else VIRTIO_BLK_T_IN),
                                              rq_reserved = 0, rq_sector = sector\<rparr>]\<rparr>;
              v = set_desc i0 \<lparr>dd_addr = Ops i0, dd_len = 16, dd_flags = VRING_DESC_F_NEXT, dd_next = of_nat i1\<rparr> v;
              v = set_desc i1 \<lparr>dd_addr = Data b, dd_len = 1024,
                               dd_flags = (if write then 0 else VRING_DESC_F_WRITE) OR VRING_DESC_F_NEXT,
                               dd_next = of_nat i2\<rparr> v;
              v = v\<lparr>vd_info_status := (vd_info_status v)[i0 := 0xff]\<rparr>;
              v = set_desc i2 \<lparr>dd_addr = Status i0, dd_len = 1, dd_flags = VRING_DESC_F_WRITE, dd_next = 0\<rparr> v;
              v = v\<lparr>b_disk := (b_disk v)(b := True)\<rparr>;
              v = v\<lparr>vd_info_b := (vd_info_b v)[i0 := Some b]\<rparr>;
              v = v\<lparr>av_ring := (av_ring v)[unat (av_idx v) mod NUM := of_nat i0]\<rparr>;
              v = v\<lparr>av_idx := av_idx v + 1\<rparr>;
              v = v\<lparr>vd_notified := vd_notified v + 1\<rparr>
          in Ret (i0, v)))"

text \<open>After \<open>b->disk\<close> has become 0.\<close>

definition virtio_disk_rw_finish :: "nat \<Rightarrow> vdisk \<Rightarrow> vdisk res" where
  "virtio_disk_rw_finish i0 v = free_chain i0 (v\<lparr>vd_info_b := (vd_info_b v)[i0 := None]\<rparr>)"

lemma word_inc_less: "r \<noteq> (w :: 'a::len word) \<Longrightarrow> unat (w - (r + 1)) < unat (w - r)"
proof -
  assume "r \<noteq> w"
  then have "w - r \<noteq> 0" by simp
  then have "unat (w - r - 1) = unat (w - r) - 1" "0 < unat (w - r)" by (simp_all add: unat_minus_one unat_gt_0)
  then show ?thesis by (simp add: diff_diff_eq)
qed

text \<open>The loop of \<open>virtio_disk_intr\<close>; the second result are the buffers woken up.\<close>

function virtio_disk_intr :: "vdisk \<Rightarrow> (vdisk \<times> nat list) res" where
  "virtio_disk_intr v =
     (if vd_used_idx v \<noteq> us_idx v then
        let i = unat (us_ring v ! (unat (vd_used_idx v) mod NUM)) in
        if i \<ge> NUM then Fail OutOfBounds
        else if vd_info_status v ! i \<noteq> 0 then panic ''virtio_disk_intr status''
        else case vd_info_b v ! i of
               None \<Rightarrow> Fail NullDeref
             | Some b \<Rightarrow>
                 bindR (virtio_disk_intr (v\<lparr>b_disk := (b_disk v)(b := False), vd_used_idx := vd_used_idx v + 1\<rparr>))
                   (\<lambda>(v, woken). Ret (v, b # woken))
      else Ret (v, []))"
  by pat_completeness auto
termination
  by (relation "measure (\<lambda>v. unat (us_idx v - vd_used_idx v))") (auto intro: word_inc_less)

declare virtio_disk_intr.simps [simp del]

section \<open>Initialisation\<close>

text \<open>
  \<open>rd ws r\<close> is the value of register \<open>r\<close> after the writes \<open>ws\<close>. The result are the writes and the addresses
  of the three queue pages.
\<close>

definition features_mask :: u64 where
  "features_mask = NOT (push_bit 5 1) AND NOT (push_bit 7 1) AND NOT (push_bit 11 1) AND NOT (push_bit 12 1)
     AND NOT (push_bit 27 1) AND NOT (push_bit 29 1) AND NOT (push_bit 28 1)"

type_synonym mmio = "(nat \<times> u32) list"

definition virtio_disk_init :: "(mmio \<Rightarrow> nat \<Rightarrow> u32) \<Rightarrow> (vmst, mmio \<times> nat \<times> nat \<times> nat) kmon" where
  "virtio_disk_init rd =
     (if rd [] 0 \<noteq> 0x74726976 \<or> rd [] 4 \<noteq> 2 \<or> rd [] 8 \<noteq> 2 \<or> rd [] 12 \<noteq> 0x554d4551
      then panicK ''could not find virtio disk''
      else
        let ws = [(0x70, 0), (0x70, 1), (0x70, 1 OR 2)];
            features = ucast (rd ws 0x10) AND features_mask;
            ws = ws @ [(0x20, ucast features), (0x70, 1 OR 2 OR 8)];
            status = rd ws 0x70
        in
        if status AND 8 = 0 then panicK ''virtio disk FEATURES_OK unset''
        else
          let ws = ws @ [(0x30, 0)] in
          if rd ws 0x44 \<noteq> 0 then panicK ''virtio disk should not be ready''
          else if rd ws 0x34 = 0 then panicK ''virtio disk has no queue 0''
          else if unat (rd ws 0x34) < NUM then panicK ''virtio disk max queue too short''
          else
            bindK vm_kalloc (\<lambda>desc. bindK vm_kalloc (\<lambda>avail. bindK vm_kalloc (\<lambda>used.
            if desc = 0 \<or> avail = 0 \<or> used = 0 then panicK ''virtio disk kalloc''
            else
              thenK (zero_page desc) (thenK (zero_page avail) (thenK (zero_page used)
             (retK (ws @
               [(0x38, of_nat NUM),
                (0x80, of_nat desc), (0x84, of_nat (desc div 2 ^ 32)),
                (0x90, of_nat avail), (0x94, of_nat (avail div 2 ^ 32)),
                (0xa0, of_nat used), (0xa4, of_nat (used div 2 ^ 32)),
                (0x44, 1), (0x70, status OR 4)], desc, avail, used))))))))"

text \<open>The software state after initialisation: zeroed queue pages and all descriptors free.\<close>

definition vdisk_init :: vdisk where
  "vdisk_init =
     \<lparr>vd_desc = replicate NUM zero_desc, av_idx = 0, av_ring = replicate NUM 0, us_idx = 0,
      us_ring = replicate NUM 0, vd_free = replicate NUM True, vd_used_idx = 0,
      vd_info_b = replicate NUM None, vd_info_status = replicate NUM 0,
      vd_ops = replicate NUM \<lparr>rq_type = 0, rq_reserved = 0, rq_sector = 0\<rparr>, b_disk = (\<lambda>_. False), vd_notified = 0\<rparr>"

section \<open>The life of a request\<close>

definition vdisk_ok :: "vdisk \<Rightarrow> bool" where
  "vdisk_ok v \<longleftrightarrow> length (vd_desc v) = NUM \<and> length (av_ring v) = NUM \<and> length (us_ring v) = NUM \<and>
     length (vd_free v) = NUM \<and> length (vd_info_b v) = NUM \<and> length (vd_info_status v) = NUM \<and>
     length (vd_ops v) = NUM"

definition free_set :: "vdisk \<Rightarrow> nat set" where
  "free_set v = {i. i < NUM \<and> vd_free v ! i}"

text \<open>The chain of three descriptors from \<open>i0\<close>, as a device reads it.\<close>

definition chain :: "vdisk \<Rightarrow> nat \<Rightarrow> virtq_desc list" where
  "chain v i0 =
     (let d0 = vd_desc v ! i0; d1 = vd_desc v ! unat (dd_next d0); d2 = vd_desc v ! unat (dd_next d1)
      in [d0, d1, d2])"

text \<open>The chain asks for the transfer of block \<open>blockno\<close> from or to buffer \<open>b\<close>.\<close>

definition describes :: "vdisk \<Rightarrow> nat \<Rightarrow> nat \<Rightarrow> u32 \<Rightarrow> bool \<Rightarrow> bool" where
  "describes v i0 b blockno write \<longleftrightarrow>
     map dd_addr (chain v i0) = [Ops i0, Data b, Status i0] \<and>
     map dd_len (chain v i0) = [16, 1024, 1] \<and>
     map (\<lambda>d. dd_flags d AND VRING_DESC_F_NEXT \<noteq> 0) (chain v i0) = [True, True, False] \<and>
     map (\<lambda>d. dd_flags d AND VRING_DESC_F_WRITE \<noteq> 0) (chain v i0) = [False, \<not> write, True] \<and>
     vd_ops v ! i0 = \<lparr>rq_type = (if write then VIRTIO_BLK_T_OUT else VIRTIO_BLK_T_IN), rq_reserved = 0,
                     rq_sector = ucast (blockno * 2)\<rparr>"

text \<open>
  What the virtio specification has a device do with a request that succeeds: it writes the status byte
  0, puts the head of the chain into the used ring, and increments the index of the ring. It writes to
  nothing else that the driver owns but the data buffer.
\<close>

definition device_done :: "nat \<Rightarrow> vdisk \<Rightarrow> vdisk" where
  "device_done i0 v =
     v\<lparr>vd_info_status := (vd_info_status v)[i0 := 0],
       us_ring := (us_ring v)[unat (us_idx v) mod NUM := of_nat i0], us_idx := us_idx v + 1\<rparr>"

lemma alloc_desc_cases:
  assumes "vdisk_ok v"
  obtains "free_set v = {}" "alloc_desc v = (None, v)"
    | i where "i \<in> free_set v" "alloc_desc v = (Some i, v\<lparr>vd_free := (vd_free v)[i := False]\<rparr>)"
proof (cases "find (\<lambda>i. vd_free v ! i) [0..<NUM]")
  case None
  then have "free_set v = {}" by (auto simp: find_None_iff free_set_def)
  then show thesis using None that(1) by (simp add: alloc_desc_def)
next
  case (Some i)
  then have "i \<in> free_set v" by (auto simp: find_Some_iff free_set_def)
  then show thesis using Some that(2) by (simp add: alloc_desc_def)
qed

lemma free_set_alloc:
  "vdisk_ok v \<Longrightarrow> i < NUM \<Longrightarrow> free_set (v\<lparr>vd_free := (vd_free v)[i := False]\<rparr>) = free_set v - {i}"
  "vdisk_ok v \<Longrightarrow> vdisk_ok (v\<lparr>vd_free := (vd_free v)[i := x]\<rparr>)"
  by (auto simp: free_set_def vdisk_ok_def nth_list_update)

lemma free_desc_ok:
  assumes "vdisk_ok v" "i < NUM" "i \<notin> free_set v"
  shows "\<exists>v'. free_desc i v = Ret v' \<and> free_set v' = insert i (free_set v) \<and>
    vdisk_ok v' \<and> v' = v\<lparr>vd_desc := (vd_desc v)[i := zero_desc], vd_free := (vd_free v)[i := True]\<rparr>"
  using assms by (auto simp: free_desc_def free_set_def vdisk_ok_def nth_list_update)

text \<open>\<open>alloc3_desc\<close> takes three descriptors, or none.\<close>

lemma alloc3_desc_cases:
  assumes ok: "vdisk_ok v"
  shows "(\<exists>i0 i1 i2. alloc3_desc v =
            Ret (Some (i0, i1, i2), v\<lparr>vd_free := (vd_free v)[i0 := False, i1 := False, i2 := False]\<rparr>) \<and>
            {i0, i1, i2} \<subseteq> free_set v \<and> distinct [i0, i1, i2]) \<or>
         (\<exists>v'. alloc3_desc v = Ret (None, v') \<and> card (free_set v) < 3 \<and> free_set v' = free_set v \<and> vdisk_ok v')"
  using ok
proof (cases rule: alloc_desc_cases)
  case 1
  then show ?thesis using ok by (simp add: alloc3_desc_def)
next
  case (2 i0)
  define v1 where "v1 = v\<lparr>vd_free := (vd_free v)[i0 := False]\<rparr>"
  have i0: "i0 < NUM" using 2 by (simp add: free_set_def)
  have f1: "free_set v1 = free_set v - {i0}" and ok1: "vdisk_ok v1"
    using free_set_alloc [OF ok] i0 by (simp_all add: v1_def)
  note a1 = 2 [folded v1_def]
  from ok1 show ?thesis
  proof (cases rule: alloc_desc_cases)
    case 1
    have "free_set v = {i0}" using 1 f1 a1 by auto
    moreover obtain v' where "free_desc i0 v1 = Ret v'" "free_set v' = insert i0 (free_set v1)" "vdisk_ok v'"
      using free_desc_ok [OF ok1 i0] f1 by blast
    ultimately show ?thesis using 1 a1 f1 by (simp add: alloc3_desc_def)
  next
    case (2 i1)
    define v2 where "v2 = v1\<lparr>vd_free := (vd_free v1)[i1 := False]\<rparr>"
    have i1: "i1 < NUM" "i1 \<noteq> i0" "i1 \<in> free_set v" using 2 f1 by (auto simp: free_set_def)
    have f2: "free_set v2 = free_set v1 - {i1}" and ok2: "vdisk_ok v2"
      using free_set_alloc [OF ok1] i1 by (simp_all add: v2_def)
    note a2 = 2 [folded v2_def]
    from ok2 show ?thesis
    proof (cases rule: alloc_desc_cases)
      case 1
      have fs: "free_set v = {i0, i1}" using 1 f1 f2 a1 i1 by auto
      obtain v3 where v3: "free_desc i0 v2 = Ret v3" "free_set v3 = insert i0 (free_set v2)" "vdisk_ok v3"
        using free_desc_ok [OF ok2 i0] f1 f2 by blast
      obtain v4 where "free_desc i1 v3 = Ret v4" "free_set v4 = insert i1 (free_set v3)" "vdisk_ok v4"
        using free_desc_ok [OF v3(3) i1(1)] v3(2) f1 f2 i1(2) by blast
      then show ?thesis using 1 a1 a2 v3 f1 f2 fs i1(2) by (auto simp: alloc3_desc_def)
    next
      case (2 i2)
      then show ?thesis using a1 a2 f1 f2 i1 by (auto simp: alloc3_desc_def v1_def v2_def)
    qed
  qed
qed

lemma small_index [simp]:
  "i < NUM \<Longrightarrow> unat (word_of_nat i :: u16) = i" "i < NUM \<Longrightarrow> unat (word_of_nat i :: u32) = i"
  by (simp_all add: NUM_def unat_of_nat)

text \<open>
  C17. A disk request goes through its whole life. If three descriptors are free, \<open>virtio_disk_rw\<close> posts a
  chain that tells the device to transfer that block from or to that buffer, in the next slot of the available
  ring, and marks the buffer as owned by the disk. When the device has completed it, the interrupt handler
  gives the buffer back and wakes up its owner only, and freeing the chain makes exactly the descriptors free
  that were free before: none is lost, none is freed twice.
\<close>

theorem virtio_request_cycle:
  assumes ok: "vdisk_ok v" and three: "3 \<le> card (free_set v)" and idle: "vd_used_idx v = us_idx v"
  shows "\<exists>i0 v1 v2 v3. virtio_disk_rw_start b blockno write v = Ret (i0, v1) \<and>
    describes v1 i0 b blockno write \<and> av_ring v1 = (av_ring v)[unat (av_idx v) mod NUM := of_nat i0] \<and>
    av_idx v1 = av_idx v + 1 \<and> b_disk v1 = (b_disk v)(b := True) \<and> card (free_set v1) + 3 = card (free_set v) \<and>
    virtio_disk_intr (device_done i0 v1) = Ret (v2, [b]) \<and> b_disk v2 = (b_disk v)(b := False) \<and>
    virtio_disk_rw_finish i0 v2 = Ret v3 \<and> free_set v3 = free_set v \<and> vdisk_ok v3"
proof -
  obtain i0 i1 i2 where a: "alloc3_desc v =
        Ret (Some (i0, i1, i2), v\<lparr>vd_free := (vd_free v)[i0 := False, i1 := False, i2 := False]\<rparr>)"
      and sub: "{i0, i1, i2} \<subseteq> free_set v" and d: "i0 \<noteq> i1" "i0 \<noteq> i2" "i1 \<noteq> i2"
    using alloc3_desc_cases [OF ok] three by fastforce
  have i: "i0 < NUM" "i1 < NUM" "i2 < NUM" using sub by (auto simp: free_set_def)
  have len: "length (vd_desc v) = NUM" "length (vd_free v) = NUM" "length (vd_info_b v) = NUM"
    "length (vd_info_status v) = NUM" "length (vd_ops v) = NUM" "length (us_ring v) = NUM"
    using ok by (simp_all add: vdisk_ok_def)
  let ?d0 = "\<lparr>dd_addr = Ops i0, dd_len = 16, dd_flags = VRING_DESC_F_NEXT, dd_next = of_nat i1\<rparr>"
    and ?d1 = "\<lparr>dd_addr = Data b, dd_len = 1024,
       dd_flags = (if write then 0 else VRING_DESC_F_WRITE) OR VRING_DESC_F_NEXT, dd_next = of_nat i2\<rparr>"
    and ?d2 = "\<lparr>dd_addr = Status i0, dd_len = 1, dd_flags = VRING_DESC_F_WRITE, dd_next = 0\<rparr>"
  define v1 where "v1 = v\<lparr>vd_desc := (vd_desc v)[i0 := ?d0, i1 := ?d1, i2 := ?d2],
      av_idx := av_idx v + 1, av_ring := (av_ring v)[unat (av_idx v) mod NUM := of_nat i0],
      vd_free := (vd_free v)[i0 := False, i1 := False, i2 := False],
      vd_info_b := (vd_info_b v)[i0 := Some b], vd_info_status := (vd_info_status v)[i0 := 0xff],
      vd_ops := (vd_ops v)[i0 := \<lparr>rq_type = (if write then VIRTIO_BLK_T_OUT else VIRTIO_BLK_T_IN),
                                 rq_reserved = 0, rq_sector = ucast (blockno * 2)\<rparr>],
      b_disk := (b_disk v)(b := True), vd_notified := vd_notified v + 1\<rparr>"
  have start: "virtio_disk_rw_start b blockno write v = Ret (i0, v1)"
    by (simp add: virtio_disk_rw_start_def a Let_def set_desc_def v1_def)
  have desc: "vd_desc v1 ! i0 = ?d0" "vd_desc v1 ! i1 = ?d1" "vd_desc v1 ! i2 = ?d2"
    using d i len by (simp_all add: v1_def nth_list_update)
  have f1: "free_set v1 = free_set v - {i0, i1, i2}"
    using i len by (auto simp: free_set_def v1_def nth_list_update)
  have "describes v1 i0 b blockno write"
    using desc i len by (simp add: describes_def chain_def Let_def VRING_DESC_F_NEXT_def VRING_DESC_F_WRITE_def)
       (simp add: v1_def)
  moreover have "card (free_set v1) + 3 = card (free_set v)"
  proof -
    have "card {i0, i1, i2} = 3" using d by simp
    moreover have "finite (free_set v)" by (simp add: free_set_def)
    ultimately show ?thesis using f1 sub card_Diff_subset [of "{i0, i1, i2}" "free_set v"] three by simp
  qed
  moreover define v2 where "v2 = (device_done i0 v1)\<lparr>b_disk := (b_disk v)(b := False), vd_used_idx := vd_used_idx v + 1\<rparr>"
  have "virtio_disk_intr (device_done i0 v1) = Ret (v2, [b])"
    using i len idle by (subst virtio_disk_intr.simps, subst virtio_disk_intr.simps)
      (simp add: device_done_def v1_def v2_def Let_def NUM_def)
  moreover have "b_disk v2 = (b_disk v)(b := False)" by (simp add: v2_def)
  moreover have "\<exists>v3. virtio_disk_rw_finish i0 v2 = Ret v3 \<and> free_set v3 = free_set v \<and> vdisk_ok v3"
  proof -
    define w where "w = v2\<lparr>vd_info_b := (vd_info_b v2)[i0 := None]\<rparr>"
    have w: "vd_desc w = vd_desc v1" "free_set w = free_set v1" "vdisk_ok w"
      using ok by (simp_all add: w_def v2_def device_done_def v1_def free_set_def vdisk_ok_def)
    obtain w1 where w1: "free_desc i0 w = Ret w1" "free_set w1 = insert i0 (free_set w)" "vdisk_ok w1"
        "vd_desc w1 = (vd_desc w)[i0 := zero_desc]"
      using free_desc_ok [OF w(3) i(1)] f1 w(2) by fastforce
    obtain w2 where w2: "free_desc i1 w1 = Ret w2" "free_set w2 = insert i1 (free_set w1)" "vdisk_ok w2"
        "vd_desc w2 = (vd_desc w1)[i1 := zero_desc]"
      using free_desc_ok [OF w1(3) i(2)] f1 w(2) w1(2) d by fastforce
    obtain w3 where w3: "free_desc i2 w2 = Ret w3" "free_set w3 = insert i2 (free_set w2)" "vdisk_ok w3"
      using free_desc_ok [OF w2(3) i(3)] f1 w(2) w1(2) w2(2) d by fastforce
    have e: "vd_desc w ! i0 = ?d0" "vd_desc w1 ! i1 = ?d1" "vd_desc w2 ! i2 = ?d2"
      using desc w(1) w1(4) w2(4) d by simp_all
    have l: "length (vd_free w) = NUM" "length (vd_free w1) = NUM" "length (vd_free w2) = NUM"
      using w(3) w1(3) w2(3) by (simp_all add: vdisk_ok_def)
    have "free_chain i2 w2 = Ret w3"
      using e l i w3(1) by (subst free_chain.simps) (simp add: Let_def VRING_DESC_F_NEXT_def VRING_DESC_F_WRITE_def)
    then have "free_chain i1 w1 = Ret w3"
      using e l i w2(1) by (subst free_chain.simps) (simp add: Let_def VRING_DESC_F_NEXT_def VRING_DESC_F_WRITE_def)
    then have "free_chain i0 w = Ret w3"
      using e l i w1(1) by (subst free_chain.simps) (simp add: Let_def VRING_DESC_F_NEXT_def)
    moreover have "free_set w3 = free_set v" using w3(2) w2(2) w1(2) w(2) f1 sub by auto
    ultimately show ?thesis using w3(3) by (simp add: virtio_disk_rw_finish_def w_def)
  qed
  moreover have "av_ring v1 = (av_ring v)[unat (av_idx v) mod NUM := of_nat i0]" "av_idx v1 = av_idx v + 1"
    "b_disk v1 = (b_disk v)(b := True)" by (simp_all add: v1_def)
  ultimately show ?thesis using start by blast
qed

theorem virtio_request_cycle_witness:
  "vdisk_ok vdisk_init \<and> card (free_set vdisk_init) = 8 \<and>
   (\<exists>i0 v1 v2 v3. virtio_disk_rw_start 5 46 True vdisk_init = Ret (i0, v1) \<and> describes v1 i0 5 46 True \<and>
      virtio_disk_intr (device_done i0 v1) = Ret (v2, [5]) \<and> virtio_disk_rw_finish i0 v2 = Ret v3 \<and>
      free_set v3 = free_set vdisk_init)"
proof -
  have ok: "vdisk_ok vdisk_init" by (simp add: vdisk_ok_def vdisk_init_def)
  have "free_set vdisk_init = {..<8}" by (auto simp: free_set_def vdisk_init_def NUM_def)
  then have card: "card (free_set vdisk_init) = 8" by simp
  have "vd_used_idx vdisk_init = us_idx vdisk_init" by (simp add: vdisk_init_def)
  from virtio_request_cycle [OF ok _ this, of 5 46 True] show ?thesis using ok card by force
qed

end
