(* ===== verification/Kstate.thy ===== *)
theory Kstate
  imports Fs Vm_Maps Pipe Console Printf Virtio
begin

text \<open>
  The state of the whole kernel and what every part of it uses: the current process, the wakeup of sleeping
  processes, and copying to and from the memory of the current process (parts of
  \<^verbatim>\<open>src/kernel/process/proc.c\<close> and \<^verbatim>\<open>proc.h\<close>, and \<open>struct file\<close> of \<^verbatim>\<open>src/kernel/file/file.h\<close>).

  The record \<open>kst\<close> extends the state of the file system. A kernel function runs without interference up
  to the point where it sleeps: a call that sleeps is the fault \<open>Blocked\<close>, and what the locks are for is
  the subject of other theories. Processes are slots of the process table, files and pipes are found at
  the address of their memory; a file that is not there has been freed. Process identifiers are unbounded.
  \<open>fs_ready\<close> is the negation of the flag \<open>first\<close> of \<open>forkret\<close>, and \<open>stack_junk\<close> what is on the kernel stack where a
  function leaves padding bytes uninitialised.
\<close>

section \<open>Processes and files\<close>

datatype procstate = UNUSED | USED | SLEEPING | RUNNABLE | RUNNING | ZOMBIE

text \<open>What a process can sleep on: the address in the code is that of an object.\<close>

datatype chan = ChProc nat | ChPipe nat pipe_chan | ChTicks | ChCons | ChUart | ChBuf nat

record kcontext =
  ctx_ra :: u64
  ctx_sp :: u64
  ctx_s :: "u64 list"

record proc =
  p_state :: procstate
  p_chan :: "chan option"
  p_killed :: bool
  p_xstate :: u32
  p_pid :: int
  p_parent :: "nat option"
  p_kstack :: u64
  p_sz :: u64
  p_pagetable :: nat
  p_trapframe :: nat
  p_context :: kcontext
  p_ofile :: "nat list"
  p_cwd :: "nat option"
  p_name :: "u8 list"

text \<open>\<open>readable\<close> and \<open>writable\<close> are the C integers that the code stores there.\<close>

datatype fd_type = FD_NONE | FD_PIPE | FD_INODE | FD_DEVICE

record kfile =
  f_type :: fd_type
  f_ref :: int
  f_readable :: int
  f_writable :: int
  f_pipe :: nat
  f_ip :: "nat option"
  f_off :: u32
  f_major :: u16

definition NOFILE :: nat where "NOFILE = 16"
definition NDEV :: nat where "NDEV = 10"
definition CONSOLE :: u16 where "CONSOLE = 1"

text \<open>The macros \<open>true\<close> and \<open>false\<close> of \<^verbatim>\<open>src/kernel/core/type.h\<close>.\<close>

definition c_true :: int where "c_true = 1"
definition c_false :: int where "c_false = 2"

text \<open>The addresses of code and data that the linker and \<open>kvminit\<close> determine.\<close>

record symbols =
  y_trampoline :: nat
  y_uservec :: nat
  y_userret :: nat
  y_forkret :: u64
  y_usertrap :: u64
  y_kernelvec :: u64
  y_kernel_satp :: u64

record kst = fsst +
  vm :: vmst
  procs :: "nat \<Rightarrow> proc"
  cur :: "nat option"
  initproc :: "nat option"
  nextpid :: int
  ticks :: u32
  files :: "nat \<Rightarrow> kfile option"
  pipes :: "nat \<Rightarrow> pipe option"
  con :: cons
  port :: uart
  blk :: vdisk
  plic_writes :: "(u64 \<times> u32) list"
  fs_ready :: bool
  syms :: symbols
  stack_junk :: "u8 list"

section \<open>Access to the parts of the state\<close>

definition onVm :: "(vmst, 'a) kmon \<Rightarrow> (kst, 'a) kmon" where
  "onVm m = (\<lambda>s. bindR (m (vm s)) (\<lambda>(x, v). Ret (x, s\<lparr>vm := v\<rparr>)))"

definition onHeap :: "(buddy \<Rightarrow> ('a \<times> buddy) res) \<Rightarrow> (kst, 'a) kmon" where
  "onHeap m = onVm (\<lambda>v. bindR (m (kheap v)) (\<lambda>(x, b). Ret (x, v\<lparr>kheap := b\<rparr>)))"

definition upd_proc :: "nat \<Rightarrow> (proc \<Rightarrow> proc) \<Rightarrow> kst \<Rightarrow> kst" where
  "upd_proc p f s = s\<lparr>procs := (procs s)(p := f (procs s p))\<rparr>"

definition getP :: "nat \<Rightarrow> (proc \<Rightarrow> 'a) \<Rightarrow> (kst, 'a) kmon" where
  "getP p f = getK (\<lambda>s. f (procs s p))"

definition setP :: "nat \<Rightarrow> (proc \<Rightarrow> proc) \<Rightarrow> (kst, unit) kmon" where
  "setP p f = modK (upd_proc p f)"

text \<open>\<open>myproc()\<close>, in a context where the code goes on to use the process.\<close>

definition myproc :: "(kst, nat) kmon" where
  "myproc = (\<lambda>s. case cur s of None \<Rightarrow> Fail NullDeref | Some p \<Rightarrow> Ret (p, s))"

text \<open>A register saved in the trapframe of a process, at its offset in \<open>struct trapframe\<close>.\<close>

definition tf_read :: "nat \<Rightarrow> nat \<Rightarrow> (kst, u64) kmon" where
  "tf_read p off = bindK (getP p p_trapframe) (\<lambda>tf.
     if tf = nullptr then failK NullDeref else onVm (read64 (tf + off)))"

definition tf_write :: "nat \<Rightarrow> nat \<Rightarrow> u64 \<Rightarrow> (kst, unit) kmon" where
  "tf_write p off x = bindK (getP p p_trapframe) (\<lambda>tf.
     if tf = nullptr then failK NullDeref else onVm (write64 (tf + off) x))"

text \<open>The members of \<open>struct trapframe\<close> in order, each of 8 bytes, and the offsets of those that the code uses.\<close>

definition trapframe :: "string list" where
  "trapframe =
     [''kernel_satp'', ''kernel_sp'', ''kernel_trap'', ''epc'', ''kernel_hartid'',
      ''ra'', ''sp'', ''gp'', ''tp'', ''t0'', ''t1'', ''t2'', ''s0'', ''s1'',
      ''a0'', ''a1'', ''a2'', ''a3'', ''a4'', ''a5'', ''a6'', ''a7'',
      ''s2'', ''s3'', ''s4'', ''s5'', ''s6'', ''s7'', ''s8'', ''s9'', ''s10'', ''s11'',
      ''t3'', ''t4'', ''t5'', ''t6'']"

definition sizeof_trapframe :: nat where
  "sizeof_trapframe = 8 * length trapframe"

definition TF_kernel_satp :: nat where "TF_kernel_satp = 0"
definition TF_kernel_sp :: nat where "TF_kernel_sp = 8"
definition TF_kernel_trap :: nat where "TF_kernel_trap = 16"
definition TF_epc :: nat where "TF_epc = 24"
definition TF_kernel_hartid :: nat where "TF_kernel_hartid = 32"
definition TF_sp :: nat where "TF_sp = 48"
definition TF_a0 :: nat where "TF_a0 = 112"
definition TF_a1 :: nat where "TF_a1 = 120"
definition TF_a7 :: nat where "TF_a7 = 168"

lemma trapframe_offsets:
  "map (\<lambda>off. trapframe ! (off div 8))
     [TF_kernel_satp, TF_kernel_sp, TF_kernel_trap, TF_epc, TF_kernel_hartid, TF_sp, TF_a0, TF_a1, TF_a7] =
   [''kernel_satp'', ''kernel_sp'', ''kernel_trap'', ''epc'', ''kernel_hartid'', ''sp'', ''a0'', ''a1'', ''a7'']"
  by code_simp

section \<open>Sleeping processes\<close>

definition wake_proc :: "chan \<Rightarrow> proc \<Rightarrow> proc" where
  "wake_proc c p = (if p_state p = SLEEPING \<and> p_chan p = Some c then p\<lparr>p_state := RUNNABLE\<rparr> else p)"

definition wakeup :: "chan \<Rightarrow> (kst, unit) kmon" where
  "wakeup c = modK (\<lambda>s. fold (\<lambda>p s. if cur s = Some p then s else upd_proc p (wake_proc c) s) [0..<NPROC] s)"

definition killed :: "nat \<Rightarrow> (kst, bool) kmon" where
  "killed p = getP p p_killed"

definition setkilled :: "nat \<Rightarrow> (kst, unit) kmon" where
  "setkilled p = setP p (p_killed_update (\<lambda>_. True))"

section \<open>Copying to and from the current process\<close>

definition either_copyout :: "bool \<Rightarrow> u64 \<Rightarrow> u8 list \<Rightarrow> (kst, int) kmon" where
  "either_copyout user_dst dst src =
     bindK myproc (\<lambda>p.
     if user_dst then bindK (getP p p_pagetable) (\<lambda>pt. onVm (copyout pt dst src))
     else thenK (onVm (write_bytes (unat dst) src)) (retK 0))"

definition either_copyin :: "bool \<Rightarrow> u64 \<Rightarrow> nat \<Rightarrow> (kst, u8 list \<times> int) kmon" where
  "either_copyin user_src src len =
     bindK myproc (\<lambda>p.
     if user_src then bindK (getP p p_pagetable) (\<lambda>pt. onVm (copyin pt src len))
     else bindK (onVm (getK (\<lambda>v. get_bytes (ram v) (unat src) len))) (\<lambda>bs. retK (bs, 0)))"

text \<open>
  The copying functions as the file system, the pipes and the console use them: on the memory of the
  process, from a user address on. Copying never faults (\<open>copy_total\<close>), so the result for a fault is
  never used.
\<close>

definition user_out :: "nat \<Rightarrow> vmst Fs.copyout" where
  "user_out pt dst bs v = (case copyout pt (of_nat dst) bs v of Inl _ \<Rightarrow> (-1, v) | Inr r \<Rightarrow> r)"

definition user_in :: "nat \<Rightarrow> vmst \<Rightarrow> Fs.copyin" where
  "user_in pt v src n = (case copyin pt (of_nat src) n v of Inl _ \<Rightarrow> ([], -1) | Inr (r, _) \<Rightarrow> r)"

definition byte_out :: "nat \<Rightarrow> u64 \<Rightarrow> vmst \<Rightarrow> nat \<Rightarrow> u8 \<Rightarrow> vmst option" where
  "byte_out pt a v i c =
     (case copyout pt (a + of_nat i) [c] v of
        Inl _ \<Rightarrow> None | Inr (r, v') \<Rightarrow> if r = -1 then None else Some v')"

definition byte_in :: "nat \<Rightarrow> u64 \<Rightarrow> vmst \<Rightarrow> nat \<Rightarrow> u8 option" where
  "byte_in pt a v i =
     (case copyin pt (a + of_nat i) 1 v of
        Inl _ \<Rightarrow> None | Inr ((bs, r), _) \<Rightarrow> if r = -1 then None else Some (hd bs))"

lemma copyout_total: "\<exists>r v'. copyout pt va bs v = Ret (r, v')"
proof (induction pt va bs arbitrary: v rule: copyout.induct)
  case (1 pt va bs)
  show ?case
  proof (cases "bs = []")
    case False
    show ?thesis
    proof (cases "user_page (ram v) pt (pg_down va) = 0")
      case True
      then show ?thesis using False
        by (subst copyout.simps) (simp add: Let_def bindK_def walkaddr_eq)
    next
      case False': False
      then show ?thesis using False 1 [OF False refl refl refl]
        by (subst copyout.simps) (simp add: Let_def bindK_def thenK_def walkaddr_eq write_bytes_def)
    qed
  qed (simp add: copyout.simps)
qed

lemma copy_total:
  "copyout pt (of_nat dst) bs v = Ret (user_out pt dst bs v)"
  "copyin pt (of_nat src) n v = Ret (user_in pt v src n, v)"
  using copyout_total [of pt "of_nat dst" bs v] by (auto simp: user_out_def user_in_def copyin_eq)

end
