(* ===== verification/File.thy ===== *)
theory File
  imports Kstate
begin

text \<open>
  Open files (\<^verbatim>\<open>src/kernel/file/file.c\<close>) and \<open>pipealloc\<close> of \<^verbatim>\<open>src/kernel/file/pipe.c\<close>. A \<open>struct file\<close> lives in a
  block of the buddy allocator; the allocator gives its address, and the table \<open>files\<close> its contents until it
  is freed. The entry \<open>CONSOLE\<close> of \<open>devsw\<close> is the only one that is set.
\<close>

section \<open>Files and pipes in the state\<close>

definition get_file :: "nat \<Rightarrow> (kst, kfile) kmon" where
  "get_file f = (\<lambda>s. if f = nullptr then Fail NullDeref else
     case files s f of None \<Rightarrow> Fail Dangling | Some x \<Rightarrow> Ret (x, s))"

definition upd_file :: "nat \<Rightarrow> (kfile \<Rightarrow> kfile) \<Rightarrow> (kst, unit) kmon" where
  "upd_file f g = modK (\<lambda>s. s\<lparr>files := (files s)(f := map_option g (files s f))\<rparr>)"

definition get_pipe :: "nat \<Rightarrow> (kst, pipe) kmon" where
  "get_pipe pi = (\<lambda>s. case pipes s pi of None \<Rightarrow> Fail Dangling | Some x \<Rightarrow> Ret (x, s))"

definition set_pipe :: "nat \<Rightarrow> pipe option \<Rightarrow> (kst, unit) kmon" where
  "set_pipe pi x = modK (\<lambda>s. s\<lparr>pipes := (pipes s)(pi := x)\<rparr>)"

text \<open>The end of a call that runs until it returns or sleeps.\<close>

definition finish :: "run \<Rightarrow> (kst, int) kmon" where
  "finish r = (case r of Returned x \<Rightarrow> retK x | Sleeping _ \<Rightarrow> failK Blocked)"

definition kpipeclose :: "nat \<Rightarrow> int \<Rightarrow> (kst, unit) kmon" where
  "kpipeclose pi writable =
     bindK (get_pipe pi) (\<lambda>x.
     case pipeclose x writable of (x', c, dead) \<Rightarrow>
       thenK (set_pipe pi (Some x'))
      (thenK (wakeup (ChPipe pi c))
      (whenK dead (thenK (onVm (vm_kfree pi)) (set_pipe pi None)))))"

definition kpipewrite :: "nat \<Rightarrow> u64 \<Rightarrow> int \<Rightarrow> (kst, int) kmon" where
  "kpipewrite pi a n =
     bindK myproc (\<lambda>p. bindK (killed p) (\<lambda>k. bindK (getP p p_pagetable) (\<lambda>pt.
     bindK (get_pipe pi) (\<lambda>x. bindK (getK vm) (\<lambda>v.
     case pipewrite k (byte_in pt a) n 0 v x of (x', woken, r) \<Rightarrow>
       thenK (set_pipe pi (Some x')) (thenK (forK woken (\<lambda>c. wakeup (ChPipe pi c))) (finish r)))))))"

definition kpiperead :: "nat \<Rightarrow> u64 \<Rightarrow> int \<Rightarrow> (kst, int) kmon" where
  "kpiperead pi a n =
     bindK myproc (\<lambda>p. bindK (killed p) (\<lambda>k. bindK (getP p p_pagetable) (\<lambda>pt.
     bindK (get_pipe pi) (\<lambda>x. bindK (getK vm) (\<lambda>v.
     case piperead k (byte_out pt a) n v x of (x', v', woken, r) \<Rightarrow>
       thenK (set_pipe pi (Some x')) (thenK (modK (vm_update (\<lambda>_. v')))
      (thenK (forK woken (\<lambda>c. wakeup (ChPipe pi c))) (finish r))))))))"

definition kconsoleread :: "u64 \<Rightarrow> int \<Rightarrow> (kst, int) kmon" where
  "kconsoleread a n =
     bindK myproc (\<lambda>p. bindK (killed p) (\<lambda>k. bindK (getP p p_pagetable) (\<lambda>pt.
     bindK (getK vm) (\<lambda>v. bindK (getK con) (\<lambda>c.
     case consoleread k (byte_out pt a) n 0 v c of (c', v', r) \<Rightarrow>
       thenK (modK (\<lambda>s. s\<lparr>vm := v', con := c'\<rparr>)) (finish r))))))"

definition kconsolewrite :: "u64 \<Rightarrow> int \<Rightarrow> (kst, int) kmon" where
  "kconsolewrite a n =
     bindK myproc (\<lambda>p. bindK (getP p p_pagetable) (\<lambda>pt. bindK (getK vm) (\<lambda>v. bindK (getK port) (\<lambda>u.
     case consolewrite (byte_in pt a) n 0 v u False of (u', wake, r) \<Rightarrow>
       thenK (modK (port_update (\<lambda>_. u'))) (thenK (whenK wake (wakeup ChUart)) (finish r))))))"

text \<open>\<open>readi\<close> and \<open>writei\<close> of the current process, with \<open>user_dst\<close> and \<open>user_src\<close> 1.\<close>

definition kreadi :: "nat \<Rightarrow> u64 \<Rightarrow> u32 \<Rightarrow> u32 \<Rightarrow> (kst, int) kmon" where
  "kreadi ip dst off n =
     bindK myproc (\<lambda>p. bindK (getP p p_pagetable) (\<lambda>pt. bindK (getK vm) (\<lambda>v.
     bindK (readi (user_out pt) ip (unat dst) off n v) (\<lambda>(r, v').
     thenK (modK (vm_update (\<lambda>_. v'))) (retK r)))))"

definition kwritei :: "nat \<Rightarrow> u64 \<Rightarrow> u32 \<Rightarrow> u32 \<Rightarrow> (kst, int) kmon" where
  "kwritei ip src off n =
     bindK myproc (\<lambda>p. bindK (getP p p_pagetable) (\<lambda>pt. bindK (getK vm) (\<lambda>v.
     writei (user_in pt v) ip (unat src) off n)))"

section \<open>Operations\<close>

text \<open>\<open>sizeof(struct file)\<close> is 64. A null result of \<open>buddy_malloc\<close> is used without a check.\<close>

definition filealloc :: "(kst, nat) kmon" where
  "filealloc =
     bindK (onHeap (\<lambda>b. buddy_malloc b 64)) (\<lambda>f.
     if f = nullptr then failK NullDeref
     else
       thenK (modK (\<lambda>s. s\<lparr>files := (files s)(f := Some
                \<lparr>f_type = FD_NONE, f_ref = 1, f_readable = c_false, f_writable = c_false, f_pipe = nullptr,
                 f_ip = None, f_off = 0, f_major = 0\<rparr>)\<rparr>))
             (retK f))"

definition filedup :: "nat \<Rightarrow> (kst, nat) kmon" where
  "filedup f =
     bindK (get_file f) (\<lambda>x.
     if f_ref x < 1 then panicK ''filedup on a free file''
     else thenK (upd_file f (f_ref_update (\<lambda>r. r + 1))) (retK f))"

definition fileclose :: "nat \<Rightarrow> (kst, unit) kmon" where
  "fileclose f =
     bindK (get_file f) (\<lambda>x.
     if f_ref x < 1 then panicK ''fileclose on a free file''
     else
       thenK (upd_file f (f_ref_update (\<lambda>r. r - 1)))
      (if 0 < f_ref x - 1 then retK ()
       else
         thenK (case f_type x of
                  FD_PIPE \<Rightarrow> kpipeclose (f_pipe x) (f_writable x)
                | FD_NONE \<Rightarrow> retK ()
                | _ \<Rightarrow>
                    thenK begin_op
                   (thenK (case f_ip x of None \<Rightarrow> failK NullDeref | Some ip \<Rightarrow> iput ip)
                          end_op))
        (thenK (onHeap (\<lambda>b. bindR (buddy_free b f) (\<lambda>b. Ret ((), b))))
               (modK (\<lambda>s. s\<lparr>files := (files s)(f := None)\<rparr>)))))"

text \<open>The bytes of a \<open>struct stat\<close>; four of them are padding.\<close>

definition stat_bytes :: "u8 list \<Rightarrow> stat \<Rightarrow> u8 list" where
  "stat_bytes pad st =
     store32 (replicate 4 0) 0 (of_nat (st_dev st)) @ store32 (replicate 4 0) 0 (of_nat (st_ino st)) @
     store16 (replicate 2 0) 0 (st_type st) @ store16 (replicate 2 0) 0 (st_nlink st) @
     take 4 (pad @ replicate 4 0) @ bytes64 (st_size st)"

definition filestat :: "nat \<Rightarrow> u64 \<Rightarrow> (kst, int) kmon" where
  "filestat f a =
     bindK myproc (\<lambda>p.
     bindK (get_file f) (\<lambda>x.
     if f_type x = FD_INODE \<or> f_type x = FD_DEVICE then
       thenK (ilock (f_ip x))
      (case f_ip x of
         None \<Rightarrow> failK NullDeref
       | Some ip \<Rightarrow>
           bindK (stati ip) (\<lambda>st.
           thenK (iunlock (Some ip))
          (bindK (getP p p_pagetable) (\<lambda>pt.
           bindK (getK stack_junk) (\<lambda>pad.
           bindK (onVm (copyout pt a (stat_bytes pad st))) (\<lambda>status.
           retK (if status < 0 then -1 else 0)))))))
     else retK (-1)))"

definition fileread :: "nat \<Rightarrow> u64 \<Rightarrow> int \<Rightarrow> (kst, int) kmon" where
  "fileread f a n =
     bindK (get_file f) (\<lambda>x.
     if f_readable x = 0 then retK (-1)
     else case f_type x of
       FD_PIPE \<Rightarrow> kpiperead (f_pipe x) a n
     | FD_DEVICE \<Rightarrow>
         if sint (f_major x) < 0 \<or> int NDEV \<le> sint (f_major x) then retK (-1)
         else if f_major x \<noteq> CONSOLE then retK (-1)
         else kconsoleread a n
     | FD_INODE \<Rightarrow>
         thenK (ilock (f_ip x))
        (case f_ip x of
           None \<Rightarrow> failK NullDeref
         | Some ip \<Rightarrow>
             bindK (kreadi ip a (f_off x) (of_int n)) (\<lambda>count.
             thenK (whenK (count > 0) (upd_file f (f_off_update (\<lambda>off. off + of_int count))))
            (thenK (iunlock (Some ip))
                   (retK count))))
     | FD_NONE \<Rightarrow> panicK ''fileread failed'')"

text \<open>The largest piece that \<open>filewrite\<close> writes in one transaction.\<close>

definition max_write :: int where
  "max_write = int ((MAXOPBLOCKS - 1 - 1 - 2) div 2 * BSIZE)"

text \<open>The loop of \<open>filewrite\<close>; its result is the final \<open>index\<close>.\<close>

function filewrite_loop :: "nat \<Rightarrow> u64 \<Rightarrow> int \<Rightarrow> int \<Rightarrow> (kst, int) kmon" where
  "filewrite_loop f a n index =
     (if index < n then
        let remaining = (if n - index > max_write then max_write else n - index) in
        thenK begin_op
       (bindK (get_file f) (\<lambda>x.
        thenK (ilock (f_ip x))
       (case f_ip x of
          None \<Rightarrow> failK NullDeref
        | Some ip \<Rightarrow>
            bindK (kwritei ip (a + of_int index) (f_off x) (of_int remaining)) (\<lambda>count.
            thenK (whenK (count > 0) (upd_file f (f_off_update (\<lambda>off. off + of_int count))))
           (thenK (iunlock (Some ip))
           (thenK end_op
           (if count \<noteq> remaining then retK index else filewrite_loop f a n (index + remaining))))))))
      else retK index)"
  by pat_completeness auto
termination
  by (relation "measure (\<lambda>(f, a, n, index). nat (n - index))") (auto simp: max_write_def MAXOPBLOCKS_def BSIZE_def)

declare filewrite_loop.simps [simp del]

definition filewrite :: "nat \<Rightarrow> u64 \<Rightarrow> int \<Rightarrow> (kst, int) kmon" where
  "filewrite f a n =
     bindK (get_file f) (\<lambda>x.
     if f_writable x = 0 then retK (-1)
     else case f_type x of
       FD_PIPE \<Rightarrow> kpipewrite (f_pipe x) a n
     | FD_DEVICE \<Rightarrow>
         if sint (f_major x) < 0 \<or> int NDEV \<le> sint (f_major x) then retK (-1)
         else if f_major x \<noteq> CONSOLE then retK (-1)
         else kconsolewrite a n
     | FD_INODE \<Rightarrow> bindK (filewrite_loop f a n 0) (\<lambda>index. retK (if index = n then n else -1))
     | FD_NONE \<Rightarrow> panicK ''filewrite'')"

text \<open>
  \<open>pipealloc\<close>: the two files, or \<open>None\<close> for the result -1. The data of the new pipe is what its page held,
  behind the lock of 24 bytes.
\<close>

definition pipealloc :: "(kst, (nat \<times> nat) option) kmon" where
  "pipealloc =
     bindK filealloc (\<lambda>rfd.
     bindK filealloc (\<lambda>wfd.
     bindK (onVm vm_kalloc) (\<lambda>pi.
     if pi = nullptr then thenK (fileclose rfd) (thenK (fileclose wfd) (retK None))
     else
       bindK (getK (\<lambda>s. get_bytes (ram (vm s)) (pi + 24) PIPESIZE)) (\<lambda>d.
       thenK (set_pipe pi (Some (pipe_new d)))
      (thenK (upd_file rfd (\<lambda>x. x\<lparr>f_type := FD_PIPE, f_readable := c_true, f_writable := c_false, f_pipe := pi\<rparr>))
      (thenK (upd_file wfd (\<lambda>x. x\<lparr>f_type := FD_PIPE, f_readable := c_false, f_writable := c_true, f_pipe := pi\<rparr>))
             (retK (Some (rfd, wfd)))))))))"

end
