(* ===== verification/Proc.thy ===== *)
theory Proc
  imports File Kstring
begin

text \<open>
  Processes (\<^verbatim>\<open>src/kernel/process/proc.c\<close>): the process table, creation, exit and wait, the scheduler, kill,
  and the system calls \<open>dump\<close> and \<open>dump2\<close>. The code switches between processes in \<open>swtch\<close>: \<open>sleep\<close>, \<open>yield\<close>
  and \<open>exit\<close> are modelled up to their call of \<open>sched\<close>, and \<open>scheduler\<close> with a parameter for what a process
  does between being switched to and switching back. What a process holds in a lock is not part of the
  state here.
\<close>

section \<open>Page tables and slots of processes\<close>

definition procinit :: "(kst, unit) kmon" where
  "procinit = forK [0..<NPROC] (\<lambda>p. setP p (\<lambda>x. x\<lparr>p_state := UNUSED, p_kstack := KSTACK p\<rparr>))"

definition allocpid :: "(kst, int) kmon" where
  "allocpid = bindK (getK nextpid) (\<lambda>pid. thenK (modK (\<lambda>s. s\<lparr>nextpid := pid + 1\<rparr>)) (retK pid))"

definition proc_pagetable :: "nat \<Rightarrow> (kst, nat) kmon" where
  "proc_pagetable p =
     bindK (onVm uvmcreate) (\<lambda>pt.
     if pt = nullptr then retK nullptr
     else
       bindK (getK (\<lambda>s. y_trampoline (syms s))) (\<lambda>tramp.
       bindK (onVm (mappages pt TRAMPOLINE 4096 tramp (PTE_R OR PTE_X))) (\<lambda>r.
       if r < 0 then thenK (onVm (uvmfree pt 0)) (retK nullptr)
       else
         bindK (getP p p_trapframe) (\<lambda>tf.
         bindK (onVm (mappages pt TRAPFRAME 4096 tf (PTE_R OR PTE_W))) (\<lambda>r.
         if r < 0 then
           thenK (onVm (uvmunmap pt TRAMPOLINE 1 False)) (thenK (onVm (uvmfree pt 0)) (retK nullptr))
         else retK pt)))))"

definition proc_freepagetable :: "nat \<Rightarrow> u64 \<Rightarrow> (kst, unit) kmon" where
  "proc_freepagetable pt sz =
     thenK (onVm (uvmunmap pt TRAMPOLINE 1 False))
    (thenK (onVm (uvmunmap pt TRAPFRAME 1 False))
           (onVm (uvmfree pt sz)))"

definition freeproc :: "nat \<Rightarrow> (kst, unit) kmon" where
  "freeproc p =
     bindK (getP p p_trapframe) (\<lambda>tf.
     thenK (whenK (tf \<noteq> nullptr) (onVm (vm_kfree tf)))
    (thenK (setP p (p_trapframe_update (\<lambda>_. nullptr)))
    (bindK (getP p p_pagetable) (\<lambda>pt.
     bindK (getP p p_sz) (\<lambda>sz.
     thenK (whenK (pt \<noteq> nullptr) (proc_freepagetable pt sz))
           (setP p (\<lambda>x. x\<lparr>p_pagetable := nullptr, p_sz := 0, p_pid := 0, p_parent := None,
                           p_name := (p_name x)[0 := 0], p_chan := None, p_killed := False, p_xstate := 0,
                           p_state := UNUSED\<rparr>)))))))"

text \<open>The part of \<open>allocproc\<close> after the slot \<open>p\<close> has its number. The result is the slot, or \<open>None\<close> for the null pointer.\<close>

definition alloc_rest :: "nat \<Rightarrow> (kst, nat option) kmon" where
  "alloc_rest p =
     bindK (onVm vm_kalloc) (\<lambda>tf.
     thenK (setP p (p_trapframe_update (\<lambda>_. tf)))
    (if tf = nullptr then thenK (freeproc p) (retK None)
     else
       bindK (proc_pagetable p) (\<lambda>pt.
       thenK (setP p (p_pagetable_update (\<lambda>_. pt)))
      (if pt = nullptr then thenK (freeproc p) (retK None)
       else
         bindK (getK (\<lambda>s. y_forkret (syms s))) (\<lambda>ret.
         thenK (setP p (\<lambda>x. x\<lparr>p_context := \<lparr>ctx_ra = ret, ctx_sp = p_kstack x + 4096, ctx_s = replicate 12 0\<rparr>\<rparr>))
               (retK (Some p)))))))"

definition allocproc :: "(kst, nat option) kmon" where
  "allocproc =
     bindK (getK (\<lambda>s. find (\<lambda>p. p_state (procs s p) = UNUSED) [0..<NPROC])) (\<lambda>found.
     case found of
       None \<Rightarrow> retK None
     | Some p \<Rightarrow>
         bindK allocpid (\<lambda>pid.
         thenK (setP p (\<lambda>x. x\<lparr>p_pid := pid, p_state := USED\<rparr>))
               (alloc_rest p)))"

text \<open>\<open>safestrcpy\<close> into a name of 16 bytes, of a string without its terminating zero.\<close>

definition set_name :: "u8 list \<Rightarrow> u8 list \<Rightarrow> u8 list" where
  "set_name old new =
     map (safestrcpy (\<lambda>a. if a < 16 then nth0 old a else nth0 new (a - 16)) 0 16 16) [0..<16]"

definition initcode :: "u8 list" where
  "initcode =
     [0x17, 0x05, 0x00, 0x00, 0x13, 0x05, 0x45, 0x02, 0x97, 0x05, 0x00,
      0x00, 0x93, 0x85, 0x35, 0x02, 0x93, 0x08, 0x70, 0x00, 0x73, 0x00,
      0x00, 0x00, 0x93, 0x08, 0x20, 0x00, 0x73, 0x00, 0x00, 0x00, 0xef,
      0xf0, 0x9f, 0xff, 0x2f, 0x69, 0x6e, 0x69, 0x74, 0x00, 0x00, 0x24,
      0x00, 0x00, 0x00, 0x00, 0x00, 0x00, 0x00, 0x00]"

definition bytes_of :: "string \<Rightarrow> u8 list" where
  "bytes_of cs = map of_char cs"

definition userinit_rest :: "nat \<Rightarrow> (kst, unit) kmon" where
  "userinit_rest p =
     bindK (getP p p_pagetable) (\<lambda>pt.
     thenK (onVm (uvmfirst pt initcode))
    (thenK (setP p (p_sz_update (\<lambda>_. 4096)))
    (thenK (tf_write p TF_epc 0)
    (thenK (tf_write p TF_sp 4096)
    (thenK (setP p (\<lambda>x. x\<lparr>p_name := set_name (p_name x) (bytes_of ''initcode'')\<rparr>))
    (bindK (namei 0 (bytes_of ''/'')) (\<lambda>root.
     thenK (setP p (p_cwd_update (\<lambda>_. root)))
           (setP p (p_state_update (\<lambda>_. RUNNABLE))))))))))"

definition userinit :: "(kst, unit) kmon" where
  "userinit =
     bindK allocproc (\<lambda>r.
     thenK (modK (initproc_update (\<lambda>_. r)))
    (case r of None \<Rightarrow> failK NullDeref | Some p \<Rightarrow> userinit_rest p))"

definition growproc :: "int \<Rightarrow> (kst, int) kmon" where
  "growproc n =
     bindK myproc (\<lambda>p.
     bindK (getP p p_sz) (\<lambda>sz.
     bindK (getP p p_pagetable) (\<lambda>pt.
     if n > 0 then
       bindK (onVm (uvmalloc pt sz (sz + of_int n) PTE_W)) (\<lambda>sz.
       if sz = 0 then retK (-1) else thenK (setP p (p_sz_update (\<lambda>_. sz))) (retK 0))
     else if n < 0 then
       bindK (onVm (uvmdealloc pt sz (sz + of_int n))) (\<lambda>sz.
       thenK (setP p (p_sz_update (\<lambda>_. sz))) (retK 0))
     else thenK (setP p (p_sz_update (\<lambda>_. sz))) (retK 0))))"

section \<open>Fork, exit, wait\<close>

text \<open>The loop of \<open>fork\<close> over the open files.\<close>

definition fork_files :: "nat \<Rightarrow> nat \<Rightarrow> (kst, unit) kmon" where
  "fork_files p np =
     forK [0..<NOFILE] (\<lambda>i.
       bindK (getP p (\<lambda>x. p_ofile x ! i)) (\<lambda>f.
       whenK (f \<noteq> nullptr)
         (bindK (filedup f) (\<lambda>f'. setP np (p_ofile_update (\<lambda>fs. fs[i := f']))))))"

text \<open>The part of \<open>fork\<close> after the memory has been copied.\<close>

definition fork_rest :: "nat \<Rightarrow> nat \<Rightarrow> u64 \<Rightarrow> (kst, int) kmon" where
  "fork_rest p np sz =
     thenK (setP np (p_sz_update (\<lambda>_. sz)))
    (bindK (getP p p_trapframe) (\<lambda>tf. bindK (getP np p_trapframe) (\<lambda>ntf.
     bindK (getK (\<lambda>s. get_bytes (ram (vm s)) tf sizeof_trapframe)) (\<lambda>regs.
     thenK (onVm (write_bytes ntf regs))
    (thenK (tf_write np TF_a0 0)
    (thenK (fork_files p np)
    (bindK (getP p p_cwd) (\<lambda>cwd.
     case cwd of
       None \<Rightarrow> failK NullDeref
     | Some d \<Rightarrow>
         bindK (idup d) (\<lambda>d.
         thenK (setP np (p_cwd_update (\<lambda>_. Some d)))
        (bindK (getP p p_name) (\<lambda>name.
         thenK (setP np (\<lambda>x. x\<lparr>p_name := set_name (p_name x) (takeWhile (\<lambda>c. c \<noteq> 0) name)\<rparr>))
        (bindK (getP np p_pid) (\<lambda>pid.
         thenK (setP np (p_parent_update (\<lambda>_. Some p)))
        (thenK (setP np (p_state_update (\<lambda>_. RUNNABLE)))
               (retK pid)))))))))))))))"

definition fork :: "(kst, int) kmon" where
  "fork =
     bindK myproc (\<lambda>p.
     bindK allocproc (\<lambda>r.
     case r of
       None \<Rightarrow> retK (-1)
     | Some np \<Rightarrow>
         bindK (getP p p_pagetable) (\<lambda>pt. bindK (getP np p_pagetable) (\<lambda>npt. bindK (getP p p_sz) (\<lambda>sz.
         bindK (onVm (uvmcopy pt npt sz)) (\<lambda>c.
         if c < 0 then thenK (freeproc np) (retK (-1))
         else fork_rest p np sz))))))"

definition reparent :: "nat \<Rightarrow> (kst, unit) kmon" where
  "reparent p =
     forK [0..<NPROC] (\<lambda>pp.
       bindK (getP pp p_parent) (\<lambda>par.
       whenK (par = Some p)
         (bindK (getK initproc) (\<lambda>init.
          thenK (setP pp (p_parent_update (\<lambda>_. init)))
                (case init of None \<Rightarrow> retK () | Some i \<Rightarrow> wakeup (ChProc i))))))"

definition close_files :: "nat \<Rightarrow> (kst, unit) kmon" where
  "close_files p =
     forK [0..<NOFILE] (\<lambda>fd.
       bindK (getP p (\<lambda>x. p_ofile x ! fd)) (\<lambda>f.
       whenK (f \<noteq> nullptr)
         (thenK (fileclose f) (setP p (p_ofile_update (\<lambda>fs. fs[fd := nullptr]))))))"

text \<open>
  \<open>exit\<close>, up to its call of \<open>sched\<close>, which does not return: giving up files and directory, and handing
  over the children.
\<close>

definition exit_files :: "nat \<Rightarrow> (kst, unit) kmon" where
  "exit_files p =
     thenK (close_files p)
    (thenK begin_op
    (bindK (getP p p_cwd) (\<lambda>cwd.
     thenK (case cwd of None \<Rightarrow> failK NullDeref | Some d \<Rightarrow> iput d)
    (thenK end_op
           (setP p (p_cwd_update (\<lambda>_. None)))))))"

definition exit_family :: "nat \<Rightarrow> u32 \<Rightarrow> (kst, unit) kmon" where
  "exit_family p status =
     thenK (reparent p)
    (bindK (getP p p_parent) (\<lambda>par.
     thenK (case par of None \<Rightarrow> retK () | Some q \<Rightarrow> wakeup (ChProc q))
           (setP p (\<lambda>x. x\<lparr>p_xstate := status, p_state := ZOMBIE\<rparr>))))"

definition exit :: "u32 \<Rightarrow> (kst, unit) kmon" where
  "exit status =
     bindK myproc (\<lambda>p.
     bindK (getK initproc) (\<lambda>init.
     if init = Some p then panicK ''init exiting''
     else thenK (exit_files p) (exit_family p status)))"

text \<open>\<open>wait\<close>, up to the point where it sleeps because no child has exited yet.\<close>

definition wait :: "u64 \<Rightarrow> (kst, int) kmon" where
  "wait a =
     bindK myproc (\<lambda>p.
     bindK (getK (\<lambda>s. find (\<lambda>pp. p_parent (procs s pp) = Some p \<and> p_state (procs s pp) = ZOMBIE) [0..<NPROC])) (\<lambda>z.
     case z of
       Some pp \<Rightarrow>
         bindK (getP pp p_pid) (\<lambda>pid.
         bindK (getP pp p_xstate) (\<lambda>xstate.
         bindK (getP p p_pagetable) (\<lambda>pt.
         bindK (if a \<noteq> 0 then onVm (copyout pt a (store32 (replicate 4 0) 0 xstate)) else retK 0) (\<lambda>r.
         if a \<noteq> 0 \<and> r < 0 then retK (-1)
         else thenK (freeproc pp) (retK pid)))))
     | None \<Rightarrow>
         bindK (getK (\<lambda>s. \<exists>pp \<in> set [0..<NPROC]. p_parent (procs s pp) = Some p)) (\<lambda>havekids.
         bindK (killed p) (\<lambda>k.
         if \<not> havekids \<or> k then retK (-1) else failK Blocked))))"

section \<open>Scheduling\<close>

text \<open>
  One pass of \<open>scheduler\<close> over the table. \<open>run p\<close> is what happens from the switch to process \<open>p\<close> until
  control comes back to the scheduler. With the process changes the identity that sleep locks record.
\<close>

definition switch_to :: "nat option \<Rightarrow> kst \<Rightarrow> kst" where
  "switch_to p s = s\<lparr>cur := p, running_pid := (case p of None \<Rightarrow> 0 | Some q \<Rightarrow> p_pid (procs s q))\<rparr>"

definition schedule_slot :: "(nat \<Rightarrow> (kst, unit) kmon) \<Rightarrow> nat \<Rightarrow> (kst, unit) kmon" where
  "schedule_slot run p =
     bindK (getP p p_state) (\<lambda>st.
     whenK (st = RUNNABLE)
       (thenK (setP p (p_state_update (\<lambda>_. RUNNING)))
       (thenK (modK (switch_to (Some p)))
       (thenK (run p)
              (modK (switch_to None))))))"

definition scheduler_pass :: "(nat \<Rightarrow> (kst, unit) kmon) \<Rightarrow> (kst, unit) kmon" where
  "scheduler_pass run = forK [0..<NPROC] (schedule_slot run)"

text \<open>The checks of \<open>sched\<close>: whether its caller holds the lock of the process, and the state of its CPU.\<close>

definition sched_checks :: "bool \<Rightarrow> cpu \<Rightarrow> procstate \<Rightarrow> unit res" where
  "sched_checks holds c state =
     (if \<not> holds then panic ''sched p->lock''
      else if noff c \<noteq> 1 then panic ''sched locks''
      else if state = RUNNING then panic ''sched running''
      else if intr c then panic ''sched interruptible''
      else Ret ())"

definition yield :: "(kst, unit) kmon" where
  "yield = bindK myproc (\<lambda>p. setP p (p_state_update (\<lambda>_. RUNNABLE)))"

definition sleep :: "chan \<Rightarrow> (kst, unit) kmon" where
  "sleep c = bindK myproc (\<lambda>p. setP p (\<lambda>x. x\<lparr>p_chan := Some c, p_state := SLEEPING\<rparr>))"

definition forkret :: "(kst, unit) kmon" where
  "forkret =
     bindK (getK fs_ready) (\<lambda>ready.
     whenK (\<not> ready) (thenK (modK (fs_ready_update (\<lambda>_. True))) (fsinit ROOTDEV)))"

definition kill :: "int \<Rightarrow> (kst, int) kmon" where
  "kill pid =
     bindK (getK (\<lambda>s. find (\<lambda>p. p_pid (procs s p) = pid) [0..<NPROC])) (\<lambda>found.
     case found of
       None \<Rightarrow> retK (-1)
     | Some p \<Rightarrow>
         thenK (setP p (\<lambda>x. x\<lparr>p_killed := True,
                           p_state := (if p_state x = SLEEPING then RUNNABLE else p_state x)\<rparr>))
               (retK 0))"

section \<open>Listing processes and registers\<close>

definition kprintf :: "(u64 \<Rightarrow> string) \<Rightarrow> string \<Rightarrow> u64 list \<Rightarrow> (kst, unit) kmon" where
  "kprintf str fmt ap = bindK (liftR (printf str fmt ap)) print_line"

definition state_name :: "procstate \<Rightarrow> string" where
  "state_name st =
     (case st of UNUSED \<Rightarrow> ''unused'' | USED \<Rightarrow> ''used'' | SLEEPING \<Rightarrow> ''sleep '' | RUNNABLE \<Rightarrow> ''runble''
      | RUNNING \<Rightarrow> ''run   '' | ZOMBIE \<Rightarrow> ''zombie'')"

definition string_of :: "u8 list \<Rightarrow> string" where
  "string_of bs = map (\<lambda>b. char_of (unat b)) (takeWhile (\<lambda>b. b \<noteq> 0) bs)"

text \<open>The lines for the slots \<open>ps\<close>.\<close>

primrec procdump_lines :: "(nat \<Rightarrow> proc) \<Rightarrow> nat list \<Rightarrow> string res" where
  "procdump_lines tab [] = Ret []"
| "procdump_lines tab (p # ps) =
     (let x = tab p in
      if p_state x = UNUSED then procdump_lines tab ps
      else
        bindR (printf (\<lambda>a. if a = 1 then state_name (p_state x) else string_of (p_name x))
                 ''%d %s %s'' [of_int (p_pid x), 1, 2]) (\<lambda>l.
        bindR (printf (\<lambda>_. []) [CHR 0x0A] []) (\<lambda>nl.
        bindR (procdump_lines tab ps) (\<lambda>rest. Ret (l @ nl @ rest)))))"

definition procdump_text :: "(nat \<Rightarrow> proc) \<Rightarrow> string res" where
  "procdump_text tab =
     bindR (printf (\<lambda>_. []) [CHR 0x0A] []) (\<lambda>nl.
     bindR (procdump_lines tab [0..<NPROC]) (\<lambda>rest. Ret (nl @ rest)))"

text \<open>\<open>procdump\<close> is called by the interrupt handler of the console, which echoes on the serial port.\<close>

definition procdump :: "(nat \<Rightarrow> proc) \<Rightarrow> uart \<Rightarrow> uart res" where
  "procdump tab u = bindR (procdump_text tab) (\<lambda>cs. foldR (\<lambda>c u. consputc (of_char c) u) cs u)"

text \<open>The offsets of the registers \<open>s0\<close> to \<open>s11\<close> in the trapframe.\<close>

definition proc_register_s_value_at :: "nat \<Rightarrow> int \<Rightarrow> (kst, u64) kmon" where
  "proc_register_s_value_at p n =
     (if n = 0 then tf_read p 96
      else if n = 1 then tf_read p 104
      else if n = 2 then tf_read p 176
      else if n = 3 then tf_read p 184
      else if n = 4 then tf_read p 192
      else if n = 5 then tf_read p 200
      else if n = 6 then tf_read p 208
      else if n = 7 then tf_read p 216
      else if n = 8 then tf_read p 224
      else if n = 9 then tf_read p 232
      else if n = 10 then tf_read p 240
      else if n = 11 then tf_read p 248
      else panicK ''registers s are numbered in range 0-11'')"

definition dump_format :: string where
  "dump_format = ''s%d'' @ [CHR 0x09] @ ''= %d (%x)'' @ [CHR 0x0A]"

definition dump :: "(kst, int) kmon" where
  "dump =
     bindK myproc (\<lambda>p.
     thenK (forK [2..<12] (\<lambda>i.
              bindK (proc_register_s_value_at p (int i)) (\<lambda>v.
              let display = ucast (v AND 0xFFFFFFFF) :: u32 in
              kprintf (\<lambda>_. []) dump_format [of_nat i, ucast display, ucast display])))
           (retK 0))"

definition proc_acquire_by_id :: "int \<Rightarrow> (kst, nat option) kmon" where
  "proc_acquire_by_id pid =
     getK (\<lambda>s. find (\<lambda>p. p_pid (procs s p) = pid \<and> \<not> p_killed (procs s p)) [0..<NPROC])"

text \<open>The loop of \<open>proc_is_child\<close> along the parents; it would not end on a cycle.\<close>

partial_function (option) is_child_loop :: "(nat \<Rightarrow> proc) \<Rightarrow> int \<Rightarrow> nat option \<Rightarrow> bool option" where
  "is_child_loop ps pid process =
     (case process of
        None \<Rightarrow> Some False
      | Some q \<Rightarrow> if p_pid (ps q) = pid then Some True else is_child_loop ps pid (p_parent (ps q)))"

definition proc_is_child :: "nat \<Rightarrow> nat \<Rightarrow> (kst, bool) kmon" where
  "proc_is_child this parent =
     bindK (getK (\<lambda>s. is_child_loop (procs s) (p_pid (procs s parent)) (Some this))) (\<lambda>r.
     case r of None \<Rightarrow> failK Diverge | Some b \<Rightarrow> retK b)"

definition dump2 :: "int \<Rightarrow> int \<Rightarrow> u64 \<Rightarrow> (kst, int) kmon" where
  "dump2 pid reg_num ret_addr =
     bindK myproc (\<lambda>caller.
     bindK (proc_acquire_by_id pid) (\<lambda>target.
     case target of
       None \<Rightarrow> retK (-2)
     | Some t \<Rightarrow>
         bindK (proc_is_child t caller) (\<lambda>c.
         if \<not> c then retK (-1)
         else if \<not> (2 \<le> reg_num \<and> reg_num \<le> 11) then retK (-3)
         else
           bindK (proc_register_s_value_at t reg_num) (\<lambda>value.
           bindK (either_copyout True ret_addr (bytes64 value)) (\<lambda>r.
           if r < 0 then retK (-4) else retK 0)))))"

end
