(* ===== verification/Exec.thy ===== *)
theory Exec
  imports Proc
begin

text \<open>
  Loading a program (\<^verbatim>\<open>src/kernel/process/exec.c\<close> and \<^verbatim>\<open>elf.h\<close>). The jumps to the label \<open>bad\<close> are calls of
  \<open>exec_bad\<close> with the values that the variables have there. The arguments are the addresses of pages with
  zero-terminated strings.
\<close>

section \<open>ELF files\<close>

definition ELF_MAGIC :: u32 where "ELF_MAGIC = 0x464C457F"
definition ELF_PROG_LOAD :: u32 where "ELF_PROG_LOAD = 1"
definition MAXARG :: nat where "MAXARG = 32"

record elfhdr =
  e_magic :: u32
  e_elf :: "u8 list"
  e_type :: u16
  e_machine :: u16
  e_version :: u32
  e_entry :: u64
  e_phoff :: u64
  e_shoff :: u64
  e_flags :: u32
  e_ehsize :: u16
  e_phentsize :: u16
  e_phnum :: u16
  e_shentsize :: u16
  e_shnum :: u16
  e_shstrndx :: u16

record proghdr =
  ph_type :: u32
  ph_flags :: u32
  ph_off :: u64
  ph_vaddr :: u64
  ph_paddr :: u64
  ph_filesz :: u64
  ph_memsz :: u64
  ph_align :: u64

definition word64_at :: "u8 list \<Rightarrow> nat \<Rightarrow> u64" where
  "word64_at x a = load64 (\<lambda>i. x ! i) a"

definition get_elfhdr :: "u8 list \<Rightarrow> elfhdr" where
  "get_elfhdr x =
     \<lparr>e_magic = load32 x 0, e_elf = take 12 (drop 4 x), e_type = load16 x 16, e_machine = load16 x 18,
      e_version = load32 x 20, e_entry = word64_at x 24, e_phoff = word64_at x 32, e_shoff = word64_at x 40,
      e_flags = load32 x 48, e_ehsize = load16 x 52, e_phentsize = load16 x 54, e_phnum = load16 x 56,
      e_shentsize = load16 x 58, e_shnum = load16 x 60, e_shstrndx = load16 x 62\<rparr>"

definition get_proghdr :: "u8 list \<Rightarrow> proghdr" where
  "get_proghdr x =
     \<lparr>ph_type = load32 x 0, ph_flags = load32 x 4, ph_off = word64_at x 8, ph_vaddr = word64_at x 16,
      ph_paddr = word64_at x 24, ph_filesz = word64_at x 32, ph_memsz = word64_at x 40, ph_align = word64_at x 48\<rparr>"

section \<open>Loading\<close>

definition flags2perm :: "u32 \<Rightarrow> u64" where
  "flags2perm flags =
     (let perm = (if flags AND 1 \<noteq> 0 then PTE_X else 0)
      in if flags AND 2 \<noteq> 0 then perm OR PTE_W else perm)"

text \<open>Copying to a kernel address, which is a physical one.\<close>

definition ram_out :: "vmst Fs.copyout" where
  "ram_out dst bs v = (0, v\<lparr>ram := put_bytes dst bs (ram v)\<rparr>)"

text \<open>
  The loop of \<open>loadseg\<close> for the pages at the offsets \<open>is\<close>. With a size in the last page of the 32-bit range the
  counter wraps to 0 and the loop starts over.
\<close>

primrec loadseg_loop :: "nat \<Rightarrow> u64 \<Rightarrow> nat \<Rightarrow> u32 \<Rightarrow> u32 \<Rightarrow> nat list \<Rightarrow> (kst, int) kmon" where
  "loadseg_loop pagetable va ip offset sz [] = retK 0"
| "loadseg_loop pagetable va ip offset sz (i # is) =
     bindK (onVm (walkaddr pagetable (va + of_nat i))) (\<lambda>pa.
     if pa = 0 then panicK ''loadseg: address should exist''
     else
       let n = (if unat sz - i < PGSIZE then unat sz - i else PGSIZE) in
       bindK (getK vm) (\<lambda>v.
       bindK (readi ram_out ip pa (offset + of_nat i) (of_nat n) v) (\<lambda>(r, v').
       thenK (modK (vm_update (\<lambda>_. v')))
      (if r \<noteq> int n then retK (-1) else loadseg_loop pagetable va ip offset sz is))))"

definition loadseg :: "nat \<Rightarrow> u64 \<Rightarrow> nat \<Rightarrow> u32 \<Rightarrow> u32 \<Rightarrow> (kst, int) kmon" where
  "loadseg pagetable va ip offset sz =
     bindK (loadseg_loop pagetable va ip offset sz
              (map (\<lambda>k. k * PGSIZE) [0..<(unat sz + PGSIZE - 1) div PGSIZE])) (\<lambda>r.
     if r = 0 \<and> unat sz > 2 ^ 32 - PGSIZE then failK Diverge else retK r)"

text \<open>A structure read from the file, or \<open>None\<close> if it is cut off.\<close>

definition read_struct :: "nat \<Rightarrow> u32 \<Rightarrow> nat \<Rightarrow> (kst, u8 list option) kmon" where
  "read_struct ip off n =
     bindK (readi kernel_out ip 0 off (of_nat n) (replicate n 0)) (\<lambda>(r, x).
     retK (if r \<noteq> int n then None else Some x))"

text \<open>The loop over \<open>n\<close> program headers: whether all were loaded, and \<open>sz\<close>.\<close>

primrec load_segments :: "nat \<Rightarrow> nat \<Rightarrow> nat \<Rightarrow> u32 \<Rightarrow> u64 \<Rightarrow> (kst, bool \<times> u64) kmon" where
  "load_segments ip pagetable 0 off sz = retK (True, sz)"
| "load_segments ip pagetable (Suc n) off sz =
     bindK (read_struct ip off 56) (\<lambda>x.
     case x of
       None \<Rightarrow> retK (False, sz)
     | Some x \<Rightarrow>
         let ph = get_proghdr x in
         if ph_type ph \<noteq> ELF_PROG_LOAD then load_segments ip pagetable n (off + 56) sz
         else if ph_memsz ph < ph_filesz ph then retK (False, sz)
         else if ph_vaddr ph + ph_memsz ph < ph_vaddr ph then retK (False, sz)
         else if ph_vaddr ph mod 4096 \<noteq> 0 then retK (False, sz)
         else
           bindK (onVm (uvmalloc pagetable sz (ph_vaddr ph + ph_memsz ph) (flags2perm (ph_flags ph)))) (\<lambda>sz1.
           if sz1 = 0 then retK (False, sz)
           else
             bindK (loadseg pagetable (ph_vaddr ph) ip (ucast (ph_off ph)) (ucast (ph_filesz ph))) (\<lambda>r.
             if r < 0 then retK (False, sz1)
             else load_segments ip pagetable n (off + 56) sz1)))"

definition exec_bad :: "nat \<Rightarrow> u64 \<Rightarrow> nat option \<Rightarrow> (kst, int) kmon" where
  "exec_bad pagetable sz ip =
     thenK (whenK (pagetable \<noteq> nullptr) (proc_freepagetable pagetable sz))
    (thenK (case ip of None \<Rightarrow> retK () | Some i \<Rightarrow> thenK (iunlockput i) end_op)
           (retK (-1)))"

section \<open>The stack of the new program\<close>

definition cstring_at :: "(nat \<Rightarrow> u8) \<Rightarrow> nat \<Rightarrow> u8 list" where
  "cstring_at m p = takeWhile (\<lambda>c. c \<noteq> 0) (get_bytes m p PGSIZE)"

text \<open>
  The loop that pushes the argument strings \<open>args\<close>, of which \<open>ustack\<close> are the addresses so far: \<open>None\<close> for
  a jump to \<open>bad\<close>, otherwise the stack pointer and the addresses.
\<close>

primrec push_args :: "nat \<Rightarrow> u64 \<Rightarrow> u8 list list \<Rightarrow> u64 \<Rightarrow> u64 list \<Rightarrow> (kst, (u64 \<times> u64 list) option) kmon" where
  "push_args pagetable stackbase [] sp ustack = retK (Some (sp, ustack))"
| "push_args pagetable stackbase (a # args) sp ustack =
     (if length ustack \<ge> MAXARG then retK None
      else
        let sp = sp - of_nat (length a + 1); sp = sp - sp mod 16 in
        if sp < stackbase then retK None
        else
          bindK (onVm (copyout pagetable sp (a @ [0]))) (\<lambda>r.
          if r < 0 then retK None
          else push_args pagetable stackbase args sp (ustack @ [sp])))"

text \<open>The part of the path after its last slash.\<close>

definition last_element :: "u8 list \<Rightarrow> u8 list" where
  "last_element path = rev (takeWhile (\<lambda>c. c \<noteq> SLASH) (rev path))"

definition knamei :: "u8 list \<Rightarrow> (kst, nat option) kmon" where
  "knamei path =
     bindK myproc (\<lambda>p.
     bindK (getP p p_cwd) (\<lambda>cwd.
     case cwd of
       Some d \<Rightarrow> namei d path
     | None \<Rightarrow> if path \<noteq> [] \<and> hd path = SLASH then namei 0 path else failK NullDeref))"

text \<open>From the new stack on: the arguments, and the commitment to the new image.\<close>

definition exec_image :: "u8 list \<Rightarrow> nat list \<Rightarrow> elfhdr \<Rightarrow> nat \<Rightarrow> u64 \<Rightarrow> (kst, int) kmon" where
  "exec_image path argv elf pagetable sz0 =
     bindK myproc (\<lambda>p.
     bindK (getP p p_sz) (\<lambda>oldsz.
     let sz = pg_up sz0 in
     bindK (onVm (uvmalloc pagetable sz (sz + 2 * 4096) PTE_W)) (\<lambda>sz1.
     if sz1 = 0 then exec_bad pagetable sz None
     else
       let sz = sz1; sp = sz; stackbase = sp - 4096 in
       thenK (onVm (uvmclear pagetable (sz - 2 * 4096)))
      (bindK (getK (\<lambda>s. map (cstring_at (ram (vm s))) argv)) (\<lambda>args.
       bindK (push_args pagetable stackbase args sp []) (\<lambda>r.
       case r of
         None \<Rightarrow> exec_bad pagetable sz None
       | Some (sp, ustack) \<Rightarrow>
           let argc = length ustack; sp = sp - (of_nat argc + 1) * 8; sp = sp - sp mod 16 in
           if argc \<ge> MAXARG then failK OutOfBounds
           else if sp < stackbase then exec_bad pagetable sz None
           else
             bindK (onVm (copyout pagetable sp (concat (map bytes64 (ustack @ [0]))))) (\<lambda>c.
             if c < 0 then exec_bad pagetable sz None
             else
               thenK (tf_write p TF_a1 sp)
              (thenK (setP p (\<lambda>x. x\<lparr>p_name := set_name (p_name x) (last_element path)\<rparr>))
              (bindK (getP p p_pagetable) (\<lambda>oldpagetable.
               thenK (setP p (\<lambda>x. x\<lparr>p_pagetable := pagetable, p_sz := sz\<rparr>))
              (thenK (tf_write p TF_epc (e_entry elf))
              (thenK (tf_write p TF_sp sp)
              (thenK (proc_freepagetable oldpagetable oldsz)
                     (retK (int argc)))))))))))))))"

definition exec :: "u8 list \<Rightarrow> nat list \<Rightarrow> (kst, int) kmon" where
  "exec path argv =
     bindK myproc (\<lambda>p.
     thenK begin_op
    (bindK (knamei path) (\<lambda>r.
     case r of
       None \<Rightarrow> thenK end_op (retK (-1))
     | Some ip \<Rightarrow>
         thenK (ilock (Some ip))
        (bindK (read_struct ip 0 64) (\<lambda>x.
         case x of
           None \<Rightarrow> exec_bad nullptr 0 (Some ip)
         | Some x \<Rightarrow>
             let elf = get_elfhdr x in
             if e_magic elf \<noteq> ELF_MAGIC then exec_bad nullptr 0 (Some ip)
             else
               bindK (proc_pagetable p) (\<lambda>pagetable.
               if pagetable = nullptr then exec_bad nullptr 0 (Some ip)
               else
                 bindK (load_segments ip pagetable (unat (e_phnum elf)) (ucast (e_phoff elf)) 0) (\<lambda>(ok, sz).
                 if \<not> ok then exec_bad pagetable sz (Some ip)
                 else
                   thenK (iunlockput ip) (thenK end_op
                  (exec_image path argv elf pagetable sz)))))))))"

end
