(* ===== verification/Fcntl.thy ===== *)
theory Fcntl
  imports Xv6_Prelude
begin

text \<open>The modes of \<open>open\<close> (\<^verbatim>\<open>src/kernel/file/fcntl.h\<close>), which the kernel and the shell share.\<close>

definition O_RDONLY :: nat where "O_RDONLY = 0"
definition O_WRONLY :: nat where "O_WRONLY = 1"
definition O_RDWR :: nat where "O_RDWR = 2"
definition O_CREATE :: nat where "O_CREATE = 0x200"
definition O_TRUNC :: nat where "O_TRUNC = 0x400"

end
