(* ===== verification/Frame.thy ===== *)
theory Frame
  imports Proc
begin

text \<open>
  What an operation leaves alone. \<open>within R m\<close> says that every run of \<open>m\<close> that returns relates its first to
  its last state by \<open>R\<close>. For a reflexive and transitive relation this is a matter of following the code,
  which the locale \<open>frame\<close> does once. The instances here are the state outside the file system, which
  no operation of the file system touches, and several views of the process table, of which the operations on memory and on
  files change nothing but wake sleeping processes up.
\<close>

section \<open>Operations within a relation\<close>

definition within :: "('s \<Rightarrow> 's \<Rightarrow> bool) \<Rightarrow> ('s, 'a) kmon \<Rightarrow> bool" where
  "within R m \<longleftrightarrow> (\<forall>s x s'. m s = Ret (x, s') \<longrightarrow> R s s')"

named_theorems within_rules

lemma withinD: "within R m \<Longrightarrow> m s = Ret (x, s') \<Longrightarrow> R s s'"
  by (auto simp: within_def)

lemma withinI: "(\<And>s x s'. m s = Ret (x, s') \<Longrightarrow> R s s') \<Longrightarrow> within R m"
  by (auto simp: within_def)

lemma within_mono: "within R m \<Longrightarrow> (\<And>s s'. R s s' \<Longrightarrow> R' s s') \<Longrightarrow> within R' m"
  by (auto simp: within_def)

locale frame =
  fixes R :: "'s \<Rightarrow> 's \<Rightarrow> bool"
  assumes refl: "R s s" and trans: "R s t \<Longrightarrow> R t u \<Longrightarrow> R s u"
begin

lemma ret [within_rules]: "within R (retK x)"
  by (simp add: within_def refl)

lemma fail [within_rules]: "within R (failK f)"
  by (simp add: within_def)

lemma get [within_rules]: "within R (getK g)"
  by (simp add: within_def refl)

lemma lift [within_rules]: "within R (liftR r)"
  by (auto simp: within_def liftR_def bindR_def refl split: sum.splits)

lemma mod [within_rules]: "(\<And>s. R s (u s)) \<Longrightarrow> within R (modK u)"
  by (simp add: within_def)

lemma bind [within_rules]: "within R m \<Longrightarrow> (\<And>x. within R (f x)) \<Longrightarrow> within R (bindK m f)"
  by (fastforce simp: within_def bindK_def bindR_def split: sum.splits intro: trans)

lemma seq [within_rules]: "within R m \<Longrightarrow> within R n \<Longrightarrow> within R (thenK m n)"
  by (auto simp: thenK_def intro: bind)

lemma cond [within_rules]: "(c \<Longrightarrow> within R m) \<Longrightarrow> within R (whenK c m)"
  by (cases c) (auto intro: ret)

lemma for_loop [within_rules]: "(\<And>i. i \<in> set is \<Longrightarrow> within R (f i)) \<Longrightarrow> within R (forK is f)"
  by (induction "is") (auto intro: ret seq)

lemma branch [within_rules]: "(c \<Longrightarrow> within R m) \<Longrightarrow> (\<not> c \<Longrightarrow> within R n) \<Longrightarrow> within R (if c then m else n)"
  by simp

lemma opt [within_rules]:
  "(x = None \<Longrightarrow> within R m) \<Longrightarrow> (\<And>y. x = Some y \<Longrightarrow> within R (f y)) \<Longrightarrow> within R (case x of None \<Rightarrow> m | Some y \<Rightarrow> f y)"
  by (cases x) auto

lemma pair [within_rules]: "(\<And>a b. x = (a, b) \<Longrightarrow> within R (f a b)) \<Longrightarrow> within R (case x of (a, b) \<Rightarrow> f a b)"
  by (cases x) auto

lemma bind_let [within_rules]: "(\<And>y. y = x \<Longrightarrow> within R (f y)) \<Longrightarrow> within R (let y = x in f y)"
  by simp

end

section \<open>The state outside the file system\<close>

definition keeps_more :: "'a fsst_scheme \<Rightarrow> 'a fsst_scheme \<Rightarrow> bool" where
  "keeps_more s s' \<longleftrightarrow> fsst.more s' = fsst.more s \<and> running_pid s' = running_pid s"

interpretation fs: frame keeps_more
  by unfold_locales (auto simp: keeps_more_def)

lemma keeps_more_upd [simp, intro]:
  "keeps_more s (upd_buf b g s)" "keeps_more s (upd_inode i h s)"
  by (simp_all add: keeps_more_def upd_buf_def upd_inode_def)

lemma fs_lock_buf [within_rules]: "within keeps_more (lock_buf b)"
  unfolding lock_buf_def by (intro within_rules keeps_more_upd)

lemma fs_bget [within_rules]: "within keeps_more (bget dev b)"
proof (rule withinI)
  fix s s' :: "'a fsst_scheme" and x
  assume "bget dev b s = Ret (x, s')"
  then obtain i g where "lock_buf i (upd_buf i g s) = Ret (x, s')"
    by (auto simp: bget_def split: option.splits)
  then show "keeps_more s s'" using withinD [OF fs_lock_buf] fs.trans keeps_more_upd(1) by metis
qed

lemma fs_disk_rw [within_rules]: "within keeps_more (disk_rw b w)"
  unfolding disk_rw_def by (intro within_rules) (auto simp: keeps_more_def upd_buf_def)

lemma fs_bread [within_rules]: "within keeps_more (bread dev b)"
  unfolding bread_def by (intro within_rules keeps_more_upd)

lemma fs_bwrite [within_rules]: "within keeps_more (bwrite b)"
  unfolding bwrite_def by (intro within_rules)

lemma fs_brelse [within_rules]: "within keeps_more (brelse b)"
  unfolding brelse_def by (intro within_rules keeps_more_upd) (auto simp: keeps_more_def)

lemma fs_buf [within_rules]:
  "within keeps_more (bpin b)" "within keeps_more (bunpin b)" "within keeps_more (buf_data b)"
  "within keeps_more (buf_set b x)"
  unfolding bpin_def bunpin_def buf_data_def buf_set_def by (intro within_rules keeps_more_upd)+

lemma fs_log [within_rules]:
  "within keeps_more begin_op" "within keeps_more (log_write b)" "within keeps_more write_head"
  "within keeps_more read_head" "within keeps_more (install_block r t)" "within keeps_more (write_log_block t)"
  unfolding begin_op_def log_write_def write_head_def read_head_def install_block_def write_log_block_def
  by ((intro within_rules; simp add: keeps_more_def)+)

lemma fs_end_op [within_rules]:
  "within keeps_more write_log" "within keeps_more (install_trans r)" "within keeps_more commit"
  "within keeps_more end_op" "within keeps_more recover_from_log" "within keeps_more (initlog d l n)"
  unfolding write_log_def install_trans_def commit_def end_op_def recover_from_log_def initlog_def
  by ((intro within_rules; simp add: keeps_more_def)+)

lemma fs_print_line [within_rules]: "within keeps_more (print_line l)"
  unfolding print_line_def by (intro within_rules) (simp add: keeps_more_def)

lemma fs_fsinit [within_rules]: "within keeps_more (readsb dev)" "within keeps_more (fsinit dev)"
  unfolding readsb_def fsinit_def by ((intro within_rules; simp add: keeps_more_def)+)

lemma fs_balloc_loop [within_rules]: "within keeps_more (balloc_loop dev bs)"
  by (induction bs; simp only: balloc_loop.simps bzero_def; intro within_rules)

lemma fs_ialloc_loop [within_rules]: "within keeps_more (ialloc_loop dev ty is)"
  by (induction "is"; simp only: ialloc_loop.simps iget_def; intro within_rules keeps_more_upd)

lemma fs_blocks [within_rules]:
  "within keeps_more (balloc dev)" "within keeps_more (bfree dev b)" "within keeps_more (ialloc dev ty)"
  "within keeps_more (iget dev inum)" "within keeps_more (idup i)" "within keeps_more (iupdate i)"
  unfolding balloc_def bfree_def ialloc_def iget_def idup_def iupdate_def by (intro within_rules keeps_more_upd)+

lemma fs_locks [within_rules]:
  "within keeps_more (lock_inode i)" "within keeps_more (ilock p)" "within keeps_more (iunlock p)"
  unfolding lock_inode_def ilock_def iunlock_def by (intro within_rules keeps_more_upd)+

lemma fs_inodes [within_rules]:
  "within keeps_more (set_addr i n a)" "within keeps_more (bmap i bn)" "within keeps_more (itrunc i)"
  "within keeps_more (iput i)" "within keeps_more (iunlockput i)" "within keeps_more (stati i)"
  unfolding set_addr_def bmap_def itrunc_def iput_def iunlockput_def stati_def
  by (intro within_rules keeps_more_upd)+

lemma chunk_progress: "tot < n \<Longrightarrow> n - (tot + min (n - tot) (BSIZE - off mod BSIZE)) < n - tot"
  using mod_less_divisor [of BSIZE off] by (auto simp: min_def BSIZE_def)

lemma fs_readi_loop [within_rules]: "within keeps_more (readi_loop cp i n tot off dst m)"
proof (induction "n - tot" arbitrary: tot off dst m rule: less_induct)
  case less
  show ?case
    by (subst readi_loop.simps) (intro within_rules less; simp add: chunk_progress)
qed

lemma fs_writei_loop [within_rules]: "within keeps_more (writei_loop cin i n tot off src)"
proof (induction "n - tot" arbitrary: tot off src rule: less_induct)
  case less
  show ?case
    by (subst writei_loop.simps) (intro within_rules less; simp add: chunk_progress)
qed

lemma fs_rw [within_rules]:
  "within keeps_more (readi cp i dst off n m)" "within keeps_more (writei cin i src off n)"
  unfolding readi_def writei_def by (intro within_rules keeps_more_upd)+

lemma fs_read_dirent [within_rules]: "within keeps_more (read_dirent w dp off)"
  unfolding read_dirent_def by (intro within_rules)

lemma fs_dir_loops [within_rules]:
  "within keeps_more (dirlookup_loop dp name sz off)" "within keeps_more (dirlink_slot dp sz off)"
proof (induction "sz - off" arbitrary: off rule: less_induct)
  case less
  { case 1 show ?case
      by (subst dirlookup_loop.simps) (intro within_rules less; simp add: DIRENT_def) }
  { case 2 show ?case
      by (subst dirlink_slot.simps) (intro within_rules less; simp add: DIRENT_def) }
qed

lemma fs_dirs [within_rules]:
  "within keeps_more (dirlookup dp name)" "within keeps_more (dirlink dp name inum)"
  unfolding dirlookup_def dirlink_def by (intro within_rules)+

lemma fs_namex_loop [within_rules]: "within keeps_more (namex_loop np path name i)"
proof (induction "length path" arbitrary: path name i rule: less_induct)
  case less
  show ?case
    by (subst namex_loop.simps) (intro within_rules less; auto dest: skipelem_shorter)
qed

lemma fs_namei [within_rules]:
  "within keeps_more (namex cwd path np)" "within keeps_more (namei cwd path)" "within keeps_more (nameiparent cwd path)"
  unfolding namex_def namei_def nameiparent_def by (intro within_rules)+

section \<open>The process table\<close>

text \<open>
  What a running process may do to the table apart from creating and ending processes: the identity, the
  parent and the exit status of every slot stay, sleepers may be woken up, and unused slots stay clean.
\<close>

definition clean :: "proc \<Rightarrow> bool" where
  "clean x \<longleftrightarrow> p_pid x = 0 \<and> p_parent x = None \<and> p_chan x = None \<and> p_xstate x = 0 \<and>
     p_pagetable x = nullptr \<and> p_trapframe x = nullptr \<and> p_sz x = 0"

definition slot_rel :: "proc \<Rightarrow> proc \<Rightarrow> bool" where
  "slot_rel x y \<longleftrightarrow> p_pid y = p_pid x \<and> p_parent y = p_parent x \<and> p_xstate y = p_xstate x \<and>
     (p_state y = p_state x \<or> p_state x = SLEEPING \<and> p_state y = RUNNABLE) \<and>
     (p_state x = UNUSED \<longrightarrow> clean x \<longrightarrow> clean y)"

definition running :: "kst \<Rightarrow> bool" where
  "running s \<longleftrightarrow> (\<exists>p. cur s = Some p \<and> p < NPROC \<and> p_state (procs s p) = RUNNING)"

definition tame :: "kst \<Rightarrow> kst \<Rightarrow> bool" where
  "tame s s' \<longleftrightarrow> cur s' = cur s \<and> initproc s' = initproc s \<and> nextpid s' = nextpid s \<and>
     (\<forall>p. slot_rel (procs s p) (procs s' p))"

lemma slot_rel_refl [simp]: "slot_rel x x"
  by (simp add: slot_rel_def)

lemma slot_rel_trans: "slot_rel x y \<Longrightarrow> slot_rel y z \<Longrightarrow> slot_rel x z"
  by (auto simp: slot_rel_def)

lemma slot_rel_running: "slot_rel x y \<Longrightarrow> p_state x = RUNNING \<Longrightarrow> p_state y = RUNNING"
  by (auto simp: slot_rel_def)

lemma tame_running: "tame s s' \<Longrightarrow> running s \<Longrightarrow> running s'"
  unfolding tame_def running_def using slot_rel_running by metis

interpretation pt: frame tame
proof
  show "tame s u" if "tame s t" "tame t u" for s t u
    using that slot_rel_trans unfolding tame_def by (metis (full_types))
qed (simp add: tame_def)

lemma keeps_more_kst:
  assumes "keeps_more s (s' :: kst)"
  shows "vm s' = vm s" "procs s' = procs s" "cur s' = cur s" "initproc s' = initproc s" "nextpid s' = nextpid s"
    "ticks s' = ticks s" "files s' = files s" "pipes s' = pipes s" "con s' = con s" "port s' = port s"
    "blk s' = blk s" "plic_writes s' = plic_writes s" "fs_ready s' = fs_ready s" "syms s' = syms s"
    "stack_junk s' = stack_junk s"
  using assms by (cases s; cases s'; simp add: keeps_more_def)+

lemma tame_fs: "within keeps_more m \<Longrightarrow> within tame m"
  by (erule within_mono) (simp add: tame_def keeps_more_kst)

lemma tame_same:
  "procs s' = procs s \<Longrightarrow> cur s' = cur s \<Longrightarrow> initproc s' = initproc s \<Longrightarrow> nextpid s' = nextpid s \<Longrightarrow> tame s s'"
  by (simp add: tame_def)

lemma pt_onVm [within_rules]: "within tame (onVm m)"
  by (rule withinI) (auto simp: onVm_def bindR_def split: sum.splits intro: tame_same)

lemma pt_onHeap [within_rules]: "within tame (onHeap m)"
  unfolding onHeap_def by (rule pt_onVm)

lemma pt_getP [within_rules]: "within tame (getP p f)"
  unfolding getP_def by (intro within_rules)

lemma tame_upd: "(\<And>x. slot_rel x (f x)) \<Longrightarrow> tame s (upd_proc p f s)"
  by (simp add: tame_def upd_proc_def)

lemma pt_setP [within_rules]: "(\<And>x. slot_rel x (f x)) \<Longrightarrow> within tame (setP p f)"
  unfolding setP_def by (intro within_rules tame_upd)

lemmas pt_fs [within_rules] =
  fs_log [THEN tame_fs] fs_end_op [THEN tame_fs] fs_print_line [THEN tame_fs] fs_fsinit [THEN tame_fs]
  fs_blocks [THEN tame_fs] fs_locks [THEN tame_fs] fs_inodes [THEN tame_fs] fs_rw [THEN tame_fs]
  fs_read_dirent [THEN tame_fs] fs_dirs [THEN tame_fs] fs_namei [THEN tame_fs]

lemma bind_myproc: "cur s = Some p \<Longrightarrow> bindK myproc f s = f p s"
  by (simp add: bindK_def myproc_def)

lemma pt_myproc [within_rules]: "within tame myproc"
  by (rule withinI) (auto simp: myproc_def pt.refl split: option.splits)

lemma tame_fold: "(\<And>p s. tame s (g p s)) \<Longrightarrow> tame s (fold g ps s)"
  by (induction ps arbitrary: s) (auto intro: pt.refl pt.trans)

lemma pt_wakeup [within_rules]: "within tame (wakeup c)"
  unfolding wakeup_def
  by (intro within_rules tame_fold) (auto intro!: tame_upd pt.refl simp: wake_proc_def slot_rel_def clean_def)

lemma pt_killed [within_rules]: "within tame (killed p)" "within tame (setkilled p)"
  unfolding killed_def setkilled_def by (intro within_rules; simp add: slot_rel_def clean_def)+

lemma pt_tf [within_rules]: "within tame (tf_read p off)" "within tame (tf_write p off x)"
  unfolding tf_read_def tf_write_def by (intro within_rules)+

lemma pt_copy [within_rules]:
  "within tame (either_copyout u dst bs)" "within tame (either_copyin u src n)"
  unfolding either_copyout_def either_copyin_def by (intro within_rules)+

section \<open>Files and pipes\<close>

lemma pt_tables [within_rules]:
  "within tame (get_file f)" "within tame (upd_file f g)" "within tame (get_pipe pi)" "within tame (set_pipe pi x)"
  by (auto simp: within_def get_file_def upd_file_def get_pipe_def set_pipe_def intro: tame_same split: if_splits option.splits)

lemma pt_finish [within_rules]: "within tame (finish r)"
  unfolding finish_def by (cases r) (auto intro: within_rules)

lemma pt_pipes [within_rules]:
  "within tame (kpipeclose pi w)" "within tame (kpipewrite pi a n)" "within tame (kpiperead pi a n)"
  unfolding kpipeclose_def kpipewrite_def kpiperead_def by (intro within_rules; simp add: tame_def)+

lemma pt_console [within_rules]: "within tame (kconsoleread a n)" "within tame (kconsolewrite a n)"
  unfolding kconsoleread_def kconsolewrite_def by (intro within_rules; simp add: tame_def)+

lemma pt_krw [within_rules]: "within tame (kreadi ip dst off n)" "within tame (kwritei ip src off n)"
  unfolding kreadi_def kwritei_def by (intro within_rules; simp add: tame_def)+

lemma pt_files [within_rules]:
  "within tame filealloc" "within tame (filedup f)" "within tame (filestat f a)"
  unfolding filealloc_def filedup_def filestat_def by (intro within_rules; simp add: tame_def)+

lemma pt_fileclose [within_rules]: "within tame (fileclose f)"
  unfolding fileclose_def by (auto intro!: within_rules simp: tame_def split: fd_type.split)

lemma pt_fileread [within_rules]: "within tame (fileread f a n)"
  unfolding fileread_def by (auto intro!: within_rules split: fd_type.split)

lemma pt_filewrite_loop [within_rules]: "within tame (filewrite_loop f a n index)"
proof (induction "nat (n - index)" arbitrary: index rule: less_induct)
  case less
  show ?case
    by (subst filewrite_loop.simps)
      (intro within_rules less; simp add: max_write_def MAXOPBLOCKS_def BSIZE_def)
qed

lemma pt_filewrite [within_rules]: "within tame (filewrite f a n)"
  unfolding filewrite_def by (auto intro!: within_rules split: fd_type.split)

lemma pt_pipealloc [within_rules]: "within tame pipealloc"
  unfolding pipealloc_def by (intro within_rules)

section \<open>Processes\<close>

lemma pt_pagetables [within_rules]: "within tame (proc_pagetable p)" "within tame (proc_freepagetable pt sz)"
  unfolding proc_pagetable_def proc_freepagetable_def by (intro within_rules)+

lemma pt_kprintf [within_rules]: "within tame (kprintf str fmt ap)"
  unfolding kprintf_def by (intro within_rules)

lemma pt_dump [within_rules]: "within tame dump" "within tame (dump2 pid n a)"
  unfolding dump_def dump2_def proc_register_s_value_at_def proc_acquire_by_id_def proc_is_child_def
  by (intro within_rules)+

lemma pt_kill [within_rules]: "within tame (kill pid)"
  unfolding kill_def by (intro within_rules) (auto simp: slot_rel_def clean_def)

lemma pt_fork_files [within_rules]: "within tame (fork_files p np)"
  unfolding fork_files_def by (intro within_rules) (simp add: slot_rel_def clean_def)

lemma pt_close_files [within_rules]: "within tame (close_files p)"
  unfolding close_files_def by (intro within_rules) (simp add: slot_rel_def clean_def)

text \<open>A slot in use may also get new memory.\<close>

definition tame_for :: "nat \<Rightarrow> kst \<Rightarrow> kst \<Rightarrow> bool" where
  "tame_for p s s' \<longleftrightarrow> (p_state (procs s p) \<noteq> UNUSED \<longrightarrow> tame s s')"

lemma slot_rel_unused: "slot_rel x y \<Longrightarrow> p_state y = UNUSED \<longleftrightarrow> p_state x = UNUSED"
  by (auto simp: slot_rel_def)

interpretation own: frame "tame_for p" for p
proof
  show "tame_for p s u" if "tame_for p s t" "tame_for p t u" for s t u
    using that pt.trans [of s t u] slot_rel_unused by (auto simp: tame_for_def tame_def) 
qed (simp add: tame_for_def pt.refl)

lemma own_tame: "within tame m \<Longrightarrow> within (tame_for p) m"
  by (erule within_mono) (simp add: tame_for_def)

lemma own_setP [within_rules]:
  assumes "\<And>x. p_pid (f x) = p_pid x \<and> p_parent (f x) = p_parent x \<and> p_xstate (f x) = p_xstate x \<and> p_state (f x) = p_state x"
  shows "within (tame_for p) (setP p f)"
  using assms by (auto simp: within_def setP_def tame_for_def tame_def upd_proc_def slot_rel_def)

text \<open>The slot of the current process is in use.\<close>

definition tame_run :: "kst \<Rightarrow> kst \<Rightarrow> bool" where
  "tame_run s s' \<longleftrightarrow> (running s \<longrightarrow> tame s s')"

interpretation run: frame tame_run
proof
  show "tame_run s u" if "tame_run s t" "tame_run t u" for s t u
    using that pt.trans [of s t u] tame_running [of s t] by (auto simp: tame_run_def)
qed (simp add: tame_run_def pt.refl)

lemma run_tame: "within tame m \<Longrightarrow> within tame_run m"
  by (erule within_mono) (simp add: tame_run_def)

lemma run_own:
  assumes "\<And>p. within (tame_for p) (f p)"
  shows "within tame_run (bindK myproc f)"
proof (rule withinI)
  fix s x s'
  assume "bindK myproc f s = Ret (x, s')"
  then obtain p where "cur s = Some p" "f p s = Ret (x, s')"
    by (auto simp: bindK_def myproc_def bindR_def split: option.splits)
  then show "tame_run s s'" using withinD [OF assms] by (auto simp: tame_for_def tame_run_def running_def)
qed

lemma run_growproc [within_rules]: "within tame_run (growproc n)"
  unfolding growproc_def
  by (rule run_own, intro within_rules own_tame [OF pt_onVm] own_tame [OF pt_getP]; simp)

end
