(* ===== verification/Fs_Blocks.thy ===== *)
theory Fs_Blocks
  imports Fs
begin

text \<open>
  The lower half of the file system on the abstract cache: bitmap bits, the codec of on-disk inodes,
  the block allocator and the synchronization of inodes with the disk.

  \<open>tx s a T n\<close> says that the code runs inside a transaction that has room for the blocks in \<open>T\<close> and \<open>n\<close>
  more; the lemmas below show that the operations never exhaust the log when started with the
  room they need.
\<close>

section \<open>Bitmaps\<close>

lemma bit_pow_8: "k < 8 \<Longrightarrow> bit ((2 :: u8) ^ k) j \<longleftrightarrow> j = k"
  by (auto simp: bit_simps)

lemma and_pow_8: "k < 8 \<Longrightarrow> (w :: u8) AND 2 ^ k \<noteq> 0 \<longleftrightarrow> bit w k"
proof
  assume k: "k < 8" and "w AND 2 ^ k \<noteq> 0"
  then obtain j where "bit (w AND 2 ^ k) j" by (auto simp: bit_eq_iff)
  then show "bit w k" using bit_pow_8 [OF k] by (auto simp: bit_and_iff)
next
  assume "k < 8" "bit w k"
  then have "bit (w AND 2 ^ k) k" by (simp add: bit_and_iff bit_pow_8)
  then show "w AND 2 ^ k \<noteq> 0" by (metis bit_0_eq bot_apply bot_bool_def)
qed

lemma bit_used_iff: "bit_used x bi \<longleftrightarrow> bit (x ! (bi div 8)) (bi mod 8)"
  by (simp add: bit_used_def and_pow_8)

lemma div_mod_8_eq: "(a::nat) = b \<longleftrightarrow> a div 8 = b div 8 \<and> a mod 8 = b mod 8"
  by (metis div_mult_mod_eq)

lemma bit_used_mark:
  assumes "bi div 8 < length x"
  shows "bit_used (bit_mark x bi) bj \<longleftrightarrow> bj = bi \<or> bit_used x bj"
proof (cases "bj div 8 = bi div 8")
  case True
  then show ?thesis using assms
    by (auto simp: bit_used_iff bit_mark_def bit_or_iff bit_pow_8 div_mod_8_eq [of bj bi])
qed (auto simp: bit_used_iff bit_mark_def)

lemma bit_used_clear:
  assumes "bi div 8 < length x"
  shows "bit_used (bit_clear x bi) bj \<longleftrightarrow> bj \<noteq> bi \<and> bit_used x bj"
proof (cases "bj div 8 = bi div 8")
  case True
  have m: "bj mod 8 < 8" by simp
  show ?thesis using assms True
    by (auto simp: bit_used_iff bit_clear_def bit_and_iff bit_not_iff bit_pow_8 div_mod_8_eq [of bj bi])
qed (auto simp: bit_used_iff bit_clear_def)

lemma bit_mark_length [simp]: "length (bit_mark x bi) = length x" "length (bit_clear x bi) = length x"
  by (simp_all add: bit_mark_def bit_clear_def)

section \<open>On-disk inodes\<close>

lemma put_addrs_props:
  assumes "p + 4 * length as \<le> length x"
  shows "length (put_addrs p as x) = length x"
    and "i < length as \<Longrightarrow> load32 (put_addrs p as x) (p + 4 * i) = of_nat (as ! i)"
    and "q + 4 \<le> p \<or> p + 4 * length as \<le> q \<Longrightarrow> load32 (put_addrs p as x) q = load32 x q"
    and "q + 2 \<le> p \<or> p + 4 * length as \<le> q \<Longrightarrow> load16 (put_addrs p as x) q = load16 x q"
proof -
  define n where "n = length as"
  let ?f = "\<lambda>n. fold (\<lambda>i x. store32 x (p + 4 * i) (of_nat (as ! i))) [0..<n] x"
  have "length (?f m) = length x \<and> (\<forall>i < m. load32 (?f m) (p + 4 * i) = of_nat (as ! i)) \<and>
     (\<forall>q. q + 4 \<le> p \<or> p + 4 * n \<le> q \<longrightarrow> load32 (?f m) q = load32 x q) \<and>
     (\<forall>q. q + 2 \<le> p \<or> p + 4 * n \<le> q \<longrightarrow> load16 (?f m) q = load16 x q)" if "m \<le> n" for m
    using that
  proof (induction m)
    case (Suc m)
    have l: "p + 4 * m + 3 < length x" using Suc.prems assms by (simp add: n_def)
    show ?case using Suc l by (auto simp: less_Suc_eq load_store_other)
  qed simp
  from this [of n, OF order.refl] show "length (put_addrs p as x) = length x"
    and "i < length as \<Longrightarrow> load32 (put_addrs p as x) (p + 4 * i) = of_nat (as ! i)"
    and "q + 4 \<le> p \<or> p + 4 * length as \<le> q \<Longrightarrow> load32 (put_addrs p as x) q = load32 x q"
    and "q + 2 \<le> p \<or> p + 4 * length as \<le> q \<Longrightarrow> load16 (put_addrs p as x) q = load16 x q"
    unfolding put_addrs_def n_def by blast+
qed

definition dinode_ok :: "dinode \<Rightarrow> bool" where
  "dinode_ok d \<longleftrightarrow> length (d_addrs d) = NDIRECT + 1 \<and> (\<forall>b \<in> set (d_addrs d). b < 2 ^ 32)"

lemma unat_of_nat_32: "n < 2 ^ 32 \<Longrightarrow> unat (of_nat n :: u32) = n"
  by (simp add: unat_of_nat take_bit_nat_eq_self)

lemma put_dinode_length: "length (d_addrs d) = NDIRECT + 1 \<Longrightarrow> 64 * k + 64 \<le> length x \<Longrightarrow> length (put_dinode x k d) = length x"
  using put_addrs_props(1) [of "64 * k + 12" "d_addrs d"] by (simp add: put_dinode_def Let_def NDIRECT_def)

lemma get_put_dinode:
  assumes d: "dinode_ok d" and k: "64 * k + 64 \<le> length x"
  shows "get_dinode (put_dinode x k d) k = d"
proof -
  have n: "length (d_addrs d) = 13" using d by (simp add: dinode_ok_def NDIRECT_def)
  let ?x5 = "store32 (store16 (store16 (store16 (store16 x (64 * k) (d_type d)) (64 * k + 2) (d_major d)) (64 * k + 4)
    (d_minor d)) (64 * k + 6) (d_nlink d)) (64 * k + 8) (d_size d)"
  have "64 * k + 12 + 4 * length (d_addrs d) \<le> length ?x5" using k n by simp
  note P = put_addrs_props [OF this]
  have "map (\<lambda>i. unat (load32 (put_addrs (64 * k + 12) (d_addrs d) ?x5) (64 * k + 12 + 4 * i))) [0..<13] = d_addrs d"
    using P(2) d n by (intro nth_equalityI) (auto simp: dinode_ok_def unat_of_nat_32)
  then show ?thesis
    using P(3) [of "64 * k + 8"] P(4) [of "64 * k"] P(4) [of "64 * k + 2"] P(4) [of "64 * k + 4"] P(4) [of "64 * k + 6"] k
    by (simp add: get_dinode_def put_dinode_def Let_def NDIRECT_def load_store_other)
qed

lemma get_put_dinode_other:
  assumes n: "length (d_addrs d) = NDIRECT + 1" and k: "64 * k + 64 \<le> length x" "k' \<noteq> k"
  shows "get_dinode (put_dinode x k d) k' = get_dinode x k'"
proof -
  let ?x5 = "store32 (store16 (store16 (store16 (store16 x (64 * k) (d_type d)) (64 * k + 2) (d_major d)) (64 * k + 4)
    (d_minor d)) (64 * k + 6) (d_nlink d)) (64 * k + 8) (d_size d)"
  have n: "length (d_addrs d) = 13" using n by (simp add: NDIRECT_def)
  have "64 * k + 12 + 4 * length (d_addrs d) \<le> length ?x5" using k n by simp
  note P = put_addrs_props [OF this]
  have r: "64 * k' + 64 \<le> 64 * k \<or> 64 * k + 64 \<le> 64 * k'" using k(2) by auto
  have "load16 (put_addrs (64 * k + 12) (d_addrs d) ?x5) (64 * k' + j) = load16 x (64 * k' + j)" if "j + 2 \<le> 64" for j
    using r that n by (subst P(4)) (auto simp: load_store_other)
  moreover have "load32 (put_addrs (64 * k + 12) (d_addrs d) ?x5) (64 * k' + j) = load32 x (64 * k' + j)" if "j + 4 \<le> 64" for j
    using r that n by (subst P(3)) (auto simp: load_store_other)
  moreover note calculation(1) [of 0] calculation(1) [of 2] calculation(1) [of 4] calculation(1) [of 6] calculation(2) [of 8]
  moreover have "map (\<lambda>i. unat (load32 (put_addrs (64 * k + 12) (d_addrs d) ?x5) (64 * k' + 12 + 4 * i))) [0..<13] =
      map (\<lambda>i. unat (load32 x (64 * k' + 12 + 4 * i))) [0..<13]"
    by (intro map_cong refl) (use calculation(2) [of "12 + 4 * i" for i] in \<open>auto simp: add.assoc\<close>)
  ultimately show ?thesis by (simp add: get_dinode_def put_dinode_def Let_def NDIRECT_def)
qed

section \<open>Transactions with room\<close>

definition tx :: "'a logst_scheme \<Rightarrow> cache \<Rightarrow> nat set \<Rightarrow> nat \<Rightarrow> bool" where
  "tx s a T n \<longleftrightarrow> log_rep s a \<and> 1 \<le> log_outstanding s \<and> finite T \<and>
     (\<forall>b \<in> T. home (log_start s) (log_size s) b \<and> b < 2 ^ 32) \<and> card (set (log_lh s) \<union> T) + n + 1 < log_size s"

text \<open>At most one buffer is held while another one is read.\<close>

definition one_slot :: "cache \<Rightarrow> bool" where
  "one_slot a \<longleftrightarrow> card (dom (slots a)) \<le> 1"

lemma one_slot_simps [simp]: "one_slot (logged b x a) = one_slot a"
  by (simp add: one_slot_def)

lemma one_slot_empty: "slots a = Map.empty \<Longrightarrow> one_slot a"
  by (simp add: one_slot_def)

lemma tx_few:
  assumes t: "tx s a T n" and o: "one_slot a"
  shows "card (busy a) < NBUF"
proof -
  have r: "log_rep s a" and lt: "card (set (log_lh s) \<union> T) + n + 1 < log_size s" and f: "finite T"
    using t by (auto simp: tx_def)
  note R = log_repD [OF r]
  have "busy a = set (log_lh s) \<union> dom (slots a)" using R(5) by (auto simp: busy_def)
  then have "card (busy a) \<le> card (set (log_lh s)) + card (dom (slots a))" by (simp add: card_Un_le)
  moreover have "card (set (log_lh s)) \<le> card (set (log_lh s) \<union> T)" using f by (intro card_mono) auto
  ultimately show ?thesis using lt o R(3) by (simp add: one_slot_def LOGSIZE_def NBUF_def)
qed

lemma tx_rep: "tx s a T n \<Longrightarrow> log_rep s a" by (simp add: tx_def)

lemma set_add_block [simp]: "set (add_block b lh) = insert b (set lh)"
  by (auto simp: add_block_def)

lemma tx_room: "tx s a T n \<Longrightarrow> length (log_lh s) + 1 < log_size s"
proof -
  assume t: "tx s a T n"
  then have "header_ok (log_start s) (log_size s) (log_lh s)" using log_repD(4) tx_rep by blast
  then have "card (set (log_lh s)) = length (log_lh s)" by (simp add: header_ok_def distinct_card)
  moreover have "card (set (log_lh s)) \<le> card (set (log_lh s) \<union> T)" using t by (intro card_mono) (auto simp: tx_def)
  ultimately show ?thesis using t by (auto simp: tx_def)
qed

lemma tx_frame: "tx s a T n \<Longrightarrow> log_rep s' a' \<Longrightarrow> log_frame s s' \<Longrightarrow> log_lh s' = log_lh s \<Longrightarrow> tx s' a' T n"
  by (auto simp: tx_def log_frame_def)

lemma tx_insert:
  assumes "tx s a T (Suc n)" "home (log_start s) (log_size s) b" "b < 2 ^ 32"
  shows "tx s a (insert b T) n"
proof -
  have "card (insert b (set (log_lh s) \<union> T)) \<le> Suc (card (set (log_lh s) \<union> T))" by (rule card_insert_le_m1) simp_all
  then show ?thesis using assms by (auto simp: tx_def)
qed

lemma tx_mono: "tx s a T n \<Longrightarrow> m \<le> n \<Longrightarrow> tx s a T m"
  by (simp add: tx_def)

lemma tx_update:
  assumes t: "tx s a T n" and b: "b \<in> T" "slots a b = None" and o: "one_slot a" and f: "length (f (content a b)) = BSIZE"
  shows "ok (update_logged b f) s (\<lambda>_ s'. tx s' (logged b (f (content a b)) a) T n \<and> log_frame s s')"
proof -
  have h: "home (log_start s) (log_size s) b" "b < 2 ^ 32" "1 \<le> log_outstanding s" using t b by (auto simp: tx_def)
  have "ok (update_logged b f) s (\<lambda>_ s'. log_rep s' (logged b (f (content a b)) a) \<and> log_frame s s' \<and> log_lh s' = add_block b (log_lh s))"
    by (rule update_logged_ok [OF tx_rep [OF t]]) (use b h f tx_room [OF t] tx_few [OF t o] in auto)
  then show ?thesis
    by (rule ok_mono) (use t b in \<open>auto simp: tx_def log_frame_def insert_absorb\<close>)
qed

text \<open>Holding a buffer and releasing it unchanged.\<close>

lemma tx_bread:
  assumes t: "tx s a T n" and b: "slots a b = None" and o: "one_slot a"
  shows "ok (bread ROOTDEV b) s (\<lambda>i s'. tx s' (a\<lparr>slots := (slots a)(b \<mapsto> i)\<rparr>) T n \<and> bio_frame s s')"
  using bread_log [OF tx_rep [OF t] b] tx_few [OF t o]
  by (auto elim!: ok_mono intro!: tx_frame [OF t] bio_log_frame simp: bio_frame_log)

lemma tx_brelse:
  assumes t: "tx s a T n" and i: "slots a b = Some i" and c: "b \<in> set (log_lh s) \<or> content a b = stored a b"
  shows "ok (brelse i) s (\<lambda>_ s'. tx s' (a\<lparr>slots := (slots a)(b := None)\<rparr>) T n \<and> bio_frame s s')"
  using brelse_log [OF tx_rep [OF t] i c]
  by (auto elim!: ok_mono intro!: tx_frame [OF t] bio_log_frame simp: bio_frame_log)

lemma tx_clean: "tx s a T n \<Longrightarrow> slots a b = None \<Longrightarrow> b \<in> set (log_lh s) \<or> content a b = stored a b"
  using log_repD(6) tx_rep by blast

lemma slots_None_upd: "slots a b = None \<Longrightarrow> a\<lparr>slots := ((slots a)(b \<mapsto> i))(b := None)\<rparr> = (a :: cache)"
  by (rule cache_eqI) auto

lemma slots_None_upd2: "slots a b = None \<Longrightarrow> a\<lparr>slots := (slots a)(b := None)\<rparr> = (a :: cache)"
  by (rule cache_eqI) auto

lemma tx_read_block:
  assumes t: "tx s a T n" and b: "slots a b = None" and o: "one_slot a"
  obtains i s1 s2 where "bread ROOTDEV b s = Ret (i, s1)" "buf_data i s1 = Ret (content a b, s1)" "bio_frame s s1"
    "tx s1 (a\<lparr>slots := (slots a)(b \<mapsto> i)\<rparr>) T n"
    "brelse i s1 = Ret ((), s2)" "tx s2 a T n" "bio_frame s s2"
proof -
  obtain i s1 where 1: "bread ROOTDEV b s = Ret (i, s1)" "tx s1 (a\<lparr>slots := (slots a)(b \<mapsto> i)\<rparr>) T n" "bio_frame s s1"
    using tx_bread [OF t b o] by (auto elim!: okE)
  have x: "buf_data i s1 = Ret (content a b, s1)"
    using buf_data_ok [OF log_repD(1) [OF tx_rep [OF 1(2)]], of b i] by simp
  have "b \<in> set (log_lh s1) \<or> content a b = stored a b" using tx_clean [OF t b] bio_frame_log(6) [OF 1(3)] by simp
  then obtain s2 where "brelse i s1 = Ret ((), s2)" "tx s2 a T n" "bio_frame s1 s2"
    using tx_brelse [OF 1(2), of b i] b by (auto simp: slots_None_upd2 elim!: okE)
  then show ?thesis using that [OF 1(1) x 1(3) 1(2)] 1(3) bio_frame_trans by blast
qed

section \<open>The block allocator\<close>

definition nmeta :: "superblock \<Rightarrow> nat" where
  "nmeta sp = sb_bmapstart sp + sb_size sp div BPB + 1"

text \<open>The layout that \<open>mkfs\<close> gives a disk: log, inodes, bitmap, data.\<close>

definition layout_ok :: "superblock \<Rightarrow> nat \<Rightarrow> nat \<Rightarrow> bool" where
  "layout_ok sp st sz \<longleftrightarrow> st + sz \<le> sb_inodestart sp \<and> sb_inodestart sp + sb_ninodes sp div IPB < sb_bmapstart sp \<and>
     nmeta sp \<le> sb_size sp \<and> sb_size sp < 2 ^ 31"

definition used :: "(nat \<Rightarrow> block) \<Rightarrow> superblock \<Rightarrow> nat \<Rightarrow> bool" where
  "used c sp b \<longleftrightarrow> bit_used (c (BBLOCK b sp)) (b mod BPB)"

definition bmap_blocks :: "superblock \<Rightarrow> nat set" where
  "bmap_blocks sp = {sb_bmapstart sp..<nmeta sp}"

lemma log_frame_fs:
  assumes "log_frame s s'"
  shows "sb s' = sb s" "inodes s' = inodes s" "printed s' = printed s" "fsst.more s' = fsst.more s"
  using assms by (cases s; cases s'; simp add: log_frame_def)+

definition fs_frame :: "'a fsst_scheme \<Rightarrow> 'a fsst_scheme \<Rightarrow> bool" where
  "fs_frame s s' \<longleftrightarrow> running_pid s' = running_pid s \<and> log_start s' = log_start s \<and> log_size s' = log_size s \<and>
     log_outstanding s' = log_outstanding s \<and> log_committing s' = log_committing s \<and> log_dev s' = log_dev s \<and>
     sb s' = sb s \<and> fsst.more s' = fsst.more s"

lemma fs_frame_refl [simp]: "fs_frame s s" by (simp add: fs_frame_def)

lemma fs_frame_trans [trans]: "fs_frame s t \<Longrightarrow> fs_frame t u \<Longrightarrow> fs_frame s u"
  by (simp add: fs_frame_def)

lemma log_fs_frame: "log_frame s s' \<Longrightarrow> fs_frame s s'"
  using log_frame_fs [of s s'] by (simp add: fs_frame_def log_frame_def)

lemma bzero_eq: "bzero ROOTDEV b = update_logged b (\<lambda>_. replicate BSIZE 0)"
  by (simp add: bzero_def update_logged_def buf_data_def bindK_def getK_def fun_eq_iff)

lemma used_logged_other: "b \<notin> bmap_blocks sp \<Longrightarrow> b' < sb_size sp \<Longrightarrow> used ((content a)(b := x)) sp b' = used (content a) sp b'"
proof -
  assume b: "b \<notin> bmap_blocks sp" and b': "b' < sb_size sp"
  have "b' div BPB \<le> sb_size sp div BPB" using b' by (intro div_le_mono) simp
  then have "BBLOCK b' sp \<noteq> b" using b by (auto simp: bmap_blocks_def BBLOCK_def nmeta_def)
  then show ?thesis by (simp add: used_def)
qed

lemma BBLOCK_in: "b < sb_size sp \<Longrightarrow> BBLOCK b sp \<in> bmap_blocks sp"
proof -
  assume "b < sb_size sp"
  then have "b div BPB \<le> sb_size sp div BPB" by (intro div_le_mono) simp
  then show ?thesis by (auto simp: bmap_blocks_def BBLOCK_def nmeta_def)
qed

text \<open>Marking block \<open>r\<close> in the bitmap and zeroing it.\<close>

definition allocated :: "superblock \<Rightarrow> nat \<Rightarrow> cache \<Rightarrow> cache" where
  "allocated sp r a = logged r (replicate BSIZE 0)
     (logged (BBLOCK r sp) (bit_mark (content a (BBLOCK r sp)) (r mod BPB)) a)"

definition balloc_post :: "'a fsst_scheme \<Rightarrow> cache \<Rightarrow> nat set \<Rightarrow> nat \<Rightarrow> nat \<Rightarrow> 'a fsst_scheme \<Rightarrow> bool" where
  "balloc_post s a T n r s' \<longleftrightarrow> fs_frame s s' \<and> inodes s' = inodes s \<and>
     (if r = 0 then (\<forall>b < sb_size (sb s). used (content a) (sb s) b) \<and> tx s' a T (Suc n)
      else nmeta (sb s) \<le> r \<and> r < sb_size (sb s) \<and> \<not> used (content a) (sb s) r \<and>
           (\<forall>b < r. used (content a) (sb s) b) \<and> tx s' (allocated (sb s) r a) (insert r T) n)"

text \<open>What the allocator needs of the disk: the layout, and that everything before the data is marked used.\<close>

definition alloc_pre :: "'a fsst_scheme \<Rightarrow> cache \<Rightarrow> nat set \<Rightarrow> bool" where
  "alloc_pre s a T \<longleftrightarrow> layout_ok (sb s) (log_start s) (log_size s) \<and> bmap_blocks (sb s) \<subseteq> T \<and> one_slot a \<and>
     (\<forall>b < nmeta (sb s). used (content a) (sb s) b) \<and>
     (\<forall>b \<in> dom (slots a). b \<notin> bmap_blocks (sb s) \<and> (b < sb_size (sb s) \<longrightarrow> used (content a) (sb s) b))"

lemma find_upt_Some: "find P [0..<n] = Some i \<longleftrightarrow> i < n \<and> P i \<and> (\<forall>j < i. \<not> P j)"
  by (auto simp: find_Some_iff)

lemma find_upt_None: "find P [0..<n] = None \<longleftrightarrow> (\<forall>i < n. \<not> P i)"
  by (auto simp: find_None_iff)

lemma BPB_pos: "0 < BPB" by (simp add: BPB_def BSIZE_def)

lemma used_in_group:
  assumes "bi < BPB"
  shows "used c sp (k * BPB + bi) \<longleftrightarrow> bit_used (c (BBLOCK (k * BPB) sp)) bi"
  using assms BPB_pos by (simp add: used_def BBLOCK_def)

lemma balloc_found:
  assumes t: "tx s a T (Suc n)" and pre: "alloc_pre s a T"
    and r: "r < sb_size (sb s)" "\<not> used (content a) (sb s) r" "\<forall>b < r. used (content a) (sb s) b"
  shows "ok (thenK (update_logged (BBLOCK r (sb s)) (\<lambda>x. bit_mark x (r mod BPB))) (thenK (bzero ROOTDEV r) (retK r))) s
           (balloc_post s a T n)"
proof -
  let ?sp = "sb s" let ?B = "BBLOCK r ?sp"
  note P = pre [unfolded alloc_pre_def]
  have B: "?B \<in> T" "slots a ?B = None" using BBLOCK_in [OF r(1)] P by auto
  have len: "length (content a b) = BSIZE" for b using content_length log_repD(1) tx_rep t by blast
  obtain s1 where 1: "update_logged ?B (\<lambda>x. bit_mark x (r mod BPB)) s = Ret ((), s1)" "log_frame s s1"
      "tx s1 (logged ?B (bit_mark (content a ?B) (r mod BPB)) a) T (Suc n)"
    using tx_update [OF t B, where f = "\<lambda>x. bit_mark x (r mod BPB)"] P len by (auto elim!: okE)
  have "nmeta ?sp \<le> r" using r(2) P by (meson not_le)
  then have "home (log_start s1) (log_size s1) r" "r < 2 ^ 32"
    using P r(1) log_frameD [OF 1(2)] by (auto simp: home_def layout_ok_def nmeta_def)
  then have t2: "tx s1 (logged ?B (bit_mark (content a ?B) (r mod BPB)) a) (insert r T) n"
    by (rule tx_insert [OF 1(3)])
  have "slots a r = None" using P r by (metis domIff)
  then obtain s2 where 2: "bzero ROOTDEV r s1 = Ret ((), s2)" "log_frame s1 s2" "tx s2 (allocated ?sp r a) (insert r T) n"
    using tx_update [OF t2, of r "\<lambda>_. replicate BSIZE 0"] P by (auto simp: bzero_eq allocated_def elim!: okE)
  have f: "log_frame s s2" using 1(2) 2(2) log_frame_trans by blast
  have "0 < r" using \<open>nmeta ?sp \<le> r\<close> by (simp add: nmeta_def)
  then have "balloc_post s a T n r s2"
    using r 2(3) \<open>nmeta ?sp \<le> r\<close> log_fs_frame [OF f] log_frame_fs(2) [OF f] by (simp add: balloc_post_def)
  then show ?thesis using 1(1) 2(1) by (intro okI [of _ _ r s2]) (simp_all add: thenK_def bindK_def)
qed

lemma balloc_loop_ok:
  assumes "tx s a T (Suc n)" "alloc_pre s a T" "\<forall>b < j * BPB. b < sb_size (sb s) \<longrightarrow> used (content a) (sb s) b"
    and "sb_size (sb s) \<le> m * BPB" "j \<le> m"
    and "\<And>k. j \<le> k \<Longrightarrow> k < m \<Longrightarrow> k * BPB < sb_size (sb s)"
  shows "ok (balloc_loop ROOTDEV (map (\<lambda>k. k * BPB) [j..<m])) s (balloc_post s a T n)"
  using assms
proof (induction "m - j" arbitrary: j s)
  case 0
  then have "tx (s\<lparr>printed := printed s @ [''balloc: out of blocks'']\<rparr>) a T (Suc n)"
    by (auto simp: tx_def log_rep_def bio_rep_cong [of "s\<lparr>printed := x\<rparr>" s for x])
  then show ?case using 0 by (auto simp: ok_def print_line_def balloc_post_def fs_frame_def)
next
  case (Suc k)
  let ?sp = "sb s" let ?b = "j * BPB" let ?B = "BBLOCK ?b ?sp"
  note P = Suc.prems(2) [unfolded alloc_pre_def]
  have jm: "j < m" using Suc.hyps(2) by simp
  have upt: "[j..<m] = j # [Suc j..<m]" using jm by (simp add: upt_conv_Cons)
  have bs: "?b < sb_size ?sp" using Suc.prems(6) [of j] jm by simp
  have B: "slots a ?B = None" using BBLOCK_in [OF bs] P by auto
  let ?x = "content a ?B" let ?f = "find (\<lambda>bi. \<not> bit_used ?x bi) [0..<min BPB (sb_size ?sp - ?b)]"
  obtain i s1 s2 where 1: "bread ROOTDEV ?B s = Ret (i, s1)" "buf_data i s1 = Ret (?x, s1)" "bio_frame s s1"
      "brelse i s1 = Ret ((), s2)" "tx s2 a T (Suc n)" "bio_frame s s2"
    using tx_read_block [OF Suc.prems(1) B] P by metis
  show ?case
  proof (cases ?f)
    case (Some bi)
    then have bi: "bi < BPB" "?b + bi < sb_size ?sp" "\<not> bit_used ?x bi" "\<forall>j < bi. bit_used ?x j"
      by (auto simp: find_upt_Some)
    let ?r = "?b + bi"
    have rB: "BBLOCK ?r ?sp = ?B" "?r mod BPB = bi" using bi(1) BPB_pos by (simp_all add: BBLOCK_def)
    have "used (content a) ?sp b" if "b < ?r" for b
    proof (cases "b < ?b")
      case True
      then show ?thesis using Suc.prems(3) bs by auto
    next
      case False
      then have "b = ?b + (b - ?b)" "b - ?b < bi" using that by auto
      then show ?thesis using used_in_group [of "b - ?b" "content a" ?sp j] bi by (metis less_trans)
    qed
    moreover have "\<not> used (content a) ?sp ?r" using used_in_group [OF bi(1)] bi(3) by simp
    ultimately have "ok (thenK (update_logged ?B (\<lambda>x. bit_mark x bi)) (thenK (bzero ROOTDEV ?r) (retK ?r))) s (balloc_post s a T n)"
      using balloc_found [OF Suc.prems(1,2) bi(2)] rB by simp
    moreover have "balloc_loop ROOTDEV (map (\<lambda>k. k * BPB) [j..<m]) s =
        thenK (update_logged ?B (\<lambda>x. bit_mark x bi)) (thenK (bzero ROOTDEV ?r) (retK ?r)) s"
      unfolding upt using 1(1,2) Some by (simp add: update_logged_def thenK_def bindK_def bindR_def split: sum.splits prod.splits)
    ultimately show ?thesis by (simp add: ok_def)
  next
    case None
    note f2 = bio_log_frame [OF 1(6)]
    have sb2: "sb s2 = ?sp" and l2: "log_start s2 = log_start s" "log_size s2 = log_size s"
      using log_frame_fs [OF f2] log_frameD [OF f2] by auto
    have "used (content a) ?sp b" if "b < Suc j * BPB" "b < sb_size ?sp" for b
    proof (cases "b < ?b")
      case True
      then show ?thesis using Suc.prems(3) that by auto
    next
      case False
      then have "b = ?b + (b - ?b)" "b - ?b < BPB" "b - ?b < sb_size ?sp - ?b" using that by auto
      then show ?thesis using used_in_group [of "b - ?b" "content a" ?sp j] None by (metis find_upt_None min_less_iff_conj)
    qed
    then have "ok (balloc_loop ROOTDEV (map (\<lambda>k. k * BPB) [Suc j..<m])) s2 (balloc_post s2 a T n)"
      using Suc.prems(2,4,6) jm by (intro Suc.hyps(1) [OF _ 1(5)]) (use Suc.hyps(2) in \<open>auto simp: alloc_pre_def sb2 l2\<close>)
    moreover have "balloc_loop ROOTDEV (map (\<lambda>k. k * BPB) [j..<m]) s = balloc_loop ROOTDEV (map (\<lambda>k. k * BPB) [Suc j..<m]) s2"
      unfolding upt using 1(1,2,4) None by (simp add: thenK_def bindK_def)
    moreover have "balloc_post s2 a T n r s' \<Longrightarrow> balloc_post s a T n r s'" for r s'
      using log_fs_frame [OF f2] log_frame_fs [OF f2] fs_frame_trans [of s s2 s'] by (auto simp: balloc_post_def)
    ultimately show ?thesis by (simp add: ok_def) blast
  qed
qed

lemma ceil_div:
  assumes "0 < (B::nat)"
  shows "n \<le> (n + B - 1) div B * B" "k < (n + B - 1) div B \<Longrightarrow> k * B < n"
proof -
  define N where "N = n + B - 1"
  have N: "N + 1 = n + B" using assms by (simp add: N_def)
  have d: "N div B * B + N mod B = N" "N mod B < B" using assms by simp_all
  then show "n \<le> (n + B - 1) div B * B" using N d unfolding N_def [symmetric] by linarith
  assume "k < (n + B - 1) div B"
  then have "Suc k * B \<le> N div B * B" unfolding N_def [symmetric] by (intro mult_le_mono1) simp
  then show "k * B < n" using N d(1) unfolding mult_Suc by linarith
qed

lemma balloc_ok:
  assumes "tx s a T (Suc n)" "alloc_pre s a T"
  shows "ok (balloc ROOTDEV) s (balloc_post s a T n)"
  unfolding balloc_def
  using balloc_loop_ok [OF assms, of 0 "(sb_size (sb s) + BPB - 1) div BPB"] ceil_div [OF BPB_pos, where n = "sb_size (sb s)"]
  by simp

lemma BBLOCK_inj: "BBLOCK b sp = BBLOCK r sp \<Longrightarrow> b mod BPB = r mod BPB \<Longrightarrow> b = r"
  by (metis BBLOCK_def add_right_cancel div_mult_mod_eq)

lemma mod_BPB: "(b mod BPB) div 8 < BSIZE"
  by (simp add: BPB_def BSIZE_def less_mult_imp_div_less)

lemma used_upd_bitmap:
  assumes "length (c (BBLOCK r sp)) = BSIZE"
  shows "used (c(BBLOCK r sp := bit_mark (c (BBLOCK r sp)) (r mod BPB))) sp b \<longleftrightarrow> b = r \<or> used c sp b"
    and "used (c(BBLOCK r sp := bit_clear (c (BBLOCK r sp)) (r mod BPB))) sp b \<longleftrightarrow> b \<noteq> r \<and> used c sp b"
  using bit_used_mark [of "r mod BPB" "c (BBLOCK r sp)"] bit_used_clear [of "r mod BPB" "c (BBLOCK r sp)"]
    mod_BPB [of r] BBLOCK_inj [of b sp r] assms
  by (auto simp: used_def)

lemma used_allocated:
  assumes "length (content a (BBLOCK r sp)) = BSIZE" "nmeta sp \<le> r" "b < sb_size sp"
  shows "used (content (allocated sp r a)) sp b \<longleftrightarrow> b = r \<or> used (content a) sp b"
proof -
  have "r \<notin> bmap_blocks sp" using assms(2) by (simp add: bmap_blocks_def)
  then have "used (content (allocated sp r a)) sp b =
      used ((content a)(BBLOCK r sp := bit_mark (content a (BBLOCK r sp)) (r mod BPB))) sp b"
    using used_logged_other [OF _ assms(3), of r "logged (BBLOCK r sp) (bit_mark (content a (BBLOCK r sp)) (r mod BPB)) a"]
    by (simp add: allocated_def)
  then show ?thesis using used_upd_bitmap(1) [of "content a"] assms(1) by simp
qed

lemma bfree_ok:
  assumes t: "tx s a T n" and pre: "alloc_pre s a T" and b: "b < sb_size (sb s)" "used (content a) (sb s) b"
  shows "ok (bfree ROOTDEV b) s (\<lambda>_ s'. tx s' (logged (BBLOCK b (sb s))
           (bit_clear (content a (BBLOCK b (sb s))) (b mod BPB)) a) T n \<and> log_frame s s')"
proof -
  let ?B = "BBLOCK b (sb s)"
  note P = pre [unfolded alloc_pre_def]
  have B: "?B \<in> T" "slots a ?B = None" using BBLOCK_in [OF b(1)] P by auto
  obtain i s1 where 1: "bread ROOTDEV ?B s = Ret (i, s1)" "buf_data i s1 = Ret (content a ?B, s1)"
    using tx_read_block [OF t B(2)] P by metis
  have "bfree ROOTDEV b s = update_logged ?B (\<lambda>x. bit_clear x (b mod BPB)) s"
    using 1 b(2) by (simp add: bfree_def update_logged_def bindK_def used_def Let_def)
  moreover have "length (content a ?B) = BSIZE" using content_length log_repD(1) tx_rep t by blast
  ultimately show ?thesis
    using tx_update [OF t B, where f = "\<lambda>x. bit_clear x (b mod BPB)"] P by (simp add: ok_def)
qed

lemma bfree_free:
  assumes t: "tx s a T n" and pre: "alloc_pre s a T" and b: "b < sb_size (sb s)" "\<not> used (content a) (sb s) b"
  shows "bfree ROOTDEV b s = panic ''freeing free block''"
proof -
  let ?B = "BBLOCK b (sb s)"
  note P = pre [unfolded alloc_pre_def]
  have "slots a ?B = None" using BBLOCK_in [OF b(1)] P by auto
  then obtain i s1 where 1: "bread ROOTDEV ?B s = Ret (i, s1)" "buf_data i s1 = Ret (content a ?B, s1)"
    using tx_read_block [OF t] P by metis
  then show ?thesis using b(2) by (simp add: bfree_def bindK_def used_def Let_def)
qed

section \<open>Inodes and the disk\<close>

lemma mod_IPB: "64 * (i mod IPB) + 64 \<le> BSIZE"
proof -
  have "i mod IPB < 16" by (simp add: IPB_def BSIZE_def)
  then show ?thesis by (simp add: BSIZE_def)
qed

lemma iupdate_ok:
  assumes t: "tx s a T n" and o: "one_slot a" and dev: "i_dev (inodes s i) = ROOTDEV"
    and B: "B = IBLOCK (i_inum (inodes s i)) (sb s)" "B \<in> T" "slots a B = None"
    and d: "length (i_addrs (inodes s i)) = NDIRECT + 1"
  shows "ok (iupdate i) s (\<lambda>_ s'. tx s' (logged B (put_dinode (content a B) (i_inum (inodes s i) mod IPB)
           (disk_copy (inodes s i))) a) T n \<and> log_frame s s')"
proof -
  let ?f = "\<lambda>x. put_dinode x (i_inum (inodes s i) mod IPB) (disk_copy (inodes s i))"
  have "length (content a B) = BSIZE" using content_length log_repD(1) tx_rep t by blast
  then have "length (?f (content a B)) = BSIZE"
    using put_dinode_length mod_IPB d by (simp add: disk_copy_def)
  moreover have "iupdate i s = update_logged B ?f s"
    using dev B(1) by (simp add: iupdate_def update_logged_def)
  ultimately show ?thesis using tx_update [OF t B(2,3) o, where f = ?f] by (simp add: ok_def)
qed

end
