(* ===== verification/Fs_Files.thy ===== *)
theory Fs_Files
  imports Fs_Blocks
begin

text \<open>
  File contents: the map from the block numbers of a file to disk blocks, that \<open>bmap\<close> extends it
  with fresh blocks only, and that \<open>writei\<close> and \<open>readi\<close> write and read the bytes of a file through it.
\<close>

section \<open>More steps inside a transaction\<close>

lemma tx_buf_set:
  assumes t: "tx s a T n" and i: "slots a b = Some i" and x: "length x = BSIZE"
  shows "ok (buf_set i x) s (\<lambda>_ s'. tx s' (a\<lparr>content := (content a)(b := x)\<rparr>) T n \<and> bio_frame s s')"
  using buf_set_log [OF tx_rep [OF t] i x]
  by (auto elim!: ok_mono intro!: tx_frame [OF t] bio_log_frame simp: bio_frame_log)

lemma tx_log_write:
  assumes t: "tx s a T n" and i: "slots a b = Some i" and b: "b \<in> T"
  shows "ok (log_write i) s (\<lambda>_ s'. tx s' (a\<lparr>pins := (pins a)(b := 1)\<rparr>) T n \<and> log_frame s s' \<and> b \<in> set (log_lh s'))"
proof -
  have h: "home (log_start s) (log_size s) b" "b < 2 ^ 32" "1 \<le> log_outstanding s" using t b by (auto simp: tx_def)
  show ?thesis
    by (rule ok_mono [OF log_write_ok [OF tx_rep [OF t] i h tx_room [OF t]]])
      (use t b in \<open>auto simp: tx_def log_frame_def insert_absorb\<close>)
qed

lemma tx_Suc: "tx s a T (Suc n) \<Longrightarrow> tx s a T n"
  by (simp add: tx_def)

lemma tx_content_length: "tx s a T n \<Longrightarrow> length (content a b) = BSIZE"
  using content_length log_repD(1) tx_rep by blast

section \<open>The block map of a file\<close>

definition blockaddr :: "(nat \<Rightarrow> block) \<Rightarrow> inode \<Rightarrow> nat \<Rightarrow> nat" where
  "blockaddr c ip bn =
     (if bn < NDIRECT then i_addrs ip ! bn
      else if i_addrs ip ! NDIRECT = 0 then 0 else get_addr (c (i_addrs ip ! NDIRECT)) (bn - NDIRECT))"

text \<open>The blocks of a file are distinct data blocks marked as used.\<close>

definition data_block :: "(nat \<Rightarrow> block) \<Rightarrow> superblock \<Rightarrow> nat \<Rightarrow> bool" where
  "data_block c sp b \<longleftrightarrow> nmeta sp \<le> b \<and> b < sb_size sp \<and> used c sp b"

definition inode_ok :: "(nat \<Rightarrow> block) \<Rightarrow> superblock \<Rightarrow> inode \<Rightarrow> bool" where
  "inode_ok c sp ip \<longleftrightarrow> i_dev ip = ROOTDEV \<and> length (i_addrs ip) = NDIRECT + 1 \<and> i_inum ip < sb_ninodes sp \<and>
     (i_addrs ip ! NDIRECT \<noteq> 0 \<longrightarrow> data_block c sp (i_addrs ip ! NDIRECT)) \<and>
     (\<forall>bn < MAXFILE. blockaddr c ip bn \<noteq> 0 \<longrightarrow>
        data_block c sp (blockaddr c ip bn) \<and> blockaddr c ip bn \<noteq> i_addrs ip ! NDIRECT) \<and>
     (\<forall>bn < MAXFILE. \<forall>bn' < MAXFILE. blockaddr c ip bn = blockaddr c ip bn' \<longrightarrow> blockaddr c ip bn \<noteq> 0 \<longrightarrow> bn = bn')"

lemma inode_okD:
  assumes "inode_ok c sp ip"
  shows "i_dev ip = ROOTDEV" "length (i_addrs ip) = NDIRECT + 1" "i_inum ip < sb_ninodes sp"
    "i_addrs ip ! NDIRECT \<noteq> 0 \<Longrightarrow> data_block c sp (i_addrs ip ! NDIRECT)"
    "bn < MAXFILE \<Longrightarrow> blockaddr c ip bn \<noteq> 0 \<Longrightarrow> data_block c sp (blockaddr c ip bn)"
    "bn < MAXFILE \<Longrightarrow> blockaddr c ip bn \<noteq> 0 \<Longrightarrow> blockaddr c ip bn \<noteq> i_addrs ip ! NDIRECT"
    "bn < MAXFILE \<Longrightarrow> bn' < MAXFILE \<Longrightarrow> blockaddr c ip bn = blockaddr c ip bn' \<Longrightarrow> blockaddr c ip bn \<noteq> 0 \<Longrightarrow> bn = bn'"
  using assms unfolding inode_ok_def by blast+

lemma blockaddr_cong:
  "i_addrs ip' = i_addrs ip \<Longrightarrow> (i_addrs ip ! NDIRECT \<noteq> 0 \<Longrightarrow> c' (i_addrs ip ! NDIRECT) = c (i_addrs ip ! NDIRECT)) \<Longrightarrow>
   blockaddr c' ip' bn = blockaddr c ip bn"
  by (auto simp: blockaddr_def)

lemma inode_ok_cong:
  assumes ok: "inode_ok c sp ip" and c: "i_addrs ip ! NDIRECT \<noteq> 0 \<Longrightarrow> c' (i_addrs ip ! NDIRECT) = c (i_addrs ip ! NDIRECT)"
    and u: "\<And>b. b < sb_size sp \<Longrightarrow> used c sp b \<Longrightarrow> used c' sp b"
    and ip': "i_addrs ip' = i_addrs ip" "i_dev ip' = i_dev ip" "i_inum ip' = i_inum ip"
  shows "inode_ok c' sp ip'"
proof -
  have "blockaddr c' ip' bn = blockaddr c ip bn" for bn using blockaddr_cong [OF ip'(1)] c by blast
  moreover have "data_block c sp b \<Longrightarrow> data_block c' sp b" for b using u by (simp add: data_block_def)
  ultimately show ?thesis using ok ip' unfolding inode_ok_def by simp
qed

lemma zero_addr: "bn < NINDIRECT \<Longrightarrow> get_addr (replicate BSIZE 0) bn = 0"
  by (simp add: get_addr_def load32_def NINDIRECT_def BSIZE_def)

text \<open>Adding a fresh block \<open>r\<close>: as a direct block, as the indirect block, or as an entry of the indirect block.\<close>

lemma inode_ok_direct:
  assumes ok: "inode_ok c sp ip" and n: "n < NDIRECT" "i_addrs ip ! n = 0" and r: "data_block c sp r"
    and fresh: "r \<noteq> i_addrs ip ! NDIRECT" "\<And>bn. bn < MAXFILE \<Longrightarrow> blockaddr c ip bn \<noteq> r"
  shows "inode_ok c sp (ip\<lparr>i_addrs := (i_addrs ip)[n := r]\<rparr>)"
    and "blockaddr c (ip\<lparr>i_addrs := (i_addrs ip)[n := r]\<rparr>) bn = (if bn = n then r else blockaddr c ip bn)"
proof -
  note D = inode_okD [OF ok]
  let ?ip = "ip\<lparr>i_addrs := (i_addrs ip)[n := r]\<rparr>"
  have b: "blockaddr c ?ip bn = (if bn = n then r else blockaddr c ip bn)" for bn
    using n(1) D(2) by (auto simp: blockaddr_def)
  then show "blockaddr c ?ip bn = (if bn = n then r else blockaddr c ip bn)" .
  show "inode_ok c sp ?ip"
    unfolding inode_ok_def b using D r fresh n by (auto split: if_splits; blast)
qed

lemma inode_ok_indirect:
  assumes ok: "inode_ok c sp ip" and n: "i_addrs ip ! NDIRECT = 0" and r: "data_block c sp r" "c r = replicate BSIZE 0"
    and fresh: "\<And>bn. bn < MAXFILE \<Longrightarrow> blockaddr c ip bn \<noteq> r"
  shows "inode_ok c sp (ip\<lparr>i_addrs := (i_addrs ip)[NDIRECT := r]\<rparr>)"
    and "bn < MAXFILE \<Longrightarrow> blockaddr c (ip\<lparr>i_addrs := (i_addrs ip)[NDIRECT := r]\<rparr>) bn = blockaddr c ip bn"
proof -
  note D = inode_okD [OF ok]
  let ?ip = "ip\<lparr>i_addrs := (i_addrs ip)[NDIRECT := r]\<rparr>"
  have b: "blockaddr c ?ip bn = blockaddr c ip bn" if "bn < MAXFILE" for bn
    using n D(2) r(2) zero_addr [of "bn - NDIRECT"] that by (auto simp: blockaddr_def MAXFILE_def)
  then show "bn < MAXFILE \<Longrightarrow> blockaddr c ?ip bn = blockaddr c ip bn" .
  show "inode_ok c sp ?ip"
    unfolding inode_ok_def using D r fresh by (auto simp: b)
qed

lemma inode_ok_entry:
  assumes ok: "inode_ok c sp ip" and k: "k < NINDIRECT" and i: "ind = i_addrs ip ! NDIRECT" "ind \<noteq> 0" "length (c ind) = BSIZE"
    and r: "data_block c sp r" "r < 2 ^ 32" and fresh: "r \<noteq> ind" "\<And>bn. bn < MAXFILE \<Longrightarrow> blockaddr c ip bn \<noteq> r"
    and old: "blockaddr c ip (NDIRECT + k) = 0"
    and c': "c' = c(ind := store32 (c ind) (4 * k) (of_nat r))"
  shows "inode_ok c' sp ip" and "blockaddr c' ip bn = (if bn = NDIRECT + k then r else blockaddr c ip bn)"
proof -
  note D = inode_okD [OF ok]
  have len: "4 * k + 3 < length (c ind)" using k i(3) by (simp add: NINDIRECT_def BSIZE_def)
  have b: "blockaddr c' ip bn = (if bn = NDIRECT + k then r else blockaddr c ip bn)" for bn
  proof (cases "bn < NDIRECT")
    case False
    then have "bn - NDIRECT = k \<longleftrightarrow> bn = NDIRECT + k" by auto
    moreover have "load32 (store32 (c ind) (4 * k) w) (4 * (bn - NDIRECT)) = load32 (c ind) (4 * (bn - NDIRECT))" if "bn - NDIRECT \<noteq> k" for w
    proof -
      have "4 * k + 4 \<le> 4 * (bn - NDIRECT) \<or> 4 * (bn - NDIRECT) + 4 \<le> 4 * k" using that by linarith
      then show ?thesis by (rule load_store_other(4))
    qed
    ultimately show ?thesis
      using False i c' len r(2) by (auto simp: blockaddr_def get_addr_def unat_of_nat_32)
  qed (auto simp: blockaddr_def)
  then show "blockaddr c' ip bn = (if bn = NDIRECT + k then r else blockaddr c ip bn)" .
  have db: "data_block c' sp b \<longleftrightarrow> data_block c sp b" for b
  proof -
    have "ind \<notin> bmap_blocks sp" using D(4) i(1,2) by (auto simp: data_block_def bmap_blocks_def)
    then have "b < sb_size sp \<Longrightarrow> used c' sp b = used c sp b"
      using c' used_logged_other [of ind sp b "idle_cache c []"] by simp
    then show ?thesis by (auto simp: data_block_def)
  qed
  show "inode_ok c' sp ip"
    unfolding inode_ok_def b db using D r fresh i(1) by (auto split: if_splits; blast)
qed

section \<open>Allocating a block for a file\<close>

lemma content_allocated:
  "content (allocated sp r a) r = replicate BSIZE 0"
  "b \<noteq> r \<Longrightarrow> r < sb_size sp \<Longrightarrow> b \<notin> bmap_blocks sp \<Longrightarrow> content (allocated sp r a) b = content a b"
  using BBLOCK_in [of r sp] by (auto simp: allocated_def)

text \<open>What stays of the disk when a file grows: inode blocks, and the data blocks of other files.\<close>

definition keeps :: "superblock \<Rightarrow> nat \<Rightarrow> (nat \<Rightarrow> block) \<Rightarrow> (nat \<Rightarrow> block) \<Rightarrow> bool" where
  "keeps sp ind c c' \<longleftrightarrow>
     (\<forall>b. b < sb_bmapstart sp \<or> data_block c sp b \<and> b \<noteq> ind \<longrightarrow> c' b = c b) \<and>
     (\<forall>b < sb_size sp. used c sp b \<longrightarrow> used c' sp b)"

lemma keeps_refl [simp]: "keeps sp ind c c" by (simp add: keeps_def)

lemma keeps_data_block: "keeps sp ind c c' \<Longrightarrow> data_block c sp b \<Longrightarrow> data_block c' sp b"
  by (simp add: keeps_def data_block_def)

lemma keeps_trans:
  assumes "keeps sp ind c c'" "keeps sp ind' c' c''" "\<And>b. data_block c sp b \<Longrightarrow> b = ind' \<Longrightarrow> b = ind"
  shows "keeps sp ind c c''"
  using assms keeps_data_block [OF assms(1)] unfolding keeps_def by metis

definition grown :: "'a fsst_scheme \<Rightarrow> cache \<Rightarrow> nat set \<Rightarrow> nat \<Rightarrow> inode \<Rightarrow> nat \<Rightarrow> 'a fsst_scheme \<Rightarrow> bool" where
  "grown s a T n ip r s' \<longleftrightarrow> fs_frame s s' \<and> inodes s' = inodes s \<and>
     (if r = 0 then (\<forall>b < sb_size (sb s). used (content a) (sb s) b) \<and> tx s' a T (Suc n)
      else let a' = allocated (sb s) r a; c' = content a' in
        tx s' a' (insert r T) n \<and> alloc_pre s' a' (insert r T) \<and> data_block c' (sb s) r \<and>
        inode_ok c' (sb s) ip \<and> r \<noteq> i_addrs ip ! NDIRECT \<and> \<not> used (content a) (sb s) r \<and>
        (\<forall>bn < MAXFILE. blockaddr c' ip bn = blockaddr (content a) ip bn \<and> blockaddr c' ip bn \<noteq> r) \<and>
        keeps (sb s) 0 (content a) c' \<and> (\<forall>b. data_block (content a) (sb s) b \<longrightarrow> c' b = content a b))"

lemma grow_ok:
  assumes t: "tx s a T (Suc n)" and pre: "alloc_pre s a T" and ip: "inode_ok (content a) (sb s) ip"
  shows "ok (balloc ROOTDEV) s (grown s a T n ip)"
proof (rule ok_mono [OF balloc_ok [OF t pre]])
  fix r s' assume p: "balloc_post s a T n r s'"
  let ?sp = "sb s" and ?c = "content a" let ?a = "allocated ?sp r a" let ?c' = "content ?a"
  show "grown s a T n ip r s'"
  proof (cases "r = 0")
    case True
    then show ?thesis using p by (simp add: grown_def balloc_post_def)
  next
    case False
    then have P: "fs_frame s s'" "inodes s' = inodes s" "nmeta ?sp \<le> r" "r < sb_size ?sp" "\<not> used ?c ?sp r"
        "tx s' ?a (insert r T) n"
      using p by (auto simp: balloc_post_def)
    note D = inode_okD [OF ip]
    note A = pre [unfolded alloc_pre_def]
    have len: "length (?c b) = BSIZE" for b using tx_content_length [OF t] .
    have us: "b < sb_size ?sp \<Longrightarrow> used ?c' ?sp b \<longleftrightarrow> b = r \<or> used ?c ?sp b" for b
      using used_allocated [OF len P(3)] .
    have db: "data_block ?c ?sp b \<Longrightarrow> ?c' b = ?c b \<and> b \<noteq> r" for b
      using content_allocated(2) [OF _ P(4), of b] P(5) by (auto simp: data_block_def bmap_blocks_def)
    have dr: "data_block ?c' ?sp r" using us [OF P(4)] P(3,4) by (simp add: data_block_def)
    have ind: "i_addrs ip ! NDIRECT \<noteq> 0 \<Longrightarrow> ?c' (i_addrs ip ! NDIRECT) = ?c (i_addrs ip ! NDIRECT)"
      using db D(4) by blast
    have ba: "blockaddr ?c' ip bn = blockaddr ?c ip bn" for bn using blockaddr_cong [of ip ip ?c' ?c] ind by blast
    have k: "keeps ?sp 0 ?c ?c'"
    proof -
      have "?c' b = ?c b" if "b < sb_bmapstart ?sp" for b
        using content_allocated(2) [OF _ P(4), of b] that P(3) by (auto simp: bmap_blocks_def nmeta_def)
      then show ?thesis using db us by (auto simp: keeps_def)
    qed
    have "nmeta ?sp \<le> sb_size ?sp" using A by (simp add: layout_ok_def)
    moreover have "sb s' = ?sp" "log_start s' = log_start s" "log_size s' = log_size s" using P(1) by (auto simp: fs_frame_def)
    ultimately have "alloc_pre s' ?a (insert r T)"
      using A us P(3) by (auto simp: alloc_pre_def allocated_def)
    moreover have "inode_ok ?c' ?sp ip" by (rule inode_ok_cong [OF ip]) (use us ind in auto)
    moreover have "r \<noteq> i_addrs ip ! NDIRECT" using D(4) P(3,5) False by (auto simp: data_block_def)
    moreover have "blockaddr ?c' ip bn \<noteq> r" if "bn < MAXFILE" for bn
      using D(5) [OF that] P(5) False by (auto simp: ba data_block_def)
    ultimately show ?thesis using P False dr k db ba by (auto simp: grown_def Let_def)
  qed
qed

section \<open>bmap\<close>

definition ind_cost :: "inode \<Rightarrow> nat" where
  "ind_cost ip = (if i_addrs ip ! NDIRECT = 0 then 1 else 0)"

definition file_pre :: "'a fsst_scheme \<Rightarrow> cache \<Rightarrow> nat set \<Rightarrow> nat \<Rightarrow> bool" where
  "file_pre s a T i \<longleftrightarrow> alloc_pre s a T \<and> slots a = Map.empty \<and> inode_ok (content a) (sb s) (inodes s i) \<and>
     (i_addrs (inodes s i) ! NDIRECT \<noteq> 0 \<longrightarrow> i_addrs (inodes s i) ! NDIRECT \<in> T)"

definition owns :: "(nat \<Rightarrow> block) \<Rightarrow> inode \<Rightarrow> nat \<Rightarrow> bool" where
  "owns c ip b \<longleftrightarrow> b \<noteq> 0 \<and> (b = i_addrs ip ! NDIRECT \<or> (\<exists>bn < MAXFILE. blockaddr c ip bn = b))"

definition bmap_post :: "'a fsst_scheme \<Rightarrow> cache \<Rightarrow> nat set \<Rightarrow> nat \<Rightarrow> nat \<Rightarrow> nat \<Rightarrow> nat \<Rightarrow> 'a fsst_scheme \<Rightarrow> cache \<Rightarrow> nat set \<Rightarrow> bool" where
  "bmap_post s a T n i bn r s' a' T' \<longleftrightarrow>
     file_pre s' a' T' i \<and> tx s' a' T' (n + ind_cost (inodes s' i)) \<and> T \<subseteq> T' \<and> fs_frame s s' \<and>
     (\<exists>as. inodes s' = (inodes s)(i := (inodes s i)\<lparr>i_addrs := as\<rparr>)) \<and>
     (\<forall>bn' < MAXFILE. bn' \<noteq> bn \<longrightarrow>
        blockaddr (content a') (inodes s' i) bn' = blockaddr (content a) (inodes s i) bn') \<and>
     blockaddr (content a') (inodes s' i) bn = r \<and> (r \<noteq> 0 \<longrightarrow> r \<in> T') \<and>
     (blockaddr (content a) (inodes s i) bn \<noteq> 0 \<longrightarrow> r = blockaddr (content a) (inodes s i) bn \<and> content a' = content a) \<and>
     (blockaddr (content a) (inodes s i) bn = 0 \<longrightarrow> r \<noteq> 0 \<longrightarrow> content a' r = replicate BSIZE 0) \<and>
     keeps (sb s) (i_addrs (inodes s i) ! NDIRECT) (content a) (content a') \<and>
     (\<forall>b. owns (content a') (inodes s' i) b \<longrightarrow>
        owns (content a) (inodes s i) b \<or> b < sb_size (sb s) \<and> \<not> used (content a) (sb s) b) \<and>
     (r = 0 \<longrightarrow> (\<forall>b < sb_size (sb s). used (content a') (sb s) b))"

lemma ok_bmap_post:
  assumes "m s = Ret (r, s')" "bmap_post s0 a T n i bn r s' a' T'"
  shows "ok m s (\<lambda>r s'. \<exists>a' T'. bmap_post s0 a T n i bn r s' a' T')"
  using assms by (intro okI) auto

lemma set_addr_run: "set_addr i k v s = Ret ((), upd_inode i (\<lambda>ip. ip\<lparr>i_addrs := (i_addrs ip)[k := v]\<rparr>) s)"
  by (simp add: set_addr_def)

lemma upd_inode_sel [simp]:
  "inodes (upd_inode i f s) = (inodes s)(i := f (inodes s i))" "sb (upd_inode i f s) = sb s" "printed (upd_inode i f s) = printed s"
  "log_lh (upd_inode i f s) = log_lh s" "log_outstanding (upd_inode i f s) = log_outstanding s"
  "log_start (upd_inode i f s) = log_start s" "log_size (upd_inode i f s) = log_size s"
  "log_dev (upd_inode i f s) = log_dev s" "log_committing (upd_inode i f s) = log_committing s"
  "running_pid (upd_inode i f s) = running_pid s" "fsst.more (upd_inode i f s) = fsst.more s"
  "disk (upd_inode i f s) = disk s" "bufs (upd_inode i f s) = bufs s"
  by (simp_all add: upd_inode_def)

lemma upd_inode_rep [simp]:
  "bio_rep (upd_inode i f s) a = bio_rep s a" "log_rep (upd_inode i f s) a = log_rep s a"
  "tx (upd_inode i f s) a T n = tx s a T n" "alloc_pre (upd_inode i f s) a T = alloc_pre s a T"
  "fs_frame s (upd_inode i f s')= fs_frame s s'"
proof -
  show b: "bio_rep (upd_inode i f s) a = bio_rep s a" by (rule bio_rep_cong) (simp_all add: upd_inode_def)
  then show l: "log_rep (upd_inode i f s) a = log_rep s a" by (simp add: log_rep_def)
  then show "tx (upd_inode i f s) a T n = tx s a T n" by (simp add: tx_def)
  show "alloc_pre (upd_inode i f s) a T = alloc_pre s a T" by (simp add: alloc_pre_def)
  show "fs_frame s (upd_inode i f s') = fs_frame s s'" by (simp add: fs_frame_def)
qed

lemma upd_inode_id: "f (inodes s i) = inodes s i \<Longrightarrow> upd_inode i f s = s"
  by (simp add: upd_inode_def)

text \<open>The block is there already.\<close>

lemma bmap_post_found:
  assumes t: "tx s a T (n + 1 + ind_cost (inodes s i))" and pre: "file_pre s a T i" and bn: "bn < MAXFILE"
    and r: "r = blockaddr (content a) (inodes s i) bn" "r \<noteq> 0"
    and s': "tx s' a T (n + 1 + ind_cost (inodes s i))" "log_frame s s'"
  shows "bmap_post s a T n i bn r s' a (insert r T)"
proof -
  have f: "inodes s' = inodes s" "fs_frame s s'" using log_frame_fs [OF s'(2)] log_fs_frame [OF s'(2)] by auto
  have "data_block (content a) (sb s) r" using inode_okD(5) [OF _ bn] pre r by (auto simp: file_pre_def)
  then have h: "home (log_start s') (log_size s') r" "r < 2 ^ 32"
    using pre log_frameD [OF s'(2)] by (auto simp: file_pre_def alloc_pre_def layout_ok_def data_block_def home_def nmeta_def)
  then have "tx s' a (insert r T) (n + ind_cost (inodes s' i))" using tx_insert [of s' a T] s'(1) f(1) by simp
  moreover have "file_pre s' a (insert r T) i"
    using pre f log_frameD [OF s'(2)] by (auto simp: file_pre_def alloc_pre_def fs_frame_def)
  ultimately show ?thesis
    using f r by (auto simp: bmap_post_def intro!: exI [of _ "i_addrs (inodes s i)"])
qed

lemma bmap_direct_new:
  assumes t: "tx s a T (n + 1 + ind_cost (inodes s i))" and pre: "file_pre s a T i" and bn: "bn < NDIRECT"
    and z: "i_addrs (inodes s i) ! bn = 0"
  shows "ok (bmap i bn) s (\<lambda>r s'. \<exists>a' T'. bmap_post s a T n i bn r s' a' T')"
proof -
  let ?ip = "inodes s i" and ?sp = "sb s" and ?c = "content a"
  note P = pre [unfolded file_pre_def]
  note D = inode_okD [of ?c ?sp ?ip]
  have bm: "bn < MAXFILE" using bn by (simp add: MAXFILE_def)
  have b0: "blockaddr ?c ?ip bn = 0" using bn z by (simp add: blockaddr_def)
  obtain r s1 where 1: "balloc ROOTDEV s = Ret (r, s1)" "grown s a T (n + ind_cost ?ip) ?ip r s1"
    using grow_ok [of s a T "n + ind_cost ?ip" ?ip] t P by (auto elim!: okE)
  have G: "fs_frame s s1" "inodes s1 = inodes s" using 1(2) by (auto simp: grown_def)
  have sl: "log_start s1 = log_start s" "log_size s1 = log_size s" "sb s1 = ?sp" using G(1) by (auto simp: fs_frame_def)
  have dev: "i_dev ?ip = ROOTDEV" using D(1) P by blast
  show ?thesis
  proof (cases "r = 0")
    case True
    have "bmap i bn s = Ret (0, s1)" using 1(1) True bn z dev by (simp add: bmap_def bindK_def)
    moreover have "bmap_post s a T n i bn 0 s1 a T"
      using 1(2) True P G sl b0
      by (auto simp: bmap_post_def grown_def file_pre_def alloc_pre_def ind_cost_def
          intro!: exI [of _ "i_addrs ?ip"] intro: tx_Suc split: if_splits)
    ultimately show ?thesis by (rule ok_bmap_post)
  next
    case False
    let ?a = "allocated ?sp r a" let ?c' = "content ?a"
    let ?s = "upd_inode i (\<lambda>ip. ip\<lparr>i_addrs := (i_addrs ip)[bn := r]\<rparr>) s1"
    have g: "tx s1 ?a (insert r T) (n + ind_cost ?ip)" "alloc_pre s1 ?a (insert r T)" "data_block ?c' ?sp r" "inode_ok ?c' ?sp ?ip"
        "r \<noteq> i_addrs ?ip ! NDIRECT" "\<And>bn. bn < MAXFILE \<Longrightarrow> blockaddr ?c' ?ip bn = blockaddr ?c ?ip bn"
        "\<And>bn. bn < MAXFILE \<Longrightarrow> blockaddr ?c' ?ip bn \<noteq> r" "keeps ?sp 0 ?c ?c'" "\<not> used ?c ?sp r"
      using 1(2) False by (auto simp: grown_def Let_def)
    note N = inode_ok_direct [OF g(4) bn z g(3,5,7)]
    have ip': "inodes ?s i = ?ip\<lparr>i_addrs := (i_addrs ?ip)[bn := r]\<rparr>" by (simp add: G)
    have nd: "(i_addrs ?ip)[bn := r] ! NDIRECT = i_addrs ?ip ! NDIRECT" using bn by simp
    have "file_pre ?s ?a (insert r T) i"
      using P g(2) N(1) sl nd ip' by (auto simp: file_pre_def allocated_def)
    moreover have "keeps ?sp (i_addrs ?ip ! NDIRECT) ?c ?c'" using g(8) by (auto simp: keeps_def data_block_def nmeta_def)
    moreover have "tx ?s ?a (insert r T) (n + ind_cost (inodes ?s i))" using g(1) ip' nd by (simp add: ind_cost_def)
    moreover have "bmap i bn s = Ret (r, ?s)"
      using 1(1) False bn z dev by (simp add: bmap_def bindK_def thenK_def set_addr_run)
    moreover have "fs_frame s ?s" using G(1) by simp
    moreover have "\<forall>b. owns ?c' (inodes ?s i) b \<longrightarrow> owns ?c ?ip b \<or> b < sb_size ?sp \<and> \<not> used ?c ?sp b"
      unfolding ip' using N(2) g(3,6,9) nd by (auto simp: owns_def data_block_def split: if_splits)
    ultimately show ?thesis
      using N(2) g(6) b0 bm ip' content_allocated(1) [of ?sp r a] False G
      by (intro ok_bmap_post [of _ _ r ?s _ _ _ _ _ _ ?a "insert r T"])
        (auto simp: bmap_post_def intro!: exI [of _ "(i_addrs ?ip)[bn := r]"])
  qed
qed

text \<open>The entry of an indirect block that is there.\<close>

definition bmap_entry :: "nat \<Rightarrow> nat \<Rightarrow> nat \<Rightarrow> ('a fsst_scheme, nat) kmon" where
  "bmap_entry dev ind k =
     bindK (bread dev ind) (\<lambda>bp.
     bindK (buf_data bp) (\<lambda>x.
     bindK (if get_addr x k = 0 then
              bindK (balloc dev) (\<lambda>addr.
              thenK (whenK (addr \<noteq> 0) (thenK (buf_set bp (store32 x (4 * k) (of_nat addr))) (log_write bp))) (retK addr))
            else retK (get_addr x k)) (\<lambda>addr.
     thenK (brelse bp) (retK addr))))"

lemma bmap_entry_new:
  assumes t: "tx s a T (Suc n)" and pre: "file_pre s a T i"
    and ind: "ind = i_addrs (inodes s i) ! NDIRECT" "ind \<noteq> 0" and k: "k < NINDIRECT" "get_addr (content a ind) k = 0"
  shows "ok (bmap_entry ROOTDEV ind k) s (\<lambda>r s'. \<exists>a' T'. bmap_post s a T n i (NDIRECT + k) r s' a' T')"
proof -
  let ?ip = "inodes s i" and ?sp = "sb s" and ?c = "content a" let ?bn = "NDIRECT + k"
  note P = pre [unfolded file_pre_def]
  have ok: "inode_ok ?c ?sp ?ip" using P by blast
  note D = inode_okD [OF ok]
  have bm: "?bn < MAXFILE" using k by (simp add: MAXFILE_def)
  have b0: "blockaddr ?c ?ip ?bn = 0" using k ind by (simp add: blockaddr_def)
  have di: "data_block ?c ?sp ind" using D(4) ind by blast
  have sl: "slots a = Map.empty" and o: "one_slot a" using P one_slot_empty by auto
  have iT: "ind \<in> T" using P ind by simp
  have cost: "ind_cost ?ip = 0" using ind by (simp add: ind_cost_def)
  obtain j s1 s' where 1: "bread ROOTDEV ind s = Ret (j, s1)" "buf_data j s1 = Ret (?c ind, s1)" "bio_frame s s1"
      "tx s1 (a\<lparr>slots := (slots a)(ind \<mapsto> j)\<rparr>) T (Suc n)" "brelse j s1 = Ret ((), s')" "tx s' a T (Suc n)" "bio_frame s s'"
    by (rule tx_read_block [OF t _ o, of ind]) (simp add: sl)
  note 1 = 1 [unfolded sl]
  let ?a1 = "a\<lparr>slots := [ind \<mapsto> j]\<rparr>"
  note f1 = log_frame_fs [OF bio_log_frame [OF 1(3)]] log_frameD [OF bio_log_frame [OF 1(3)]]
  have "alloc_pre s1 ?a1 T"
    using P f1 di by (auto simp: alloc_pre_def one_slot_def data_block_def bmap_blocks_def)
  then obtain r s2 where 2: "balloc ROOTDEV s1 = Ret (r, s2)" "grown s1 ?a1 T n ?ip r s2"
    using grow_ok [OF 1(4), of ?ip] ok f1 by (auto elim!: okE)
  have G: "fs_frame s1 s2" "inodes s2 = inodes s" "sb s1 = ?sp" using 2(2) f1 by (auto simp: grown_def)
  have lh: "ind \<in> set (log_lh s) \<or> ?c ind = stored a ind" using tx_clean [OF t] sl by simp
  have fs: "fs_frame s s2" using log_fs_frame [OF bio_log_frame [OF 1(3)]] G(1) fs_frame_trans by blast
  show ?thesis
  proof (cases "r = 0")
    case True
    have u: "\<forall>b < sb_size ?sp. used ?c ?sp b" and t2: "tx s2 ?a1 T (Suc n)" using 2(2) True G(3) by (auto simp: grown_def)
    have ae: "a\<lparr>slots := Map.empty\<rparr> = a" using sl by (intro cache_eqI) auto
    have "ind \<in> set (log_lh s2) \<or> content ?a1 ind = stored ?a1 ind"
      using log_repD(5) [OF tx_rep [OF t2]] log_repD(5) [OF tx_rep [OF t]] lh by (auto simp: fun_eq_iff split: if_splits)
    then obtain s3 where 3: "brelse j s2 = Ret ((), s3)" "tx s3 a T (Suc n)" "bio_frame s2 s3"
      using tx_brelse [OF t2, of ind j] ae by (auto elim!: okE)
    note f3 = bio_log_frame [OF 3(3)]
    have fs3: "fs_frame s s3" using fs log_fs_frame [OF f3] fs_frame_trans by blast
    have "bmap_post s a T n i ?bn 0 s3 a T"
      using P G log_frame_fs [OF f3] fs3 b0 u cost 3(2) tx_Suc [OF 3(2)]
      by (auto simp: bmap_post_def file_pre_def alloc_pre_def fs_frame_def intro!: exI [of _ "i_addrs ?ip"])
    moreover have "bmap_entry ROOTDEV ind k s = Ret (0, s3)"
      using 1(1,2) 2(1) 3(1) True k by (simp add: bmap_entry_def bindK_def thenK_def)
    ultimately show ?thesis by (intro ok_bmap_post)
  next
    case False
    let ?a2 = "allocated ?sp r ?a1" let ?c2 = "content ?a2"
    have g: "tx s2 ?a2 (insert r T) n" "alloc_pre s2 ?a2 (insert r T)" "data_block ?c2 ?sp r" "inode_ok ?c2 ?sp ?ip"
        "r \<noteq> i_addrs ?ip ! NDIRECT" "\<And>bn. bn < MAXFILE \<Longrightarrow> blockaddr ?c2 ?ip bn = blockaddr ?c ?ip bn"
        "\<And>bn. bn < MAXFILE \<Longrightarrow> blockaddr ?c2 ?ip bn \<noteq> r" "keeps ?sp 0 ?c ?c2" "?c2 ind = ?c ind"
        "\<not> used ?c ?sp r"
      using 2(2) False G(3) di by (auto simp: grown_def Let_def)
    have r32: "r < 2 ^ 32" using g(1) by (auto simp: tx_def)
    let ?x = "store32 (?c ind) (4 * k) (of_nat r)"
    have s2l: "slots ?a2 ind = Some j" by (simp add: allocated_def)
    obtain s3 where 3: "buf_set j ?x s2 = Ret ((), s3)" "tx s3 (?a2\<lparr>content := ?c2(ind := ?x)\<rparr>) (insert r T) n" "bio_frame s2 s3"
      using tx_buf_set [OF g(1) s2l, of ?x] tx_content_length [OF t] by (auto elim!: okE)
    let ?a3 = "?a2\<lparr>content := ?c2(ind := ?x)\<rparr>"
    obtain s4 where 4: "log_write j s3 = Ret ((), s4)" "tx s4 (?a3\<lparr>pins := (pins ?a3)(ind := 1)\<rparr>) (insert r T) n" "log_frame s3 s4"
        "ind \<in> set (log_lh s4)"
      using tx_log_write [OF 3(2), of ind j] s2l iT by (auto elim!: okE)
    let ?a4 = "?a3\<lparr>pins := (pins ?a3)(ind := 1)\<rparr>"
    obtain s5 where 5: "brelse j s4 = Ret ((), s5)" "tx s5 (?a4\<lparr>slots := (slots ?a4)(ind := None)\<rparr>) (insert r T) n" "bio_frame s4 s5"
      using tx_brelse [OF 4(2), of ind j] s2l 4(4) by (auto elim!: okE)
    let ?a5 = "?a4\<lparr>slots := (slots ?a4)(ind := None)\<rparr>" let ?c5 = "?c2(ind := ?x)"
    have c5: "content ?a5 = ?c5" "slots ?a5 = Map.empty" by (auto simp: allocated_def fun_eq_iff)
    have "log_frame s2 s5" using bio_log_frame [OF 3(3)] 4(3) bio_log_frame [OF 5(3)] log_frame_trans by blast
    then have F: "inodes s5 = inodes s" "fs_frame s s5" "sb s5 = ?sp" "log_start s5 = log_start s2" "log_size s5 = log_size s2"
      using log_frame_fs [of s2 s5] log_frameD [of s2 s5] log_fs_frame [of s2 s5] G fs fs_frame_trans by (auto simp: fs_frame_def)
    have len: "length (?c2 ind) = BSIZE" using g(9) tx_content_length [OF t] by simp
    have x: "?c5 = ?c2(ind := store32 (?c2 ind) (4 * k) (of_nat r))" using g(9) by simp
    have old: "blockaddr ?c2 ?ip ?bn = 0" using g(6) [OF bm] b0 by simp
    note N = inode_ok_entry [OF g(4) k(1) ind len g(3) r32 g(5) [folded ind(1)] g(7) old x]
    have ui: "b < sb_size ?sp \<Longrightarrow> used ?c5 ?sp b = used ?c2 ?sp b" for b
      using used_logged_other [of ind ?sp b ?a2 ?x] di by (simp add: data_block_def bmap_blocks_def)
    have nm: "nmeta ?sp \<le> sb_size ?sp" using P by (simp add: alloc_pre_def layout_ok_def)
    have sp2: "sb s2 = ?sp" using fs by (simp add: fs_frame_def)
    have "alloc_pre s5 ?a5 (insert r T)"
      using g(2) F c5 ui nm sp2 by (auto simp: alloc_pre_def one_slot_def)
    then have "file_pre s5 ?a5 (insert r T) i" using c5 F N(1) iT ind(1) by (simp add: file_pre_def)
    moreover have "keeps ?sp ind ?c ?c5" using g(8) ui di by (auto simp: keeps_def data_block_def nmeta_def)
    moreover have "\<forall>b. owns ?c5 ?ip b \<longrightarrow> owns ?c ?ip b \<or> b < sb_size ?sp \<and> \<not> used ?c ?sp b"
      using N(2) g(3,6,10) by (auto simp: owns_def data_block_def split: if_splits)
    moreover have "?c5 r = replicate BSIZE 0" using g(5) ind(1) content_allocated(1) by simp
    moreover have "bmap_entry ROOTDEV ind k s = Ret (r, s5)"
      using 1(1,2) 2(1) 3(1) 4(1) 5(1) False k by (simp add: bmap_entry_def bindK_def thenK_def)
    ultimately show ?thesis
      using N(2) g(6) b0 bm False F cost 5(2) c5 ind(1)
      by (intro ok_bmap_post [of _ _ r s5 _ _ _ _ _ _ ?a5 "insert r T"])
        (auto simp: bmap_post_def intro!: exI [of _ "i_addrs ?ip"])
  qed
qed

lemma bmap_entry_ok:
  assumes t: "tx s a T (Suc n)" and pre: "file_pre s a T i"
    and ind: "ind = i_addrs (inodes s i) ! NDIRECT" "ind \<noteq> 0" and k: "k < NINDIRECT"
  shows "ok (bmap_entry ROOTDEV ind k) s (\<lambda>r s'. \<exists>a' T'. bmap_post s a T n i (NDIRECT + k) r s' a' T')"
proof (cases "get_addr (content a ind) k = 0")
  case True
  then show ?thesis using bmap_entry_new [OF assms] by blast
next
  case False
  have sl: "slots a = Map.empty" and o: "one_slot a" using pre one_slot_empty by (auto simp: file_pre_def)
  obtain j s1 s2 where 1: "bread ROOTDEV ind s = Ret (j, s1)" "buf_data j s1 = Ret (content a ind, s1)" "bio_frame s s1"
      "tx s1 (a\<lparr>slots := (slots a)(ind \<mapsto> j)\<rparr>) T (Suc n)" "brelse j s1 = Ret ((), s2)" "tx s2 a T (Suc n)" "bio_frame s s2"
    by (rule tx_read_block [OF t _ o, of ind]) (simp add: sl)
  let ?r = "get_addr (content a ind) k"
  have "blockaddr (content a) (inodes s i) (NDIRECT + k) = ?r" using ind by (simp add: blockaddr_def)
  moreover have "ind_cost (inodes s i) = 0" using ind by (simp add: ind_cost_def)
  ultimately have "bmap_post s a T n i (NDIRECT + k) ?r s2 a (insert ?r T)"
    using t 1(6) pre k False bio_log_frame [OF 1(7)] by (intro bmap_post_found) (auto simp: MAXFILE_def)
  moreover have "bmap_entry ROOTDEV ind k s = Ret (?r, s2)"
    using 1(1,2,5) False by (simp add: bmap_entry_def bindK_def thenK_def)
  ultimately show ?thesis by (intro ok_bmap_post)
qed

lemma bmap_indirect:
  assumes "i_dev (inodes s i) = ROOTDEV" "k < NINDIRECT"
  shows "bmap i (NDIRECT + k) s =
    (if i_addrs (inodes s i) ! NDIRECT \<noteq> 0 then bmap_entry ROOTDEV (i_addrs (inodes s i) ! NDIRECT) k s
     else bindK (balloc ROOTDEV) (\<lambda>addr.
            if addr = 0 then retK 0 else thenK (set_addr i NDIRECT addr) (bmap_entry ROOTDEV addr k)) s)"
  using assms
  by (auto simp: bmap_def bmap_entry_def bindK_def thenK_def bindR_def set_addr_run split: sum.splits prod.splits)

lemma bmap_ok:
  assumes t: "tx s a T (n + 1 + ind_cost (inodes s i))" and pre: "file_pre s a T i" and bn: "bn < MAXFILE"
  shows "ok (bmap i bn) s (\<lambda>r s'. \<exists>a' T'. bmap_post s a T n i bn r s' a' T')"
proof -
  let ?ip = "inodes s i" and ?sp = "sb s" and ?c = "content a" let ?ind = "i_addrs ?ip ! NDIRECT"
  note P = pre [unfolded file_pre_def]
  have ok: "inode_ok ?c ?sp ?ip" using P by blast
  note D = inode_okD [OF ok]
  consider "bn < NDIRECT" "i_addrs ?ip ! bn = 0" | "bn < NDIRECT" "i_addrs ?ip ! bn \<noteq> 0"
    | k where "bn = NDIRECT + k" "k < NINDIRECT" "?ind \<noteq> 0" | k where "bn = NDIRECT + k" "k < NINDIRECT" "?ind = 0"
    using bn by (metis MAXFILE_def add_diff_inverse_nat add_less_cancel_left)
  then show ?thesis
  proof cases
    case 1
    then show ?thesis using bmap_direct_new [OF t pre] by blast
  next
    case 2
    let ?r = "i_addrs ?ip ! bn"
    have "bmap i bn s = Ret (?r, s)" using 2 by (simp add: bmap_def)
    moreover have "bmap_post s a T n i bn ?r s a (insert ?r T)"
      using bmap_post_found [OF t pre bn _ _ t] 2 by (simp add: blockaddr_def log_frame_def)
    ultimately show ?thesis by (rule ok_bmap_post)
  next
    case (3 k)
    then have "tx s a T (Suc n)" using t by (simp add: ind_cost_def)
    then show ?thesis
      using bmap_entry_ok [OF _ pre refl 3(3,2)] bmap_indirect [OF D(1) 3(2)] 3 by (simp add: ok_def)
  next
    case (4 k)
    have t2: "tx s a T (Suc (Suc n))" using t 4(3) by (simp add: ind_cost_def)
    obtain r s1 where 1: "balloc ROOTDEV s = Ret (r, s1)" "grown s a T (Suc n) ?ip r s1"
      using grow_ok [OF t2 _ ok] P by (auto elim!: okE)
    have G: "fs_frame s s1" "inodes s1 = inodes s" using 1(2) by (auto simp: grown_def)
    have sl: "log_start s1 = log_start s" "log_size s1 = log_size s" "sb s1 = ?sp" using G(1) by (auto simp: fs_frame_def)
    have b0: "blockaddr ?c ?ip bn = 0" using 4 by (simp add: blockaddr_def)
    show ?thesis
    proof (cases "r = 0")
      case True
      have "bmap i bn s = Ret (0, s1)"
        using 1(1) True bmap_indirect [OF D(1) 4(2)] 4 by (simp add: bindK_def)
      moreover have "bmap_post s a T n i bn 0 s1 a T"
        using 1(2) True P G sl b0 4(3)
        by (auto simp: bmap_post_def grown_def file_pre_def alloc_pre_def ind_cost_def
            intro!: exI [of _ "i_addrs ?ip"] intro: tx_Suc split: if_splits)
      ultimately show ?thesis by (rule ok_bmap_post)
    next
      case False
      let ?a = "allocated ?sp r a" let ?c' = "content ?a"
      let ?s = "upd_inode i (\<lambda>ip. ip\<lparr>i_addrs := (i_addrs ip)[NDIRECT := r]\<rparr>) s1"
      have g: "tx s1 ?a (insert r T) (Suc n)" "alloc_pre s1 ?a (insert r T)" "data_block ?c' ?sp r" "inode_ok ?c' ?sp ?ip"
          "\<not> used ?c ?sp r" "\<And>bn. bn < MAXFILE \<Longrightarrow> blockaddr ?c' ?ip bn = blockaddr ?c ?ip bn"
          "\<And>bn. bn < MAXFILE \<Longrightarrow> blockaddr ?c' ?ip bn \<noteq> r" "keeps ?sp 0 ?c ?c'"
        using 1(2) False by (auto simp: grown_def Let_def)
      note N = inode_ok_indirect [OF g(4) 4(3) g(3) content_allocated(1) g(7)]
      have ip': "inodes ?s i = ?ip\<lparr>i_addrs := (i_addrs ?ip)[NDIRECT := r]\<rparr>" by (simp add: G)
      have nd: "i_addrs (inodes ?s i) ! NDIRECT = r" using ip' D(2) by simp
      have "file_pre ?s ?a (insert r T) i"
        using P g(2) N(1) sl ip' nd by (auto simp: file_pre_def allocated_def)
      moreover have "tx ?s ?a (insert r T) (Suc n)" using g(1) by simp
      ultimately obtain r' s' a' T' where 2: "bmap_entry ROOTDEV r k ?s = Ret (r', s')"
          "bmap_post ?s ?a (insert r T) n i bn r' s' a' T'"
        using bmap_entry_ok [of ?s ?a "insert r T" n i r k] nd False 4(1,2) by (auto elim!: okE)
      have ba: "\<And>bn. bn < MAXFILE \<Longrightarrow> blockaddr ?c' (inodes ?s i) bn = blockaddr ?c ?ip bn" using N(2) g(6) ip' by simp
      have "keeps ?sp r ?c' (content a')" using 2(2) nd sl by (simp add: bmap_post_def)
      then have "keeps ?sp 0 ?c (content a')" using keeps_trans [OF g(8)] g(5) by (auto simp: data_block_def)
      moreover have "fs_frame s s'" using 2(2) G(1) by (auto simp: bmap_post_def fs_frame_def)
      moreover have "\<exists>as. inodes s' = (inodes s)(i := ?ip\<lparr>i_addrs := as\<rparr>)" using 2(2) G(2) by (auto simp: bmap_post_def)
      moreover have "owns ?c ?ip b \<or> b < sb_size ?sp \<and> \<not> used ?c ?sp b" if "owns (content a') (inodes s' i) b" for b
      proof -
        have "owns ?c' (inodes ?s i) b \<or> b < sb_size ?sp \<and> \<not> used ?c' ?sp b"
          using 2(2) that sl by (auto simp: bmap_post_def)
        moreover have "owns ?c' (inodes ?s i) b \<Longrightarrow> owns ?c ?ip b \<or> b = r" using ba nd by (auto simp: owns_def)
        ultimately show ?thesis using g(3,5,8) by (auto simp: keeps_def data_block_def)
      qed
      ultimately have "bmap_post s a T n i bn r' s' a' T'"
        using 2(2) ba bn b0 4(3) sl unfolding bmap_post_def by simp
      moreover have "bmap i bn s = Ret (r', s')"
        using 1(1) 2(1) False bmap_indirect [OF D(1) 4(2)] 4 by (simp add: bindK_def thenK_def set_addr_run)
      ultimately show ?thesis by (intro ok_bmap_post)
    qed
  qed
qed

section \<open>Bytes of a file\<close>

definition fbyte :: "(nat \<Rightarrow> block) \<Rightarrow> inode \<Rightarrow> nat \<Rightarrow> u8" where
  "fbyte c ip k = c (blockaddr c ip (k div BSIZE)) ! (k mod BSIZE)"

text \<open>
  The effect of writing the bytes \<open>f k\<close> at the positions from \<open>off\<close> to \<open>off + t\<close> of a file: nothing else of
  this or another file changes, and the file grows by unused blocks only.
\<close>

definition wrote :: "superblock \<Rightarrow> (nat \<Rightarrow> u8) \<Rightarrow> nat \<Rightarrow> nat \<Rightarrow> (nat \<Rightarrow> block) \<Rightarrow> inode \<Rightarrow> (nat \<Rightarrow> block) \<Rightarrow> inode \<Rightarrow> bool" where
  "wrote sp f off t c ip c' ip' \<longleftrightarrow>
     (\<forall>bn < MAXFILE. blockaddr c ip bn \<noteq> 0 \<longrightarrow> blockaddr c' ip' bn = blockaddr c ip bn) \<and>
     (\<forall>k. off \<le> k \<longrightarrow> k < off + t \<longrightarrow> blockaddr c' ip' (k div BSIZE) \<noteq> 0 \<and> fbyte c' ip' k = f k) \<and>
     (\<forall>k. k div BSIZE < MAXFILE \<longrightarrow> \<not> (off \<le> k \<and> k < off + t) \<longrightarrow> blockaddr c ip (k div BSIZE) \<noteq> 0 \<longrightarrow>
        fbyte c' ip' k = fbyte c ip k) \<and>
     (\<forall>b. b < sb_bmapstart sp \<or> data_block c sp b \<and> \<not> owns c ip b \<longrightarrow> c' b = c b) \<and>
     (\<forall>b < sb_size sp. used c sp b \<longrightarrow> used c' sp b) \<and>
     (\<forall>b. owns c' ip' b \<longrightarrow> owns c ip b \<or> b < sb_size sp \<and> \<not> used c sp b)"

lemma wroteD:
  assumes "wrote sp f off t c ip c' ip'"
  shows "bn < MAXFILE \<Longrightarrow> blockaddr c ip bn \<noteq> 0 \<Longrightarrow> blockaddr c' ip' bn = blockaddr c ip bn"
    "off \<le> k \<Longrightarrow> k < off + t \<Longrightarrow> blockaddr c' ip' (k div BSIZE) \<noteq> 0 \<and> fbyte c' ip' k = f k"
    "k div BSIZE < MAXFILE \<Longrightarrow> \<not> (off \<le> k \<and> k < off + t) \<Longrightarrow> blockaddr c ip (k div BSIZE) \<noteq> 0 \<Longrightarrow> fbyte c' ip' k = fbyte c ip k"
    "b < sb_bmapstart sp \<or> data_block c sp b \<and> \<not> owns c ip b \<Longrightarrow> c' b = c b"
    "b < sb_size sp \<Longrightarrow> used c sp b \<Longrightarrow> used c' sp b"
    "owns c' ip' b \<Longrightarrow> owns c ip b \<or> b < sb_size sp \<and> \<not> used c sp b"
  using assms unfolding wrote_def by blast+

lemma wrote_refl: "wrote sp f off 0 c ip c ip"
  by (simp add: wrote_def)

lemma wrote_trans:
  assumes 1: "wrote sp f off t c ip c1 ip1" and 2: "wrote sp f (off + t) t' c1 ip1 c2 ip2" and m: "off + t \<le> MAXFILE * BSIZE"
  shows "wrote sp f off (t + t') c ip c2 ip2"
  unfolding wrote_def
proof (intro conjI allI impI)
  note A = wroteD [OF 1] and B = wroteD [OF 2]
  have lt: "k div BSIZE < MAXFILE" if "k < off + t" for k
    using m that by (simp add: less_mult_imp_div_less)
  { fix bn assume "bn < MAXFILE" "blockaddr c ip bn \<noteq> 0"
    then show "blockaddr c2 ip2 bn = blockaddr c ip bn" using A(1) B(1) by metis }
  { fix k assume k: "off \<le> k" "k < off + (t + t')"
    show "blockaddr c2 ip2 (k div BSIZE) \<noteq> 0"
      using A(2) [of k] B(1) [of "k div BSIZE"] B(2) [of k] k lt [of k] by (cases "k < off + t") auto
    show "fbyte c2 ip2 k = f k"
      using A(2) [of k] B(3) [of k] B(2) [of k] k lt [of k] by (cases "k < off + t") auto }
  { fix k assume "k div BSIZE < MAXFILE" "\<not> (off \<le> k \<and> k < off + (t + t'))" "blockaddr c ip (k div BSIZE) \<noteq> 0"
    then show "fbyte c2 ip2 k = fbyte c ip k"
      using A(1) [of "k div BSIZE"] A(3) [of k] B(3) [of k] by auto }
  { fix b assume b: "b < sb_bmapstart sp \<or> data_block c sp b \<and> \<not> owns c ip b"
    moreover have "data_block c sp b \<Longrightarrow> data_block c1 sp b" using A(5) by (simp add: data_block_def)
    moreover have "data_block c sp b \<and> \<not> owns c ip b \<Longrightarrow> \<not> owns c1 ip1 b" using A(6) by (auto simp: data_block_def)
    ultimately show "c2 b = c b" using A(4) [OF b] B(4) [of b] by auto }
  { fix b assume "b < sb_size sp" "used c sp b" then show "used c2 sp b" using A(5) B(5) by blast }
  { fix b assume "owns c2 ip2 b"
    then show "owns c ip b \<or> b < sb_size sp \<and> \<not> used c sp b" using A(5,6) B(6) by blast }
qed

lemma wrote_bmap:
  assumes post: "bmap_post s a T n i bn r s' a' T'" and ok: "inode_ok (content a) (sb s) (inodes s i)"
  shows "wrote (sb s) f off 0 (content a) (inodes s i) (content a') (inodes s' i)"
proof -
  let ?c = "content a" and ?ip = "inodes s i" and ?c' = "content a'" and ?ip' = "inodes s' i"
  note P = post [unfolded bmap_post_def]
  have ba: "blockaddr ?c' ?ip' bn' = blockaddr ?c ?ip bn'" if "bn' < MAXFILE" "blockaddr ?c ?ip bn' \<noteq> 0" for bn'
    using P that by metis
  have "fbyte ?c' ?ip' k = fbyte ?c ?ip k" if "k div BSIZE < MAXFILE" "blockaddr ?c ?ip (k div BSIZE) \<noteq> 0" for k
  proof -
    have "?c' (blockaddr ?c ?ip (k div BSIZE)) = ?c (blockaddr ?c ?ip (k div BSIZE))"
      using inode_okD(5,6) [OF ok that] P unfolding keeps_def by blast
    then show ?thesis using ba [OF that] by (simp add: fbyte_def)
  qed
  moreover have "?c' b = ?c b" if "b < sb_bmapstart (sb s) \<or> data_block ?c (sb s) b \<and> \<not> owns ?c ?ip b" for b
  proof -
    have "b < sb_bmapstart (sb s) \<or> data_block ?c (sb s) b \<and> b \<noteq> i_addrs ?ip ! NDIRECT"
      using that by (auto simp: owns_def data_block_def nmeta_def)
    then show ?thesis using P unfolding keeps_def by blast
  qed
  moreover have "\<forall>b < sb_size (sb s). used ?c (sb s) b \<longrightarrow> used ?c' (sb s) b" using P unfolding keeps_def by blast
  moreover have "\<forall>b. owns ?c' ?ip' b \<longrightarrow> owns ?c ?ip b \<or> b < sb_size (sb s) \<and> \<not> used ?c (sb s) b" using P by blast
  ultimately show ?thesis using ba unfolding wrote_def by simp
qed

lemma wrote_chunk:
  assumes ok: "inode_ok c sp ip" and bn: "bn = off div BSIZE" "bn < MAXFILE" and r: "r = blockaddr c ip bn" "r \<noteq> 0"
    and fit: "off mod BSIZE + length bs \<le> BSIZE" and len: "length (c r) = BSIZE"
    and bs: "\<And>p. p < length bs \<Longrightarrow> bs ! p = f (off + p)"
    and c': "c' = c(r := splice (c r) (off mod BSIZE) bs)"
  shows "wrote sp f off (length bs) c ip c' ip" "inode_ok c' sp ip" "b < sb_size sp \<Longrightarrow> used c' sp b = used c sp b"
proof -
  note D = inode_okD [OF ok]
  have dr: "data_block c sp r" and ri: "r \<noteq> i_addrs ip ! NDIRECT" using D(5,6) [OF bn(2)] r by auto
  have us: "used c' sp b = used c sp b" if "b < sb_size sp" for b
    using used_logged_other [OF _ that, of r "idle_cache c []"] dr c' by (simp add: data_block_def bmap_blocks_def)
  then show "b < sb_size sp \<Longrightarrow> used c' sp b = used c sp b" .
  have ind: "i_addrs ip ! NDIRECT \<noteq> 0 \<Longrightarrow> c' (i_addrs ip ! NDIRECT) = c (i_addrs ip ! NDIRECT)" using ri c' by simp
  have ba: "blockaddr c' ip x = blockaddr c ip x" for x using blockaddr_cong [of ip ip c' c] ind by blast
  show "inode_ok c' sp ip" by (rule inode_ok_cong [OF ok]) (use ind us in auto)
  have kk: "k div BSIZE = bn \<and> k mod BSIZE = off mod BSIZE + (k - off)" if "off \<le> k" "k < off + length bs" for k
  proof -
    have "k = bn * BSIZE + (off mod BSIZE + (k - off))" using that(1) bn(1) by simp
    moreover have "off mod BSIZE + (k - off) < BSIZE" using that fit by linarith
    ultimately show ?thesis by (metis div_mult_self3 div_less mod_mult_self3 mod_less add.left_neutral less_nat_zero_code add_0_right)
  qed
  have cr: "c' r = splice (c r) (off mod BSIZE) bs" and co: "\<And>b. b \<noteq> r \<Longrightarrow> c' b = c b" using c' by auto
  have fit': "off mod BSIZE + length bs \<le> length (c r)" using fit len by simp
  have "fbyte c' ip k = f k" if k: "off \<le> k" "k < off + length bs" for k
  proof -
    have "fbyte c' ip k = splice (c r) (off mod BSIZE) bs ! (off mod BSIZE + (k - off))"
      using kk [OF k] r(1) cr by (simp add: fbyte_def ba)
    also have "\<dots> = bs ! (k - off)"
    proof -
      have p: "k - off < length bs" using k by simp
      have "off mod BSIZE + (k - off) < length (c r)" using p fit' by linarith
      then show ?thesis using splice_nth [OF fit', of "off mod BSIZE + (k - off)"] p by (simp only: le_add1 add_less_cancel_left diff_add_inverse) simp
    qed
    finally show ?thesis using bs [of "k - off"] k by simp
  qed
  moreover have "fbyte c' ip k = fbyte c ip k"
    if k: "k div BSIZE < MAXFILE" "\<not> (off \<le> k \<and> k < off + length bs)" "blockaddr c ip (k div BSIZE) \<noteq> 0" for k
  proof (cases "k div BSIZE = bn")
    case True
    have "k mod BSIZE < BSIZE" by (simp add: BSIZE_def)
    moreover have "\<not> (off mod BSIZE \<le> k mod BSIZE \<and> k mod BSIZE < off mod BSIZE + length bs)"
    proof
      assume a: "off mod BSIZE \<le> k mod BSIZE \<and> k mod BSIZE < off mod BSIZE + length bs"
      have "k = bn * BSIZE + k mod BSIZE" "off = bn * BSIZE + off mod BSIZE" using True bn(1) by (metis div_mult_mod_eq)+
      then have "off \<le> k \<and> k < off + length bs" using a by linarith
      then show False using k(2) by blast
    qed
    ultimately have "c' r ! (k mod BSIZE) = c r ! (k mod BSIZE)" using splice_nth [OF fit', of "k mod BSIZE"] len cr by auto
    then show ?thesis using True r(1) by (simp add: fbyte_def ba)
  next
    case False
    then have "blockaddr c ip (k div BSIZE) \<noteq> r" using D(7) [OF k(1) bn(2)] k(3) r by auto
    then show ?thesis using co by (simp add: fbyte_def ba)
  qed
  moreover have "\<forall>k. off \<le> k \<longrightarrow> k < off + length bs \<longrightarrow> blockaddr c' ip (k div BSIZE) \<noteq> 0" using kk r ba by auto
  moreover have "owns c ip r" using r bn by (auto simp: owns_def)
  moreover have "r \<ge> sb_bmapstart sp" using dr by (simp add: data_block_def nmeta_def)
  ultimately show "wrote sp f off (length bs) c ip c' ip"
    using ba us co unfolding wrote_def owns_def by auto
qed

section \<open>writei\<close>

definition nblocks :: "nat \<Rightarrow> nat \<Rightarrow> nat" where
  "nblocks off len = (if len = 0 then 0 else (off + len - 1) div BSIZE - off div BSIZE + 1)"

lemma nblocks_step:
  assumes "0 < len" "k = min len (BSIZE - off mod BSIZE)"
  shows "nblocks off len = Suc (nblocks (off + k) (len - k))" "0 < k" "off mod BSIZE + k \<le> BSIZE" "k \<le> len"
proof -
  have B: "0 < BSIZE" and m: "off mod BSIZE < BSIZE" by (simp_all add: BSIZE_def)
  show "0 < k" "off mod BSIZE + k \<le> BSIZE" "k \<le> len" using assms m by auto
  show "nblocks off len = Suc (nblocks (off + k) (len - k))"
  proof (cases "k = len")
    case True
    have "off + len - 1 = off div BSIZE * BSIZE + (off mod BSIZE + (len - 1))" using assms(1) by (simp add: add.assoc [symmetric])
    moreover have "off mod BSIZE + (len - 1) < BSIZE" using True assms m by auto
    ultimately have "(off + len - 1) div BSIZE = off div BSIZE" using B by (metis div_less div_mult_self3 add.right_neutral less_numeral_extra(3))
    then show ?thesis using True assms(1) by (simp add: nblocks_def)
  next
    case False
    then have k: "k = BSIZE - off mod BSIZE" "k < len" using assms by auto
    have e: "off + k = (off div BSIZE + 1) * BSIZE" using k m by (simp add: minus_mod_eq_div_mult [symmetric])
    then have d: "(off + k) div BSIZE = off div BSIZE + 1" using B by simp
    have "(off + k) div BSIZE \<le> (off + len - 1) div BSIZE" using k(2) by (intro div_le_mono) auto
    then show ?thesis using d k(2) assms(1) by (simp add: nblocks_def)
  qed
qed

text \<open>The copy routine delivers the bytes \<open>ds\<close> from address \<open>src\<close> on.\<close>

definition copies_in :: "copyin \<Rightarrow> nat \<Rightarrow> u8 list \<Rightarrow> bool" where
  "copies_in cin src ds \<longleftrightarrow> (\<forall>p k. p + k \<le> length ds \<longrightarrow> fst (cin (src + p) k) = take k (drop p ds) \<and> snd (cin (src + p) k) \<noteq> -1)"

definition writei_post ::
  "'a fsst_scheme \<Rightarrow> cache \<Rightarrow> nat set \<Rightarrow> nat \<Rightarrow> nat \<Rightarrow> (nat \<Rightarrow> u8) \<Rightarrow> nat \<Rightarrow> nat \<Rightarrow> 'a fsst_scheme \<Rightarrow> cache \<Rightarrow> nat set \<Rightarrow> bool" where
  "writei_post s a T m i f off t s' a' T' \<longleftrightarrow>
     file_pre s' a' T' i \<and> tx s' a' T' (m + ind_cost (inodes s' i)) \<and> T \<subseteq> T' \<and> fs_frame s s' \<and>
     (\<exists>as. inodes s' = (inodes s)(i := (inodes s i)\<lparr>i_addrs := as\<rparr>)) \<and>
     wrote (sb s) f off t (content a) (inodes s i) (content a') (inodes s' i)"

lemma writei_post_trans:
  assumes "writei_post s a T m i f off t s1 a1 T1" "writei_post s1 a1 T1 m' i f (off + t) t' s2 a2 T2" "off + t \<le> MAXFILE * BSIZE"
  shows "writei_post s a T m' i f off (t + t') s2 a2 T2"
proof -
  have "sb s1 = sb s" using assms(1) by (simp add: writei_post_def fs_frame_def)
  then have "wrote (sb s) f off (t + t') (content a) (inodes s i) (content a2) (inodes s2 i)"
    using assms wrote_trans unfolding writei_post_def by metis
  then show ?thesis using assms(1,2) fs_frame_trans unfolding writei_post_def by fastforce
qed

lemma writei_chunk_ok:
  assumes post: "bmap_post s a T m i (off div BSIZE) r s1 a1 T1" and pre: "file_pre s a T i" and r: "r \<noteq> 0" and bn: "off div BSIZE < MAXFILE"
    and fit: "off mod BSIZE + length bs \<le> BSIZE" and bs: "\<And>p. p < length bs \<Longrightarrow> bs ! p = f (off + p)"
  shows "ok (update_logged r (\<lambda>x. splice x (off mod BSIZE) bs)) s1 (\<lambda>_ s2. \<exists>a2. writei_post s a T m i f off (length bs) s2 a2 T1)"
proof -
  note Q = post [unfolded bmap_post_def]
  let ?c1 = "content a1" and ?ip1 = "inodes s1 i"
  have fp: "file_pre s1 a1 T1 i" and t1: "tx s1 a1 T1 (m + ind_cost ?ip1)" and ra: "r = blockaddr ?c1 ?ip1 (off div BSIZE)" and rT: "r \<in> T1"
    using Q r by auto
  have sp: "sb s1 = sb s" using Q by (simp add: fs_frame_def)
  have ok1: "inode_ok ?c1 (sb s1) ?ip1" and sl: "slots a1 = Map.empty" using fp by (auto simp: file_pre_def)
  have len: "length (?c1 r) = BSIZE" using tx_content_length [OF t1] .
  obtain s2 where 2: "update_logged r (\<lambda>x. splice x (off mod BSIZE) bs) s1 = Ret ((), s2)" "log_frame s1 s2"
      "tx s2 (logged r (splice (?c1 r) (off mod BSIZE) bs) a1) T1 (m + ind_cost ?ip1)"
    using tx_update [OF t1 rT _ one_slot_empty [OF sl], of "\<lambda>x. splice x (off mod BSIZE) bs"] sl len fit by (auto elim!: okE)
  let ?a2 = "logged r (splice (?c1 r) (off mod BSIZE) bs) a1"
  note W = wrote_chunk [OF ok1 refl bn ra r fit len bs, of "content ?a2"]
  note f2 = log_frame_fs [OF 2(2)] log_frameD [OF 2(2)]
  have nm: "nmeta (sb s1) \<le> sb_size (sb s1)" using fp by (simp add: file_pre_def alloc_pre_def layout_ok_def)
  have "file_pre s2 ?a2 T1 i"
    using fp f2 W(2,3) nm by (auto simp: file_pre_def alloc_pre_def one_slot_def)
  moreover have "wrote (sb s) f off (0 + length bs) (content a) (inodes s i) (content ?a2) (inodes s2 i)"
  proof (rule wrote_trans)
    show "wrote (sb s) f off 0 (content a) (inodes s i) ?c1 ?ip1" using wrote_bmap [OF post] pre by (simp add: file_pre_def)
    show "wrote (sb s) f (off + 0) (length bs) ?c1 ?ip1 (content ?a2) (inodes s2 i)" using W(1) f2 sp by simp
    have "off div BSIZE * BSIZE + off mod BSIZE = off" by simp
    moreover have "Suc (off div BSIZE) * BSIZE \<le> MAXFILE * BSIZE" using bn by (intro mult_le_mono1) simp
    moreover have "off mod BSIZE < BSIZE" by (simp add: BSIZE_def)
    ultimately show "off + 0 \<le> MAXFILE * BSIZE" unfolding mult_Suc by linarith
  qed
  moreover have "fs_frame s s2" using Q log_fs_frame [OF 2(2)] fs_frame_trans by blast
  ultimately have "writei_post s a T m i f off (length bs) s2 ?a2 T1"
    using Q 2(3) f2 by (auto simp: writei_post_def)
  then show ?thesis using 2(1) by (intro okI [of _ _ "()" s2]) auto
qed

definition disk_full :: "'a fsst_scheme \<Rightarrow> cache \<Rightarrow> bool" where
  "disk_full s a \<longleftrightarrow> (\<forall>b < sb_size (sb s). used (content a) (sb s) b)"

lemma copies_in_chunk:
  assumes "copies_in cin src ds" "k \<le> length ds"
  shows "fst (cin src k) = take k ds" "snd (cin src k) \<noteq> -1" "copies_in cin (src + k) (drop k ds)"
proof -
  show "fst (cin src k) = take k ds" "snd (cin src k) \<noteq> -1"
    using assms unfolding copies_in_def by (metis add_0 add_0_right drop0)+
  show "copies_in cin (src + k) (drop k ds)"
    unfolding copies_in_def
  proof (intro allI impI)
    fix p q assume "p + q \<le> length (drop k ds)"
    then have "k + p + q \<le> length ds" using assms(2) by simp
    then have "fst (cin (src + (k + p)) q) = take q (drop (k + p) ds) \<and> snd (cin (src + (k + p)) q) \<noteq> -1"
      using assms(1) unfolding copies_in_def by blast
    then show "fst (cin (src + k + p) q) = take q (drop p (drop k ds)) \<and> snd (cin (src + k + p) q) \<noteq> -1"
      by (simp add: ac_simps)
  qed
qed

lemma writei_loop_ok:
  assumes "tx s a T (nblocks off (n - tot) + ind_cost (inodes s i))" "file_pre s a T i" "tot \<le> n" "off + (n - tot) \<le> MAXFILE * BSIZE"
    and "copies_in cin src ds" "length ds = n - tot" "\<And>q. q < n - tot \<Longrightarrow> ds ! q = f (off + q)"
  shows "ok (writei_loop cin i n tot off src) s (\<lambda>(tot', off') s'. \<exists>a' T' t. tot' = tot + t \<and> off' = off + t \<and> t \<le> n - tot \<and>
           (t < n - tot \<longrightarrow> disk_full s' a') \<and> writei_post s a T 0 i f off t s' a' T')"
  using assms
proof (induction "n - tot" arbitrary: s a T tot off src ds rule: less_induct)
  case less
  show ?case
  proof (cases "tot < n")
    case False
    then have "writei_post s a T 0 i f off 0 s a T"
      using less.prems by (auto simp: writei_post_def wrote_refl nblocks_def intro!: exI [of _ "i_addrs (inodes s i)"])
    then show ?thesis using False less.prems(3) by (subst writei_loop.simps) auto
  next
    case True
    let ?len = "n - tot" let ?bn = "off div BSIZE"
    define k where k: "k = min ?len (BSIZE - off mod BSIZE)"
    have len: "0 < ?len" using True by simp
    note K = nblocks_step [OF len k]
    let ?m = "nblocks (off + k) (?len - k)"
    have bn: "?bn < MAXFILE" using less.prems(4) len by (simp add: less_mult_imp_div_less)
    have "tx s a T (?m + 1 + ind_cost (inodes s i))" using less.prems(1) K(1) by simp
    from bmap_ok [OF this less.prems(2) bn]
    obtain r s1 a1 T1 where 1: "bmap i ?bn s = Ret (r, s1)" "bmap_post s a T ?m i ?bn r s1 a1 T1"
      by (auto elim!: okE)
    note Q = 1(2) [unfolded bmap_post_def]
    have ok1: "inode_ok (content a1) (sb s1) (inodes s1 i)" and sl: "slots a1 = Map.empty" and sp: "sb s1 = sb s"
      using Q by (auto simp: file_pre_def fs_frame_def)
    show ?thesis
    proof (cases "r = 0")
      case r0: True
      have "tx s1 a1 T1 (0 + ind_cost (inodes s1 i))" using Q tx_mono [of s1 a1 T1 "?m + ind_cost (inodes s1 i)"] by simp
      moreover have "wrote (sb s) f off 0 (content a) (inodes s i) (content a1) (inodes s1 i)"
        using wrote_bmap [OF 1(2)] less.prems(2) by (simp add: file_pre_def)
      ultimately have "writei_post s a T 0 i f off 0 s1 a1 T1" using Q by (auto simp: writei_post_def)
      moreover have "disk_full s1 a1" using Q r0 sp by (simp add: disk_full_def)
      moreover have "writei_loop cin i n tot off src s = Ret ((tot, off), s1)"
        using 1(1) True r0 by (subst writei_loop.simps) (simp add: bindK_def)
      ultimately show ?thesis by (intro okI [of _ _ "(tot, off)" s1]) auto
    next
      case False
      have kl: "k \<le> length ds" using less.prems(6) K(4) by simp
      note C = copies_in_chunk [OF less.prems(5) kl]
      let ?bs = "take k ds"
      have lb: "length ?bs = k" using kl by simp
      have bs: "?bs ! p = f (off + p)" if "p < length ?bs" for p using less.prems(6) less.prems(7) [of p] that by simp
      have fit: "off mod BSIZE + length ?bs \<le> BSIZE" using K(3) lb by simp
      obtain s2 a2 where 2: "update_logged r (\<lambda>x. splice x (off mod BSIZE) ?bs) s1 = Ret ((), s2)"
          "writei_post s a T ?m i f off k s2 a2 T1"
        using writei_chunk_ok [OF 1(2) less.prems(2) False bn fit bs] lb by (auto elim!: okE)
      have le: "n - (tot + k) = ?len - k" by simp
      have "tx s2 a2 T1 (nblocks (off + k) (n - (tot + k)) + ind_cost (inodes s2 i))" "file_pre s2 a2 T1 i"
        using 2(2) unfolding writei_post_def le by blast+
      moreover have "tot + k \<le> n" using K(4) True by simp
      moreover have "off + k + (n - (tot + k)) \<le> MAXFILE * BSIZE" using less.prems(4) K(4) by simp
      moreover have "length (drop k ds) = n - (tot + k)" using less.prems(6) by simp
      moreover have "drop k ds ! q = f (off + k + q)" if "q < n - (tot + k)" for q
        using less.prems(6) less.prems(7) [of "k + q"] that by (simp add: add.assoc)
      ultimately have "ok (writei_loop cin i n (tot + k) (off + k) (src + k)) s2 (\<lambda>(tot', off') s'. \<exists>a' T' t.
          tot' = tot + k + t \<and> off' = off + k + t \<and> t \<le> n - (tot + k) \<and> (t < n - (tot + k) \<longrightarrow> disk_full s' a') \<and>
          writei_post s2 a2 T1 0 i f (off + k) t s' a' T')"
        using C(3) K(2) len by (intro less.hyps) auto
      then obtain s3 a3 T3 t where 3: "writei_loop cin i n (tot + k) (off + k) (src + k) s2 = Ret ((tot + k + t, off + k + t), s3)"
          "t \<le> n - (tot + k)" "t < n - (tot + k) \<longrightarrow> disk_full s3 a3" "writei_post s2 a2 T1 0 i f (off + k) t s3 a3 T3"
        by (auto elim!: okE)
      have "off + k \<le> MAXFILE * BSIZE" using less.prems(4) K(4) by linarith
      then have "writei_post s a T 0 i f off (k + t) s3 a3 T3" using writei_post_trans [OF 2(2) 3(4)] by blast
      moreover have dev: "i_dev (inodes s1 i) = ROOTDEV" using inode_okD(1) [OF ok1] .
      moreover have "writei_loop cin i n tot off src s = Ret ((tot + k + t, off + k + t), s3)"
      proof -
        obtain rv where ck: "cin src k = (?bs, rv)" "rv \<noteq> -1" using C(1,2) by (metis prod.collapse)
        have t1: "tx s1 a1 T1 (?m + ind_cost (inodes s1 i))" using Q by blast
        obtain j s' s'' where b: "bread ROOTDEV r s1 = Ret (j, s')" "buf_data j s' = Ret (content a1 r, s')" "bio_frame s1 s'"
            "tx s' (a1\<lparr>slots := (slots a1)(r \<mapsto> j)\<rparr>) T1 (?m + ind_cost (inodes s1 i))" "brelse j s' = Ret ((), s'')"
            "tx s'' a1 T1 (?m + ind_cost (inodes s1 i))" "bio_frame s1 s''"
          by (rule tx_read_block [OF t1 _ one_slot_empty [OF sl], of r]) (simp add: sl)
        have "writei_loop cin i n tot off src s =
            thenK (update_logged r (\<lambda>x. splice x (off mod BSIZE) ?bs)) (writei_loop cin i n (tot + k) (off + k) (src + k)) s1"
          using 1(1) True False dev b(1,2) ck [unfolded k] unfolding k
          by (subst writei_loop.simps)
            (simp add: update_logged_def bindK_def thenK_def bindR_def Let_def split: sum.splits prod.splits)
        then show ?thesis using 2(1) 3(1) by (simp add: thenK_def bindK_def)
      qed
      moreover have "k + t \<le> ?len" "k + t < ?len \<Longrightarrow> t < n - (tot + k)" using 3(2) K(4) by auto
      ultimately show ?thesis using 3(3) by (intro okI) (auto simp: add.assoc)
    qed
  qed
qed

text \<open>Writing the inode back changes no file.\<close>

lemma IBLOCK_range:
  assumes "layout_ok sp st sz" "inum < sb_ninodes sp"
  shows "IBLOCK inum sp < sb_bmapstart sp" "IBLOCK inum sp \<notin> bmap_blocks sp" "st + sz \<le> IBLOCK inum sp"
proof -
  have "inum div IPB \<le> sb_ninodes sp div IPB" using assms(2) by (intro div_le_mono) simp
  then show "IBLOCK inum sp < sb_bmapstart sp" using assms(1) by (simp add: layout_ok_def IBLOCK_def)
  then show "IBLOCK inum sp \<notin> bmap_blocks sp" by (simp add: bmap_blocks_def)
  show "st + sz \<le> IBLOCK inum sp" using assms(1) by (simp add: layout_ok_def IBLOCK_def)
qed

definition writei_done ::
  "'a fsst_scheme \<Rightarrow> cache \<Rightarrow> nat \<Rightarrow> (nat \<Rightarrow> u8) \<Rightarrow> nat \<Rightarrow> nat \<Rightarrow> 'a fsst_scheme \<Rightarrow> cache \<Rightarrow> nat set \<Rightarrow> bool" where
  "writei_done s a i f off t s' a' T' \<longleftrightarrow>
     (let c = content a; c' = content a'; ip = inodes s i; ip' = inodes s' i; IB = IBLOCK (i_inum ip) (sb s) in
     file_pre s' a' T' i \<and> tx s' a' T' (ind_cost ip') \<and> fs_frame s s' \<and>
     (\<exists>as. inodes s' = (inodes s)(i := ip\<lparr>i_addrs := as, i_size := of_nat (max (unat (i_size ip)) (off + t))\<rparr>)) \<and>
     (\<forall>bn < MAXFILE. blockaddr c ip bn \<noteq> 0 \<longrightarrow> blockaddr c' ip' bn = blockaddr c ip bn) \<and>
     (\<forall>k. off \<le> k \<longrightarrow> k < off + t \<longrightarrow> blockaddr c' ip' (k div BSIZE) \<noteq> 0 \<and> fbyte c' ip' k = f k) \<and>
     (\<forall>k. k div BSIZE < MAXFILE \<longrightarrow> \<not> (off \<le> k \<and> k < off + t) \<longrightarrow> blockaddr c ip (k div BSIZE) \<noteq> 0 \<longrightarrow>
        fbyte c' ip' k = fbyte c ip k) \<and>
     (\<forall>b. (b < sb_bmapstart (sb s) \<and> b \<noteq> IB) \<or> data_block c (sb s) b \<and> \<not> owns c ip b \<longrightarrow> c' b = c b) \<and>
     get_dinode (c' IB) (i_inum ip mod IPB) = disk_copy ip' \<and>
     (\<forall>j. j \<noteq> i_inum ip mod IPB \<longrightarrow> get_dinode (c' IB) j = get_dinode (c IB) j))"

lemma inode_addrs_32:
  assumes ok: "inode_ok c sp ip" and sz: "sb_size sp < 2 ^ 31"
  shows "\<forall>b \<in> set (i_addrs ip). b < 2 ^ 32"
proof
  note D = inode_okD [OF ok]
  fix b assume "b \<in> set (i_addrs ip)"
  then obtain k where k: "k < NDIRECT + 1" "b = i_addrs ip ! k" using D(2) by (metis in_set_conv_nth)
  show "b < 2 ^ 32"
  proof (cases "b = 0")
    case False
    have "data_block c sp b"
    proof (cases "k = NDIRECT")
      case False
      then have "k < NDIRECT" using k by simp
      then have "blockaddr c ip k = b" "k < MAXFILE" using k by (simp_all add: blockaddr_def MAXFILE_def)
      then show ?thesis using D(5) \<open>b \<noteq> 0\<close> by blast
    qed (use D(4) k False in blast)
    then show ?thesis using sz by (simp add: data_block_def)
  qed simp
qed

lemma iupdate_file:
  assumes post: "writei_post s a T 0 i f off t s1 a1 T1" and IB: "IB = IBLOCK (i_inum (inodes s i)) (sb s)" "IB \<in> T"
    and m: "off + t \<le> MAXFILE * BSIZE" and sz: "sz = max (unat (i_size (inodes s i))) (off + t)" and s2: "s2 = upd_inode i (i_size_update (\<lambda>_. of_nat sz)) s1"
  shows "ok (iupdate i) s2 (\<lambda>_ s'. \<exists>a'. writei_done s a i f off t s' a' T1 \<and> (disk_full s1 a1 \<longrightarrow> disk_full s' a'))"
proof -
  note Q = post [unfolded writei_post_def]
  let ?c1 = "content a1" and ?ip1 = "inodes s1 i" and ?ip = "inodes s i" and ?ip2 = "inodes s2 i" let ?k = "i_inum ?ip mod IPB"
  have fp: "file_pre s1 a1 T1 i" and t1: "tx s1 a1 T1 (ind_cost ?ip1)" and T: "IB \<in> T1" and sp: "sb s1 = sb s"
    using Q IB(2) by (auto simp: fs_frame_def)
  have ok1: "inode_ok ?c1 (sb s) ?ip1" and sl: "slots a1 = Map.empty" and lay: "layout_ok (sb s) (log_start s1) (log_size s1)"
    using fp sp by (auto simp: file_pre_def alloc_pre_def)
  note D = inode_okD [OF ok1]
  have ip1: "i_inum ?ip1 = i_inum ?ip" "i_size ?ip1 = i_size ?ip" using Q by auto
  have ip2: "?ip2 = ?ip1\<lparr>i_size := of_nat sz\<rparr>" using s2 by simp
  have inum: "i_inum ?ip < sb_ninodes (sb s)" using D(3) ip1 by simp
  note R = IBLOCK_range [OF lay inum, folded IB(1)]
  have t2: "tx s2 a1 T1 (ind_cost ?ip1)" using t1 s2 by simp
  let ?x = "put_dinode (?c1 IB) ?k (disk_copy ?ip2)"
  obtain s3 where 3: "iupdate i s2 = Ret ((), s3)" "tx s3 (logged IB ?x a1) T1 (ind_cost ?ip1)" "log_frame s2 s3"
    using iupdate_ok [OF t2 one_slot_empty [OF sl], of i IB] D(1,2) ip1 ip2 sp s2 IB(1) T sl by (auto elim!: okE)
  let ?a3 = "logged IB ?x a1" let ?c3 = "content ?a3"
  note f3 = log_frame_fs [OF 3(3)] log_frameD [OF 3(3)]
  have nm: "sb_bmapstart (sb s) \<le> nmeta (sb s)" "nmeta (sb s) \<le> sb_size (sb s)" using lay by (auto simp: nmeta_def layout_ok_def)
  have us: "b < sb_size (sb s) \<Longrightarrow> used ?c3 (sb s) b = used ?c1 (sb s) b" for b
    using used_logged_other [OF R(2)] by simp
  have data: "data_block ?c1 (sb s) b \<Longrightarrow> ?c3 b = ?c1 b" for b using R(1) nm(1) by (auto simp: data_block_def)
  have ind: "i_addrs ?ip1 ! NDIRECT \<noteq> 0 \<Longrightarrow> ?c3 (i_addrs ?ip1 ! NDIRECT) = ?c1 (i_addrs ?ip1 ! NDIRECT)" using D(4) data by blast
  have ba: "blockaddr ?c3 ?ip2 bn = blockaddr ?c1 ?ip1 bn" for bn
    using blockaddr_cong [of ?ip2 ?ip1 ?c3 ?c1] ind ip2 by simp
  have fb: "fbyte ?c3 ?ip2 k = fbyte ?c1 ?ip1 k" if "k div BSIZE < MAXFILE" "blockaddr ?c1 ?ip1 (k div BSIZE) \<noteq> 0" for k
    using D(5) [OF that] data ba by (simp add: fbyte_def)
  have "inode_ok ?c3 (sb s) ?ip2" by (rule inode_ok_cong [OF ok1]) (use ind us ip2 in auto)
  then have "file_pre s3 ?a3 T1 i"
    using fp f3 s2 sp us nm ip2 by (auto simp: file_pre_def alloc_pre_def one_slot_def)
  moreover have "tx s3 ?a3 T1 (ind_cost (inodes s3 i))" using 3(2) f3 ip2 by (simp add: ind_cost_def)
  moreover have "fs_frame s s3" using Q log_fs_frame [OF 3(3)] s2 by (simp add: fs_frame_def)
  moreover obtain as where "inodes s1 = (inodes s)(i := ?ip\<lparr>i_addrs := as\<rparr>)" using Q by blast
  then have "inodes s3 = (inodes s)(i := ?ip\<lparr>i_addrs := as, i_size := of_nat sz\<rparr>)" using f3 s2 by simp
  moreover have "dinode_ok (disk_copy ?ip2)"
    using inode_addrs_32 [OF ok1] lay D(2) ip2 by (simp add: dinode_ok_def disk_copy_def layout_ok_def)
  then have "get_dinode (?c3 IB) ?k = disk_copy ?ip2"
    using get_put_dinode [of "disk_copy ?ip2" ?k "?c1 IB"] mod_IPB tx_content_length [OF t1] by simp
  moreover have "get_dinode (?c3 IB) j = get_dinode (content a IB) j" if "j \<noteq> ?k" for j
  proof -
    have "?c1 IB = content a IB" using Q R(1) wroteD(4) by blast
    moreover have "64 * ?k + 64 \<le> length (?c1 IB)" using mod_IPB tx_content_length [OF t1] by simp
    moreover have "length (d_addrs (disk_copy ?ip2)) = NDIRECT + 1" using D(2) ip2 by (simp add: disk_copy_def)
    ultimately show ?thesis using get_put_dinode_other [of "disk_copy ?ip2" ?k "?c1 IB" j] that by simp
  qed
  moreover have w: "wrote (sb s) f off t (content a) ?ip ?c1 ?ip1" using Q by blast
  note W = wroteD [OF w]
  have kd: "k div BSIZE < MAXFILE" if "k < off + t" for k using m that by (simp add: less_mult_imp_div_less)
  have "\<forall>bn < MAXFILE. blockaddr (content a) ?ip bn \<noteq> 0 \<longrightarrow> blockaddr ?c3 ?ip2 bn = blockaddr (content a) ?ip bn" using ba W(1) by simp
  moreover have "\<forall>k. off \<le> k \<longrightarrow> k < off + t \<longrightarrow> blockaddr ?c3 ?ip2 (k div BSIZE) \<noteq> 0 \<and> fbyte ?c3 ?ip2 k = f k"
    using ba fb kd W(2) by simp
  moreover have "\<forall>k. k div BSIZE < MAXFILE \<longrightarrow> \<not> (off \<le> k \<and> k < off + t) \<longrightarrow> blockaddr (content a) ?ip (k div BSIZE) \<noteq> 0 \<longrightarrow>
      fbyte ?c3 ?ip2 k = fbyte (content a) ?ip k"
    using fb W(1,3) by metis
  moreover have "?c3 b = content a b"
    if "b < sb_bmapstart (sb s) \<and> b \<noteq> IB \<or> data_block (content a) (sb s) b \<and> \<not> owns (content a) ?ip b" for b
  proof -
    have "b \<noteq> IB" using that R(1) nm(1) by (auto simp: data_block_def)
    then show ?thesis using W(4) [of b] that by auto
  qed
  ultimately have "writei_done s a i f off t s3 ?a3 T1"
    using sz f3 unfolding writei_done_def Let_def IB(1) [symmetric] by (intro conjI) (auto simp: IB(1))
  moreover have "disk_full s1 a1 \<longrightarrow> disk_full s3 ?a3" using us sp f3 s2 by (simp add: disk_full_def)
  ultimately show ?thesis using 3(1) by (intro okI [of _ _ "()" s3]) auto
qed

lemma unat_add_u32: "unat x + unat y < 2 ^ 32 \<Longrightarrow> unat ((x :: u32) + y) = unat x + unat y"
  by (simp add: unat_word_ariths)

lemma MAXFILE_bytes: "MAXFILE * BSIZE = 274432"
  by (simp add: MAXFILE_def NDIRECT_def NINDIRECT_def BSIZE_def)

lemma writei_ok:
  assumes t: "tx s a T (nblocks (unat off) (unat n) + ind_cost (inodes s i))" and pre: "file_pre s a T i"
    and IB: "IBLOCK (i_inum (inodes s i)) (sb s) \<in> T" and off: "off \<le> i_size (inodes s i)" "unat off + unat n \<le> MAXFILE * BSIZE"
    and cp: "copies_in cin src ds" "length ds = unat n" and f: "\<And>q. q < unat n \<Longrightarrow> ds ! q = f (unat off + q)"
  shows "ok (writei cin i src off n) s (\<lambda>r s'. \<exists>a' T' t. r = int t \<and> t \<le> unat n \<and> (t < unat n \<longrightarrow> disk_full s' a') \<and>
           writei_done s a i f (unat off) t s' a' T')"
proof -
  let ?sz = "i_size (inodes s i)"
  have sum: "unat (off + n) = unat off + unat n" using off(2) unat_add_u32 [of off n] by (simp add: MAXFILE_bytes)
  have g: "\<not> (off > ?sz \<or> off + n < off)" "\<not> unat (off + n) > MAXFILE * BSIZE"
    using off sum by (auto simp: word_less_nat_alt word_le_nat_alt)
  obtain s1 a1 T1 t where 1: "writei_loop cin i (unat n) 0 (unat off) src s = Ret ((t, unat off + t), s1)" "t \<le> unat n"
      "t < unat n \<longrightarrow> disk_full s1 a1" "writei_post s a T 0 i f (unat off) t s1 a1 T1"
    using writei_loop_ok [of s a T "unat off" "unat n" 0 i cin src ds f] t pre off(2) cp f by (auto elim!: okE)
  let ?m = "max (unat ?sz) (unat off + t)"
  let ?s2 = "upd_inode i (i_size_update (\<lambda>_. of_nat ?m)) s1"
  have "i_size (inodes s1 i) = ?sz" using 1(4) by (auto simp: writei_post_def)
  then have id: "(inodes s1 i)\<lparr>i_size := ?sz\<rparr> = inodes s1 i" by (cases "inodes s1 i") simp
  have w: "whenK (unat off + t > unat ?sz) (modK (upd_inode i (i_size_update (\<lambda>_. of_nat (unat off + t))))) s1 = Ret ((), ?s2)"
    by (auto simp: whenK_def max_def id upd_inode_id)
  have "unat off + t \<le> MAXFILE * BSIZE" using 1(2) off(2) by simp
  from iupdate_file [OF 1(4) refl IB this refl refl]
  obtain s3 a3 where 3: "iupdate i ?s2 = Ret ((), s3)" "writei_done s a i f (unat off) t s3 a3 T1" "disk_full s1 a1 \<longrightarrow> disk_full s3 a3"
    by (auto elim!: okE)
  have "writei cin i src off n s = Ret (int t, s3)"
    using g 1(1) w 3(1) by (simp add: writei_def bindK_def thenK_def)
  then show ?thesis using 1(2,3) 3(2,3) by (intro okI) auto
qed

section \<open>readi\<close>

text \<open>Reading needs no transaction as long as the file has no holes.\<close>

lemma log_few: "log_rep s a \<Longrightarrow> slots a = Map.empty \<Longrightarrow> card (busy a) < NBUF"
proof -
  assume r: "log_rep s a" and sl: "slots a = Map.empty"
  have "busy a = set (log_lh s)" using log_repD(5) [OF r] sl by (auto simp: busy_def)
  then show ?thesis using log_repD(4) [OF r] by (simp add: header_ok_def distinct_card)
qed

lemma log_read_block:
  assumes r: "log_rep s a" and sl: "slots a = Map.empty"
  obtains i s1 s2 where "bread ROOTDEV b s = Ret (i, s1)" "buf_data i s1 = Ret (content a b, s1)" "bio_frame s s1"
    "brelse i s1 = Ret ((), s2)" "log_rep s2 a" "bio_frame s s2"
proof -
  obtain i s1 where 1: "bread ROOTDEV b s = Ret (i, s1)" "log_rep s1 (a\<lparr>slots := (slots a)(b \<mapsto> i)\<rparr>)" "bio_frame s s1"
    using bread_log [OF r, of b] log_few [OF r sl] sl by (auto elim!: okE)
  have x: "buf_data i s1 = Ret (content a b, s1)" using buf_data_ok [OF log_repD(1) [OF 1(2)], of b i] by simp
  have "b \<in> set (log_lh s1) \<or> content a b = stored a b"
    using log_repD(6) [OF r, of b] sl bio_frame_log(6) [OF 1(3)] by auto
  then obtain s2 where 2: "brelse i s1 = Ret ((), s2)" "log_rep s2 (a\<lparr>slots := (slots a)(b := None)\<rparr>)" "bio_frame s1 s2"
    using brelse_log [OF 1(2), of b i] by (auto elim!: okE)
  have "a\<lparr>slots := (slots a)(b := None)\<rparr> = a" using slots_None_upd2 sl by simp
  then have "log_rep s2 a" using 2(2) by (simp only:)
  then show ?thesis using that [OF 1(1) x 1(3) 2(1) _ bio_frame_trans [OF 1(3) 2(3)]] by blast
qed

lemma bmap_read:
  assumes r: "log_rep s a" and sl: "slots a = Map.empty" and dev: "i_dev (inodes s i) = ROOTDEV" and bn: "bn < MAXFILE"
    and b: "blockaddr (content a) (inodes s i) bn \<noteq> 0"
  obtains s' where "bmap i bn s = Ret (blockaddr (content a) (inodes s i) bn, s')" "log_rep s' a" "bio_frame s s'"
proof (cases "bn < NDIRECT")
  case True
  then show ?thesis using that [of s] r b by (simp add: bmap_def blockaddr_def)
next
  case False
  let ?ind = "i_addrs (inodes s i) ! NDIRECT"
  have k: "bn = NDIRECT + (bn - NDIRECT)" "bn - NDIRECT < NINDIRECT" "?ind \<noteq> 0" and
    e: "get_addr (content a ?ind) (bn - NDIRECT) = blockaddr (content a) (inodes s i) bn"
    using False bn b by (auto simp: MAXFILE_def blockaddr_def split: if_splits)
  obtain j s1 s2 where 1: "bread ROOTDEV ?ind s = Ret (j, s1)" "buf_data j s1 = Ret (content a ?ind, s1)" "bio_frame s s1"
      "brelse j s1 = Ret ((), s2)" "log_rep s2 a" "bio_frame s s2"
    by (rule log_read_block [OF r sl])
  have "bmap i bn s = bmap_entry ROOTDEV ?ind (bn - NDIRECT) s"
    using bmap_indirect [OF dev k(2)] k(1,3) by simp
  also have "\<dots> = Ret (blockaddr (content a) (inodes s i) bn, s2)"
    using 1 b e by (simp add: bmap_entry_def bindK_def thenK_def)
  finally show ?thesis using that 1(5,6) by blast
qed

lemma splice_splice:
  assumes "p + length xs + length ys \<le> length m"
  shows "splice (splice m p xs) (p + length xs) ys = splice m p (xs @ ys)"
  by (rule nth_equalityI) (use assms in \<open>auto simp: splice_nth nth_append\<close>)

lemma readi_loop_ok:
  assumes "log_rep s a" "slots a = Map.empty" "i_dev (inodes s i) = ROOTDEV" "tot \<le> n" "off + (n - tot) \<le> MAXFILE * BSIZE"
    and "\<And>k. off \<le> k \<Longrightarrow> k < off + (n - tot) \<Longrightarrow> blockaddr (content a) (inodes s i) (k div BSIZE) \<noteq> 0"
    and "dst + (n - tot) \<le> length m"
  shows "ok (readi_loop kernel_out i n tot off dst m) s (\<lambda>(r, m') s'. r = int n \<and>
           m' = splice m dst (map (fbyte (content a) (inodes s i)) [off..<off + (n - tot)]) \<and> log_rep s' a \<and> bio_frame s s')"
  using assms
proof (induction "n - tot" arbitrary: s tot off dst m rule: less_induct)
  case less
  show ?case
  proof (cases "tot < n")
    case False
    then show ?thesis using less.prems(1,4,7) by (subst readi_loop.simps) (auto simp: splice_def)
  next
    case True
    let ?len = "n - tot" let ?bn = "off div BSIZE" let ?c = "content a" and ?ip = "inodes s i"
    define k where k: "k = min ?len (BSIZE - off mod BSIZE)"
    have len: "0 < ?len" using True by simp
    note K = nblocks_step [OF len k]
    have bn: "?bn < MAXFILE" using less.prems(5) len by (simp add: less_mult_imp_div_less)
    let ?r = "blockaddr ?c ?ip ?bn"
    have r0: "?r \<noteq> 0" using less.prems(6) [of off] len by simp
    obtain s1 where 1: "bmap i ?bn s = Ret (?r, s1)" "log_rep s1 a" "bio_frame s s1"
      using bmap_read [OF less.prems(1-3) bn r0] by blast
    note f1 = log_frame_fs [OF bio_log_frame [OF 1(3)]]
    obtain j s2 s3 where 2: "bread ROOTDEV ?r s1 = Ret (j, s2)" "buf_data j s2 = Ret (?c ?r, s2)" "bio_frame s1 s2"
        "brelse j s2 = Ret ((), s3)" "log_rep s3 a" "bio_frame s1 s3"
      by (rule log_read_block [OF 1(2) less.prems(2)])
    note f3 = log_frame_fs [OF bio_log_frame [OF 2(6)]]
    have clen: "length (?c ?r) = BSIZE" using content_length log_repD(1) less.prems(1) by blast
    let ?bs = "take k (drop (off mod BSIZE) (?c ?r))" let ?m = "splice m dst ?bs"
    have lb: "length ?bs = k" using clen K(3) by simp
    have bs: "?bs = map (fbyte ?c ?ip) [off..<off + k]"
    proof (rule nth_equalityI)
      fix p assume "p < length ?bs"
      then have p: "p < k" using lb by simp
      have "off + p = ?bn * BSIZE + (off mod BSIZE + p)" by simp
      moreover have "off mod BSIZE + p < BSIZE" using p K(3) by linarith
      ultimately have "(off + p) div BSIZE = ?bn" "(off + p) mod BSIZE = off mod BSIZE + p"
        by (metis div_mult_self3 div_less add.right_neutral less_nat_zero_code, metis mod_mult_self3 mod_less)
      then show "?bs ! p = map (fbyte ?c ?ip) [off..<off + k] ! p" using p clen K(3) by (simp add: fbyte_def)
    qed (simp only: lb length_map length_upt diff_add_inverse)
    have le: "n - (tot + k) = ?len - k" by simp
    have ml: "length ?m = length m" using less.prems(7) lb K(4) by simp
    have ip3: "inodes s3 = inodes s" using f1 f3 by simp
    have "ok (readi_loop kernel_out i n (tot + k) (off + k) (dst + k) ?m) s3 (\<lambda>(r, m') s'. r = int n \<and>
        m' = splice ?m (dst + k) (map (fbyte ?c (inodes s3 i)) [off + k..<off + k + (n - (tot + k))]) \<and> log_rep s' a \<and> bio_frame s3 s')"
    proof (rule less.hyps)
      show "n - (tot + k) < n - tot" using K(2) len by simp
      show "log_rep s3 a" "slots a = Map.empty" "i_dev (inodes s3 i) = ROOTDEV" using 2(5) less.prems(2,3) ip3 by simp_all
      show "tot + k \<le> n" using K(4) True by linarith
      show "off + k + (n - (tot + k)) \<le> MAXFILE * BSIZE" using less.prems(5) K(4) unfolding le by linarith
      show "dst + k + (n - (tot + k)) \<le> length ?m" using less.prems(7) K(4) ml unfolding le by linarith
      fix x assume x: "off + k \<le> x" "x < off + k + (n - (tot + k))"
      then have "off \<le> x" "x < off + ?len" using K(4) unfolding le by linarith+
      then show "blockaddr ?c (inodes s3 i) (x div BSIZE) \<noteq> 0" using less.prems(6) ip3 by simp
    qed
    then obtain s4 where 4: "readi_loop kernel_out i n (tot + k) (off + k) (dst + k) ?m s3 =
        Ret ((int n, splice ?m (dst + k) (map (fbyte ?c ?ip) [off + k..<off + ?len])), s4)" "log_rep s4 a" "bio_frame s3 s4"
    proof -
      assume a: "ok (readi_loop kernel_out i n (tot + k) (off + k) (dst + k) ?m) s3 (\<lambda>(r, m') s'. r = int n \<and>
        m' = splice ?m (dst + k) (map (fbyte ?c (inodes s3 i)) [off + k..<off + k + (n - (tot + k))]) \<and> log_rep s' a \<and> bio_frame s3 s')"
      have e: "off + k + (n - (tot + k)) = off + ?len" using K(4) unfolding le by linarith
      show ?thesis using a that unfolding ip3 e by (auto elim!: okE)
    qed
    have "splice ?m (dst + k) (map (fbyte ?c ?ip) [off + k..<off + ?len]) =
        splice m dst (?bs @ map (fbyte ?c ?ip) [off + k..<off + ?len])"
      using splice_splice [of dst ?bs "map (fbyte ?c ?ip) [off + k..<off + ?len]" m] lb less.prems(7) K(4) by simp
    also have "?bs @ map (fbyte ?c ?ip) [off + k..<off + ?len] = map (fbyte ?c ?ip) [off..<off + ?len]"
    proof -
      have "[off..<off + ?len] = [off..<off + k] @ [off + k..<off + ?len]"
        using upt_add_eq_append [of off "off + k" "?len - k"] K(4) by (simp only: le_add1 add.assoc le_add_diff_inverse)
      then show ?thesis unfolding bs by simp
    qed
    finally have sp: "splice ?m (dst + k) (map (fbyte ?c ?ip) [off + k..<off + ?len]) = splice m dst (map (fbyte ?c ?ip) [off..<off + ?len])" .
    have "readi_loop kernel_out i n tot off dst m s = readi_loop kernel_out i n (tot + k) (off + k) (dst + k) ?m s3"
      unfolding k using True 1(1) r0 f1 less.prems(3) 2(1,2,4)
      by (subst readi_loop.simps) (simp add: bindK_def thenK_def kernel_out_def Let_def)
    then show ?thesis
      using 4 sp 1(3) 2(6) by (intro okI) (auto simp: bio_frame_def)
  qed
qed

lemma readi_ok:
  assumes r: "log_rep s a" "slots a = Map.empty" "i_dev (inodes s i) = ROOTDEV"
    and rng: "unat off + unat n \<le> unat (i_size (inodes s i))" "unat (i_size (inodes s i)) \<le> MAXFILE * BSIZE"
    and mapped: "\<And>k. unat off \<le> k \<Longrightarrow> k < unat off + unat n \<Longrightarrow> blockaddr (content a) (inodes s i) (k div BSIZE) \<noteq> 0"
    and m: "length m = unat n"
  shows "ok (readi kernel_out i 0 off n m) s (\<lambda>(r, m') s'. r = int (unat n) \<and>
           m' = map (fbyte (content a) (inodes s i)) [unat off..<unat off + unat n] \<and> log_rep s' a \<and> bio_frame s s')"
proof -
  let ?sz = "i_size (inodes s i)"
  have sum: "unat (off + n) = unat off + unat n" using rng unat_add_u32 [of off n] by (simp add: MAXFILE_bytes)
  then have g: "\<not> (off > ?sz \<or> off + n < off)" "\<not> off + n > ?sz"
    using rng by (auto simp: word_less_nat_alt)
  have "readi kernel_out i 0 off n m s = readi_loop kernel_out i (unat n) 0 (unat off) 0 m s"
    using g by (simp add: readi_def Let_def)
  then show ?thesis
    using readi_loop_ok [OF r, of 0 "unat n" "unat off" 0 m] rng mapped m by (auto simp: ok_def splice_def)
qed

lemma kernel_in_copies: "copies_in (kernel_in ds) 0 ds"
  by (simp add: copies_in_def kernel_in_def)

section \<open>Properties\<close>

text \<open>
  C5. What is written to a file is read back. Writing \<open>ds\<close> at offset \<open>off\<close> of a file that need not have
  blocks there yet, inside a transaction with room for the blocks of the range, the bitmap, the inode and
  the indirect block, never faults; it writes everything, and reading the same range returns \<open>ds\<close>, or it
  writes less and no block of the disk is free.
\<close>

theorem writei_then_readi:
  assumes "tx s a T (nblocks (unat off) (unat n) + ind_cost (inodes s i))" "file_pre s a T i"
    and "IBLOCK (i_inum (inodes s i)) (sb s) \<in> T" "off \<le> i_size (inodes s i)"
    and "unat (i_size (inodes s i)) \<le> MAXFILE * BSIZE" "unat off + unat n \<le> MAXFILE * BSIZE" "length ds = unat n"
  shows "ok (writei (kernel_in ds) i 0 off n) s (\<lambda>r s'.
    r = int (length ds) \<and> ok (readi kernel_out i 0 off n (replicate (length ds) 0)) s' (\<lambda>(r', m) _. r' = r \<and> m = ds) \<or>
    r < int (length ds) \<and> (\<exists>a'. log_rep s' a' \<and> disk_full s' a'))"
proof (rule ok_mono)
  let ?f = "\<lambda>k. ds ! (k - unat off)"
  show "ok (writei (kernel_in ds) i 0 off n) s (\<lambda>r s'. \<exists>a' T' t. r = int t \<and> t \<le> unat n \<and> (t < unat n \<longrightarrow> disk_full s' a') \<and>
      writei_done s a i ?f (unat off) t s' a' T')"
    by (rule writei_ok [OF assms(1-4,6) kernel_in_copies assms(7)]) simp
  fix r s' assume "\<exists>a' T' t. r = int t \<and> t \<le> unat n \<and> (t < unat n \<longrightarrow> disk_full s' a') \<and> writei_done s a i ?f (unat off) t s' a' T'"
  then obtain a' T' t where t: "r = int t" "t \<le> unat n" "t < unat n \<longrightarrow> disk_full s' a'" and d: "writei_done s a i ?f (unat off) t s' a' T'"
    by blast
  note D = d [unfolded writei_done_def Let_def]
  have lr: "log_rep s' a'" using D tx_rep by blast
  show "r = int (length ds) \<and> ok (readi kernel_out i 0 off n (replicate (length ds) 0)) s' (\<lambda>(r', m) _. r' = r \<and> m = ds) \<or>
    r < int (length ds) \<and> (\<exists>a'. log_rep s' a' \<and> disk_full s' a')"
  proof (cases "t = unat n")
    case True
    have sl: "slots a' = Map.empty" and dev: "i_dev (inodes s' i) = ROOTDEV" using D inode_okD(1) by (auto simp: file_pre_def)
    have "i_size (inodes s' i) = of_nat (max (unat (i_size (inodes s i))) (unat off + unat n))" using D True by auto
    moreover have mx: "max (unat (i_size (inodes s i))) (unat off + unat n) \<le> MAXFILE * BSIZE" using assms(5,6) by simp
    ultimately have sz: "unat (i_size (inodes s' i)) = max (unat (i_size (inodes s i))) (unat off + unat n)"
      using unat_of_nat_32 [of "max (unat (i_size (inodes s i))) (unat off + unat n)"] by (simp add: MAXFILE_bytes)
    have "ok (readi kernel_out i 0 off n (replicate (length ds) 0)) s' (\<lambda>(r, m') s''. r = int (unat n) \<and>
           m' = map (fbyte (content a') (inodes s' i)) [unat off..<unat off + unat n] \<and> log_rep s'' a' \<and> bio_frame s' s'')"
      by (rule readi_ok [OF lr sl dev]) (use sz mx D True assms(7) in auto)
    moreover have "map (fbyte (content a') (inodes s' i)) [unat off..<unat off + unat n] = ds"
      using D True assms(7) by (intro nth_equalityI) auto
    ultimately show ?thesis using t True assms(7) by (auto elim!: ok_mono)
  next
    case False
    then have "t < length ds" using t(2) assms(7) by simp
    then show ?thesis using t lr assms(7) by (metis of_nat_less_iff)
  qed
qed

text \<open>A fresh disk in the layout of \<open>mkfs\<close>, inside a transaction, with an empty file in the first inode slot.\<close>

definition sample_sb :: superblock where
  "sample_sb = \<lparr>sb_magic = FSMAGIC, sb_size = 2000, sb_nblocks = 1954, sb_ninodes = 200, sb_nlog = 30, sb_logstart = 2,
                sb_inodestart = 32, sb_bmapstart = 45\<rparr>"

definition sample_disk :: "nat \<Rightarrow> block" where
  "sample_disk b = (if b = 45 then replicate 5 (-1) @ [mask 6] @ replicate 1018 0 else replicate BSIZE 0)"

definition sample_inode :: inode where
  "sample_inode = \<lparr>i_dev = ROOTDEV, i_inum = 2, i_ref = 1, i_lock = initsleeplock, i_valid = True, i_type = T_FILE, i_major = 0,
                   i_minor = 0, i_nlink = 1, i_size = 0, i_addrs = replicate 13 0\<rparr>"

definition sample_fs :: fsst where
  "sample_fs = binit \<lparr>running_pid = 1, bufs = \<lambda>_. zero_buf, links = \<lambda>_. \<lparr>nxt = 0, prv = 0\<rparr>, disk = sample_disk, writes = [],
     log_start = 2, log_size = 30, log_outstanding = 1, log_committing = False, log_dev = ROOTDEV, log_lh = [],
     sb = sample_sb, inodes = (\<lambda>_. sample_inode), printed = []\<rparr>"

lemma sample_sel: "log_start sample_fs = 2" "log_size sample_fs = 30" "log_outstanding sample_fs = 1" "log_dev sample_fs = ROOTDEV"
  "log_lh sample_fs = []" "sb sample_fs = sample_sb" "inodes sample_fs = (\<lambda>_. sample_inode)" "\<not> log_committing sample_fs"
  unfolding sample_fs_def by (simp_all add: log_frame_fs [OF bio_log_frame [OF binit_frame]] bio_frame_log [OF binit_frame])

lemma sample_used: "b < 46 \<Longrightarrow> used sample_disk sample_sb b"
proof -
  assume b: "b < 46"
  have "BBLOCK b sample_sb = 45" "b mod BPB = b" using b by (simp_all add: BBLOCK_def sample_sb_def BPB_def BSIZE_def)
  moreover have "b div 8 = 5 \<longrightarrow> b mod 8 < 6" "b div 8 \<le> 5" using b by presburger+
  ultimately show ?thesis by (auto simp: used_def bit_used_iff sample_disk_def nth_append bit_mask_iff le_less)
qed

lemma sample_tx: "tx sample_fs (idle_cache sample_disk []) {45, 32} 10"
proof -
  have len: "length (sample_disk b) = BSIZE" for b by (simp add: sample_disk_def BSIZE_def)
  have "bio_rep sample_fs (idle_cache sample_disk [])"
    unfolding sample_fs_def by (rule binit_ok [of "\<lparr>running_pid = 1, bufs = \<lambda>_. zero_buf, links = \<lambda>_. \<lparr>nxt = 0, prv = 0\<rparr>, disk = sample_disk,
      writes = [], log_start = 2, log_size = 30, log_outstanding = 1, log_committing = False, log_dev = ROOTDEV, log_lh = [],
      sb = sample_sb, inodes = (\<lambda>_. sample_inode), printed = []\<rparr>", simplified]) (use len in auto)
  moreover have "load32 (sample_disk 2) 0 = 0" by (simp add: sample_disk_def load32_def BSIZE_def)
  ultimately show ?thesis
    by (simp add: tx_def log_rep_def sample_sel header_ok_def LOGSIZE_def MAXOPBLOCKS_def NBUF_def get_header_def home_def idle_cache_def)
qed

lemma sample_file_pre: "file_pre sample_fs (idle_cache sample_disk []) {45, 32} 0"
proof -
  have nm: "nmeta sample_sb = 46" by (simp add: nmeta_def sample_sb_def BPB_def BSIZE_def)
  have "layout_ok sample_sb 2 30" by (simp add: layout_ok_def nm) (simp add: sample_sb_def IPB_def BSIZE_def)
  moreover have "bmap_blocks sample_sb \<subseteq> {45, 32}" using nm by (auto simp: bmap_blocks_def sample_sb_def)
  moreover have "blockaddr sample_disk sample_inode bn = 0" for bn
    by (simp add: blockaddr_def sample_inode_def NDIRECT_def)
  ultimately show ?thesis
    using sample_used
    by (auto simp: file_pre_def alloc_pre_def sample_sel nm one_slot_def inode_ok_def) (simp_all add: sample_inode_def NDIRECT_def sample_sb_def)
qed

theorem writei_then_readi_witness:
  "ok (writei (kernel_in [104, 105]) 0 0 0 2) sample_fs (\<lambda>r s'.
     r = 2 \<and> ok (readi kernel_out 0 0 0 2 [0, 0]) s' (\<lambda>(r', m) _. r' = r \<and> m = [104, 105]) \<or>
     r < 2 \<and> (\<exists>a'. log_rep s' a' \<and> disk_full s' a'))"
proof -
  have "nblocks 0 2 + ind_cost (inodes sample_fs 0) \<le> 10"
    by (simp add: nblocks_def ind_cost_def sample_sel sample_inode_def NDIRECT_def BSIZE_def)
  then have "tx sample_fs (idle_cache sample_disk []) {45, 32} (nblocks (unat (0 :: u32)) (unat (2 :: u32)) + ind_cost (inodes sample_fs 0))"
    using tx_mono [OF sample_tx] by simp
  moreover have "IBLOCK (i_inum (inodes sample_fs 0)) (sb sample_fs) \<in> {45, 32}"
    by (simp add: sample_sel sample_inode_def sample_sb_def IBLOCK_def IPB_def BSIZE_def)
  ultimately show ?thesis
    using writei_then_readi [of sample_fs "idle_cache sample_disk []" "{45, 32}" 0 2 0 "[104, 105]"] sample_file_pre
    by (simp add: MAXFILE_bytes sample_sel) (simp add: sample_inode_def)
qed

text \<open>
  C28. The block allocator. In a transaction with room for one more block, \<open>balloc\<close> never faults. It returns the
  lowest free block, which lies in the data area, zeroed and marked used, and changes no other block but
  the bitmap block of that one, where every other bit is kept; it returns 0 exactly when no block is free,
  and then changes nothing.
\<close>

theorem balloc_lowest_free:
  assumes "tx s a T (Suc n)" "alloc_pre s a T"
  shows "ok (balloc ROOTDEV) s (\<lambda>r s'.
    if r = 0 then (\<forall>b < sb_size (sb s). used (content a) (sb s) b) \<and> log_rep s' a
    else nmeta (sb s) \<le> r \<and> r < sb_size (sb s) \<and> \<not> used (content a) (sb s) r \<and> (\<forall>b < r. used (content a) (sb s) b) \<and>
      (\<exists>a'. log_rep s' a' \<and> content a' r = replicate BSIZE 0 \<and>
        (\<forall>b < sb_size (sb s). used (content a') (sb s) b \<longleftrightarrow> b = r \<or> used (content a) (sb s) b) \<and>
        (\<forall>b. b \<noteq> r \<and> b \<noteq> BBLOCK r (sb s) \<longrightarrow> content a' b = content a b)))"
proof (rule ok_mono [OF balloc_ok [OF assms]])
  fix r s' assume P: "balloc_post s a T n r s'"
  have len: "length (content a b) = BSIZE" for b using content_length log_repD(1) tx_rep assms(1) by blast
  let ?a = "allocated (sb s) r a"
  show "if r = 0 then (\<forall>b < sb_size (sb s). used (content a) (sb s) b) \<and> log_rep s' a
    else nmeta (sb s) \<le> r \<and> r < sb_size (sb s) \<and> \<not> used (content a) (sb s) r \<and> (\<forall>b < r. used (content a) (sb s) b) \<and>
      (\<exists>a'. log_rep s' a' \<and> content a' r = replicate BSIZE 0 \<and>
        (\<forall>b < sb_size (sb s). used (content a') (sb s) b \<longleftrightarrow> b = r \<or> used (content a) (sb s) b) \<and>
        (\<forall>b. b \<noteq> r \<and> b \<noteq> BBLOCK r (sb s) \<longrightarrow> content a' b = content a b))"
  proof (cases "r = 0")
    case True
    then show ?thesis using P tx_rep by (auto simp: balloc_post_def)
  next
    case False
    then have "nmeta (sb s) \<le> r" "log_rep s' ?a" using P tx_rep by (auto simp: balloc_post_def)
    moreover have "content ?a r = replicate BSIZE 0" "b \<noteq> r \<and> b \<noteq> BBLOCK r (sb s) \<longrightarrow> content ?a b = content a b" for b
      by (simp_all add: allocated_def)
    ultimately show ?thesis using False P used_allocated [OF len, of "sb s" r] by (auto simp: balloc_post_def)
  qed
qed

theorem balloc_lowest_free_witness:
  "ok (balloc ROOTDEV) sample_fs (\<lambda>r s'. r = 46 \<and> (\<exists>a'. log_rep s' a' \<and> content a' 46 = replicate BSIZE 0))"
proof (rule ok_mono)
  let ?a = "idle_cache sample_disk []" and ?u = "used sample_disk sample_sb"
  show "ok (balloc ROOTDEV) sample_fs (\<lambda>r s'.
    if r = 0 then (\<forall>b < sb_size (sb sample_fs). used (content ?a) (sb sample_fs) b) \<and> log_rep s' ?a
    else nmeta (sb sample_fs) \<le> r \<and> r < sb_size (sb sample_fs) \<and> \<not> used (content ?a) (sb sample_fs) r \<and>
      (\<forall>b < r. used (content ?a) (sb sample_fs) b) \<and> (\<exists>a'. log_rep s' a' \<and> content a' r = replicate BSIZE 0 \<and>
        (\<forall>b < sb_size (sb sample_fs). used (content a') (sb sample_fs) b \<longleftrightarrow> b = r \<or> used (content ?a) (sb sample_fs) b) \<and>
        (\<forall>b. b \<noteq> r \<and> b \<noteq> BBLOCK r (sb sample_fs) \<longrightarrow> content a' b = content ?a b)))"
    using sample_file_pre tx_mono [OF sample_tx, of 1]
    by (intro balloc_lowest_free [of sample_fs ?a "{45, 32}" 0]) (auto simp: file_pre_def)
  have free: "\<not> ?u 46"
    by (simp add: used_def bit_used_iff sample_disk_def BBLOCK_def sample_sb_def BPB_def BSIZE_def nth_append bit_mask_iff)
  fix r s'
  assume "if r = 0 then (\<forall>b < sb_size (sb sample_fs). used (content ?a) (sb sample_fs) b) \<and> log_rep s' ?a
    else nmeta (sb sample_fs) \<le> r \<and> r < sb_size (sb sample_fs) \<and> \<not> used (content ?a) (sb sample_fs) r \<and>
      (\<forall>b < r. used (content ?a) (sb sample_fs) b) \<and> (\<exists>a'. log_rep s' a' \<and> content a' r = replicate BSIZE 0 \<and>
        (\<forall>b < sb_size (sb sample_fs). used (content a') (sb sample_fs) b \<longleftrightarrow> b = r \<or> used (content ?a) (sb sample_fs) b) \<and>
        (\<forall>b. b \<noteq> r \<and> b \<noteq> BBLOCK r (sb sample_fs) \<longrightarrow> content a' b = content ?a b))"
  then have r: "if r = 0 then \<forall>b < 2000. ?u b else \<not> ?u r \<and> (\<forall>b < r. ?u b) \<and> (\<exists>a'. log_rep s' a' \<and> content a' r = replicate BSIZE 0)"
    by (auto simp: sample_sel idle_cache_def sample_sb_def split: if_splits)
  have "r = 46"
  proof (rule ccontr)
    assume "r \<noteq> 46"
    then show False using r free sample_used by (cases "r < 46"; cases "r = 0") auto
  qed
  then show "r = 46 \<and> (\<exists>a'. log_rep s' a' \<and> content a' 46 = replicate BSIZE 0)" using r by simp
qed

end
