(* ===== verification/Grep.thy ===== *)
theory Grep
  imports Xv6_Prelude
begin

text \<open>
  The user program \<open>grep\<close> (\<^verbatim>\<open>src/user/grep.c\<close>): the matcher for the operators \<open>^ . * $\<close> and the loop that
  reads a file through a buffer of 1024 bytes. A C string is the list of its characters before the
  terminating zero, so a pointer into it is a suffix of the list and the zero itself is \<open>[]\<close>.
\<close>

section \<open>The matcher\<close>

function matchhere :: "string \<Rightarrow> string \<Rightarrow> bool"
  and matchstar :: "char \<Rightarrow> string \<Rightarrow> string \<Rightarrow> bool" where
  "matchhere re str =
     (case re of
        [] \<Rightarrow> True
      | c # re1 \<Rightarrow>
          if re1 \<noteq> [] \<and> hd re1 = CHR ''*'' then matchstar c (tl re1) str
          else if c = CHR ''$'' \<and> re1 = [] then str = []
          else if str \<noteq> [] \<and> (c = CHR ''.'' \<or> c = hd str) then matchhere re1 (tl str)
          else False)"
| "matchstar c re str =
     (if matchhere re str then True
      else if str \<noteq> [] \<and> (hd str = c \<or> c = CHR ''.'') then matchstar c re (tl str)
      else False)"
  by pat_completeness auto
termination
  by (relation "measures [\<lambda>x. case x of Inl (re, str) \<Rightarrow> length re + length str
                                | Inr (c, re, str) \<Rightarrow> length re + length str,
                          \<lambda>x. case x of Inl _ \<Rightarrow> 0 | Inr _ \<Rightarrow> 1]") auto

declare matchhere.simps [simp del] matchstar.simps [simp del]

text \<open>The loop of \<open>match\<close>, which also looks at the empty string at the end.\<close>

fun match_loop :: "string \<Rightarrow> string \<Rightarrow> bool" where
  "match_loop re [] = matchhere re []"
| "match_loop re (c # str) = (if matchhere re (c # str) then True else match_loop re str)"

definition match :: "string \<Rightarrow> string \<Rightarrow> bool" where
  "match re str =
     (if re \<noteq> [] \<and> hd re = CHR ''^'' then matchhere (tl re) str else match_loop re str)"

section \<open>Reading lines\<close>

definition NUL :: char where "NUL = CHR 0x00"
definition NL :: char where "NL = CHR 0x0A"

text \<open>\<open>strchr(p, '\n')\<close> on the bytes of the buffer after \<open>p\<close>: the line and what follows it.\<close>

fun next_line :: "string \<Rightarrow> (string \<times> string) option" where
  "next_line [] = None"
| "next_line (c # p) =
     (if c = NUL then None
      else if c = NL then Some ([], p)
      else map_option (\<lambda>(l, q). (c # l, q)) (next_line p))"

lemma next_line_shorter: "next_line p = Some (l, q) \<Longrightarrow> length q < length p"
  by (induction p arbitrary: l) (fastforce split: if_splits)+

text \<open>The inner loop: the bytes left in the buffer and the output.\<close>

function scan_lines :: "string \<Rightarrow> string \<Rightarrow> string \<times> string" where
  "scan_lines pattern p =
     (case next_line p of
        None \<Rightarrow> (p, [])
      | Some (l, q) \<Rightarrow>
          let (rest, out) = scan_lines pattern q
          in (rest, (if match pattern l then l @ [NL] else []) @ out))"
  by pat_completeness auto
termination
  by (relation "measure (\<lambda>(pattern, p). length p)") (auto dest: next_line_shorter)

declare scan_lines.simps [simp del]

text \<open>
  \<open>rd count input\<close> is the number of bytes a \<open>read\<close> of at most \<open>count\<close> bytes gives when \<open>input\<close> is left in the
  file. \<open>buf\<close> is the incomplete line at the start of the buffer.
\<close>

function grep :: "(nat \<Rightarrow> string \<Rightarrow> nat) \<Rightarrow> string \<Rightarrow> string \<Rightarrow> string \<Rightarrow> string" where
  "grep rd pattern buf input =
     (let n = rd (1024 - length buf - 1) input in
      if 0 < n \<and> input \<noteq> [] then
        let (rest, out) = scan_lines pattern (buf @ take n input)
        in out @ grep rd pattern rest (drop n input)
      else [])"
  by pat_completeness auto
termination
  by (relation "measure (\<lambda>(rd, pattern, buf, input). length input)") auto

declare grep.simps [simp del]

section \<open>What patterns mean\<close>

text \<open>
  A pattern is a sequence of characters, each with or without a star, perhaps anchored at the start and
  at the end. \<open>items\<close> takes the part after \<open>^\<close> apart; \<open>lang\<close> is the set of strings it stands for.
\<close>

fun items :: "string \<Rightarrow> (char \<times> bool) list \<times> bool" where
  "items [] = ([], False)"
| "items [c] = (if c = CHR ''$'' then ([], True) else ([(c, False)], False))"
| "items (c # d # re) =
     (if d = CHR ''*'' then (let (is, e) = items re in ((c, True) # is, e))
      else (let (is, e) = items (d # re) in ((c, False) # is, e)))"

definition char_fits :: "char \<Rightarrow> char \<Rightarrow> bool" where
  "char_fits c x \<longleftrightarrow> c = CHR ''.'' \<or> x = c"

primrec lang :: "(char \<times> bool) list \<Rightarrow> string set" where
  "lang [] = {[]}"
| "lang (i # is) =
     (if snd i then {u @ v | u v. list_all (char_fits (fst i)) u \<and> v \<in> lang is}
      else {x # v | x v. char_fits (fst i) x \<and> v \<in> lang is})"

definition starts_with :: "string \<Rightarrow> string \<Rightarrow> bool" where
  "starts_with re str \<longleftrightarrow> (\<exists>v w. str = v @ w \<and> v \<in> lang (fst (items re)) \<and> (snd (items re) \<longrightarrow> w = []))"

text \<open>Some part of the text is in the language, at its start or its end if the pattern is anchored there.\<close>

definition contains_match :: "string \<Rightarrow> string \<Rightarrow> bool" where
  "contains_match re str \<longleftrightarrow>
     (if re \<noteq> [] \<and> hd re = CHR ''^'' then starts_with (tl re) str
      else (\<exists>u t. str = u @ t \<and> starts_with re t))"

lemma starts_nil: "starts_with [] str"
  by (auto simp: starts_with_def)

lemma starts_end: "starts_with [CHR ''$''] str \<longleftrightarrow> str = []"
  by (auto simp: starts_with_def)

lemma items_plain:
  assumes "re = [] \<Longrightarrow> c \<noteq> CHR ''$''" "re \<noteq> [] \<Longrightarrow> hd re \<noteq> CHR ''*''"
  shows "items (c # re) = ((c, False) # fst (items re), snd (items re))"
  using assms by (cases re) (auto simp: case_prod_beta Let_def)

lemma starts_plain:
  assumes "re = [] \<Longrightarrow> c \<noteq> CHR ''$''" "re \<noteq> [] \<Longrightarrow> hd re \<noteq> CHR ''*''"
  shows "starts_with (c # re) str \<longleftrightarrow> str \<noteq> [] \<and> char_fits c (hd str) \<and> starts_with re (tl str)"
proof -
  have "items (c # re) = ((c, False) # fst (items re), snd (items re))" by (rule items_plain) (use assms in auto)
  then show ?thesis unfolding starts_with_def by (cases str) (auto simp: Cons_eq_append_conv)
qed

lemma starts_starred:
  "starts_with (c # CHR ''*'' # re) str \<longleftrightarrow> (\<exists>u t. str = u @ t \<and> list_all (char_fits c) u \<and> starts_with re t)"
proof -
  have "lang (fst (items (c # CHR ''*'' # re))) = {u @ v | u v. list_all (char_fits c) u \<and> v \<in> lang (fst (items re))}"
    "snd (items (c # CHR ''*'' # re)) = snd (items re)"
    by (simp_all add: case_prod_beta Let_def)
  then have "starts_with (c # CHR ''*'' # re) str \<longleftrightarrow>
      (\<exists>u v w. str = (u @ v) @ w \<and> list_all (char_fits c) u \<and> v \<in> lang (fst (items re)) \<and>
         (snd (items re) \<longrightarrow> w = []))"
    unfolding starts_with_def by (simp only: mem_Collect_eq) blast
  also have "\<dots> \<longleftrightarrow> (\<exists>u t. str = u @ t \<and> list_all (char_fits c) u \<and> starts_with re t)"
    unfolding starts_with_def append_assoc by blast
  finally show ?thesis .
qed

lemma starts_star:
  "starts_with (c # CHR ''*'' # re) str \<longleftrightarrow>
     starts_with re str \<or> str \<noteq> [] \<and> char_fits c (hd str) \<and> starts_with (c # CHR ''*'' # re) (tl str)"
  (is "?l \<longleftrightarrow> ?r")
proof
  assume ?l
  then obtain u t where t: "str = u @ t" "list_all (char_fits c) u" "starts_with re t"
    by (auto simp: starts_starred)
  then show ?r by (cases u) (auto simp: starts_starred)
next
  assume ?r
  then show ?l
  proof
    assume "starts_with re str"
    then show ?l unfolding starts_starred by (intro exI [of _ "[]"] exI [of _ str]) simp
  next
    assume a: "str \<noteq> [] \<and> char_fits c (hd str) \<and> starts_with (c # CHR ''*'' # re) (tl str)"
    then obtain u t where "tl str = u @ t" "list_all (char_fits c) u" "starts_with re t"
      by (auto simp: starts_starred)
    then show ?l using a unfolding starts_starred
      by (intro exI [of _ "hd str # u"] exI [of _ t]) (cases str, auto)
  qed
qed

lemma matcher_correct:
  "matchhere re str = starts_with re str"
  "matchstar c re str = starts_with (c # CHR ''*'' # re) str"
proof (induction re str and c re str rule: matchhere_matchstar.induct)
  case (1 re str)
  show ?case
  proof (cases re)
    case Nil
    then show ?thesis by (subst matchhere.simps) (simp add: starts_nil)
  next
    case (Cons c re1)
    consider (star) "re1 \<noteq> [] \<and> hd re1 = CHR ''*''" | (dollar) "c = CHR ''$'' \<and> re1 = []"
      | (plain) "\<not> (re1 \<noteq> [] \<and> hd re1 = CHR ''*'')" "\<not> (c = CHR ''$'' \<and> re1 = [])" by blast
    then show ?thesis
    proof cases
      case star
      then have "re = c # CHR ''*'' # tl re1" using Cons by (cases re1) auto
      then show ?thesis using 1(1) [OF Cons star] star by (subst matchhere.simps) (simp add: Cons)
    next
      case dollar
      then show ?thesis using Cons by (subst matchhere.simps) (simp add: starts_end)
    next
      case plain
      then have "starts_with re str \<longleftrightarrow> str \<noteq> [] \<and> char_fits c (hd str) \<and> starts_with re1 (tl str)"
        using starts_plain [of re1 c str] Cons by blast
      moreover have "matchhere re str \<longleftrightarrow>
          str \<noteq> [] \<and> (c = CHR ''.'' \<or> c = hd str) \<and> matchhere re1 (tl str)"
        using plain by (subst matchhere.simps) (auto simp: Cons)
      ultimately show ?thesis using 1(2) [OF Cons plain] by (auto simp: char_fits_def)
    qed
  qed
next
  case (2 c re str)
  then show ?case by (subst matchstar.simps, subst starts_star) (auto simp: char_fits_def)
qed

lemma match_loop_correct: "match_loop re str \<longleftrightarrow> (\<exists>u t. str = u @ t \<and> starts_with re t)"
proof (induction str)
  case (Cons c str)
  have "(\<exists>u t. c # str = u @ t \<and> starts_with re t) \<longleftrightarrow>
      starts_with re (c # str) \<or> (\<exists>u t. str = u @ t \<and> starts_with re t)"
    by (auto simp: Cons_eq_append_conv)
  then show ?case using Cons.IH by (simp add: matcher_correct)
qed (simp add: matcher_correct)

text \<open>
  C33. \<open>match\<close> decides whether the text has a part in the language of the pattern: for every pattern and
  text, with \<open>^\<close>, \<open>.\<close>, \<open>*\<close> and \<open>$\<close> in any place, it finds a match exactly when there is one, although it
  tries the numbers of repetitions of a starred character one after the other.
\<close>

theorem match_contains: "match re str \<longleftrightarrow> contains_match re str"
  by (simp add: match_def contains_match_def matcher_correct match_loop_correct)

section \<open>What \<open>grep\<close> prints\<close>

text \<open>The lines of a text: the pieces that a newline ends. What follows the last newline is not a line.\<close>

fun text_lines :: "string \<Rightarrow> string list" where
  "text_lines [] = []"
| "text_lines (c # p) =
     (if c = NL then [] # text_lines p
      else if NL \<in> set p then (c # hd (text_lines p)) # tl (text_lines p) else [])"

fun last_piece :: "string \<Rightarrow> string" where
  "last_piece [] = []"
| "last_piece (c # p) = (if c = NL then last_piece p else if NL \<in> set p then last_piece p else c # p)"

definition matching_lines :: "string \<Rightarrow> string \<Rightarrow> string" where
  "matching_lines pattern p = concat (map (\<lambda>l. l @ [NL]) (filter (match pattern) (text_lines p)))"

lemma text_lines_none [simp]: "NL \<notin> set p \<Longrightarrow> text_lines p = []" "NL \<notin> set p \<Longrightarrow> last_piece p = p"
  by (induction p) auto

lemma text_lines_split:
  assumes "NL \<notin> set l"
  shows "text_lines (l @ NL # q) = l # text_lines q" "last_piece (l @ NL # q) = last_piece q"
  using assms by (induction l) auto

lemma next_line_some: "next_line p = Some (l, q) \<Longrightarrow> p = l @ NL # q \<and> NL \<notin> set l \<and> NUL \<notin> set l"
  by (induction p arbitrary: l) (fastforce split: if_splits)+

lemma next_line_none: "NUL \<notin> set p \<Longrightarrow> next_line p = None \<Longrightarrow> NL \<notin> set p"
  by (induction p) (auto split: if_splits)

lemma scan_lines_correct:
  assumes "NUL \<notin> set p"
  shows "scan_lines pattern p = (last_piece p, matching_lines pattern p)"
  using assms
proof (induction pattern p rule: scan_lines.induct)
  case (1 pattern p)
  show ?case
  proof (cases "next_line p")
    case None
    then show ?thesis using next_line_none 1 by (subst scan_lines.simps) (simp add: matching_lines_def)
  next
    case (Some r)
    obtain l q where r: "r = (l, q)" by (cases r)
    note s = next_line_some [OF Some [unfolded r]]
    have "scan_lines pattern q = (last_piece q, matching_lines pattern q)"
      by (rule 1(1)) (use Some r s 1(2) in auto)
    then show ?thesis using Some r s
      by (subst scan_lines.simps) (simp add: text_lines_split matching_lines_def)
  qed
qed

lemma last_piece_suffix: "\<exists>u. p = u @ last_piece p" "NL \<notin> set (last_piece p)"
proof -
  show "\<exists>u. p = u @ last_piece p"
  proof (induction p)
    case (Cons c p)
    then obtain u where "p = u @ last_piece p" by blast
    then show ?case by (cases "c = NL \<or> NL \<in> set p") (auto intro: exI [of _ "c # u"] exI [of _ "[]"])
  qed simp
  show "NL \<notin> set (last_piece p)" by (induction p) auto
qed

lemma text_lines_append:
  "text_lines (p @ q) = text_lines p @ text_lines (last_piece p @ q)"
  "last_piece (p @ q) = last_piece (last_piece p @ q)"
proof -
  have "text_lines (p @ q) = text_lines p @ text_lines (last_piece p @ q) \<and>
        last_piece (p @ q) = last_piece (last_piece p @ q)"
  proof (induction p rule: length_induct)
    case (1 p)
    show ?case
    proof (cases "NL \<in> set p")
      case True
      then obtain l p' where p: "p = l @ NL # p'" "NL \<notin> set l" by (metis in_set_conv_decomp_first)
      then have "text_lines (p' @ q) = text_lines p' @ text_lines (last_piece p' @ q) \<and>
          last_piece (p' @ q) = last_piece (last_piece p' @ q)"
        using 1 [THEN spec, of p'] by simp
      then show ?thesis using p text_lines_split [OF p(2)] by simp
    qed simp
  qed
  then show "text_lines (p @ q) = text_lines p @ text_lines (last_piece p @ q)"
    "last_piece (p @ q) = last_piece (last_piece p @ q)" by simp_all
qed

text \<open>
  What \<open>read\<close> does: at least one byte while there is input and room for one, at most as many as asked for.
\<close>

definition reads :: "(nat \<Rightarrow> string \<Rightarrow> nat) \<Rightarrow> bool" where
  "reads rd \<longleftrightarrow> (\<forall>count input. rd count input \<le> count \<and> (0 < count \<and> input \<noteq> [] \<longrightarrow> 0 < rd count input))"

text \<open>Every piece of the text between two newlines, with its newline, fits into the buffer.\<close>

definition lines_fit :: "string \<Rightarrow> bool" where
  "lines_fit p \<longleftrightarrow> (\<forall>u v w. p = u @ v @ w \<longrightarrow> NL \<notin> set v \<longrightarrow> length v < 1023)"

lemma lines_fit_suffix: "lines_fit (u @ p) \<Longrightarrow> lines_fit p"
  unfolding lines_fit_def by (metis append_assoc)

lemma grep_lines_from:
  assumes "reads rd" "NUL \<notin> set (buf @ input)" "lines_fit (buf @ input)" "NL \<notin> set buf"
  shows "grep rd pattern buf input = matching_lines pattern (buf @ input)"
  using assms(2-)
proof (induction "length input" arbitrary: buf input rule: less_induct)
  case less
  have "length buf < 1023" using less.prems(2,3) unfolding lines_fit_def by (metis append_Nil)
  define n where "n = rd (1024 - length buf - 1) input"
  show ?case
  proof (cases "input = []")
    case True
    then show ?thesis using less.prems(3) by (subst grep.simps) (simp add: matching_lines_def)
  next
    case False
    then have n: "0 < n" using assms(1) \<open>length buf < 1023\<close> by (simp add: n_def reads_def)
    let ?p = "buf @ take n input" and ?q = "drop n input"
    obtain u where u: "?p = u @ last_piece ?p" using last_piece_suffix(1) by blast
    have whole: "buf @ input = u @ last_piece ?p @ ?q" using u by (metis append_assoc append_take_drop_id)
    have "grep rd pattern (last_piece ?p) ?q = matching_lines pattern (last_piece ?p @ ?q)"
    proof (rule less.hyps)
      show "length ?q < length input" using n False by simp
      show "NUL \<notin> set (last_piece ?p @ ?q)" using less.prems(1) whole by (metis Un_iff set_append)
      show "lines_fit (last_piece ?p @ ?q)" using less.prems(2) whole lines_fit_suffix by metis
      show "NL \<notin> set (last_piece ?p)" by (rule last_piece_suffix(2))
    qed
    moreover have "NUL \<notin> set ?p" using less.prems(1) by (auto dest: in_set_takeD)
    ultimately have "grep rd pattern buf input =
        matching_lines pattern ?p @ matching_lines pattern (last_piece ?p @ ?q)"
      using n False by (subst grep.simps) (simp add: n_def Let_def scan_lines_correct)
    also have "\<dots> = matching_lines pattern (?p @ ?q)"
      unfolding matching_lines_def text_lines_append(1) [of ?p ?q] by simp
    finally show ?thesis by simp
  qed
qed

text \<open>
  C14. On a text file without zero bytes whose lines fit into the buffer, \<open>grep\<close> prints exactly the lines
  that have a match, each with its newline and in the order of the file, however \<open>read\<close> cuts the file
  into pieces.
\<close>

theorem grep_prints_matching_lines:
  assumes "reads rd" "NUL \<notin> set input" "lines_fit input"
  shows "grep rd pattern [] input =
           concat (map (\<lambda>l. l @ [NL]) (filter (contains_match pattern) (text_lines input)))"
proof -
  have "match pattern = contains_match pattern"
    by (simp add: fun_eq_iff match_def contains_match_def matcher_correct match_loop_correct)
  then show ?thesis using grep_lines_from [of rd "[]" input pattern] assms by (simp add: matching_lines_def)
qed

lemma short_lines_fit: "length p < 1023 \<Longrightarrow> lines_fit p"
  by (auto simp: lines_fit_def)

theorem grep_prints_matching_lines_witness:
  "grep (\<lambda>count input. min count 1) ''a*b$'' [] (''xaab'' @ [NL] @ ''abc'' @ [NL]) = ''xaab'' @ [NL] \<and>
   contains_match ''a*b$'' ''xaab'' \<and> \<not> contains_match ''a*b$'' ''abc''"
proof -
  have e: "contains_match re str = match re str" for re str
    by (simp add: match_def contains_match_def matcher_correct match_loop_correct)
  have m: "contains_match ''a*b$'' ''xaab''" "\<not> contains_match ''a*b$'' ''abc''"
    unfolding e by (simp_all add: match_def matchhere.simps matchstar.simps)
  have "grep (\<lambda>count input. min count 1) ''a*b$'' [] (''xaab'' @ [NL] @ ''abc'' @ [NL]) =
      concat (map (\<lambda>l. l @ [NL]) (filter (contains_match ''a*b$'') (text_lines (''xaab'' @ [NL] @ ''abc'' @ [NL]))))"
    by (rule grep_prints_matching_lines) (simp_all add: reads_def short_lines_fit NUL_def NL_def)
  then show ?thesis using m by (simp add: NL_def)
qed

end
