(* ===== verification/Sysargs.thy ===== *)
theory Sysargs
  imports Proc
begin

text \<open>
  Fetching the arguments of system calls (\<^verbatim>\<open>src/kernel/syscall/syscall.c\<close>). A function that fills a variable of
  its caller returns the value; \<open>None\<close> stands for the return value -1. A string is the list of its bytes
  before the zero byte.
\<close>

definition MAXPATH :: nat where "MAXPATH = 128"

definition fetchaddr :: "u64 \<Rightarrow> (kst, u64 option) kmon" where
  "fetchaddr a =
     bindK myproc (\<lambda>p.
     bindK (getP p p_sz) (\<lambda>sz.
     if a \<ge> sz \<or> a + 8 > sz then retK None
     else
       bindK (getP p p_pagetable) (\<lambda>pt.
       bindK (onVm (copyin pt a 8)) (\<lambda>(bs, r).
       retK (if r \<noteq> 0 then None else Some (load64 (\<lambda>i. bs ! i) 0))))))"

text \<open>
  \<open>fetchstr\<close>: the bytes written to the buffer, also when the string has no end within \<open>max_len\<close> bytes, and the
  return value, which is the length of the string in the buffer.
\<close>

definition fetchstr :: "u64 \<Rightarrow> nat \<Rightarrow> (kst, u8 list \<times> int) kmon" where
  "fetchstr a max_len =
     bindK myproc (\<lambda>p.
     bindK (getP p p_pagetable) (\<lambda>pt.
     bindK (onVm (copyinstr pt a max_len)) (\<lambda>(buf, r).
     retK (buf, if r < 0 then -1 else int (length (takeWhile (\<lambda>c. c \<noteq> 0) buf))))))"

definition argraw :: "nat \<Rightarrow> (kst, u64) kmon" where
  "argraw n = bindK myproc (\<lambda>p. if n \<le> 5 then tf_read p (TF_a0 + 8 * n) else panicK ''argraw'')"

definition argint :: "nat \<Rightarrow> (kst, u32) kmon" where
  "argint n = bindK (argraw n) (\<lambda>x. retK (ucast x))"

definition argaddr :: "nat \<Rightarrow> (kst, u64) kmon" where
  "argaddr n = argraw n"

definition argstr :: "nat \<Rightarrow> nat \<Rightarrow> (kst, u8 list option) kmon" where
  "argstr n max_len =
     bindK (argaddr n) (\<lambda>a.
     bindK (fetchstr a max_len) (\<lambda>(buf, r).
     retK (if r < 0 then None else Some (takeWhile (\<lambda>c. c \<noteq> 0) buf))))"

end
