(* ===== verification/Sysfile.thy ===== *)
theory Sysfile
  imports Exec Sysargs Fcntl
begin

text \<open>
  The system calls on files (\<^verbatim>\<open>src/kernel/syscall/sysfile.c\<close>). Every call returns the value of register a0;
  the return value -1 is \<open>minus1\<close>. A result \<open>None\<close> of the helper functions stands for a null pointer or -1.
\<close>

definition minus1 :: u64 where "minus1 = - 1"

definition ret_int :: "int \<Rightarrow> (kst, u64) kmon" where
  "ret_int r = retK (of_int r)"

definition ifield :: "nat \<Rightarrow> (inode \<Rightarrow> 'a) \<Rightarrow> (kst, 'a) kmon" where
  "ifield ip f = getK (\<lambda>s. f (inodes s ip))"

definition set_inode :: "nat \<Rightarrow> (inode \<Rightarrow> inode) \<Rightarrow> (kst, unit) kmon" where
  "set_inode ip f = modK (upd_inode ip f)"

section \<open>File descriptors\<close>

definition argfd :: "nat \<Rightarrow> (kst, (nat \<times> nat) option) kmon" where
  "argfd n =
     bindK (argint n) (\<lambda>x.
     let fd = sint x in
     if fd < 0 \<or> fd \<ge> int NOFILE then retK None
     else
       bindK myproc (\<lambda>p. bindK (getP p (\<lambda>x. p_ofile x ! nat fd)) (\<lambda>f.
       retK (if f = nullptr then None else Some (nat fd, f)))))"

definition set_ofile :: "nat \<Rightarrow> nat \<Rightarrow> (kst, unit) kmon" where
  "set_ofile fd f = bindK myproc (\<lambda>p. setP p (\<lambda>x. x\<lparr>p_ofile := (p_ofile x)[fd := f]\<rparr>))"

definition fdalloc :: "nat \<Rightarrow> (kst, nat option) kmon" where
  "fdalloc f =
     bindK myproc (\<lambda>p.
     bindK (getP p (\<lambda>x. find (\<lambda>fd. p_ofile x ! fd = nullptr) [0..<NOFILE])) (\<lambda>r.
     case r of None \<Rightarrow> retK None | Some fd \<Rightarrow> thenK (set_ofile fd f) (retK (Some fd))))"

definition sys_dup :: "(kst, u64) kmon" where
  "sys_dup =
     bindK (argfd 0) (\<lambda>r.
     case r of
       None \<Rightarrow> retK minus1
     | Some (_, f) \<Rightarrow>
         bindK (fdalloc f) (\<lambda>r.
         case r of None \<Rightarrow> retK minus1 | Some fd \<Rightarrow> thenK (bindK (filedup f) (\<lambda>_. retK ())) (retK (of_nat fd))))"

definition sys_read :: "(kst, u64) kmon" where
  "sys_read =
     bindK (argaddr 1) (\<lambda>a. bindK (argint 2) (\<lambda>count. bindK (argfd 0) (\<lambda>r.
     case r of None \<Rightarrow> retK minus1 | Some (_, f) \<Rightarrow> bindK (fileread f a (sint count)) ret_int)))"

definition sys_write :: "(kst, u64) kmon" where
  "sys_write =
     bindK (argaddr 1) (\<lambda>a. bindK (argint 2) (\<lambda>n. bindK (argfd 0) (\<lambda>r.
     case r of None \<Rightarrow> retK minus1 | Some (_, f) \<Rightarrow> bindK (filewrite f a (sint n)) ret_int)))"

definition sys_close :: "(kst, u64) kmon" where
  "sys_close =
     bindK (argfd 0) (\<lambda>r.
     case r of
       None \<Rightarrow> retK minus1
     | Some (fd, f) \<Rightarrow> thenK (set_ofile fd nullptr) (thenK (fileclose f) (retK 0)))"

definition sys_fstat :: "(kst, u64) kmon" where
  "sys_fstat =
     bindK (argaddr 1) (\<lambda>st. bindK (argfd 0) (\<lambda>r.
     case r of None \<Rightarrow> retK minus1 | Some (_, f) \<Rightarrow> bindK (filestat f st) ret_int))"

section \<open>Directories\<close>

definition knameiparent :: "u8 list \<Rightarrow> (kst, (nat \<times> u8 list) option) kmon" where
  "knameiparent path =
     bindK myproc (\<lambda>p.
     bindK (getP p p_cwd) (\<lambda>cwd.
     case cwd of
       Some d \<Rightarrow> nameiparent d path
     | None \<Rightarrow> if path \<noteq> [] \<and> hd path = SLASH then nameiparent 0 path else failK NullDeref))"

text \<open>The last part of \<open>sys_link\<close>: the jump to \<open>bad\<close>.\<close>

definition link_bad :: "nat \<Rightarrow> (kst, u64) kmon" where
  "link_bad ip =
     thenK (ilock (Some ip)) (thenK (set_inode ip (i_nlink_update (\<lambda>n. n - 1)))
    (thenK (iupdate ip) (thenK (iunlockput ip) (thenK end_op (retK minus1)))))"

definition sys_link :: "(kst, u64) kmon" where
  "sys_link =
     bindK (argstr 0 MAXPATH) (\<lambda>old.
     case old of None \<Rightarrow> retK minus1 | Some old \<Rightarrow>
     bindK (argstr 1 MAXPATH) (\<lambda>new.
     case new of None \<Rightarrow> retK minus1 | Some new \<Rightarrow>
     thenK begin_op
    (bindK (knamei old) (\<lambda>ip.
     case ip of None \<Rightarrow> thenK end_op (retK minus1) | Some ip \<Rightarrow>
     thenK (ilock (Some ip))
    (bindK (ifield ip i_type) (\<lambda>type.
     if type = T_DIR then thenK (iunlockput ip) (thenK end_op (retK minus1))
     else
       thenK (set_inode ip (i_nlink_update (\<lambda>n. n + 1)))
      (thenK (iupdate ip)
      (thenK (iunlock (Some ip))
      (bindK (knameiparent new) (\<lambda>r.
       case r of None \<Rightarrow> link_bad ip | Some (dp, name) \<Rightarrow>
       thenK (ilock (Some dp))
      (bindK (ifield dp i_dev) (\<lambda>ddev. bindK (ifield ip i_dev) (\<lambda>idev. bindK (ifield ip i_inum) (\<lambda>inum.
       bindK (if ddev \<noteq> idev then retK (-1) else dirlink dp name inum) (\<lambda>l.
       if l < 0 then thenK (iunlockput dp) (link_bad ip)
       else thenK (iunlockput dp) (thenK (iput ip) (thenK end_op (retK 0))))))))))))))))))"

function isdirempty_loop :: "nat \<Rightarrow> nat \<Rightarrow> nat \<Rightarrow> (kst, bool) kmon" where
  "isdirempty_loop dp sz off =
     (if off < sz then
        bindK (read_dirent ''isdirempty: readi'' dp off) (\<lambda>de.
        if de_inum de \<noteq> 0 then retK False else isdirempty_loop dp sz (off + DIRENT))
      else retK True)"
  by pat_completeness auto
termination
  by (relation "measure (\<lambda>(dp, sz, off). sz - off)") (auto simp: DIRENT_def)

declare isdirempty_loop.simps [simp del]

definition isdirempty :: "nat \<Rightarrow> (kst, bool) kmon" where
  "isdirempty dp = bindK (ifield dp i_size) (\<lambda>sz. isdirempty_loop dp (unat sz) (2 * DIRENT))"

definition dot :: "u8 list" where "dot = [46]"
definition dotdot :: "u8 list" where "dotdot = [46, 46]"

definition unlink_bad :: "nat \<Rightarrow> (kst, u64) kmon" where
  "unlink_bad dp = thenK (iunlockput dp) (thenK end_op (retK minus1))"

text \<open>\<open>sys_unlink\<close> from the locked entry \<open>ip\<close> at offset \<open>off\<close> of the locked directory \<open>dp\<close> on.\<close>

definition unlink_entry :: "nat \<Rightarrow> nat \<Rightarrow> nat \<Rightarrow> (kst, u64) kmon" where
  "unlink_entry dp ip off =
     bindK (ifield ip i_nlink) (\<lambda>nlink.
     if sint nlink < 1 then panicK ''unlink: nlink < 1''
     else
       bindK (ifield ip i_type) (\<lambda>type.
       bindK (if type = T_DIR then isdirempty ip else retK True) (\<lambda>empty.
       if \<not> empty then thenK (iunlockput ip) (unlink_bad dp)
       else
         bindK (writei (kernel_in (replicate DIRENT 0)) dp 0 (of_nat off) (of_nat DIRENT)) (\<lambda>n.
         if n \<noteq> int DIRENT then panicK ''unlink: writei''
         else
           thenK (whenK (type = T_DIR) (thenK (set_inode dp (i_nlink_update (\<lambda>n. n - 1))) (iupdate dp)))
          (thenK (iunlockput dp)
          (thenK (set_inode ip (i_nlink_update (\<lambda>n. n - 1)))
          (thenK (iupdate ip) (thenK (iunlockput ip) (thenK end_op (retK 0))))))))))"

definition sys_unlink :: "(kst, u64) kmon" where
  "sys_unlink =
     bindK (argstr 0 MAXPATH) (\<lambda>path.
     case path of None \<Rightarrow> retK minus1 | Some path \<Rightarrow>
     thenK begin_op
    (bindK (knameiparent path) (\<lambda>r.
     case r of None \<Rightarrow> thenK end_op (retK minus1) | Some (dp, name) \<Rightarrow>
     thenK (ilock (Some dp))
    (if namecmp name dot = 0 \<or> namecmp name dotdot = 0 then unlink_bad dp
     else
       bindK (dirlookup dp name) (\<lambda>r.
       case r of None \<Rightarrow> unlink_bad dp | Some (ip, off) \<Rightarrow>
       thenK (ilock (Some ip)) (unlink_entry dp ip off))))))"

text \<open>The end of \<open>create\<close> when a directory entry could not be made.\<close>

definition create_fail :: "nat \<Rightarrow> nat \<Rightarrow> (kst, nat option) kmon" where
  "create_fail dp ip =
     thenK (set_inode ip (i_nlink_update (\<lambda>_. 0)))
    (thenK (iupdate ip) (thenK (iunlockput ip) (thenK (iunlockput dp) (retK None))))"

definition create :: "u8 list \<Rightarrow> u16 \<Rightarrow> u16 \<Rightarrow> u16 \<Rightarrow> (kst, nat option) kmon" where
  "create path type major minor =
     bindK (knameiparent path) (\<lambda>r.
     case r of None \<Rightarrow> retK None | Some (dp, name) \<Rightarrow>
     thenK (ilock (Some dp))
    (bindK (dirlookup dp name) (\<lambda>r.
     case r of
       Some (ip, _) \<Rightarrow>
         thenK (iunlockput dp) (thenK (ilock (Some ip))
        (bindK (ifield ip i_type) (\<lambda>t.
         if type = T_FILE \<and> (t = T_FILE \<or> t = T_DEVICE) then retK (Some ip)
         else thenK (iunlockput ip) (retK None))))
     | None \<Rightarrow>
         bindK (ifield dp i_dev) (\<lambda>dev.
         bindK (ialloc dev type) (\<lambda>r.
         case r of None \<Rightarrow> thenK (iunlockput dp) (retK None) | Some ip \<Rightarrow>
         thenK (ilock (Some ip))
        (thenK (set_inode ip (\<lambda>i. i\<lparr>i_major := major, i_minor := minor, i_nlink := 1\<rparr>))
        (thenK (iupdate ip)
        (bindK (ifield ip i_inum) (\<lambda>inum. bindK (ifield dp i_inum) (\<lambda>dinum.
         bindK (if type \<noteq> T_DIR then retK 0
                else bindK (dirlink ip dot inum) (\<lambda>l. if l < 0 then retK l else dirlink ip dotdot dinum)) (\<lambda>l.
         if l < 0 then create_fail dp ip
         else
           bindK (dirlink dp name inum) (\<lambda>l.
           if l < 0 then create_fail dp ip
           else
             thenK (whenK (type = T_DIR) (thenK (set_inode dp (i_nlink_update (\<lambda>n. n + 1))) (iupdate dp)))
            (thenK (iunlockput dp) (retK (Some ip)))))))))))))))"

section \<open>Opening files\<close>

definition has :: "u32 \<Rightarrow> nat \<Rightarrow> bool" where
  "has omode flag \<longleftrightarrow> omode AND of_nat flag \<noteq> 0"

definition c_bool :: "bool \<Rightarrow> int" where
  "c_bool b = (if b then 1 else 0)"

text \<open>The inode to open, locked; \<open>None\<close> after \<open>end_op\<close>.\<close>

definition open_inode :: "u8 list \<Rightarrow> u32 \<Rightarrow> (kst, nat option) kmon" where
  "open_inode path omode =
     (if has omode O_CREATE then
        bindK (create path T_FILE 0 0) (\<lambda>r.
        case r of None \<Rightarrow> thenK end_op (retK None) | Some ip \<Rightarrow> retK (Some ip))
      else
        bindK (knamei path) (\<lambda>r.
        case r of None \<Rightarrow> thenK end_op (retK None) | Some ip \<Rightarrow>
        thenK (ilock (Some ip))
       (bindK (ifield ip i_type) (\<lambda>t.
        if t = T_DIR \<and> omode \<noteq> of_nat O_RDONLY then thenK (iunlockput ip) (thenK end_op (retK None))
        else retK (Some ip)))))"

definition open_file :: "u16 \<Rightarrow> u16 \<Rightarrow> nat \<Rightarrow> u32 \<Rightarrow> kfile \<Rightarrow> kfile" where
  "open_file t major ip omode x =
     (if t = T_DEVICE then x\<lparr>f_type := FD_DEVICE, f_major := major\<rparr> else x\<lparr>f_type := FD_INODE, f_off := 0\<rparr>)
       \<lparr>f_ip := Some ip, f_readable := c_bool (\<not> has omode O_WRONLY),
        f_writable := c_bool (has omode O_WRONLY \<or> has omode O_RDWR)\<rparr>"

definition sys_open :: "(kst, u64) kmon" where
  "sys_open =
     bindK (argint 1) (\<lambda>omode.
     bindK (argstr 0 MAXPATH) (\<lambda>path.
     case path of None \<Rightarrow> retK minus1 | Some path \<Rightarrow>
     thenK begin_op
    (bindK (open_inode path omode) (\<lambda>r.
     case r of None \<Rightarrow> retK minus1 | Some ip \<Rightarrow>
     bindK (ifield ip i_type) (\<lambda>t. bindK (ifield ip i_major) (\<lambda>major.
     if t = T_DEVICE \<and> (sint major < 0 \<or> sint major \<ge> int NDEV)
     then thenK (iunlockput ip) (thenK end_op (retK minus1))
     else
       bindK filealloc (\<lambda>f.
       bindK (fdalloc f) (\<lambda>r.
       case r of
         None \<Rightarrow> thenK (fileclose f) (thenK (iunlockput ip) (thenK end_op (retK minus1)))
       | Some fd \<Rightarrow>
           thenK (upd_file f (open_file t major ip omode))
          (thenK (whenK (has omode O_TRUNC \<and> t = T_FILE) (itrunc ip))
          (thenK (iunlock (Some ip)) (thenK end_op (retK (of_nat fd)))))))))))))"

definition sys_mkdir :: "(kst, u64) kmon" where
  "sys_mkdir =
     thenK begin_op
    (bindK (argstr 0 MAXPATH) (\<lambda>path.
     bindK (case path of None \<Rightarrow> retK None | Some path \<Rightarrow> create path T_DIR 0 0) (\<lambda>r.
     case r of
       None \<Rightarrow> thenK end_op (retK minus1)
     | Some ip \<Rightarrow> thenK (iunlockput ip) (thenK end_op (retK 0)))))"

definition sys_mknod :: "(kst, u64) kmon" where
  "sys_mknod =
     thenK begin_op
    (bindK (argint 1) (\<lambda>major. bindK (argint 2) (\<lambda>minor.
     bindK (argstr 0 MAXPATH) (\<lambda>path.
     bindK (case path of None \<Rightarrow> retK None | Some path \<Rightarrow> create path T_DEVICE (ucast major) (ucast minor)) (\<lambda>r.
     case r of
       None \<Rightarrow> thenK end_op (retK minus1)
     | Some ip \<Rightarrow> thenK (iunlockput ip) (thenK end_op (retK 0)))))))"

definition sys_chdir :: "(kst, u64) kmon" where
  "sys_chdir =
     bindK myproc (\<lambda>p.
     thenK begin_op
    (bindK (argstr 0 MAXPATH) (\<lambda>path.
     bindK (case path of None \<Rightarrow> retK None | Some path \<Rightarrow> knamei path) (\<lambda>r.
     case r of
       None \<Rightarrow> thenK end_op (retK minus1)
     | Some ip \<Rightarrow>
         thenK (ilock (Some ip))
        (bindK (ifield ip i_type) (\<lambda>t.
         if t \<noteq> T_DIR then thenK (iunlockput ip) (thenK end_op (retK minus1))
         else
           thenK (iunlock (Some ip))
          (bindK (getP p p_cwd) (\<lambda>cwd.
           thenK (case cwd of None \<Rightarrow> failK NullDeref | Some d \<Rightarrow> iput d)
          (thenK end_op
          (thenK (setP p (p_cwd_update (\<lambda>_. Some ip))) (retK 0)))))))))))"

section \<open>Running programs and pipes\<close>

text \<open>
  The loop of \<open>sys_exec\<close> for the indices \<open>is\<close>, with the pages \<open>argv\<close> allocated so far: whether a null pointer
  ended the arguments, and the pages.
\<close>

primrec sys_exec_args :: "u64 \<Rightarrow> nat list \<Rightarrow> nat list \<Rightarrow> (kst, bool \<times> nat list) kmon" where
  "sys_exec_args uargv [] argv = retK (False, argv)"
| "sys_exec_args uargv (i # is) argv =
     bindK (fetchaddr (uargv + 8 * of_nat i)) (\<lambda>r.
     case r of
       None \<Rightarrow> retK (False, argv)
     | Some uarg \<Rightarrow>
         if uarg = 0 then retK (True, argv)
         else
           bindK (onVm vm_kalloc) (\<lambda>pg.
           if pg = nullptr then retK (False, argv)
           else
             bindK (fetchstr uarg PGSIZE) (\<lambda>(buf, n).
             thenK (onVm (write_bytes pg buf))
            (if n < 0 then retK (False, argv @ [pg])
             else sys_exec_args uargv is (argv @ [pg])))))"

definition sys_exec :: "(kst, u64) kmon" where
  "sys_exec =
     bindK (argaddr 1) (\<lambda>uargv.
     bindK (argstr 0 MAXPATH) (\<lambda>path.
     case path of None \<Rightarrow> retK minus1 | Some path \<Rightarrow>
     bindK (sys_exec_args uargv [0..<MAXARG] []) (\<lambda>(ok, argv).
     bindK (if ok then exec path argv else retK (-1)) (\<lambda>ret.
     thenK (forK argv (\<lambda>pg. onVm (vm_kfree pg))) (ret_int ret)))))"

definition int_bytes :: "nat \<Rightarrow> u8 list" where
  "int_bytes n = store32 (replicate 4 0) 0 (of_nat n)"

text \<open>Both error branches of \<open>sys_pipe\<close> take back the descriptors \<open>fds\<close> and close both files.\<close>

definition pipe_undo :: "nat list \<Rightarrow> nat \<Rightarrow> nat \<Rightarrow> (kst, u64) kmon" where
  "pipe_undo fds rdf wrf =
     thenK (forK fds (\<lambda>fd. set_ofile fd nullptr))
    (thenK (fileclose rdf) (thenK (fileclose wrf) (retK minus1)))"

definition sys_pipe :: "(kst, u64) kmon" where
  "sys_pipe =
     bindK myproc (\<lambda>p.
     bindK (argaddr 0) (\<lambda>fdarray.
     bindK pipealloc (\<lambda>r.
     case r of None \<Rightarrow> retK minus1 | Some (rdf, wrf) \<Rightarrow>
     bindK (fdalloc rdf) (\<lambda>r0.
     case r0 of None \<Rightarrow> pipe_undo [] rdf wrf | Some fd0 \<Rightarrow>
     bindK (fdalloc wrf) (\<lambda>r1.
     case r1 of None \<Rightarrow> pipe_undo [fd0] rdf wrf | Some fd1 \<Rightarrow>
     bindK (getP p p_pagetable) (\<lambda>pt.
     bindK (onVm (copyout pt fdarray (int_bytes fd0))) (\<lambda>c0.
     bindK (if c0 < 0 then retK c0 else onVm (copyout pt (fdarray + 4) (int_bytes fd1))) (\<lambda>c1.
     if c1 < 0 then pipe_undo [fd0, fd1] rdf wrf else retK 0))))))))"

end
