(* ===== verification/Syscall.thy ===== *)
theory Syscall
  imports Sysfile
begin

text \<open>
  The system calls on processes (\<^verbatim>\<open>src/kernel/syscall/sysproc.c\<close>) and the dispatch of system calls (\<open>syscall\<close> of
  \<^verbatim>\<open>src/kernel/syscall/syscall.c\<close>). \<open>sys_exit\<close> does not return; the other calls return the value for
  register a0.
\<close>

section \<open>System calls on processes\<close>

definition sys_exit :: "(kst, u64 option) kmon" where
  "sys_exit = bindK (argint 0) (\<lambda>n. thenK (exit n) (retK None))"

definition sys_getpid :: "(kst, u64) kmon" where
  "sys_getpid = bindK myproc (\<lambda>p. bindK (getP p p_pid) ret_int)"

definition sys_fork :: "(kst, u64) kmon" where
  "sys_fork = bindK fork ret_int"

definition sys_wait :: "(kst, u64) kmon" where
  "sys_wait = bindK (argaddr 0) (\<lambda>p. bindK (wait p) ret_int)"

definition sys_sbrk :: "(kst, u64) kmon" where
  "sys_sbrk =
     bindK (argint 0) (\<lambda>n.
     bindK myproc (\<lambda>p.
     bindK (getP p p_sz) (\<lambda>a.
     bindK (growproc (sint n)) (\<lambda>r. retK (if r < 0 then minus1 else a)))))"

text \<open>
  One test of the condition of \<open>sys_sleep\<close>'s loop, which compares unsigned numbers, and the body up to the
  call of \<open>sleep\<close>: \<open>None\<close> when the process goes to sleep.
\<close>

definition sleep_test :: "u32 \<Rightarrow> u32 \<Rightarrow> u32 \<Rightarrow> bool" where
  "sleep_test now ticks0 n \<longleftrightarrow> now - ticks0 < n"

definition sys_sleep_round :: "u32 \<Rightarrow> u32 \<Rightarrow> (kst, u64 option) kmon" where
  "sys_sleep_round n ticks0 =
     bindK (getK ticks) (\<lambda>now.
     if sleep_test now ticks0 n then
       bindK myproc (\<lambda>p. bindK (killed p) (\<lambda>k.
       if k then retK (Some minus1) else thenK (sleep ChTicks) (retK None)))
     else retK (Some 0))"

definition sys_sleep :: "(kst, u64) kmon" where
  "sys_sleep =
     bindK (argint 0) (\<lambda>n. bindK (getK ticks) (\<lambda>ticks0. bindK (sys_sleep_round n ticks0) (\<lambda>r.
     case r of None \<Rightarrow> failK Blocked | Some x \<Rightarrow> retK x)))"

definition sys_kill :: "(kst, u64) kmon" where
  "sys_kill = bindK (argint 0) (\<lambda>pid. bindK (kill (sint pid)) ret_int)"

definition sys_uptime :: "(kst, u64) kmon" where
  "sys_uptime = bindK (getK ticks) (\<lambda>t. retK (ucast t))"

definition sys_dump :: "(kst, u64) kmon" where
  "sys_dump = bindK dump ret_int"

definition sys_dump2 :: "(kst, u64) kmon" where
  "sys_dump2 =
     bindK (argint 0) (\<lambda>pid. bindK (argint 1) (\<lambda>register_num. bindK (argaddr 2) (\<lambda>return_value.
     bindK (dump2 (sint pid) (sint register_num) return_value) ret_int)))"

section \<open>Dispatch\<close>

definition returns :: "(kst, u64) kmon \<Rightarrow> (kst, u64 option) kmon" where
  "returns m = bindK m (\<lambda>x. retK (Some x))"

definition syscalls :: "(nat \<times> (kst, u64 option) kmon) list" where
  "syscalls =
     [(1, returns sys_fork), (2, sys_exit), (3, returns sys_wait), (4, returns sys_pipe),
      (5, returns sys_read), (6, returns sys_kill), (7, returns sys_exec), (8, returns sys_fstat),
      (9, returns sys_chdir), (10, returns sys_dup), (11, returns sys_getpid), (12, returns sys_sbrk),
      (13, returns sys_sleep), (14, returns sys_uptime), (15, returns sys_open), (16, returns sys_write),
      (17, returns sys_mknod), (18, returns sys_unlink), (19, returns sys_link), (20, returns sys_mkdir),
      (21, returns sys_close), (22, returns sys_dump), (23, returns sys_dump2)]"

definition unknown_call :: "nat \<Rightarrow> int \<Rightarrow> (kst, unit) kmon" where
  "unknown_call p num =
     bindK (getP p (\<lambda>x. x)) (\<lambda>x.
     thenK (kprintf (\<lambda>_. string_of (p_name x)) (''%d %s: unknown sys call %d'' @ [CHR 0x0A])
              [of_int (p_pid x), 0, of_int num])
           (tf_write p TF_a0 minus1))"

text \<open>\<open>syscall\<close>: the result tells whether it returns.\<close>

definition syscall :: "(kst, bool) kmon" where
  "syscall =
     bindK myproc (\<lambda>p.
     bindK (tf_read p TF_a7) (\<lambda>a7.
     let num = sint (ucast a7 :: u32) in
     case (if num > 0 then map_of syscalls (nat num) else None) of
       Some call \<Rightarrow>
         bindK call (\<lambda>r. case r of None \<Rightarrow> retK False | Some x \<Rightarrow> thenK (tf_write p TF_a0 x) (retK True))
     | None \<Rightarrow> thenK (unknown_call p num) (retK True)))"

end
