(* ===== verification/Trap.thy ===== *)
theory Trap
  imports Syscall
begin

text \<open>
  Traps and interrupts (\<^verbatim>\<open>src/kernel/trap.c\<close>) and the interrupt controller (\<^verbatim>\<open>plic.c\<close>). The control
  registers that a handler reads are its argument, and what it leaves in them its result. The number of the
  CPU and the interrupt that the controller reports are among the registers.
\<close>

record trap_regs =
  sstatus :: u64
  sepc :: u64
  scause :: u64
  stval :: u64
  sip :: u64
  cpuid :: nat
  claim :: u32

definition SSTATUS_SPP :: u64 where "SSTATUS_SPP = push_bit 8 1"
definition SSTATUS_SPIE :: u64 where "SSTATUS_SPIE = push_bit 5 1"
definition SSTATUS_SIE :: u64 where "SSTATUS_SIE = push_bit 1 1"
definition UART0_IRQ :: nat where "UART0_IRQ = 10"
definition VIRTIO0_IRQ :: nat where "VIRTIO0_IRQ = 1"

definition MAKE_SATP :: "nat \<Rightarrow> u64" where
  "MAKE_SATP pagetable = push_bit 60 8 OR drop_bit 12 (of_nat pagetable)"

section \<open>The interrupt controller\<close>

definition plic_write :: "u64 \<Rightarrow> u32 \<Rightarrow> (kst, unit) kmon" where
  "plic_write a x = modK (plic_writes_update (\<lambda>ws. ws @ [(a, x)]))"

definition PLIC_SENABLE :: "nat \<Rightarrow> u64" where "PLIC_SENABLE hart = PLIC + 0x2080 + of_nat hart * 0x100"
definition PLIC_SPRIORITY :: "nat \<Rightarrow> u64" where "PLIC_SPRIORITY hart = PLIC + 0x201000 + of_nat hart * 0x2000"
definition PLIC_SCLAIM :: "nat \<Rightarrow> u64" where "PLIC_SCLAIM hart = PLIC + 0x201004 + of_nat hart * 0x2000"

definition plicinit :: "(kst, unit) kmon" where
  "plicinit = thenK (plic_write (PLIC + of_nat UART0_IRQ * 4) 1) (plic_write (PLIC + of_nat VIRTIO0_IRQ * 4) 1)"

definition plicinithart :: "nat \<Rightarrow> (kst, unit) kmon" where
  "plicinithart hart =
     thenK (plic_write (PLIC_SENABLE hart) (push_bit UART0_IRQ 1 OR push_bit VIRTIO0_IRQ 1))
           (plic_write (PLIC_SPRIORITY hart) 0)"

definition plic_claim :: "trap_regs \<Rightarrow> int" where
  "plic_claim r = sint (claim r)"

definition plic_complete :: "nat \<Rightarrow> int \<Rightarrow> (kst, unit) kmon" where
  "plic_complete hart irq = plic_write (PLIC_SCLAIM hart) (of_int irq)"

section \<open>Device interrupts\<close>

definition clockintr :: "(kst, unit) kmon" where
  "clockintr = thenK (modK (ticks_update (\<lambda>t. t + 1))) (wakeup ChTicks)"

text \<open>\<open>uartintr\<close> and \<open>virtio_disk_intr\<close> on the kernel's state, with the wakeups they make.\<close>

definition kuartintr :: "(kst, unit) kmon" where
  "kuartintr =
     bindK (getK (\<lambda>s. s)) (\<lambda>s.
     bindK (liftR (uartintr (procdump (procs s)) (con s) (port s))) (\<lambda>(c, u, wake, tx_wake).
     thenK (modK (\<lambda>s. s\<lparr>con := c, port := u\<rparr>))
    (thenK (whenK wake (wakeup ChCons)) (whenK tx_wake (wakeup ChUart)))))"

definition kvirtio_disk_intr :: "(kst, unit) kmon" where
  "kvirtio_disk_intr =
     bindK (getK blk) (\<lambda>d.
     bindK (liftR (virtio_disk_intr d)) (\<lambda>(d, woken).
     thenK (modK (blk_update (\<lambda>_. d))) (forK woken (\<lambda>b. wakeup (ChBuf b)))))"

text \<open>\<open>devintr\<close>: the return value and the register sip.\<close>

definition devintr :: "trap_regs \<Rightarrow> (kst, int \<times> u64) kmon" where
  "devintr r =
     (if scause r AND 0x8000000000000000 \<noteq> 0 \<and> scause r AND 0xff = 9 then
        let irq = plic_claim r in
        thenK (if irq = int UART0_IRQ then kuartintr
               else if irq = int VIRTIO0_IRQ then kvirtio_disk_intr
               else whenK (irq \<noteq> 0)
                      (kprintf (\<lambda>_. []) (''unexpected interrupt irq=%d'' @ [CHR 0x0A]) [of_int irq]))
       (thenK (whenK (irq \<noteq> 0) (plic_complete (cpuid r) irq))
              (retK (1, sip r)))
      else if scause r = 0x8000000000000001 then
        thenK (whenK (cpuid r = 0) clockintr) (retK (2, sip r AND NOT 2))
      else retK (0, sip r))"

section \<open>Traps from user space\<close>

text \<open>What \<open>userret\<close> is called with: where traps go, and the state the return to user space takes up.\<close>

record user_entry =
  u_stvec :: u64
  u_sstatus :: u64
  u_sepc :: u64
  u_satp :: u64
  u_target :: u64

definition usertrapret :: "trap_regs \<Rightarrow> (kst, user_entry) kmon" where
  "usertrapret r =
     bindK myproc (\<lambda>p.
     bindK (getK syms) (\<lambda>y.
     bindK (getP p p_kstack) (\<lambda>kstack.
     thenK (tf_write p TF_kernel_satp (y_kernel_satp y))
    (thenK (tf_write p TF_kernel_sp (kstack + 4096))
    (thenK (tf_write p TF_kernel_trap (y_usertrap y))
    (thenK (tf_write p TF_kernel_hartid (of_nat (cpuid r)))
    (bindK (tf_read p TF_epc) (\<lambda>epc.
     bindK (getP p p_pagetable) (\<lambda>pt.
     retK \<lparr>u_stvec = TRAMPOLINE + of_int (int (y_uservec y) - int (y_trampoline y)),
           u_sstatus = (sstatus r AND NOT SSTATUS_SIE AND NOT SSTATUS_SPP) OR SSTATUS_SPIE,
           u_sepc = epc,
           u_satp = MAKE_SATP pt,
           u_target = TRAMPOLINE + of_int (int (y_userret y) - int (y_trampoline y))\<rparr>)))))))))"

text \<open>
  How \<open>usertrap\<close> leaves: the process has exited, has given up the CPU (\<open>usertrapret\<close> follows when it runs
  again) or goes back to user space.
\<close>

datatype leave = Exited | Yielded | ToUser user_entry

text \<open>\<open>exit(-1)\<close>\<close>

definition exit_killed :: "(kst, leave) kmon" where
  "exit_killed = thenK (exit (- 1)) (retK Exited)"

text \<open>The part of \<open>usertrap\<close> after the trap has been handled.\<close>

definition usertrap_tail :: "trap_regs \<Rightarrow> int \<Rightarrow> (kst, leave) kmon" where
  "usertrap_tail r which_dev =
     bindK myproc (\<lambda>p.
     bindK (killed p) (\<lambda>k.
     if k then exit_killed
     else if which_dev = 2 then thenK yield (retK Yielded)
     else bindK (usertrapret r) (\<lambda>e. retK (ToUser e))))"

definition usertrap :: "trap_regs \<Rightarrow> (kst, leave) kmon" where
  "usertrap r =
     (if sstatus r AND SSTATUS_SPP \<noteq> 0 then panicK ''usertrap: not from user mode''
      else
        bindK myproc (\<lambda>p.
        thenK (tf_write p TF_epc (sepc r))
       (if scause r = 8 then
          bindK (killed p) (\<lambda>k.
          if k then exit_killed
          else
            bindK (tf_read p TF_epc) (\<lambda>epc.
            thenK (tf_write p TF_epc (epc + 4))
           (bindK syscall (\<lambda>back_here. if back_here then usertrap_tail r 0 else retK Exited))))
        else
          bindK (devintr r) (\<lambda>(which_dev, sip').
          if which_dev \<noteq> 0 then usertrap_tail (r\<lparr>sip := sip'\<rparr>) which_dev
          else
            bindK (getP p p_pid) (\<lambda>pid.
            thenK (kprintf (\<lambda>_. []) (''usertrap(): unexpected scause %p pid=%d'' @ [CHR 0x0A]) [scause r, of_int pid])
           (thenK (kprintf (\<lambda>_. []) (''            sepc=%p stval=%p'' @ [CHR 0x0A]) [sepc r, stval r])
           (thenK (setkilled p)
                  (usertrap_tail r 0))))))))"

section \<open>Traps from the kernel\<close>

text \<open>\<open>kerneltrap\<close>: whether it yields, and the registers sepc and sstatus it restores.\<close>

definition kerneltrap :: "trap_regs \<Rightarrow> (kst, bool \<times> u64 \<times> u64) kmon" where
  "kerneltrap r =
     (if sstatus r AND SSTATUS_SPP = 0 then panicK ''kerneltrap: not from supervisor mode''
      else if sstatus r AND SSTATUS_SIE \<noteq> 0 then panicK ''kerneltrap: interrupts enabled''
      else
        bindK (devintr r) (\<lambda>(which_dev, _).
        if which_dev = 0 then
          thenK (kprintf (\<lambda>_. []) (''scause %p'' @ [CHR 0x0A]) [scause r])
         (thenK (kprintf (\<lambda>_. []) (''sepc=%p stval=%p'' @ [CHR 0x0A]) [sepc r, stval r])
                (panicK ''kerneltrap''))
        else
          bindK (getK (\<lambda>s. which_dev = 2 \<and> (case cur s of None \<Rightarrow> False | Some p \<Rightarrow> p_state (procs s p) = RUNNING))) (\<lambda>y.
          thenK (whenK y yield) (retK (y, sepc r, sstatus r)))))"

end
