(* ===== verification/Proc_Inv.thy ===== *)
theory Proc_Inv
  imports Frame Trap
begin

text \<open>
  The invariant of the process table: unused slots are clean, the processes in use have different
  positive numbers below \<open>nextpid\<close>, every parent is a live process with a smaller number, and the first
  process has the smallest number and never ends. Every system call and every trap keeps it.
\<close>

section \<open>The invariant\<close>

abbreviation used :: "kst \<Rightarrow> nat \<Rightarrow> bool" where
  "used s p \<equiv> p_state (procs s p) \<noteq> UNUSED"

abbreviation pid_of :: "kst \<Rightarrow> nat \<Rightarrow> int" where
  "pid_of s p \<equiv> p_pid (procs s p)"

definition alive :: "kst \<Rightarrow> nat \<Rightarrow> bool" where
  "alive s p \<longleftrightarrow> p < NPROC \<and> used s p \<and> p_state (procs s p) \<noteq> ZOMBIE"

definition proc_inv :: "kst \<Rightarrow> bool" where
  "proc_inv s \<longleftrightarrow>
     (\<forall>p<NPROC. \<not> used s p \<longrightarrow> clean (procs s p)) \<and>
     (\<forall>p<NPROC. used s p \<longrightarrow> 0 < pid_of s p \<and> pid_of s p < nextpid s) \<and>
     (\<forall>p<NPROC. \<forall>q<NPROC. used s p \<longrightarrow> used s q \<longrightarrow> pid_of s p = pid_of s q \<longrightarrow> p = q) \<and>
     (\<forall>p<NPROC. \<forall>q. p_parent (procs s p) = Some q \<longrightarrow> alive s q \<and> pid_of s q < pid_of s p) \<and>
     (\<forall>i. initproc s = Some i \<longrightarrow> alive s i \<and> (\<forall>p<NPROC. used s p \<longrightarrow> p \<noteq> i \<longrightarrow> pid_of s i < pid_of s p)) \<and>
     0 < nextpid s"

lemma proc_invI:
  assumes "\<And>p. p < NPROC \<Longrightarrow> \<not> used s p \<Longrightarrow> clean (procs s p)"
    and "\<And>p. p < NPROC \<Longrightarrow> used s p \<Longrightarrow> 0 < pid_of s p \<and> pid_of s p < nextpid s"
    and "\<And>p q. p < NPROC \<Longrightarrow> q < NPROC \<Longrightarrow> used s p \<Longrightarrow> used s q \<Longrightarrow> pid_of s p = pid_of s q \<Longrightarrow> p = q"
    and "\<And>p q. p < NPROC \<Longrightarrow> p_parent (procs s p) = Some q \<Longrightarrow> alive s q \<and> pid_of s q < pid_of s p"
    and "\<And>i. initproc s = Some i \<Longrightarrow> alive s i"
    and "\<And>i p. initproc s = Some i \<Longrightarrow> p < NPROC \<Longrightarrow> used s p \<Longrightarrow> p \<noteq> i \<Longrightarrow> pid_of s i < pid_of s p"
    and "0 < nextpid s"
  shows "proc_inv s"
  unfolding proc_inv_def using assms by blast

lemma proc_invD:
  assumes "proc_inv s"
  shows inv_clean: "\<And>p. p < NPROC \<Longrightarrow> \<not> used s p \<Longrightarrow> clean (procs s p)"
    and inv_pid: "\<And>p. p < NPROC \<Longrightarrow> used s p \<Longrightarrow> 0 < pid_of s p \<and> pid_of s p < nextpid s"
    and inv_inj: "\<And>p q. p < NPROC \<Longrightarrow> q < NPROC \<Longrightarrow> used s p \<Longrightarrow> used s q \<Longrightarrow> pid_of s p = pid_of s q \<Longrightarrow> p = q"
    and inv_parent: "\<And>p q. p < NPROC \<Longrightarrow> p_parent (procs s p) = Some q \<Longrightarrow> alive s q \<and> pid_of s q < pid_of s p"
    and inv_init: "\<And>i. initproc s = Some i \<Longrightarrow> alive s i"
    and inv_first: "\<And>i p. initproc s = Some i \<Longrightarrow> p < NPROC \<Longrightarrow> used s p \<Longrightarrow> p \<noteq> i \<Longrightarrow> pid_of s i < pid_of s p"
    and inv_next: "0 < nextpid s"
  using assms unfolding proc_inv_def by blast+

lemma slot_rel_state:
  "slot_rel x y \<Longrightarrow> (p_state y = UNUSED) = (p_state x = UNUSED)"
  "slot_rel x y \<Longrightarrow> (p_state y = ZOMBIE) = (p_state x = ZOMBIE)"
  "slot_rel x y \<Longrightarrow> p_pid y = p_pid x" "slot_rel x y \<Longrightarrow> p_parent y = p_parent x"
  "slot_rel x y \<Longrightarrow> p_state x = UNUSED \<Longrightarrow> clean x \<Longrightarrow> clean y"
  by (auto simp: slot_rel_def)

lemma proc_inv_tame:
  assumes "tame s s'" "proc_inv s"
  shows "proc_inv s'"
proof -
  have rel: "slot_rel (procs s p) (procs s' p)" for p using assms(1) by (simp add: tame_def)
  have eqs: "used s' p = used s p" "(p_state (procs s' p) = ZOMBIE) = (p_state (procs s p) = ZOMBIE)"
      "pid_of s' p = pid_of s p" "p_parent (procs s' p) = p_parent (procs s p)"
      "\<not> used s p \<Longrightarrow> clean (procs s p) \<Longrightarrow> clean (procs s' p)" for p
    using slot_rel_state [OF rel [of p]] by simp_all
  have "alive s' = alive s" by (simp add: alive_def eqs(1,2) fun_eq_iff)
  then show ?thesis using assms eqs(5) unfolding proc_inv_def tame_def eqs(1-4) by simp
qed

section \<open>Calls that leave the table alone\<close>

lemma pt_read_struct [within_rules]: "within tame (read_struct ip off n)"
  unfolding read_struct_def by (intro within_rules)

lemma pt_loadseg_loop [within_rules]: "within tame (loadseg_loop pt va ip off sz is)"
  by (induction "is"; simp only: loadseg_loop.simps; intro within_rules; (assumption | simp add: tame_def))

lemma pt_loadseg [within_rules]: "within tame (loadseg pt va ip off sz)"
  unfolding loadseg_def by (intro within_rules)

lemma pt_load_segments [within_rules]: "within tame (load_segments ip pt n off sz)"
  by (induction n arbitrary: off sz; simp only: load_segments.simps; intro within_rules; simp)

lemma pt_exec_bad [within_rules]: "within tame (exec_bad pt sz ip)"
  unfolding exec_bad_def by (intro within_rules)

lemma pt_push_args [within_rules]: "within tame (push_args pt base args sp us)"
  by (induction args arbitrary: sp us; simp only: push_args.simps; intro within_rules; simp)

lemma pt_knamei [within_rules]: "within tame (knamei path)" "within tame (knameiparent path)"
  unfolding knamei_def knameiparent_def by (intro within_rules)+

lemma run_exec_image [within_rules]: "within tame_run (exec_image path argv elf pt sz)"
  unfolding exec_image_def
  by (rule run_own, intro within_rules own_tame [OF pt_onVm] own_tame [OF pt_getP] own_tame [OF pt_exec_bad]
      own_tame [OF pt_push_args] own_tame [OF pt_tf(2)] own_tame [OF pt_pagetables(2)]; simp)

lemma run_exec [within_rules]: "within tame_run (exec path argv)"
  unfolding exec_def by (intro within_rules run_tame)

lemma pt_args [within_rules]:
  "within tame (fetchaddr a)" "within tame (fetchstr a m)" "within tame (argraw n)"
  "within tame (argint n)" "within tame (argaddr n)" "within tame (argstr n m)"
  unfolding fetchaddr_def fetchstr_def argraw_def argint_def argaddr_def argstr_def by (intro within_rules)+

lemma pt_ret_int [within_rules]: "within tame (ret_int r)"
  unfolding ret_int_def by (intro within_rules)

lemma pt_inodes [within_rules]: "within tame (ifield ip f)" "within tame (set_inode ip g)"
  unfolding ifield_def set_inode_def by (intro within_rules; simp add: tame_def upd_inode_def)+

lemma pt_fds [within_rules]: "within tame (argfd n)" "within tame (set_ofile fd f)" "within tame (fdalloc f)"
  unfolding argfd_def set_ofile_def fdalloc_def by (intro within_rules; simp add: slot_rel_def clean_def)+

lemma pt_isdirempty_loop [within_rules]: "within tame (isdirempty_loop dp sz off)"
proof (induction "sz - off" arbitrary: off rule: less_induct)
  case less
  show ?case by (subst isdirempty_loop.simps) (intro within_rules less; simp add: DIRENT_def)
qed

lemma pt_dir_parts [within_rules]:
  "within tame (link_bad ip)" "within tame (isdirempty dp)" "within tame (unlink_bad dp)"
  "within tame (unlink_entry dp ip off)" "within tame (create_fail dp ip)"
  unfolding link_bad_def isdirempty_def unlink_bad_def unlink_entry_def create_fail_def by (intro within_rules)+

lemma pt_create [within_rules]: "within tame (create path ty major minor)"
  unfolding create_def by (intro within_rules)

lemma pt_open_inode [within_rules]: "within tame (open_inode path omode)"
  unfolding open_inode_def by (intro within_rules)

lemma pt_sysfile [within_rules]:
  "within tame sys_dup" "within tame sys_read" "within tame sys_write" "within tame sys_close"
  "within tame sys_fstat" "within tame sys_link" "within tame sys_unlink" "within tame sys_open"
  "within tame sys_mkdir" "within tame sys_mknod"
  unfolding sys_dup_def sys_read_def sys_write_def sys_close_def sys_fstat_def sys_link_def sys_unlink_def
    sys_open_def sys_mkdir_def sys_mknod_def
  by (intro within_rules)+

lemma pt_sys_chdir [within_rules]: "within tame sys_chdir"
  unfolding sys_chdir_def by (intro within_rules) (simp add: slot_rel_def clean_def)

lemma pt_sys_pipe [within_rules]: "within tame (pipe_undo fds f g)" "within tame sys_pipe"
  unfolding pipe_undo_def sys_pipe_def by (intro within_rules)+

lemma pt_sys_exec_args [within_rules]: "within tame (sys_exec_args u is argv)"
  by (induction "is" arbitrary: argv; simp only: sys_exec_args.simps; intro within_rules; simp)

lemma run_sys_exec [within_rules]: "within tame_run sys_exec"
  unfolding sys_exec_def by (intro within_rules run_tame)

lemma pt_sysproc [within_rules]:
  "within tame sys_getpid" "within tame sys_kill" "within tame sys_uptime" "within tame sys_dump" "within tame sys_dump2"
  unfolding sys_getpid_def sys_kill_def sys_uptime_def sys_dump_def sys_dump2_def by (intro within_rules)+

lemma run_sys_sbrk [within_rules]: "within tame_run sys_sbrk"
  unfolding sys_sbrk_def by (intro within_rules run_tame)

lemma sys_sleep_tame [within_rules]: "within tame sys_sleep"
proof (rule withinI)
  fix s x s'
  assume "sys_sleep s = Ret (x, s')"
  then obtain n t where n: "argint 0 s = Ret (n, t)" and
      "(bindK (getK ticks) (\<lambda>ticks0. bindK (sys_sleep_round n ticks0)
          (\<lambda>r. case r of None \<Rightarrow> failK Blocked | Some x \<Rightarrow> retK x))) t = Ret (x, s')"
    by (auto simp: sys_sleep_def bindK_def [of "argint 0"] bindR_def split: sum.splits)
  then have "s' = t"
    by (auto simp: sys_sleep_round_def bindK_def thenK_def bindR_def getK_def retK_def failK_def killed_def getP_def myproc_def
        split: sum.splits option.splits if_splits)
  then show "tame s s'" using withinD [OF pt_args(4) n] by simp
qed

section \<open>Creating and freeing slots\<close>

text \<open>The memory operations leave the process table as it is.\<close>

definition still :: "kst \<Rightarrow> kst \<Rightarrow> bool" where
  "still s s' \<longleftrightarrow> procs s' = procs s \<and> cur s' = cur s \<and> initproc s' = initproc s \<and> nextpid s' = nextpid s"

interpretation still: frame still
  by unfold_locales (auto simp: still_def)

lemma still_onVm [within_rules]: "within still (onVm m)"
  by (rule withinI) (auto simp: onVm_def bindR_def still_def split: sum.splits)

lemma still_getP [within_rules]: "within still (getP p f)"
  unfolding getP_def by (intro within_rules)

lemma still_pagetables [within_rules]: "within still (proc_pagetable p)" "within still (proc_freepagetable pt sz)"
  unfolding proc_pagetable_def proc_freepagetable_def by (intro within_rules)+

lemma bindK_RetE:
  assumes "bindK m f s = Ret (x, s')"
  obtains y t where "m s = Ret (y, t)" "f y t = Ret (x, s')"
  using assms by (auto simp: bindK_def bindR_def split: sum.splits)

lemma thenK_RetE:
  assumes "thenK m n s = Ret (x, s')"
  obtains y t where "m s = Ret (y, t)" "n t = Ret (x, s')"
  using assms unfolding thenK_def by (rule bindK_RetE)

text \<open>What changes in one slot.\<close>

definition in_slot :: "nat \<Rightarrow> kst \<Rightarrow> kst \<Rightarrow> bool" where
  "in_slot p s s' \<longleftrightarrow> (\<forall>q. q \<noteq> p \<longrightarrow> procs s' q = procs s q) \<and> cur s' = cur s \<and> initproc s' = initproc s \<and>
     nextpid s' = nextpid s"

interpretation slot: frame "in_slot p" for p
  by unfold_locales (auto simp: in_slot_def)

lemma slot_still: "within still m \<Longrightarrow> within (in_slot p) m"
  by (erule within_mono) (simp add: still_def in_slot_def)

lemma slot_setP [within_rules]: "within (in_slot p) (setP p f)"
  by (simp add: within_def setP_def in_slot_def upd_proc_def)

lemma slot_freeproc [within_rules]: "within (in_slot p) (freeproc p)"
  unfolding freeproc_def
  by (intro within_rules slot_still [OF still_getP] slot_still [OF still_onVm] slot_still [OF still_pagetables(2)])

lemma freeproc_slot:
  assumes "freeproc p s = Ret (x, s')"
  shows "clean (procs s' p)" "p_state (procs s' p) = UNUSED"
  using assms unfolding freeproc_def
  by (auto elim!: bindK_RetE thenK_RetE dest!: withinD [OF still_pagetables(2)]
      simp: setP_def getP_def upd_proc_def whenK_def clean_def still_def split: if_splits)

text \<open>The state after \<open>allocproc\<close> has chosen slot \<open>p\<close> and given it a number.\<close>

definition taken :: "nat \<Rightarrow> kst \<Rightarrow> kst" where
  "taken p s = upd_proc p (\<lambda>x. x\<lparr>p_pid := nextpid s, p_state := USED\<rparr>) (s\<lparr>nextpid := nextpid s + 1\<rparr>)"

definition alloc_frame :: "nat \<Rightarrow> kst \<Rightarrow> kst \<Rightarrow> bool" where
  "alloc_frame p s s' \<longleftrightarrow> in_slot p s s' \<and> (let x = procs s p; y = procs s' p in
     p_pid y = p_pid x \<and> p_state y = p_state x \<and> p_parent y = p_parent x \<and> p_xstate y = p_xstate x \<and>
     p_killed y = p_killed x)"

interpretation af: frame "alloc_frame p" for p
proof
  show "alloc_frame p s u" if "alloc_frame p s t" "alloc_frame p t u" for s t u
    using that slot.trans [of p s t u] by (auto simp: alloc_frame_def Let_def)
qed (auto simp: alloc_frame_def in_slot_def)

lemma af_still: "within still m \<Longrightarrow> within (alloc_frame p) m"
  by (erule within_mono) (simp add: still_def alloc_frame_def in_slot_def)

lemma af_setP [within_rules]:
  "(\<And>x. p_pid (f x) = p_pid x \<and> p_state (f x) = p_state x \<and> p_parent (f x) = p_parent x \<and>
     p_xstate (f x) = p_xstate x \<and> p_killed (f x) = p_killed x) \<Longrightarrow> within (alloc_frame p) (setP p f)"
  by (simp add: within_def setP_def alloc_frame_def in_slot_def upd_proc_def)

lemma allocproc_eq:
  "allocproc s = (case find (\<lambda>p. p_state (procs s p) = UNUSED) [0..<NPROC] of
     None \<Rightarrow> Ret (None, s) | Some p \<Rightarrow> alloc_rest p (taken p s))"
  by (auto simp: allocproc_def allocpid_def taken_def setP_def bindK_def thenK_def
      split: option.splits)

lemma slot_alloc_rest: "within (in_slot p) (alloc_rest p)"
  unfolding alloc_rest_def
  by (intro within_rules slot_still [OF still_onVm] slot_still [OF still_pagetables(1)])

lemma alloc_rest_cases:
  assumes "alloc_rest p s = Ret (r, s')"
  obtains "r = Some p" "alloc_frame p s s'"
  | "r = None" "in_slot p s s'" "clean (procs s' p)" "p_state (procs s' p) = UNUSED"
proof -
  note in_slot = withinD [OF slot_alloc_rest assms]
  note a = withinD [OF af_setP [where p = p]]
  obtain tf t1 t2 where 1: "onVm vm_kalloc s = Ret (tf, t1)" "setP p (p_trapframe_update (\<lambda>_. tf)) t1 = Ret ((), t2)"
      and rest: "(if tf = nullptr then thenK (freeproc p) (retK None)
         else
           bindK (proc_pagetable p) (\<lambda>pt.
           thenK (setP p (p_pagetable_update (\<lambda>_. pt)))
          (if pt = nullptr then thenK (freeproc p) (retK None)
           else
             bindK (getK (\<lambda>s. y_forkret (syms s))) (\<lambda>ret.
             thenK (setP p (\<lambda>x. x\<lparr>p_context := \<lparr>ctx_ra = ret, ctx_sp = p_kstack x + 4096, ctx_s = replicate 12 0\<rparr>\<rparr>))
                   (retK (Some p)))))) t2 = Ret (r, s')"
    using assms unfolding alloc_rest_def by (auto elim!: bindK_RetE thenK_RetE)
  have f2: "alloc_frame p s t2"
    by (rule af.trans [OF withinD [OF af_still [OF still_onVm] 1(1)] a [OF _ 1(2)]]) simp
  show thesis
  proof (cases "tf = nullptr")
    case True
    then show thesis using rest freeproc_slot that(2) in_slot by (auto elim!: thenK_RetE)
  next
    case False
    then obtain pt t3 t4 where 3: "proc_pagetable p t2 = Ret (pt, t3)" "setP p (p_pagetable_update (\<lambda>_. pt)) t3 = Ret ((), t4)"
        and rest: "(if pt = nullptr then thenK (freeproc p) (retK None)
           else
             bindK (getK (\<lambda>s. y_forkret (syms s))) (\<lambda>ret.
             thenK (setP p (\<lambda>x. x\<lparr>p_context := \<lparr>ctx_ra = ret, ctx_sp = p_kstack x + 4096, ctx_s = replicate 12 0\<rparr>\<rparr>))
                   (retK (Some p)))) t4 = Ret (r, s')"
      using rest by (auto elim!: bindK_RetE thenK_RetE)
    have f4: "alloc_frame p s t4"
      by (rule af.trans [OF af.trans [OF f2 withinD [OF af_still [OF still_pagetables(1)] 3(1)]] a [OF _ 3(2)]]) simp
    show thesis
    proof (cases "pt = nullptr")
      case True
      then show thesis using rest freeproc_slot that(2) in_slot by (auto elim!: thenK_RetE)
    next
      case False
      then obtain c where c: "r = Some p" "setP p (\<lambda>x. x\<lparr>p_context := c x\<rparr>) t4 = Ret ((), s')"
        using rest by (auto elim!: thenK_RetE)
      show thesis by (rule that(1) [OF c(1)], rule af.trans [OF f4 a [OF _ c(2)]]) simp
    qed
  qed
qed

text \<open>Taking a slot and giving it back keep the invariant.\<close>

lemma find_unused:
  assumes "find (\<lambda>p. p_state (procs s p) = UNUSED) [0..<NPROC] = Some p"
  shows "p < NPROC" "p_state (procs s p) = UNUSED"
  using find_SomeD [OF assms] by auto

lemma not_alive_unused: "p_state (procs s p) = UNUSED \<Longrightarrow> \<not> alive s p"
  by (simp add: alive_def)

lemma proc_inv_taken:
  assumes inv: "proc_inv s" and p: "p < NPROC" "p_state (procs s p) = UNUSED"
  shows "proc_inv (taken p s)"
proof -
  let ?t = "taken p s"
  have c: "p_parent (procs s p) = None" using inv_clean [OF inv p(1)] p by (simp add: clean_def)
  have t: "procs ?t q = (if q = p then (procs s p)\<lparr>p_pid := nextpid s, p_state := USED\<rparr> else procs s q)"
      "nextpid ?t = nextpid s + 1" "initproc ?t = initproc s" for q
    by (simp_all add: taken_def upd_proc_def)
  have alive: "alive ?t q \<and> q \<noteq> p" if "alive s q" for q using that p by (auto simp: alive_def t)
  have less: "pid_of s q < nextpid s" if "q < NPROC" "used s q" for q using inv_pid [OF inv that] by simp
  show ?thesis
  proof (rule proc_invI)
    fix q r assume q: "q < NPROC" "p_parent (procs ?t q) = Some r"
    then have "q \<noteq> p" using c by (auto simp: t)
    then show "alive ?t r \<and> pid_of ?t r < pid_of ?t q" using q inv_parent [OF inv, of q r] alive by (auto simp: t)
  next
    fix i q assume "initproc ?t = Some i" "q < NPROC" "used ?t q" "q \<noteq> i"
    moreover then have "alive s i" using inv_init [OF inv] by (simp add: t)
    ultimately show "pid_of ?t i < pid_of ?t q"
      using inv_first [OF inv, of i q] alive [of i] less [of i] by (auto simp: t alive_def)
  next
    fix q assume "q < NPROC" "used ?t q"
    then show "0 < pid_of ?t q \<and> pid_of ?t q < nextpid ?t"
      using inv_pid [OF inv, of q] inv_next [OF inv] by (auto simp: t)
  next
    fix q r assume "q < NPROC" "r < NPROC" "used ?t q" "used ?t r" "pid_of ?t q = pid_of ?t r"
    then show "q = r" using inv_inj [OF inv, of q r] less [of q] less [of r] by (auto simp: t split: if_splits)
  qed (use inv_clean [OF inv] inv_init [OF inv] inv_next [OF inv] alive in \<open>auto simp: t split: if_splits\<close>)
qed

text \<open>Giving a slot back, which nobody has as parent.\<close>

lemma proc_inv_freed:
  assumes inv: "proc_inv s" and p: "p < NPROC" and fr: "in_slot p s s'" "clean (procs s' p)" "p_state (procs s' p) = UNUSED"
    and no_child: "\<And>q. q < NPROC \<Longrightarrow> p_parent (procs s q) \<noteq> Some p" and no_init: "initproc s \<noteq> Some p"
  shows "proc_inv s'"
proof -
  have t: "q \<noteq> p \<Longrightarrow> procs s' q = procs s q" "nextpid s' = nextpid s" "initproc s' = initproc s" for q
    using fr(1) by (auto simp: in_slot_def)
  have alive: "q \<noteq> p \<Longrightarrow> alive s' q = alive s q" for q by (simp add: alive_def t)
  have par: "p_parent (procs s' p) = None" using fr(2) by (simp add: clean_def)
  show ?thesis
  proof (rule proc_invI)
    fix q r assume q: "q < NPROC" "p_parent (procs s' q) = Some r"
    then have "q \<noteq> p" using par by auto
    moreover then have "r \<noteq> p" using q no_child [of q] by (auto simp: t)
    ultimately show "alive s' r \<and> pid_of s' r < pid_of s' q" using q inv_parent [OF inv, of q r] by (simp add: t alive)
  next
    fix i assume "initproc s' = Some i"
    moreover then have "i \<noteq> p" using no_init by (simp add: t)
    ultimately show "alive s' i" using inv_init [OF inv, of i] by (simp add: t alive)
  next
    fix i q assume q: "initproc s' = Some i" "q < NPROC" "used s' q" "q \<noteq> i"
    then have "i \<noteq> p" "q \<noteq> p" using no_init fr(3) by (auto simp: t)
    then show "pid_of s' i < pid_of s' q" using q inv_first [OF inv, of i q] by (simp add: t)
  next
    fix q assume "q < NPROC" "\<not> used s' q"
    then show "clean (procs s' q)" using inv_clean [OF inv, of q] fr(2) t(1) [of q] by (cases "q = p") auto
  next
    fix q assume "q < NPROC" "used s' q"
    then show "0 < pid_of s' q \<and> pid_of s' q < nextpid s'"
      using inv_pid [OF inv, of q] fr(3) t(1) [of q] by (cases "q = p") (auto simp: t(2))
  next
    fix q r assume "q < NPROC" "r < NPROC" "used s' q" "used s' r" "pid_of s' q = pid_of s' r"
    moreover then have "q \<noteq> p" "r \<noteq> p" using fr(3) by auto
    ultimately show "q = r" using inv_inj [OF inv, of q r] by (simp add: t(1))
  qed (use inv_next [OF inv] in \<open>simp add: t\<close>)
qed

lemma alloc_frame_tame: "alloc_frame p s s' \<Longrightarrow> p_state (procs s p) \<noteq> UNUSED \<Longrightarrow> tame s s'"
  unfolding alloc_frame_def tame_def in_slot_def Let_def slot_rel_def by metis

lemma allocproc_inv:
  assumes inv: "proc_inv s" and a: "allocproc s = Ret (r, s')"
  shows "proc_inv s'" "cur s' = cur s" "initproc s' = initproc s" "\<And>q. used s q \<Longrightarrow> procs s' q = procs s q"
    "\<And>np. r = Some np \<Longrightarrow> np < NPROC \<and> \<not> used s np \<and> p_state (procs s' np) = USED \<and>
       pid_of s' np = nextpid s \<and> p_parent (procs s' np) = None \<and> (\<forall>q. q \<noteq> np \<longrightarrow> procs s' q = procs s q)"
proof -
  have "proc_inv s' \<and> cur s' = cur s \<and> initproc s' = initproc s \<and> (\<forall>q. used s q \<longrightarrow> procs s' q = procs s q) \<and>
    (\<forall>np. r = Some np \<longrightarrow> np < NPROC \<and> \<not> used s np \<and> p_state (procs s' np) = USED \<and>
       pid_of s' np = nextpid s \<and> p_parent (procs s' np) = None \<and> (\<forall>q. q \<noteq> np \<longrightarrow> procs s' q = procs s q))"
  proof (cases "find (\<lambda>p. p_state (procs s p) = UNUSED) [0..<NPROC]")
    case None
    then show ?thesis using a inv by (simp add: allocproc_eq)
  next
    case (Some p)
    note p = find_unused [OF Some]
    have ar: "alloc_rest p (taken p s) = Ret (r, s')" using a Some by (simp add: allocproc_eq)
    note t = proc_inv_taken [OF inv p]
    have par: "p_parent (procs s p) = None" using inv_clean [OF inv p(1)] p(2) by (simp add: clean_def)
    from ar show ?thesis
    proof (cases rule: alloc_rest_cases)
      case 1
      have "tame (taken p s) s'" by (rule alloc_frame_tame [OF 1(2)]) (simp add: taken_def upd_proc_def)
      then have "proc_inv s'" using t by (rule proc_inv_tame)
      then show ?thesis using 1 p par
        by (auto simp: alloc_frame_def in_slot_def Let_def taken_def upd_proc_def)
    next
      case 2
      have nc: "p_parent (procs (taken p s) q) \<noteq> Some p" if "q < NPROC" for q
        using inv_parent [OF inv that, of p] p par by (auto simp: taken_def upd_proc_def alive_def)
      have ni: "initproc (taken p s) \<noteq> Some p"
        using inv_init [OF inv, of p] p by (auto simp: taken_def upd_proc_def alive_def)
      have "proc_inv s'" by (rule proc_inv_freed [OF t p(1) 2(2,3,4)]) (use nc ni in auto)
      then show ?thesis using 2 p by (auto simp: in_slot_def taken_def upd_proc_def)
    qed
  qed
  then show "proc_inv s'" "cur s' = cur s" "initproc s' = initproc s" "\<And>q. used s q \<Longrightarrow> procs s' q = procs s q"
    "\<And>np. r = Some np \<Longrightarrow> np < NPROC \<and> \<not> used s np \<and> p_state (procs s' np) = USED \<and>
       pid_of s' np = nextpid s \<and> p_parent (procs s' np) = None \<and> (\<forall>q. q \<noteq> np \<longrightarrow> procs s' q = procs s q)"
    by blast+
qed

section \<open>Fork\<close>

text \<open>What happens to the table once the new slot \<open>np\<close> is allocated, whose parent becomes \<open>par\<close>.\<close>

definition fork_rel :: "nat option \<Rightarrow> nat \<Rightarrow> kst \<Rightarrow> kst \<Rightarrow> bool" where
  "fork_rel par np s s' \<longleftrightarrow> (p_state (procs s np) \<in> {USED, RUNNABLE} \<longrightarrow>
     cur s' = cur s \<and> initproc s' = initproc s \<and> nextpid s' = nextpid s \<and>
     (\<forall>q. q \<noteq> np \<longrightarrow> slot_rel (procs s q) (procs s' q)) \<and> pid_of s' np = pid_of s np \<and>
     p_state (procs s' np) \<in> {USED, RUNNABLE} \<and> p_parent (procs s' np) \<in> {p_parent (procs s np), par})"

interpretation fk: frame "fork_rel par np" for par np
proof
  show "fork_rel par np s u" if r: "fork_rel par np s t" "fork_rel par np t u" for s t u
  proof (cases "p_state (procs s np) \<in> {USED, RUNNABLE}")
    case True
    note 1 = r(1) [unfolded fork_rel_def, THEN mp, OF True]
    then have "p_state (procs t np) \<in> {USED, RUNNABLE}" by blast
    note 2 = r(2) [unfolded fork_rel_def, THEN mp, OF this]
    have "slot_rel (procs s q) (procs u q)" if "q \<noteq> np" for q
      using slot_rel_trans [of "procs s q" "procs t q" "procs u q"] 1 2 that by blast
    moreover have "p_parent (procs u np) \<in> {p_parent (procs s np), par}" using 1 2 by (elim conjE insertE) simp_all
    ultimately show ?thesis unfolding fork_rel_def using 1 2 by simp
  qed (simp add: fork_rel_def)
qed (simp add: fork_rel_def)

lemma fk_own: "within (tame_for np) m \<Longrightarrow> within (fork_rel par np) m"
proof (erule within_mono)
  fix s s' assume t: "tame_for np s s'"
  show "fork_rel par np s s'"
  proof (cases "p_state (procs s np) \<in> {USED, RUNNABLE}")
    case True
    then have tame: "tame s s'" using t by (auto simp: tame_for_def)
    then have "slot_rel (procs s np) (procs s' np)" by (simp add: tame_def)
    then have "pid_of s' np = pid_of s np" "p_state (procs s' np) = p_state (procs s np)"
        "p_parent (procs s' np) = p_parent (procs s np)"
      using True by (auto simp: slot_rel_def)
    then show ?thesis using True tame by (simp add: fork_rel_def tame_def)
  qed (simp add: fork_rel_def)
qed

lemma fk_setP:
  "within (fork_rel par np) (setP np (p_parent_update (\<lambda>_. par)))"
  "within (fork_rel par np) (setP np (p_state_update (\<lambda>_. RUNNABLE)))"
  by (auto simp: within_def setP_def fork_rel_def upd_proc_def)

lemma fk_fork_rest: "within (fork_rel (Some p) np) (fork_rest p np sz)"
  unfolding fork_rest_def
  by (intro fk.seq fk.bind fk.opt fk.ret fk.fail fk.get fk_setP fk_own [OF own_tame [OF pt_getP]]
      fk_own [OF own_tame [OF pt_onVm]] fk_own [OF own_tame [OF pt_tf(2)]] fk_own [OF own_tame [OF pt_fork_files]]
      fk_own [OF own_tame [OF tame_fs [OF fs_blocks(5)]]] fk_own [OF own_setP]; simp)

text \<open>A system call keeps the invariant while its process keeps running.\<close>

definition inv_run :: "kst \<Rightarrow> kst \<Rightarrow> bool" where
  "inv_run s s' \<longleftrightarrow> (running s \<longrightarrow> proc_inv s \<longrightarrow> running s' \<and> proc_inv s' \<and> cur s' = cur s)"

interpretation inv: frame inv_run
  by unfold_locales (auto simp: inv_run_def)

lemma inv_tame_run: "within tame_run m \<Longrightarrow> within inv_run m"
  by (erule within_mono) (auto simp: tame_run_def inv_run_def tame_running proc_inv_tame; simp add: tame_def)

lemma inv_tame: "within tame m \<Longrightarrow> within inv_run m"
  by (rule inv_tame_run [OF run_tame])

lemma proc_inv_fork_rel:
  assumes inv: "proc_inv s" and rel: "fork_rel par np s s'" and np: "np < NPROC" "p_state (procs s np) = USED"
    and p: "\<And>p. par = Some p \<Longrightarrow> alive s p \<and> pid_of s p < pid_of s np"
  shows "proc_inv s'"
proof -
  note r = rel [unfolded fork_rel_def, THEN mp, unfolded np(2), simplified]
  have rel': "slot_rel (procs s q) (procs s' q)" if "q \<noteq> np" for q using r that by blast
  have eqs: "used s' q = used s q" "(p_state (procs s' q) = ZOMBIE) = (p_state (procs s q) = ZOMBIE)"
      "pid_of s' q = pid_of s q" for q
    using slot_rel_state [OF rel' [of q]] r np(2) by (cases "q = np"; auto)+
  have al: "alive s' = alive s" by (simp add: alive_def eqs fun_eq_iff)
  show ?thesis
  proof (rule proc_invI)
    fix q x assume q: "q < NPROC" "p_parent (procs s' q) = Some x"
    show "alive s' x \<and> pid_of s' x < pid_of s' q"
    proof (cases "q = np")
      case True
      then have "par = Some x \<or> p_parent (procs s np) = Some x" using q r by auto
      then show ?thesis using inv_parent [OF inv np(1), of x] p [of x] unfolding True eqs(3) al by blast
    next
      case False
      then show ?thesis using inv_parent [OF inv q(1), of x] q slot_rel_state(4) [OF rel' [OF False]] by (simp add: eqs(3) al)
    qed
  next
    fix q assume q: "q < NPROC" "\<not> used s' q"
    then have "q \<noteq> np" using r by auto
    then show "clean (procs s' q)" using inv_clean [OF inv q(1)] q eqs(1) slot_rel_state(5) [OF rel'] by blast
  qed (use inv_pid [OF inv] inv_inj [OF inv] inv_init [OF inv] inv_first [OF inv] inv_next [OF inv] r in
      \<open>auto simp: eqs al\<close>)
qed

lemma inv_fork [within_rules]: "within inv_run fork"
proof (rule withinI, unfold inv_run_def, intro impI)
  fix s x s'
  assume f: "fork s = Ret (x, s')" and run: "running s" and inv: "proc_inv s"
  then obtain p where p: "cur s = Some p" "p < NPROC" "p_state (procs s p) = RUNNING" by (auto simp: running_def)
  from f p(1) obtain r s1 where a: "allocproc s = Ret (r, s1)" and rest: "(case r of
       None \<Rightarrow> retK (-1)
     | Some np \<Rightarrow>
         bindK (getP p p_pagetable) (\<lambda>pt. bindK (getP np p_pagetable) (\<lambda>npt. bindK (getP p p_sz) (\<lambda>sz.
         bindK (onVm (uvmcopy pt npt sz)) (\<lambda>c.
         if c < 0 then thenK (freeproc np) (retK (-1)) else fork_rest p np sz))))) s1 = Ret (x, s')"
    by (auto simp: fork_def myproc_def elim!: bindK_RetE)
  note al = allocproc_inv [OF inv a]
  have p1: "cur s1 = Some p" "procs s1 p = procs s p" using al p by simp_all
  show "running s' \<and> proc_inv s' \<and> cur s' = cur s"
  proof (cases r)
    case None
    then show ?thesis using rest al p p1 by (auto simp: running_def)
  next
    case (Some np)
    note np = al(5) [OF Some]
    have neq: "p \<noteq> np" using np p by auto
    define sz where "sz = p_sz (procs s1 p)"
    obtain c s2 where m: "onVm (uvmcopy (p_pagetable (procs s1 p)) (p_pagetable (procs s1 np)) sz) s1 = Ret (c, s2)"
        and rest: "(if c < 0 then thenK (freeproc np) (retK (-1)) else fork_rest p np sz) s2 = Ret (x, s')"
      unfolding sz_def using rest Some by (auto simp: getP_def elim!: bindK_RetE)
    note o = withinD [OF still_onVm m]
    have inv2: "proc_inv s2" using proc_inv_tame [OF _ al(1)] o by (simp add: still_def tame_def)
    have s2: "procs s2 = procs s1" "cur s2 = Some p" "initproc s2 = initproc s" using o p1 al(3) by (simp_all add: still_def)
    show ?thesis
    proof (cases "c < 0")
      case True
      then have fr: "freeproc np s2 = Ret ((), s')" using rest by (auto elim!: thenK_RetE)
      have nc: "p_parent (procs s2 q) \<noteq> Some np" if "q < NPROC" for q
        using inv_parent [OF inv that, of np] np s2(1) by (cases "q = np") (auto simp: alive_def)
      have ni: "initproc s2 \<noteq> Some np" using inv_init [OF inv, of np] np by (auto simp: s2(3) alive_def)
      note sl = withinD [OF slot_freeproc fr]
      have "proc_inv s'" by (rule proc_inv_freed [OF inv2 _ sl freeproc_slot [OF fr]]) (use np nc ni in auto)
      then show ?thesis using sl neq p s2 p1 by (auto simp: in_slot_def running_def)
    next
      case False
      then have rel: "fork_rel (Some p) np s2 s'" using rest withinD [OF fk_fork_rest] by simp
      have "proc_inv s'"
        using inv_pid [OF inv p(2)] p np p1 neq s2 by (intro proc_inv_fork_rel [OF inv2 rel]) (auto simp: alive_def)
      moreover have "cur s' = Some p" "slot_rel (procs s2 p) (procs s' p)"
        using rel np s2 neq by (auto simp: fork_rel_def)
      ultimately show ?thesis using p p1 s2(1) slot_rel_running [of "procs s2 p" "procs s' p"] by (auto simp: running_def)
    qed
  qed
qed

section \<open>Wait\<close>

lemma inv_wait [within_rules]: "within inv_run (wait a)"
proof (rule withinI, unfold inv_run_def, intro impI)
  fix s x s'
  assume w: "wait a s = Ret (x, s')" and run: "running s" and inv: "proc_inv s"
  then obtain p where p: "cur s = Some p" "p < NPROC" "p_state (procs s p) = RUNNING" by (auto simp: running_def)
  let ?find = "find (\<lambda>pp. p_parent (procs s pp) = Some p \<and> p_state (procs s pp) = ZOMBIE) [0..<NPROC]"
  show "running s' \<and> proc_inv s' \<and> cur s' = cur s"
  proof (cases ?find)
    case None
    then have "s' = s" using w p(1) by (auto simp: wait_def myproc_def killed_def getP_def bindK_def split: if_splits)
    then show ?thesis using run inv by simp
  next
    case (Some z)
    then have z: "z < NPROC" "p_parent (procs s z) = Some p" "p_state (procs s z) = ZOMBIE" using find_SomeD [OF Some] by auto
    have "\<exists>s2. still s s2 \<and> (s' = s2 \<or> freeproc z s2 = Ret ((), s'))"
      using w p(1) Some still.refl [of s]
      by (auto simp: wait_def myproc_def getP_def elim!: bindK_RetE thenK_RetE dest!: withinD [OF still_onVm] split: if_splits; blast)
    then obtain s2 where o: "still s s2" and rest: "s' = s2 \<or> freeproc z s2 = Ret ((), s')" by blast
    have inv2: "proc_inv s2" using proc_inv_tame [OF _ inv] o by (simp add: still_def tame_def)
    have s2: "procs s2 = procs s" "cur s2 = Some p" "initproc s2 = initproc s" using o p by (simp_all add: still_def)
    have nz: "\<not> alive s z" using z by (simp add: alive_def)
    show ?thesis
    proof (cases "s' = s2")
      case True
      then show ?thesis using inv2 s2 p by (auto simp: running_def)
    next
      case False
      then have fr: "freeproc z s2 = Ret ((), s')" using rest by simp
      note sl = withinD [OF slot_freeproc fr]
      have "proc_inv s'"
        by (rule proc_inv_freed [OF inv2 z(1) sl freeproc_slot [OF fr]])
          (use nz inv_parent [OF inv] inv_init [OF inv] in \<open>auto simp: s2\<close>)
      moreover have "p \<noteq> z" using p(3) z(3) by auto
      ultimately show ?thesis using sl s2 p by (auto simp: in_slot_def running_def)
    qed
  qed
qed

section \<open>Exit\<close>

text \<open>What \<open>reparent\<close> does to a slot, where \<open>init\<close> is the first process.\<close>

definition rep_slot :: "nat option \<Rightarrow> nat \<Rightarrow> proc \<Rightarrow> proc \<Rightarrow> bool" where
  "rep_slot init p x y \<longleftrightarrow> p_pid y = p_pid x \<and> p_xstate y = p_xstate x \<and>
     (p_state y = p_state x \<or> p_state x = SLEEPING \<and> p_state y = RUNNABLE) \<and>
     (p_state x = UNUSED \<longrightarrow> clean x \<longrightarrow> clean y) \<and>
     (p_parent y = p_parent x \<or> p_parent x = Some p \<and> p_parent y = init)"

definition rep_rel :: "nat \<Rightarrow> kst \<Rightarrow> kst \<Rightarrow> bool" where
  "rep_rel p s s' \<longleftrightarrow> cur s' = cur s \<and> initproc s' = initproc s \<and> nextpid s' = nextpid s \<and>
     (\<forall>q. rep_slot (initproc s) p (procs s q) (procs s' q))"

lemma rep_slot_trans: "rep_slot init p x y \<Longrightarrow> rep_slot init p y z \<Longrightarrow> rep_slot init p x z"
  unfolding rep_slot_def by (elim conjE disjE) simp_all

lemma rep_slot_refl [simp]: "rep_slot init p x x"
  by (simp add: rep_slot_def)

interpretation rp: frame "rep_rel p" for p
proof
  show "rep_rel p s u" if "rep_rel p s t" "rep_rel p t u" for s t u
    using that rep_slot_trans [of "initproc s" p] unfolding rep_rel_def by metis
qed (simp add: rep_rel_def)

lemma rp_tame: "within tame m \<Longrightarrow> within (rep_rel p) m"
proof (erule within_mono)
  fix s s' assume t: "tame s s'"
  have "rep_slot (initproc s) p (procs s q) (procs s' q)" for q
  proof -
    have rel: "slot_rel (procs s q) (procs s' q)" using t by (simp add: tame_def)
    then show ?thesis by (simp add: rep_slot_def slot_rel_def)
  qed
  then show "rep_rel p s s'" using t by (simp add: rep_rel_def tame_def)
qed

lemma rp_body:
  "within (rep_rel p)
     (bindK (getP pp p_parent) (\<lambda>par.
       whenK (par = Some p)
         (bindK (getK initproc) (\<lambda>init.
          thenK (setP pp (p_parent_update (\<lambda>_. init)))
                (case init of None \<Rightarrow> retK () | Some i \<Rightarrow> wakeup (ChProc i))))))"
proof (rule withinI)
  fix s x s'
  let ?u = "upd_proc pp (p_parent_update (\<lambda>_. initproc s)) s"
  assume "(bindK (getP pp p_parent) (\<lambda>par.
       whenK (par = Some p)
         (bindK (getK initproc) (\<lambda>init.
          thenK (setP pp (p_parent_update (\<lambda>_. init)))
                (case init of None \<Rightarrow> retK () | Some i \<Rightarrow> wakeup (ChProc i)))))) s = Ret (x, s')"
  then have "s' = s \<or> p_parent (procs s pp) = Some p \<and> (s' = ?u \<or> (\<exists>i x. wakeup (ChProc i) ?u = Ret (x, s')))"
    by (auto simp: getP_def whenK_def setP_def split: if_splits option.splits)
  moreover have "rep_rel p s ?u" if "p_parent (procs s pp) = Some p"
  proof -
    have "rep_slot (initproc s) p (procs s pp) ((procs s pp)\<lparr>p_parent := initproc s\<rparr>)"
      using that by (auto simp: rep_slot_def clean_def)
    then show ?thesis by (simp add: rep_rel_def upd_proc_def)
  qed
  ultimately show "rep_rel p s s'" using withinD [OF rp_tame [OF pt_wakeup]] rp.trans rp.refl by metis
qed

lemma rp_reparent: "within (rep_rel p) (reparent p)"
  unfolding reparent_def by (intro rp.for_loop rp_body)

lemma wakeup_total: "\<exists>t. wakeup c s = Ret ((), t) \<and> tame s t"
  using withinD [OF pt_wakeup] by (auto simp: wakeup_def)

lemma tame_parent: "tame s t \<Longrightarrow> p_parent (procs t q) = p_parent (procs s q)"
  using slot_rel_state(4) by (auto simp: tame_def)

lemma reparent_childless:
  assumes "initproc s \<noteq> Some p"
  shows "ok (reparent p) s (\<lambda>_ s'. initproc s' \<noteq> Some p \<and> (\<forall>q<NPROC. p_parent (procs s' q) \<noteq> Some p))"
  unfolding reparent_def
proof (rule ok_forK [where P = "\<lambda>i s'. initproc s' \<noteq> Some p \<and> (\<forall>q<i. p_parent (procs s' q) \<noteq> Some p)"])
  fix i :: nat and t :: kst
  assume t: "initproc t \<noteq> Some p \<and> (\<forall>q<i. p_parent (procs t q) \<noteq> Some p)"
  let ?u = "upd_proc i (p_parent_update (\<lambda>_. initproc t)) t"
  have u: "initproc ?u \<noteq> Some p \<and> (\<forall>q<Suc i. p_parent (procs ?u q) \<noteq> Some p)"
    using t by (auto simp: upd_proc_def less_Suc_eq)
  have w: "ok (wakeup c) ?u (\<lambda>_ s'. initproc s' \<noteq> Some p \<and> (\<forall>q<Suc i. p_parent (procs s' q) \<noteq> Some p))" for c
    using wakeup_total [of c ?u] u tame_parent by (auto simp: ok_def tame_def)
  show "ok (bindK (getP i p_parent) (\<lambda>par.
       whenK (par = Some p)
         (bindK (getK initproc) (\<lambda>init.
          thenK (setP i (p_parent_update (\<lambda>_. init)))
                (case init of None \<Rightarrow> retK () | Some i \<Rightarrow> wakeup (ChProc i)))))) t
      (\<lambda>_ s'. initproc s' \<noteq> Some p \<and> (\<forall>q<Suc i. p_parent (procs s' q) \<noteq> Some p))"
  proof (cases "p_parent (procs t i) = Some p")
    case True
    then show ?thesis using u w by (auto simp: getP_def setP_def split: option.split)
  next
    case False
    then show ?thesis using t by (auto simp: getP_def less_Suc_eq)
  qed
qed (use assms in simp)

lemma rep_slotD:
  assumes "rep_slot init p x y"
  shows "p_pid y = p_pid x" "p_xstate y = p_xstate x" "(p_state y = UNUSED) = (p_state x = UNUSED)"
    "(p_state y = ZOMBIE) = (p_state x = ZOMBIE)" "p_state x = UNUSED \<Longrightarrow> clean x \<Longrightarrow> clean y"
    "p_parent y = p_parent x \<or> p_parent x = Some p \<and> p_parent y = init"
    "p_state x = RUNNING \<Longrightarrow> p_state y = RUNNING"
  using assms by (auto simp: rep_slot_def)

lemma proc_inv_rep:
  assumes inv: "proc_inv s" and rel: "rep_rel p s s'" and p: "p < NPROC"
  shows "proc_inv s'"
proof -
  have rs: "rep_slot (initproc s) p (procs s q) (procs s' q)" for q using rel by (simp add: rep_rel_def)
  have same: "initproc s' = initproc s" "nextpid s' = nextpid s" using rel by (simp_all add: rep_rel_def)
  note d = rep_slotD [OF rs]
  have al: "alive s' = alive s" by (simp add: alive_def d fun_eq_iff)
  show ?thesis
  proof (rule proc_invI)
    fix q x assume q: "q < NPROC" "p_parent (procs s' q) = Some x"
    consider "p_parent (procs s q) = Some x" | "p_parent (procs s q) = Some p" "initproc s = Some x"
      using d(6) [of q] q by auto
    then show "alive s' x \<and> pid_of s' x < pid_of s' q"
    proof cases
      case 1
      then show ?thesis using inv_parent [OF inv q(1)] by (simp add: al d)
    next
      case 2
      have par: "alive s p" "pid_of s p < pid_of s q" using inv_parent [OF inv q(1) 2(1)] by auto
      have "used s q" using inv_clean [OF inv q(1)] 2(1) by (auto simp: clean_def)
      moreover have "q \<noteq> x"
        using par inv_first [OF inv 2(2), of p] by (cases "p = x") (auto simp: alive_def)
      ultimately show ?thesis using inv_first [OF inv 2(2) q(1)] inv_init [OF inv 2(2)] by (simp add: al d)
    qed
  next
    fix q assume "q < NPROC" "\<not> used s' q"
    then show "clean (procs s' q)" using inv_clean [OF inv] d(3,5) by blast
  qed (use inv_pid [OF inv] inv_inj [OF inv] inv_init [OF inv] inv_first [OF inv] inv_next [OF inv] in
      \<open>auto simp: same d(1,3) al\<close>)
qed

lemma proc_inv_zombie:
  assumes inv: "proc_inv s" and p: "p < NPROC" "used s p" and no_child: "\<forall>q<NPROC. p_parent (procs s q) \<noteq> Some p"
    and init: "initproc s \<noteq> Some p"
  shows "proc_inv (upd_proc p (\<lambda>x. x\<lparr>p_xstate := st, p_state := ZOMBIE\<rparr>) s)" (is "proc_inv ?t")
proof -
  have t: "procs ?t q = (if q = p then (procs s p)\<lparr>p_xstate := st, p_state := ZOMBIE\<rparr> else procs s q)"
      "initproc ?t = initproc s" "nextpid ?t = nextpid s" for q
    by (simp_all add: upd_proc_def)
  have u: "used ?t q = used s q" "pid_of ?t q = pid_of s q" "p_parent (procs ?t q) = p_parent (procs s q)" for q
    using p by (simp_all add: t)
  have al: "alive ?t q" if "alive s q" "q \<noteq> p" for q using that by (simp add: alive_def t)
  show ?thesis
  proof (rule proc_invI)
    fix q x assume q: "q < NPROC" "p_parent (procs ?t q) = Some x"
    then have "x \<noteq> p" using no_child by (auto simp: u)
    then show "alive ?t x \<and> pid_of ?t x < pid_of ?t q" using inv_parent [OF inv q(1), of x] q al [of x] by (simp add: u)
  next
    fix i assume "initproc ?t = Some i"
    then show "alive ?t i" using init inv_init [OF inv, of i] al [of i] by (auto simp: t(2))
  next
    fix q assume q: "q < NPROC" "\<not> used ?t q"
    then have "q \<noteq> p" using p by (auto simp: u)
    then show "clean (procs ?t q)" using inv_clean [OF inv q(1)] q by (simp add: u t(1))
  qed (use inv_pid [OF inv] inv_inj [OF inv] inv_first [OF inv] inv_next [OF inv] in \<open>auto simp: u t(2,3)\<close>)
qed

lemma pt_exit_files [within_rules]: "within tame (exit_files p)"
  unfolding exit_files_def by (intro within_rules) (simp add: slot_rel_def clean_def)

lemma exit_trace:
  assumes e: "exit st s = Ret (x, s')" and cur: "cur s = Some p"
  obtains s1 s2 s3 where "initproc s \<noteq> Some p" "tame s s1" "reparent p s1 = Ret ((), s2)" "rep_rel p s1 s2" "tame s2 s3"
    "s' = upd_proc p (\<lambda>x. x\<lparr>p_xstate := st, p_state := ZOMBIE\<rparr>) s3"
proof -
  have init: "initproc s \<noteq> Some p" using e cur by (auto simp: exit_def bind_myproc)
  obtain s1 where s1: "exit_files p s = Ret ((), s1)" "exit_family p st s1 = Ret (x, s')"
    using e cur init by (auto simp: exit_def bind_myproc elim: thenK_RetE)
  obtain s2 where s2: "reparent p s1 = Ret ((), s2)" and rest: "(bindK (getP p p_parent) (\<lambda>par.
       thenK (case par of None \<Rightarrow> retK () | Some q \<Rightarrow> wakeup (ChProc q))
             (setP p (\<lambda>x. x\<lparr>p_xstate := st, p_state := ZOMBIE\<rparr>)))) s2 = Ret (x, s')"
    using s1(2) unfolding exit_family_def by (auto elim: thenK_RetE)
  have "within tame (case par of None \<Rightarrow> retK () | Some q \<Rightarrow> wakeup (ChProc q))" for par by (intro within_rules)
  then obtain s3 where "tame s2 s3" "s' = upd_proc p (\<lambda>x. x\<lparr>p_xstate := st, p_state := ZOMBIE\<rparr>) s3"
    using rest withinD by (fastforce simp: getP_def setP_def elim!: thenK_RetE)
  then show thesis using that init withinD [OF pt_exit_files s1(1)] s2 withinD [OF rp_reparent s2] by blast
qed

lemma exit_inv:
  assumes e: "exit st s = Ret (x, s')" and cur: "cur s = Some p" and p: "p < NPROC" "p_state (procs s p) = RUNNING"
    and inv: "proc_inv s"
  shows "proc_inv s'" "cur s' = Some p" "p_state (procs s' p) = ZOMBIE" "p_xstate (procs s' p) = st"
    "initproc s \<noteq> Some p" "\<forall>q<NPROC. p_parent (procs s' q) \<noteq> Some p"
    "\<forall>q<NPROC. p_parent (procs s q) = Some p \<longrightarrow> p_parent (procs s' q) = initproc s"
proof -
  obtain s1 s2 s3 where init: "initproc s \<noteq> Some p" and t1: "tame s s1" and s2: "reparent p s1 = Ret ((), s2)"
      and r2: "rep_rel p s1 s2" and t3: "tame s2 s3" and s': "s' = upd_proc p (\<lambda>x. x\<lparr>p_xstate := st, p_state := ZOMBIE\<rparr>) s3"
    by (rule exit_trace [OF e cur])
  show "initproc s \<noteq> Some p" by (rule init)
  have "initproc s1 \<noteq> Some p" using t1 init by (simp add: tame_def)
  then have nc2: "initproc s2 \<noteq> Some p \<and> (\<forall>q<NPROC. p_parent (procs s2 q) \<noteq> Some p)"
    using reparent_childless [of s1 p] s2 by (simp add: ok_def)
  then have nc3: "initproc s3 \<noteq> Some p" "\<forall>q<NPROC. p_parent (procs s3 q) \<noteq> Some p"
    using t3 tame_parent [OF t3] by (simp_all add: tame_def)
  have inv3: "proc_inv s3"
    using proc_inv_tame [OF t3 proc_inv_rep [OF proc_inv_tame [OF t1 inv] r2 p(1)]] .
  have "running s" using cur p by (auto simp: running_def)
  then have "p_state (procs s1 p) = RUNNING" "cur s1 = Some p"
    using tame_running [OF t1] t1 cur by (auto simp: running_def tame_def)
  then have "p_state (procs s2 p) = RUNNING" "cur s2 = Some p"
    using r2 rep_slotD(7) [of "initproc s1" p "procs s1 p" "procs s2 p"] by (simp_all add: rep_rel_def)
  then have run3: "p_state (procs s3 p) = RUNNING" "cur s3 = Some p"
    using t3 slot_rel_running [of "procs s2 p" "procs s3 p"] by (simp_all add: tame_def)
  show "proc_inv s'" unfolding s' by (rule proc_inv_zombie [OF inv3 p(1) _ nc3(2,1)]) (simp add: run3)
  show "cur s' = Some p" "p_state (procs s' p) = ZOMBIE" "p_xstate (procs s' p) = st"
    by (simp_all add: s' upd_proc_def run3)
  show "\<forall>q<NPROC. p_parent (procs s' q) \<noteq> Some p" using nc3 by (simp add: s' upd_proc_def)
  have "p_parent (procs s2 q) = initproc s" if "q < NPROC" "p_parent (procs s q) = Some p" for q
    using r2 rep_slotD(6) [of "initproc s1" p "procs s1 q" "procs s2 q"] nc2 that tame_parent [OF t1] t1
    by (auto simp: rep_rel_def tame_def)
  then show "\<forall>q<NPROC. p_parent (procs s q) = Some p \<longrightarrow> p_parent (procs s' q) = initproc s"
    using tame_parent [OF t3] by (simp add: s' upd_proc_def)
qed

end
