(* ===== verification/Kernel.thy ===== *)
theory Kernel
  imports Proc_Inv
begin

text \<open>
  The kernel as a whole: system calls and traps keep the invariant of the process table, so it holds in
  every state that scheduling, system calls, interrupts and sleeping lead to.
\<close>

section \<open>System calls\<close>

text \<open>How a system call ends: the process runs on, or it has become a zombie.\<close>

definition sys_end :: "('a option \<times> kst) \<Rightarrow> bool" where
  "sys_end r \<longleftrightarrow> (case r of (x, s) \<Rightarrow> proc_inv s \<and> (case x of
     Some _ \<Rightarrow> running s
   | None \<Rightarrow> (\<exists>p. cur s = Some p \<and> p < NPROC \<and> p_state (procs s p) = ZOMBIE)))"

definition sys_ok :: "(kst, u64 option) kmon \<Rightarrow> bool" where
  "sys_ok c \<longleftrightarrow> (\<forall>s x s'. c s = Ret (x, s') \<longrightarrow> running s \<longrightarrow> proc_inv s \<longrightarrow> sys_end (x, s') \<and> cur s' = cur s)"

lemma sys_ok_returns: "within inv_run m \<Longrightarrow> sys_ok (returns m)"
  by (auto simp: sys_ok_def returns_def sys_end_def inv_run_def elim!: bindK_RetE dest!: withinD)

lemma exit_end:
  assumes "exit st s = Ret (x, s')" "running s" "proc_inv s"
  shows "sys_end (None, s')" "cur s' = cur s"
proof -
  obtain p where p: "cur s = Some p" "p < NPROC" "p_state (procs s p) = RUNNING" using assms(2) by (auto simp: running_def)
  note e = exit_inv [OF assms(1) p assms(3)]
  then show "sys_end (None, s')" "cur s' = cur s" using p by (auto simp: sys_end_def)
qed

lemma sys_ok_exit: "sys_ok sys_exit"
proof -
  have "sys_end (x, s') \<and> cur s' = cur s" if e: "sys_exit s = Ret (x, s')" "running s" "proc_inv s" for s x s'
  proof -
    obtain n t where n: "argint 0 s = Ret (n, t)" "exit n t = Ret ((), s')" "x = None"
      using e(1) unfolding sys_exit_def by (auto elim!: bindK_RetE thenK_RetE)
    have t: "tame s t" using withinD [OF pt_args(4) n(1)] .
    then have "running t" "proc_inv t" "cur t = cur s"
      using e tame_running proc_inv_tame by (auto simp: tame_def)
    then show ?thesis using exit_end [OF n(2)] n(3) by simp
  qed
  then show ?thesis by (simp add: sys_ok_def)
qed

lemma inv_sys_wait [within_rules]: "within inv_run sys_wait"
  unfolding sys_wait_def by (intro inv.bind inv_wait inv_tame [OF pt_args(5)] inv_tame [OF pt_ret_int])

lemma inv_sys_fork [within_rules]: "within inv_run sys_fork"
  unfolding sys_fork_def by (intro inv.bind inv_fork inv_tame [OF pt_ret_int])

lemma syscalls_ok: "c \<in> snd ` set syscalls \<Longrightarrow> sys_ok c"
  unfolding syscalls_def
  by (auto intro!: sys_ok_exit sys_ok_returns [OF inv_sys_wait] sys_ok_returns [OF inv_sys_fork]
      sys_ok_returns [OF inv_tame_run [OF run_sys_exec]] sys_ok_returns [OF inv_tame_run [OF run_sys_sbrk]]
      sys_ok_returns [OF inv_tame] pt_sysfile pt_sys_chdir pt_sys_pipe pt_sysproc sys_sleep_tame)

lemma pt_unknown_call [within_rules]: "within tame (unknown_call p num)"
  unfolding unknown_call_def by (intro within_rules)

lemma syscall_inv:
  assumes c: "syscall s = Ret (b, s')" and run: "running s" and inv: "proc_inv s"
  shows "sys_end (if b then Some () else None, s')" "cur s' = cur s"
proof -
  obtain p where p: "cur s = Some p" using run by (auto simp: running_def)
  obtain a7 t where t: "tf_read p TF_a7 s = Ret (a7, t)" and rest: "(let num = sint (ucast a7 :: u32) in
     case (if num > 0 then map_of syscalls (nat num) else None) of
       Some call \<Rightarrow>
         bindK call (\<lambda>r. case r of None \<Rightarrow> retK False | Some x \<Rightarrow> thenK (tf_write p TF_a0 x) (retK True))
     | None \<Rightarrow> thenK (unknown_call p num) (retK True)) t = Ret (b, s')"
    using c p unfolding syscall_def by (auto simp: myproc_def elim!: bindK_RetE)
  define num where "num = sint (ucast a7 :: u32)"
  have t1: "running t" "proc_inv t" "cur t = cur s"
    using withinD [OF inv_tame [OF pt_tf(1)] t] run inv by (auto simp: inv_run_def)
  have "sys_end (if b then Some () else None, s') \<and> cur s' = cur s"
  proof (cases "if num > 0 then map_of syscalls (nat num) else None")
    case None
    then obtain u where "unknown_call p num t = Ret (u, s')" "b = True"
      using rest unfolding num_def [symmetric] by (auto simp: Let_def elim!: thenK_RetE)
    then show ?thesis using withinD [OF inv_tame [OF pt_unknown_call]] t1 by (auto simp: inv_run_def sys_end_def)
  next
    case (Some call)
    then have "sys_ok call" using syscalls_ok map_of_SomeD [of syscalls "nat num" call] by (force split: if_splits)
    moreover obtain r u where c: "call t = Ret (r, u)" and
        rest: "(case r of None \<Rightarrow> retK False | Some x \<Rightarrow> thenK (tf_write p TF_a0 x) (retK True)) u = Ret (b, s')"
      using rest Some unfolding num_def [symmetric] by (auto simp: Let_def elim!: bindK_RetE)
    ultimately have u: "sys_end (r, u)" "cur u = cur s" using t1 by (auto simp: sys_ok_def)
    then show ?thesis
      using rest t1 withinD [OF inv_tame [OF pt_tf(2)]]
      by (cases r) (auto simp: sys_end_def inv_run_def elim!: thenK_RetE)
  qed
  then show "sys_end (if b then Some () else None, s')" "cur s' = cur s" by blast+
qed

section \<open>Interrupts and traps\<close>

lemma pt_devices [within_rules]:
  "within tame (plic_complete hart irq)" "within tame clockintr" "within tame kuartintr" "within tame kvirtio_disk_intr"
  unfolding plic_complete_def plic_write_def clockintr_def kuartintr_def kvirtio_disk_intr_def
  by (intro within_rules; simp add: tame_def)+

lemma pt_devintr [within_rules]: "within tame (devintr r)"
  unfolding devintr_def by (intro within_rules)

lemma pt_usertrapret [within_rules]: "within tame (usertrapret r)"
  unfolding usertrapret_def by (intro within_rules)

text \<open>How \<open>usertrap\<close> leaves the table.\<close>

definition left :: "leave \<Rightarrow> kst \<Rightarrow> bool" where
  "left l s \<longleftrightarrow> proc_inv s \<and> (case l of
     ToUser _ \<Rightarrow> running s
   | Exited \<Rightarrow> (\<exists>p. cur s = Some p \<and> p < NPROC \<and> p_state (procs s p) = ZOMBIE)
   | Yielded \<Rightarrow> (\<exists>p. cur s = Some p \<and> p < NPROC \<and> p_state (procs s p) = RUNNABLE))"

text \<open>A process in use may change between the states of a living process.\<close>

lemma proc_inv_restate:
  assumes inv: "proc_inv s" and p: "p_state (procs s p) \<notin> {UNUSED, ZOMBIE}"
    and f: "p_pid (f (procs s p)) = p_pid (procs s p)" "p_parent (f (procs s p)) = p_parent (procs s p)"
      "p_state (f (procs s p)) \<notin> {UNUSED, ZOMBIE}"
  shows "proc_inv (upd_proc p f s)" (is "proc_inv ?t")
proof -
  have t: "pid_of ?t q = pid_of s q" "p_parent (procs ?t q) = p_parent (procs s q)" "used ?t q = used s q"
      "(p_state (procs ?t q) = ZOMBIE) = (p_state (procs s q) = ZOMBIE)" "\<not> used s q \<Longrightarrow> procs ?t q = procs s q" for q
    using p f by (auto simp: upd_proc_def)
  have same: "initproc ?t = initproc s" "nextpid ?t = nextpid s" by (simp_all add: upd_proc_def)
  have al: "alive ?t = alive s" by (simp add: alive_def t(3,4) fun_eq_iff)
  show ?thesis
  proof (rule proc_invI)
    fix q assume "q < NPROC" "\<not> used ?t q"
    then show "clean (procs ?t q)" using inv_clean [OF inv, of q] t(3) [of q] t(5) [of q] by simp
  qed (use inv_pid [OF inv] inv_inj [OF inv] inv_parent [OF inv] inv_init [OF inv] inv_first [OF inv] inv_next [OF inv] in
      \<open>auto simp: t(1,2,3) al same\<close>)
qed

lemma yield_inv:
  assumes "yield s = Ret (x, s')" "running s" "proc_inv s"
  shows "left Yielded s'" "cur s' = cur s"
proof -
  obtain p where p: "cur s = Some p" "p < NPROC" "p_state (procs s p) = RUNNING" using assms(2) by (auto simp: running_def)
  then have "s' = upd_proc p (p_state_update (\<lambda>_. RUNNABLE)) s" using assms(1) by (simp add: yield_def myproc_def setP_def bindK_def)
  then show "left Yielded s'" "cur s' = cur s"
    using p proc_inv_restate [OF assms(3), of p "p_state_update (\<lambda>_. RUNNABLE)"] by (auto simp: left_def upd_proc_def)
qed

text \<open>\<open>ends m Q\<close>: a run of \<open>m\<close> by a running process ends in a result and a state with \<open>Q\<close>.\<close>

definition ends :: "(kst, 'a) kmon \<Rightarrow> ('a \<Rightarrow> kst \<Rightarrow> bool) \<Rightarrow> bool" where
  "ends m Q \<longleftrightarrow> (\<forall>s x s'. m s = Ret (x, s') \<longrightarrow> running s \<longrightarrow> proc_inv s \<longrightarrow> Q x s')"

lemma ends_bind: "within inv_run m \<Longrightarrow> (\<And>x. ends (f x) Q) \<Longrightarrow> ends (bindK m f) Q"
  unfolding ends_def inv_run_def within_def by (blast elim: bindK_RetE)

lemma ends_then: "within inv_run m \<Longrightarrow> ends n Q \<Longrightarrow> ends (thenK m n) Q"
  unfolding thenK_def by (rule ends_bind)

lemma ends_last: "ends m (\<lambda>_ s. Q y s) \<Longrightarrow> ends (thenK m (retK y)) Q"
  unfolding ends_def by (auto elim!: thenK_RetE)

lemma ends_if: "(c \<Longrightarrow> ends m Q) \<Longrightarrow> (\<not> c \<Longrightarrow> ends n Q) \<Longrightarrow> ends (if c then m else n) Q"
  by simp

lemma ends_pair: "(\<And>a b. ends (f a b) Q) \<Longrightarrow> ends (case x of (a, b) \<Rightarrow> f a b) Q"
  by (cases x) simp

lemma ends_fail: "ends (failK e) Q"
  by (simp add: ends_def)

lemma ends_exit_killed: "ends exit_killed left"
  unfolding exit_killed_def by (rule ends_last) (use exit_end in \<open>fastforce simp: ends_def left_def sys_end_def\<close>)

lemma ends_yield: "ends (thenK yield (retK Yielded)) left"
  by (rule ends_last) (use yield_inv in \<open>auto simp: ends_def\<close>)

lemma ends_usertrapret: "ends (bindK (usertrapret r) (\<lambda>e. retK (ToUser e))) left"
  by (rule ends_bind [OF inv_tame [OF pt_usertrapret]]) (simp add: ends_def left_def)

lemma ends_usertrap_tail: "ends (usertrap_tail r w) left"
  unfolding usertrap_tail_def
  by (intro ends_bind ends_if ends_exit_killed ends_yield ends_usertrapret inv_tame within_rules)

lemma ends_syscall: "ends (bindK syscall (\<lambda>here. if here then usertrap_tail r 0 else retK Exited)) left"
  using ends_usertrap_tail [of r 0] unfolding ends_def
  by (auto elim!: bindK_RetE dest: syscall_inv simp: sys_end_def left_def split: if_splits)

lemma ends_usertrap: "ends (usertrap r) left"
  unfolding usertrap_def
  by (intro ends_if ends_fail ends_syscall ends_exit_killed ends_usertrap_tail ends_pair ends_bind ends_then
      inv_tame within_rules)

text \<open>\<open>kerneltrap\<close> can also interrupt the idle scheduler; only a running process gives up the CPU.\<close>

lemma kerneltrap_cases:
  assumes "kerneltrap r s = Ret ((y, a, b), s')"
  obtains t where "tame s t" "\<not> y" "s' = t"
  | t p where "tame s t" "y" "yield t = Ret ((), s')" "cur t = Some p" "p_state (procs t p) = RUNNING"
proof -
  obtain w sip' t where t: "devintr r s = Ret ((w, sip'), t)" and rest: "(if w = 0 then
          thenK (kprintf (\<lambda>_. []) (''scause %p'' @ [CHR 0x0A]) [scause r])
         (thenK (kprintf (\<lambda>_. []) (''sepc=%p stval=%p'' @ [CHR 0x0A]) [sepc r, stval r])
                (panicK ''kerneltrap''))
        else
          bindK (getK (\<lambda>s. w = 2 \<and> (case cur s of None \<Rightarrow> False | Some p \<Rightarrow> p_state (procs s p) = RUNNING))) (\<lambda>y.
          thenK (whenK y yield) (retK (y, sepc r, sstatus r)))) t = Ret ((y, a, b), s')"
    using assms unfolding kerneltrap_def by (auto elim!: bindK_RetE split: if_splits)
  have "tame s t" using withinD [OF pt_devintr t] .
  moreover have "w \<noteq> 0" using rest by (auto elim!: thenK_RetE)
  ultimately show thesis
    using that rest by (cases y) (auto elim!: thenK_RetE split: option.splits)
qed

section \<open>Runs of the kernel\<close>

text \<open>
  The steps of one CPU: the scheduler switches to a process, a new process starts, the running process
  traps and goes on, ends or gives up the CPU, it goes to sleep in a system call, which is tried again when
  the process runs next, or a device interrupts the kernel.
\<close>

inductive kstep :: "kst \<Rightarrow> kst \<Rightarrow> bool" where
  dispatch: "cur s = None \<Longrightarrow> p < NPROC \<Longrightarrow> p_state (procs s p) = RUNNABLE \<Longrightarrow>
    kstep s (switch_to (Some p) (upd_proc p (p_state_update (\<lambda>_. RUNNING)) s))"
| start: "running s \<Longrightarrow> thenK forkret (usertrapret r) s = Ret (e, s') \<Longrightarrow> kstep s s'"
| resume: "running s \<Longrightarrow> usertrap r s = Ret (ToUser e, s') \<Longrightarrow> kstep s s'"
| stop: "running s \<Longrightarrow> usertrap r s = Ret (l, s') \<Longrightarrow> l = Exited \<or> l = Yielded \<Longrightarrow> kstep s (switch_to None s')"
| block: "running s \<Longrightarrow> sleep c s = Ret ((), s') \<Longrightarrow> kstep s (switch_to None s')"
| interrupt: "kerneltrap r s = Ret ((False, pc, st), s') \<Longrightarrow> kstep s s'"
| preempt: "running s \<Longrightarrow> kerneltrap r s = Ret ((True, pc, st), s') \<Longrightarrow> kstep s (switch_to None s')"

definition kernel_ok :: "kst \<Rightarrow> bool" where
  "kernel_ok s \<longleftrightarrow> proc_inv s \<and> (cur s = None \<or> running s)"

lemma proc_inv_switch [simp]: "proc_inv (switch_to c s) = proc_inv s"
  by (simp add: proc_inv_def alive_def switch_to_def)

lemma kernel_ok_idle: "proc_inv s \<Longrightarrow> kernel_ok (switch_to None s)"
  by (simp add: kernel_ok_def) (simp add: switch_to_def)

lemma kernel_ok_tame: "tame s t \<Longrightarrow> kernel_ok s \<Longrightarrow> kernel_ok t"
  using proc_inv_tame [of s t] tame_running [of s t] by (auto simp: kernel_ok_def tame_def)

lemma kstep_ok: "kstep s s' \<Longrightarrow> kernel_ok s \<Longrightarrow> kernel_ok s'"
proof (induction rule: kstep.induct)
  case (dispatch s p)
  have "proc_inv (upd_proc p (p_state_update (\<lambda>_. RUNNING)) s)"
    using dispatch by (intro proc_inv_restate) (auto simp: kernel_ok_def)
  moreover have "running (switch_to (Some p) (upd_proc p (p_state_update (\<lambda>_. RUNNING)) s))"
    using dispatch(2) by (simp add: running_def switch_to_def upd_proc_def)
  ultimately show ?case by (simp add: kernel_ok_def)
next
  case (start s r e s')
  have "within tame (thenK forkret (usertrapret r))"
    unfolding forkret_def by (intro within_rules) (simp add: tame_def)
  then have "tame s s'" using start(2) by (rule withinD)
  then show ?case using start(3) by (rule kernel_ok_tame)
next
  case (resume s r e s')
  then have "left (ToUser e) s'" using ends_usertrap [of r] unfolding ends_def kernel_ok_def by blast
  then show ?case by (simp add: kernel_ok_def left_def)
next
  case (stop s r l s')
  then have "left l s'" using ends_usertrap [of r] unfolding ends_def kernel_ok_def by blast
  then show ?case using kernel_ok_idle by (simp add: left_def)
next
  case (block s c s')
  then obtain p where p: "cur s = Some p" "p_state (procs s p) = RUNNING" by (auto simp: running_def)
  then have "s' = upd_proc p (\<lambda>x. x\<lparr>p_chan := Some c, p_state := SLEEPING\<rparr>) s"
    using block(2) by (simp add: sleep_def bind_myproc setP_def)
  then have "proc_inv s'" using block(3) p by (auto simp: kernel_ok_def intro!: proc_inv_restate)
  then show ?case by (rule kernel_ok_idle)
next
  case (interrupt r s pc st s')
  from interrupt(1) show ?case
  proof (cases rule: kerneltrap_cases)
    case (1 t)
    then show ?thesis using interrupt(2) kernel_ok_tame by blast
  qed simp
next
  case (preempt s r pc st s')
  from preempt(2) show ?case
  proof (cases rule: kerneltrap_cases)
    case (2 t p)
    then have "running t" "proc_inv t"
      using preempt(1,3) proc_inv_tame tame_running by (auto simp: kernel_ok_def)
    then have "left Yielded s'" using yield_inv [OF 2(3)] by blast
    then show ?thesis using kernel_ok_idle by (simp add: left_def)
  qed simp
qed

section \<open>The first process\<close>

text \<open>The process table before \<open>userinit\<close>.\<close>

definition boot_table :: "kst \<Rightarrow> bool" where
  "boot_table s \<longleftrightarrow> cur s = None \<and> initproc s = None \<and> nextpid s = 1 \<and>
     (\<forall>p<NPROC. p_state (procs s p) = UNUSED \<and> clean (procs s p))"

lemma boot_inv: "boot_table s \<Longrightarrow> proc_inv s"
  by (rule proc_invI) (auto simp: boot_table_def clean_def)

lemma procinit_table:
  assumes "cur s = None" "initproc s = None" "nextpid s = 1" "\<forall>p<NPROC. clean (procs s p)"
  shows "ok procinit s (\<lambda>_. boot_table)"
proof -
  have "ok procinit s (\<lambda>_ t. cur t = None \<and> initproc t = None \<and> nextpid t = 1 \<and> (\<forall>p<NPROC. clean (procs t p)) \<and>
     (\<forall>p<NPROC. p_state (procs t p) = UNUSED))"
    unfolding procinit_def
    by (rule ok_forK [where P = "\<lambda>i t. cur t = None \<and> initproc t = None \<and> nextpid t = 1 \<and>
          (\<forall>p<NPROC. clean (procs t p)) \<and> (\<forall>p<i. p_state (procs t p) = UNUSED)"])
      (use assms in \<open>auto simp: setP_def upd_proc_def clean_def less_Suc_eq\<close>)
  then show ?thesis by (rule ok_mono) (simp add: boot_table_def)
qed

lemma fk_userinit_rest: "within (fork_rel None p) (userinit_rest p)"
  unfolding userinit_rest_def
  by (intro fk.seq fk.bind fk_setP fk_own [OF own_tame [OF pt_getP]] fk_own [OF own_tame [OF pt_onVm]]
      fk_own [OF own_tame [OF pt_tf(2)]] fk_own [OF own_tame [OF tame_fs [OF fs_namei(2)]]] fk_own [OF own_setP]; simp)

lemma userinit_ok:
  assumes u: "userinit s = Ret (x, s')" and b: "boot_table s"
  shows "kernel_ok s' \<and> (\<exists>p. initproc s' = Some p \<and> alive s' p)"
proof -
  obtain r s1 where a: "allocproc s = Ret (r, s1)"
      and rest: "(case r of None \<Rightarrow> failK NullDeref | Some p \<Rightarrow> userinit_rest p) (s1\<lparr>initproc := r\<rparr>) = Ret (x, s')"
    using u unfolding userinit_def by (auto elim!: bindK_RetE)
  note al = allocproc_inv [OF boot_inv [OF b] a]
  obtain p where r: "r = Some p" using rest by (cases r) auto
  note np = al(5) [OF r]
  define s2 where "s2 = s1\<lparr>initproc := Some p\<rparr>"
  have s2: "procs s2 = procs s1" "nextpid s2 = nextpid s1" "cur s2 = None" "initproc s2 = Some p"
    using al(2) b by (simp_all add: s2_def boot_table_def)
  have others: "\<not> used s1 q" if "q < NPROC" "q \<noteq> p" for q using np b that by (simp add: boot_table_def)
  have alive: "alive s2 = alive s1" by (simp add: alive_def s2 fun_eq_iff)
  have p: "alive s1 p" using np by (simp add: alive_def)
  have inv2: "proc_inv s2"
  proof (rule proc_invI)
    fix i q assume "initproc s2 = Some i" "q < NPROC" "used s2 q" "q \<noteq> i"
    then show "pid_of s2 i < pid_of s2 q" using others by (simp add: s2)
  next
    fix i assume "initproc s2 = Some i"
    then show "alive s2 i" using p by (simp add: s2 alive)
  qed (use inv_clean [OF al(1)] inv_pid [OF al(1)] inv_inj [OF al(1)] inv_parent [OF al(1)] inv_next [OF al(1)] in
      \<open>simp_all add: s2 alive\<close>)
  have rel: "fork_rel None p s2 s'" using withinD [OF fk_userinit_rest] rest r by (simp add: s2_def)
  have inv: "proc_inv s'" by (rule proc_inv_fork_rel [OF inv2 rel]) (use np in \<open>simp_all add: s2\<close>)
  have "cur s' = None" "initproc s' = Some p" using rel np by (auto simp: fork_rel_def s2)
  then show ?thesis using inv inv_init [OF inv] by (simp add: kernel_ok_def)
qed


text \<open>A machine with the first process ready to run and one child of it asleep until the next tick.\<close>

definition sample_proc :: "procstate \<Rightarrow> chan option \<Rightarrow> int \<Rightarrow> nat option \<Rightarrow> proc" where
  "sample_proc st c pid par =
     \<lparr>p_state = st, p_chan = c, p_killed = False, p_xstate = 0, p_pid = pid, p_parent = par, p_kstack = 0, p_sz = 0,
      p_pagetable = nullptr, p_trapframe = nullptr, p_context = \<lparr>ctx_ra = 0, ctx_sp = 0, ctx_s = replicate 12 0\<rparr>,
      p_ofile = replicate NOFILE nullptr, p_cwd = None, p_name = replicate 16 0\<rparr>"

definition sample_procs :: "nat \<Rightarrow> proc" where
  "sample_procs p =
     (if p = 0 then sample_proc RUNNABLE None 1 None
      else if p = 1 then sample_proc SLEEPING (Some ChTicks) 2 (Some 0)
      else sample_proc UNUSED None 0 None)"

definition sample_kst :: kst where
  "sample_kst =
     \<lparr>running_pid = 0, bufs = \<lambda>_. zero_buf, links = \<lambda>_. \<lparr>nxt = 0, prv = 0\<rparr>, disk = \<lambda>_. replicate BSIZE 0, writes = [],
      log_start = 2, log_size = 30, log_outstanding = 0, log_committing = False, log_dev = ROOTDEV, log_lh = [],
      sb = \<lparr>sb_magic = FSMAGIC, sb_size = 2000, sb_nblocks = 1954, sb_ninodes = 200, sb_nlog = 30, sb_logstart = 2,
            sb_inodestart = 32, sb_bmapstart = 45\<rparr>,
      inodes = \<lambda>_. \<lparr>i_dev = 0, i_inum = 0, i_ref = 0, i_lock = initsleeplock, i_valid = False, i_type = 0, i_major = 0,
                    i_minor = 0, i_nlink = 0, i_size = 0, i_addrs = replicate 13 0\<rparr>,
      printed = [],
      vm = \<lparr>ram = \<lambda>_. 0, kheap = \<lparr>lists = \<lambda>_. \<lparr>nxt = 0, prv = 0\<rparr>, groups = [], groups_count = 0, buddy_base = 0\<rparr>\<rparr>,
      procs = sample_procs, cur = None, initproc = Some 0, nextpid = 3, ticks = 0, files = \<lambda>_. None, pipes = \<lambda>_. None,
      con = sample_cons, port = sample_uart, blk = vdisk_init, plic_writes = [], fs_ready = True,
      syms = \<lparr>y_trampoline = 0x80007000, y_uservec = 0x80007000, y_userret = 0x8000709c, y_forkret = 0x80001a00,
              y_usertrap = 0x80002b00, y_kernelvec = 0x80005c00, y_kernel_satp = 0x8000000000087fff\<rparr>,
      stack_junk = []\<rparr>"

lemma sample_proc_inv: "proc_inv sample_kst"
  by (rule proc_invI) (auto simp: sample_kst_def sample_procs_def sample_proc_def clean_def alive_def NPROC_def split: if_splits)


end
