(* ===== verification/Proc_Props.thy ===== *)
theory Proc_Props
  imports Kernel
begin

text \<open>
  What the operations on processes do: the search along the parents, \<open>kill\<close>, \<open>dump2\<close>, \<open>exit\<close> with
  \<open>wait\<close>, the scheduler, sleeping for a time, and closing pipes.
\<close>

section \<open>Parents\<close>

definition parents :: "kst \<Rightarrow> (nat \<times> nat) set" where
  "parents s = {(x, y). p_parent (procs s x) = Some y}"

lemma parents_step:
  "p \<noteq> q \<Longrightarrow> ((p, q) \<in> (parents s)\<^sup>*) = (\<exists>x. p_parent (procs s p) = Some x \<and> (x, q) \<in> (parents s)\<^sup>*)"
  by (auto simp: parents_def elim: converse_rtranclE intro: converse_rtrancl_into_rtrancl)

lemma is_child_loop_eq:
  assumes inv: "proc_inv s" and q: "q < NPROC" "used s q"
  shows "p < NPROC \<Longrightarrow> is_child_loop (procs s) (pid_of s q) (Some p) = Some ((p, q) \<in> (parents s)\<^sup>*)"
proof (induction "nat (pid_of s p)" arbitrary: p rule: less_induct)
  case less
  have same: "p = q" if "pid_of s p = pid_of s q"
  proof -
    have "0 < pid_of s q" using inv_pid [OF inv q] by simp
    then have "used s p" using inv_clean [OF inv less.prems] that by (auto simp: clean_def)
    then show ?thesis using inv_inj [OF inv less.prems q(1)] q(2) that by simp
  qed
  show ?case
  proof (cases "pid_of s p = pid_of s q")
    case True
    then show ?thesis using same by (simp add: is_child_loop.simps)
  next
    case False
    then have neq: "p \<noteq> q" by auto
    show ?thesis
    proof (cases "p_parent (procs s p)")
      case None
      then show ?thesis using False parents_step [OF neq] by (simp add: is_child_loop.simps)
    next
      case (Some x)
      have x: "x < NPROC" "used s x" "pid_of s x < pid_of s p"
        using inv_parent [OF inv less.prems Some] by (auto simp: alive_def)
      then have "nat (pid_of s x) < nat (pid_of s p)" using inv_pid [OF inv x(1,2)] by simp
      then show ?thesis using less.hyps [of x] x(1) False Some parents_step [OF neq]
        by (subst is_child_loop.simps) simp
    qed
  qed
qed



section \<open>Kill\<close>

definition kill_slot :: "proc \<Rightarrow> proc" where
  "kill_slot x = x\<lparr>p_killed := True, p_state := (if p_state x = SLEEPING then RUNNABLE else p_state x)\<rparr>"

lemma kill_find:
  assumes "find (\<lambda>p. pid_of s p = pid) [0..<NPROC] = Some p"
  shows "kill pid s = Ret (0, upd_proc p kill_slot s)" "p < NPROC" "pid_of s p = pid"
  using find_SomeD [OF assms] assms by (auto simp: kill_def kill_slot_def [abs_def] setP_def)

text \<open>
  C37. \<open>kill\<close> with a positive number reaches exactly the process with that number: it is marked as killed
  and, if it sleeps, woken up, and nothing else changes. If there is no such process the result is -1 and
  nothing changes.
\<close>

theorem kill_reaches_its_process:
  assumes "proc_inv s" "0 < pid"
  shows "(\<exists>!p. p < NPROC \<and> used s p \<and> pid_of s p = pid) \<and>
      (\<forall>p. p < NPROC \<and> used s p \<and> pid_of s p = pid \<longrightarrow> kill pid s = Ret (0, upd_proc p kill_slot s)) \<or>
    (\<forall>p<NPROC. pid_of s p \<noteq> pid) \<and> kill pid s = Ret (-1, s)"
proof (cases "find (\<lambda>p. pid_of s p = pid) [0..<NPROC]")
  case None
  then have "\<forall>p<NPROC. pid_of s p \<noteq> pid" by (auto simp: find_None_iff)
  then show ?thesis using None by (simp add: kill_def)
next
  case (Some p)
  note k = kill_find [OF Some]
  have u: "used s p" using inv_clean [OF assms(1) k(2)] k(3) assms(2) by (auto simp: clean_def)
  have "q = p" if "q < NPROC" "used s q" "pid_of s q = pid" for q
    using inv_inj [OF assms(1) that(1) k(2) that(2) u] that(3) k(3) by simp
  then show ?thesis using k u by blast
qed

theorem kill_reaches_its_process_witness:
  "kill 2 sample_kst = Ret (0, upd_proc 1 kill_slot sample_kst) \<and> kill 7 sample_kst = Ret (-1, sample_kst)"
proof -
  have 2: "1 < NPROC \<and> used sample_kst 1 \<and> pid_of sample_kst 1 = 2"
    by (simp add: sample_kst_def sample_procs_def sample_proc_def NPROC_def)
  have 7: "pid_of sample_kst p \<noteq> 7" for p by (simp add: sample_kst_def sample_procs_def sample_proc_def)
  show ?thesis
    using kill_reaches_its_process [OF sample_proc_inv, of 2] kill_reaches_its_process [OF sample_proc_inv, of 7] 2 7 by auto
qed

text \<open>
  C38. \<open>kill(0)\<close> finds an unused slot, since those have the number 0, and marks it; the mark survives
  \<open>allocproc\<close>, so that the next process that gets this slot is born killed.
\<close>

theorem kill_zero_marks_next_process:
  assumes "proc_inv s" "find (\<lambda>p. p_state (procs s p) = UNUSED) [0..<NPROC] = Some p"
  shows "kill 0 s = Ret (0, upd_proc p kill_slot s) \<and>
    allocproc (upd_proc p kill_slot s) = alloc_rest p (taken p (upd_proc p kill_slot s)) \<and>
    p_killed (procs (taken p (upd_proc p kill_slot s)) p) \<and>
    (\<forall>np s'. allocproc (upd_proc p kill_slot s) = Ret (Some np, s') \<longrightarrow> np = p \<and> p_killed (procs s' np))"
proof -
  note p = find_unused [OF assms(2)]
  let ?s = "upd_proc p kill_slot s"
  have "pid_of s q = 0 \<longleftrightarrow> p_state (procs s q) = UNUSED" if "q \<in> set [0..<NPROC]" for q
    using inv_clean [OF assms(1), of q] inv_pid [OF assms(1), of q] that by (cases "used s q") (auto simp: clean_def)
  then have "find (\<lambda>q. pid_of s q = 0) [0..<NPROC] = find (\<lambda>q. p_state (procs s q) = UNUSED) [0..<NPROC]"
    by (intro find_cong) auto
  then have k: "kill 0 s = Ret (0, ?s)" using kill_find(1) assms(2) by simp
  have "(\<lambda>q. p_state (procs ?s q) = UNUSED) = (\<lambda>q. p_state (procs s q) = UNUSED)"
    using p by (auto simp: upd_proc_def kill_slot_def fun_eq_iff)
  then have a: "allocproc ?s = alloc_rest p (taken p ?s)" using assms(2) by (simp add: allocproc_eq)
  have t: "p_killed (procs (taken p ?s) p)" by (simp add: taken_def upd_proc_def kill_slot_def)
  have "np = p \<and> p_killed (procs s' np)" if "alloc_rest p (taken p ?s) = Ret (Some np, s')" for np s'
    using that t by (cases rule: alloc_rest_cases) (auto simp: alloc_frame_def Let_def)
  then show ?thesis using k a t by simp
qed

theorem kill_zero_marks_next_process_witness:
  "kill 0 sample_kst = Ret (0, upd_proc 2 kill_slot sample_kst) \<and>
   p_killed (procs (taken 2 (upd_proc 2 kill_slot sample_kst)) 2)"
proof -
  have "[0..<NPROC] = 0 # 1 # 2 # [3..<NPROC]" by (simp add: NPROC_def upt_conv_Cons)
  then have "find (\<lambda>p. p_state (procs sample_kst p) = UNUSED) [0..<NPROC] = Some 2"
    by (simp add: sample_kst_def sample_procs_def sample_proc_def)
  then show ?thesis using kill_zero_marks_next_process [OF sample_proc_inv, of 2] by blast
qed

section \<open>The scheduler\<close>

lemma schedule_slot_run:
  "schedule_slot run p s = (if p_state (procs s p) = RUNNABLE
     then bindR (run p (switch_to (Some p) (upd_proc p (p_state_update (\<lambda>_. RUNNING)) s))) (\<lambda>(_, t). Ret ((), switch_to None t))
     else Ret ((), s))"
  by (simp add: schedule_slot_def getP_def setP_def) (simp add: thenK_def bindK_def modK_def)

text \<open>
  C10. In one pass of the scheduler every process that is runnable at its start gets the CPU. Here \<open>run p\<close>
  is what process \<open>p\<close> does until it gives up the CPU; \<open>served p\<close> is anything that \<open>p\<close> achieves in its turn and
  that the turns of other processes do not undo, as they do not stop others from being runnable.
\<close>

theorem scheduler_serves_all:
  assumes turn: "\<And>q t. cur t = Some q \<Longrightarrow> q < NPROC \<Longrightarrow> p_state (procs t q) = RUNNING \<Longrightarrow>
      ok (run q) t (\<lambda>_ t'. served q t' \<and> (\<forall>p. p \<noteq> q \<longrightarrow> served p t \<longrightarrow> served p t') \<and>
        (\<forall>p. p \<noteq> q \<longrightarrow> p_state (procs t p) = RUNNABLE \<longrightarrow> p_state (procs t' p) = RUNNABLE))"
    and ext: "\<And>p q c t. served p t \<Longrightarrow> served p (switch_to c (upd_proc q (p_state_update (\<lambda>_. RUNNING)) t)) \<and> served p (switch_to c t)"
  shows "ok (scheduler_pass run) s (\<lambda>_ s'. \<forall>p<NPROC. p_state (procs s p) = RUNNABLE \<longrightarrow> served p s')"
proof -
  let ?P = "\<lambda>i t. (\<forall>p<i. p_state (procs s p) = RUNNABLE \<longrightarrow> served p t) \<and>
    (\<forall>p. i \<le> p \<and> p < NPROC \<and> p_state (procs s p) = RUNNABLE \<longrightarrow> p_state (procs t p) = RUNNABLE)"
  have "ok (scheduler_pass run) s (\<lambda>_. ?P NPROC)"
    unfolding scheduler_pass_def
  proof (rule ok_forK [where P = ?P])
    fix i :: nat and t :: kst
    assume i: "i < NPROC" and P: "?P i t"
    let ?t = "switch_to (Some i) (upd_proc i (p_state_update (\<lambda>_. RUNNING)) t)"
    have st: "cur ?t = Some i" "p_state (procs ?t i) = RUNNING" "\<And>p. p \<noteq> i \<Longrightarrow> procs ?t p = procs t p"
      by (simp_all add: switch_to_def upd_proc_def)
    show "ok (schedule_slot run i) t (\<lambda>_. ?P (Suc i))"
    proof (cases "p_state (procs t i) = RUNNABLE")
      case True
      obtain x t' where r: "run i ?t = Ret (x, t')" "served i t'" "\<And>p. p \<noteq> i \<Longrightarrow> served p ?t \<Longrightarrow> served p t'"
          "\<And>p. p \<noteq> i \<Longrightarrow> p_state (procs ?t p) = RUNNABLE \<Longrightarrow> p_state (procs t' p) = RUNNABLE"
        using turn [OF st(1) i st(2)] by (auto elim!: okE)
      have "schedule_slot run i t = Ret ((), switch_to None t')" using True r(1) by (simp add: schedule_slot_run)
      moreover have "?P (Suc i) (switch_to None t')"
      proof (intro conjI allI impI)
        fix p assume p: "p < Suc i" "p_state (procs s p) = RUNNABLE"
        show "served p (switch_to None t')"
        proof (cases "p = i")
          case False
          then have "served p t" using p P by simp
          then show ?thesis using ext r(3) [OF False] by blast
        qed (use r(2) ext in blast)
      next
        fix p assume "Suc i \<le> p \<and> p < NPROC \<and> p_state (procs s p) = RUNNABLE"
        then show "p_state (procs (switch_to None t') p) = RUNNABLE"
          using P r(4) [of p] st(3) [of p] by (simp add: switch_to_def)
      qed
      ultimately show ?thesis by (rule okI)
    next
      case False
      then have "p_state (procs s i) \<noteq> RUNNABLE" using P i by blast
      then have "?P (Suc i) t" using P by (auto simp: less_Suc_eq)
      then show ?thesis using False by (simp add: ok_def schedule_slot_run)
    qed
  qed simp
  then show ?thesis by (rule ok_mono) blast
qed

text \<open>Here every process notes that it was killed and gives up the CPU.\<close>

theorem scheduler_serves_all_witness:
  "ok (scheduler_pass (\<lambda>p. thenK (setkilled p) yield)) sample_kst (\<lambda>_ s'. p_killed (procs s' 0))"
proof -
  have "ok (scheduler_pass (\<lambda>p. thenK (setkilled p) yield)) sample_kst
      (\<lambda>_ s'. \<forall>p<NPROC. p_state (procs sample_kst p) = RUNNABLE \<longrightarrow> p_killed (procs s' p))"
  proof (rule scheduler_serves_all [where served = "\<lambda>p s. p_killed (procs s p)"], goal_cases)
    case (1 q t)
    then show ?case
      by (simp add: ok_def setkilled_def setP_def yield_def bind_myproc upd_proc_def)
  qed (auto simp: switch_to_def upd_proc_def)
  then show ?thesis
    by (rule ok_mono) (auto simp: sample_kst_def sample_procs_def sample_proc_def NPROC_def)
qed

section \<open>Sleeping\<close>

lemma fold_wake:
  "fold (\<lambda>p s. if cur s = Some p then s else upd_proc p (wake_proc c) s) [0..<n] s =
   s\<lparr>procs := \<lambda>q. if q < n \<and> cur s \<noteq> Some q then wake_proc c (procs s q) else procs s q\<rparr>"
proof (induction n)
  case (Suc n)
  have "(\<lambda>q. if q < Suc n \<and> cur s \<noteq> Some q then wake_proc c (procs s q) else procs s q) =
      (if cur s = Some n then (\<lambda>q. if q < n \<and> cur s \<noteq> Some q then wake_proc c (procs s q) else procs s q)
       else (\<lambda>q. if q < n \<and> cur s \<noteq> Some q then wake_proc c (procs s q) else procs s q)(n := wake_proc c (procs s n)))"
    by (auto simp: fun_eq_iff less_Suc_eq)
  then show ?case using Suc by (simp add: upd_proc_def)
qed simp

lemma wakeup_eq:
  "wakeup c s = Ret ((), s\<lparr>procs := \<lambda>q. if q < NPROC \<and> cur s \<noteq> Some q then wake_proc c (procs s q) else procs s q\<rparr>)"
  unfolding wakeup_def fold_wake by simp

text \<open>
  C39. \<open>wakeup\<close> makes exactly the processes runnable that sleep on the channel, except the caller, and
  changes nothing else.
\<close>

theorem wakeup_exact:
  "wakeup c s = Ret ((), s\<lparr>procs := \<lambda>q.
     if q < NPROC \<and> cur s \<noteq> Some q \<and> p_state (procs s q) = SLEEPING \<and> p_chan (procs s q) = Some c
     then (procs s q)\<lparr>p_state := RUNNABLE\<rparr> else procs s q\<rparr>)"
  unfolding wakeup_eq
  by (intro arg_cong [where f = "\<lambda>f. Ret ((), s\<lparr>procs := f\<rparr>)"]) (auto simp: wake_proc_def fun_eq_iff)

text \<open>
  Process \<open>p\<close> in the loop of \<open>sys_sleep\<close> while the clock ticks \<open>k\<close> times: whenever it sleeps, the CPU is idle
  until the next clock interrupt, and then the scheduler runs \<open>p\<close> if it is runnable.
\<close>

definition resume_proc :: "nat \<Rightarrow> (kst, unit) kmon" where
  "resume_proc p =
     bindK (getP p p_state) (\<lambda>st.
     if st = RUNNABLE
     then thenK (setP p (p_state_update (\<lambda>_. RUNNING))) (modK (switch_to (Some p)))
     else failK Blocked)"

primrec nap :: "nat \<Rightarrow> nat \<Rightarrow> u32 \<Rightarrow> u32 \<Rightarrow> (kst, u64 option) kmon" where
  "nap 0 p n ticks0 = sys_sleep_round n ticks0"
| "nap (Suc k) p n ticks0 =
     bindK (sys_sleep_round n ticks0) (\<lambda>r.
     case r of
       Some x \<Rightarrow> retK (Some x)
     | None \<Rightarrow> thenK (modK (switch_to None)) (thenK clockintr (thenK (resume_proc p) (nap k p n ticks0))))"

definition napping :: "nat \<Rightarrow> kst \<Rightarrow> bool" where
  "napping p s \<longleftrightarrow> cur s = Some p \<and> p < NPROC \<and> p_state (procs s p) = RUNNING \<and> \<not> p_killed (procs s p)"

definition asleep :: "nat \<Rightarrow> kst \<Rightarrow> kst" where
  "asleep p s = upd_proc p (\<lambda>x. x\<lparr>p_chan := Some ChTicks, p_state := SLEEPING\<rparr>) s"

lemma sleep_round:
  assumes "napping p s"
  shows "sys_sleep_round n t0 s = (if ticks s - t0 < n then Ret (None, asleep p s) else Ret (Some 0, s))"
  using assms
  by (simp add: napping_def sys_sleep_round_def sleep_test_def bind_myproc killed_def getP_def sleep_def setP_def asleep_def thenK_def)
    (simp add: bindK_assoc bind_myproc)

lemma tick_resumes:
  assumes "napping p s"
  shows "\<exists>t. thenK (modK (switch_to None)) (thenK clockintr (thenK (resume_proc p) m)) (asleep p s) = m t \<and>
    napping p t \<and> ticks t = ticks s + 1"
proof -
  have p: "p < NPROC" "\<not> p_killed (procs s p)" using assms by (simp_all add: napping_def)
  let ?t = "ticks_update (\<lambda>t. t + 1) (switch_to None (asleep p s))"
  let ?u = "?t\<lparr>procs := \<lambda>q. if q < NPROC \<and> cur ?t \<noteq> Some q then wake_proc ChTicks (procs ?t q) else procs ?t q\<rparr>"
  let ?v = "switch_to (Some p) (upd_proc p (p_state_update (\<lambda>_. RUNNING)) ?u)"
  have "clockintr (switch_to None (asleep p s)) = Ret ((), ?u)"
    by (simp add: clockintr_def wakeup_eq)
  moreover have "p_state (procs ?u p) = RUNNABLE"
    using p by (simp add: wake_proc_def switch_to_def asleep_def upd_proc_def)
  then have "resume_proc p ?u = Ret ((), ?v)" by (simp add: resume_proc_def getP_def setP_def)
  ultimately have "thenK (modK (switch_to None)) (thenK clockintr (thenK (resume_proc p) m)) (asleep p s) = m ?v"
    by (simp add: thenK_def bindK_def)
  moreover have "napping p ?v" "ticks ?v = ticks s + 1"
    using p by (simp_all add: napping_def switch_to_def upd_proc_def wake_proc_def asleep_def)
  ultimately show ?thesis by blast
qed

lemma ticks_left: "j \<le> unat n \<Longrightarrow> (of_nat j < n) = (j < unat (n :: u32))"
proof -
  assume j: "j \<le> unat n"
  have "unat n < 2 ^ 32" using unsigned_less [of n, where 'a = nat] by simp
  then show ?thesis using j by (simp add: word_less_nat_alt unat_of_nat take_bit_nat_eq_self)
qed

lemma nap_steps:
  assumes "napping p s" "ticks s = t0 + of_nat j" "j \<le> unat n"
  shows "(\<exists>s'. nap (unat n - j) p n t0 s = Ret (Some 0, s') \<and> napping p s' \<and> ticks s' = t0 + n) \<and>
    (\<forall>k<unat n - j. \<exists>s'. nap k p n t0 s = Ret (None, s'))"
  using assms
proof (induction "unat n - j" arbitrary: j s)
  case 0
  then have "j = unat n" by simp
  then show ?case using 0 sleep_round [OF 0(2), of n t0] by simp
next
  case (Suc m)
  have here: "sys_sleep_round n t0 s = Ret (None, asleep p s)"
    using sleep_round [OF Suc.prems(1), of n t0] Suc.prems(2) Suc.hyps(2) by (simp add: ticks_left)
  have m: "m = unat n - Suc j" "Suc j \<le> unat n" "unat n - j = Suc (unat n - Suc j)" using Suc.hyps(2) by auto
  have step: "\<exists>t. nap (Suc i) p n t0 s = nap i p n t0 t \<and> napping p t \<and> ticks t = t0 + of_nat (Suc j)" for i
    using here tick_resumes [OF Suc.prems(1), of "nap i p n t0"] Suc.prems(2) by (auto simp: bindK_Ret algebra_simps)
  have IH: "(\<exists>s'. nap (unat n - Suc j) p n t0 t = Ret (Some 0, s') \<and> napping p s' \<and> ticks s' = t0 + n) \<and>
    (\<forall>k<unat n - Suc j. \<exists>s'. nap k p n t0 t = Ret (None, s'))" if "napping p t" "ticks t = t0 + of_nat (Suc j)" for t
    using Suc.hyps(1) [OF m(1) that m(2)] .
  have "\<exists>s'. nap k p n t0 s = Ret (None, s')" if k: "k < Suc (unat n - Suc j)" for k
  proof (cases k)
    case (Suc i)
    then show ?thesis using step [of i] IH k by fastforce
  qed (simp add: here)
  then show ?case unfolding m(3) using step [of "unat n - Suc j"] IH by fastforce
qed

text \<open>
  C19. A process that sleeps for \<open>n\<close> ticks is back after exactly \<open>n\<close> clock interrupts: every interrupt wakes
  it up, it goes on sleeping after fewer than \<open>n\<close> of them, and after \<open>n\<close> of them \<open>sys_sleep\<close> returns 0. The
  number is taken as unsigned, so that sleeping for -1 ticks takes \<open>2 ^ 32 - 1\<close> of them.
\<close>

theorem sleep_ends_after_n_ticks:
  assumes "cur s = Some p" "p < NPROC" "p_state (procs s p) = RUNNING" "\<not> p_killed (procs s p)"
  shows "(\<exists>s'. nap (unat n) p n (ticks s) s = Ret (Some 0, s') \<and> p_state (procs s' p) = RUNNING \<and> ticks s' = ticks s + n) \<and>
    (\<forall>k<unat n. \<exists>s'. nap k p n (ticks s) s = Ret (None, s'))"
  using nap_steps [of p s "ticks s" 0 n] assms by (auto simp: napping_def)

text \<open>The sleeping child of the example, just dispatched, sleeps for two ticks.\<close>

theorem sleep_ends_after_n_ticks_witness:
  "\<exists>s'. nap 2 1 2 0 (switch_to (Some 1) (upd_proc 1 (p_state_update (\<lambda>_. RUNNING)) sample_kst)) = Ret (Some 0, s') \<and>
     ticks s' = 2"
  using sleep_ends_after_n_ticks [of "switch_to (Some 1) (upd_proc 1 (p_state_update (\<lambda>_. RUNNING)) sample_kst)" 1 2]
  by (auto simp: switch_to_def upd_proc_def sample_kst_def sample_procs_def sample_proc_def NPROC_def)

section \<open>Reading the registers of a process\<close>

text \<open>The process that \<open>dump2\<close> finds, and the register \<open>s\<close> with number \<open>n\<close> saved in a trapframe.\<close>

definition target :: "int \<Rightarrow> kst \<Rightarrow> nat option" where
  "target pid s = find (\<lambda>p. pid_of s p = pid \<and> \<not> p_killed (procs s p)) [0..<NPROC]"

definition saved_s :: "nat \<Rightarrow> int \<Rightarrow> kst \<Rightarrow> u64" where
  "saved_s t n s = load64 (ram (vm s)) (p_trapframe (procs s t) + (160 + 8 * nat n))"

lemma saved_s_names:
  "map (\<lambda>k. trapframe ! ((160 + 8 * k) div 8)) [2..<12] =
   [''s2'', ''s3'', ''s4'', ''s5'', ''s6'', ''s7'', ''s8'', ''s9'', ''s10'', ''s11'']"
  by code_simp

lemma register_value:
  assumes "2 \<le> n" "n \<le> 11" "p_trapframe (procs s t) \<noteq> nullptr"
  shows "proc_register_s_value_at t n s = Ret (saved_s t n s, s)"
proof -
  have "n \<in> {2, 3, 4, 5, 6, 7, 8, 9, 10, 11}" unfolding insert_iff empty_iff using assms(1,2) by presburger
  then show ?thesis
    using assms(3) by (auto simp: proc_register_s_value_at_def saved_s_def tf_read_def getP_def onVm_def read64_def)
qed


text \<open>The first process reads register s3 of its child, whose saved value is 77; the process has no memory to copy to.\<close>

definition dump2_state :: kst where
  "dump2_state =
     (switch_to (Some 0) (sample_kst\<lparr>procs := \<lambda>p. (sample_procs p)\<lparr>p_trapframe := (if p < 2 then 4096 * (p + 1) else 0)\<rparr>\<rparr>))
       \<lparr>vm := \<lparr>ram = (\<lambda>_. 0)(8192 + 184 := 77), kheap = kheap (vm sample_kst)\<rparr>\<rparr>"

lemma dump2_state_sel:
  "cur dump2_state = Some 0" "initproc dump2_state = Some 0" "nextpid dump2_state = 3"
  "procs dump2_state p = (sample_procs p)\<lparr>p_trapframe := (if p < 2 then 4096 * (p + 1) else 0)\<rparr>"
  "ram (vm dump2_state) = (\<lambda>_. 0)(8192 + 184 := 77)"
  by (simp_all add: dump2_state_def switch_to_def sample_kst_def)

lemma dump2_state_inv: "proc_inv dump2_state"
  by (rule proc_invI)
    (auto simp: dump2_state_sel sample_procs_def sample_proc_def clean_def alive_def NPROC_def split: if_splits)


section \<open>Exit and wait\<close>

lemma exit_slots:
  assumes e: "exit st s = Ret (x, s')" and cur: "cur s = Some p"
  shows "q \<noteq> p \<Longrightarrow> (p_state (procs s' q) = ZOMBIE) = (p_state (procs s q) = ZOMBIE)" "pid_of s' q = pid_of s q"
    "p_parent (procs s' q) = p_parent (procs s q) \<or> p_parent (procs s q) = Some p"
proof -
  obtain s1 s2 s3 where s1: "tame s s1" and s2: "rep_rel p s1 s2" and s3: "tame s2 s3"
      and s': "s' = upd_proc p (\<lambda>x. x\<lparr>p_xstate := st, p_state := ZOMBIE\<rparr>) s3"
    by (rule exit_trace [OF e cur])
  have r: "slot_rel (procs s q) (procs s1 q)" "rep_slot (initproc s1) p (procs s1 q) (procs s2 q)" "slot_rel (procs s2 q) (procs s3 q)"
    using s1 s2 s3 by (simp_all add: tame_def rep_rel_def)
  have "p_parent (procs s3 q) = p_parent (procs s q) \<or> p_parent (procs s q) = Some p" "pid_of s3 q = pid_of s q"
      "(p_state (procs s3 q) = ZOMBIE) = (p_state (procs s q) = ZOMBIE)"
    using slot_rel_state [OF r(1)] rep_slotD [OF r(2)] slot_rel_state [OF r(3)] by auto
  then show "q \<noteq> p \<Longrightarrow> (p_state (procs s' q) = ZOMBIE) = (p_state (procs s q) = ZOMBIE)" "pid_of s' q = pid_of s q"
      "p_parent (procs s' q) = p_parent (procs s q) \<or> p_parent (procs s q) = Some p"
    by (auto simp: s' upd_proc_def)
qed


text \<open>In the example the child runs, without open files, and exits with status 7.\<close>

lemma close_no_files:
  assumes "\<And>fd. fd < NOFILE \<Longrightarrow> p_ofile (procs s p) ! fd = nullptr"
  shows "close_files p s = Ret ((), s)"
proof -
  have "forK fds (\<lambda>fd. bindK (getP p (\<lambda>x. p_ofile x ! fd)) (\<lambda>f. whenK (f \<noteq> nullptr)
      (thenK (fileclose f) (setP p (p_ofile_update (\<lambda>fs. fs[fd := nullptr])))))) s = Ret ((), s)" if "set fds \<subseteq> {..<NOFILE}" for fds
    using that assms by (induction fds) (auto simp: getP_def thenK_def bindK_Ret)
  then show ?thesis unfolding close_files_def by (simp add: atLeast0LessThan)
qed

lemma exit_family_total:
  assumes "initproc s \<noteq> Some p"
  shows "\<exists>s'. exit_family p st s = Ret ((), s')"
proof -
  obtain s1 where 1: "reparent p s = Ret ((), s1)" using reparent_childless [OF assms] by (auto simp: ok_def)
  show ?thesis
  proof (cases "p_parent (procs s1 p)")
    case None
    then show ?thesis using 1 by (simp add: exit_family_def thenK_def bindK_Ret getP_def setP_def)
  next
    case (Some q)
    obtain s2 where "wakeup (ChProc q) s1 = Ret ((), s2)" using wakeup_total by blast
    then show ?thesis using 1 Some by (simp add: exit_family_def thenK_def bindK_Ret getP_def setP_def)
  qed
qed

definition exit_state :: kst where
  "exit_state = switch_to (Some 1) (upd_proc 1 (\<lambda>x. x\<lparr>p_state := RUNNING, p_chan := None, p_cwd := Some 0\<rparr>)
     (upd_inode 0 (i_ref_update (\<lambda>_. 2)) sample_kst))"

lemma exit_state_sel:
  "cur exit_state = Some 1" "initproc exit_state = Some 0" "nextpid exit_state = 3"
  "procs exit_state p = (if p = 1 then (sample_procs 1)\<lparr>p_state := RUNNING, p_chan := None, p_cwd := Some 0\<rparr> else sample_procs p)"
  by (simp_all add: exit_state_def switch_to_def sample_kst_def upd_proc_def upd_inode_def)

lemma exit_state_inv: "proc_inv exit_state"
  by (rule proc_invI)
    (auto simp: exit_state_sel sample_procs_def sample_proc_def clean_def alive_def NPROC_def split: if_splits)

lemma exit_state_exits: "\<exists>s'. exit st exit_state = Ret ((), s')"
proof -
  have "close_files 1 exit_state = Ret ((), exit_state)"
    by (rule close_no_files) (simp add: exit_state_sel sample_procs_def sample_proc_def)
  then obtain s1 where "exit_files 1 exit_state = Ret ((), s1)"
    by (simp add: exit_files_def thenK_def bindK_Ret begin_op_def getP_def iput_def end_op_def commit_def setP_def bindK_assoc
        exit_state_def sample_kst_def sample_procs_def sample_proc_def switch_to_def upd_proc_def upd_inode_def
        MAXOPBLOCKS_def LOGSIZE_def)
  moreover then have "initproc s1 \<noteq> Some 1"
    using withinD [OF pt_exit_files] by (fastforce simp: tame_def exit_state_sel)
  ultimately show ?thesis using exit_family_total [of s1 1 st]
    by (auto simp: exit_def bind_myproc exit_state_sel thenK_def bindK_Ret)
qed


section \<open>Closing pipes\<close>

lemma kpipeclose_open:
  assumes "pipes s pi = Some x" "readopen x" "w \<noteq> 0"
  shows "\<exists>s'. kpipeclose pi w s = Ret ((), s') \<and> pipes s' pi = Some (x\<lparr>writeopen := False\<rparr>) \<and> vm s' = vm s"
  using assms by (simp add: kpipeclose_def pipeclose_def get_pipe_def set_pipe_def bindK_def thenK_def whenK_def wakeup_eq)

text \<open>
  C40. The macro \<open>false\<close> is 2, so \<open>pipeclose\<close> takes the read end of a pipe for a write end: when both ends of a
  pipe, with the values of \<open>writable\<close> that \<open>pipealloc\<close> gives them, are closed in either order, the pipe is still open
  for reading, and its page is not freed.
\<close>

theorem closed_pipe_stays_open:
  assumes "pipes s pi = Some x" "readopen x" "ws \<in> {[c_false, c_true], [c_true, c_false]}"
  shows "\<exists>s'. forK ws (kpipeclose pi) s = Ret ((), s') \<and> pipes s' pi = Some (x\<lparr>writeopen := False\<rparr>) \<and> vm s' = vm s"
proof -
  obtain u w where ws: "ws = [u, w]" "u \<noteq> 0" "w \<noteq> 0" using assms(3) by (auto simp: c_true_def c_false_def)
  obtain s1 where 1: "kpipeclose pi u s = Ret ((), s1)" "pipes s1 pi = Some (x\<lparr>writeopen := False\<rparr>)" "vm s1 = vm s"
    using kpipeclose_open [OF assms(1,2) ws(2)] by blast
  obtain s2 where "kpipeclose pi w s1 = Ret ((), s2)" "pipes s2 pi = Some (x\<lparr>writeopen := False\<rparr>)" "vm s2 = vm s1"
    using kpipeclose_open [OF 1(2) _ ws(3)] assms(2) by auto
  then show ?thesis using 1 by (simp add: ws(1) thenK_def bindK_def)
qed

theorem closed_pipe_stays_open_witness:
  "\<exists>s'. forK [c_false, c_true] (kpipeclose 4096) (sample_kst\<lparr>pipes := [4096 \<mapsto> pipe_new []]\<rparr>) = Ret ((), s') \<and>
     pipes s' 4096 = Some ((pipe_new [])\<lparr>writeopen := False\<rparr>) \<and> vm s' = vm sample_kst"
  using closed_pipe_stays_open [of "sample_kst\<lparr>pipes := [4096 \<mapsto> pipe_new []]\<rparr>" 4096 "pipe_new []" "[c_false, c_true]"]
  by (simp add: pipe_new_def)

end
