(* ===== verification/Sh.thy ===== *)
theory Sh
  imports Fcntl
begin

text \<open>
  The parser of the shell (\<^verbatim>\<open>src/user/sh.c\<close>). The command line is the list \<open>s\<close> of its characters before the
  terminating zero, a pointer into it is a position, and \<open>es\<close> is \<open>length s\<close>. A parsed word is the pair of
  positions \<open>q\<close> and \<open>eq\<close> that the code keeps in \<open>argv\<close> and \<open>eargv\<close>, or in \<open>file\<close> and \<open>efile\<close>. The \<open>panic\<close> of the
  shell, which prints a message and exits, is the fault \<open>Panic\<close>; \<open>malloc\<close> for the nodes of the tree is taken
  to succeed.
\<close>

section \<open>Commands\<close>

definition MAXARGS :: nat where "MAXARGS = 10"

type_synonym word_at = "nat \<times> nat"

datatype cmd =
    EXEC "word_at list"
  | REDIR cmd word_at nat nat      \<comment> \<open>command, file, mode, fd\<close>
  | PIPE cmd cmd
  | LIST cmd cmd
  | BACK cmd

section \<open>Tokens\<close>

definition whitespace :: string where
  "whitespace = [CHR '' '', CHR 0x09, CHR 0x0D, CHR 0x0A, CHR 0x0B]"

definition symbols :: string where
  "symbols = ''<|>&;()''"

text \<open>The tokens of one character but \<open>>\<close>, which may be doubled.\<close>

definition one_char :: string where
  "one_char = ''|();&<''"

definition EOS :: char where "EOS = CHR 0x00"

definition char_at :: "string \<Rightarrow> nat \<Rightarrow> char" where
  "char_at s p = (if p < length s then s ! p else EOS)"

text \<open>The loops \<open>while (s < es && ...) s++\<close>.\<close>

definition skip_while :: "(char \<Rightarrow> bool) \<Rightarrow> string \<Rightarrow> nat \<Rightarrow> nat" where
  "skip_while P s p = p + length (takeWhile P (drop p s))"

definition skip_space :: "string \<Rightarrow> nat \<Rightarrow> nat" where
  "skip_space s p = skip_while (\<lambda>c. c \<in> set whitespace) s p"

definition skip_word :: "string \<Rightarrow> nat \<Rightarrow> nat" where
  "skip_word s p = skip_while (\<lambda>c. c \<notin> set whitespace \<and> c \<notin> set symbols) s p"

text \<open>The token, the positions \<open>q\<close> and \<open>eq\<close>, and the new \<open>*ps\<close>.\<close>

definition gettoken :: "string \<Rightarrow> nat \<Rightarrow> char \<times> word_at \<times> nat" where
  "gettoken s p =
     (let q = skip_space s p; c = char_at s q;
          (ret, eq) =
            (if c = EOS then (c, q)
             else if c \<in> set one_char then (c, q + 1)
             else if c = CHR ''>'' then
               (if char_at s (q + 1) = CHR ''>'' then (CHR ''+'', q + 2) else (c, q + 1))
             else (CHR ''a'', skip_word s q))
      in (ret, (q, eq), skip_space s eq))"

definition peek :: "string \<Rightarrow> nat \<Rightarrow> string \<Rightarrow> nat \<times> bool" where
  "peek s p toks = (let q = skip_space s p; c = char_at s q in (q, c \<noteq> EOS \<and> c \<in> set toks))"

lemma skip_while_bounds: "p \<le> skip_while P s p" "p \<le> length s \<Longrightarrow> skip_while P s p \<le> length s"
proof -
  show "p \<le> skip_while P s p" by (simp add: skip_while_def)
  have "length (takeWhile P (drop p s)) \<le> length s - p" by (metis length_drop length_takeWhile_le)
  then show "p \<le> length s \<Longrightarrow> skip_while P s p \<le> length s" by (simp add: skip_while_def)
qed

lemma skip_space_bounds [simp]: "p \<le> skip_space s p" "p \<le> length s \<Longrightarrow> skip_space s p \<le> length s"
  by (simp_all add: skip_space_def skip_while_bounds)

lemma char_at_less: "char_at s p \<noteq> EOS \<Longrightarrow> p < length s"
  by (simp add: char_at_def split: if_splits)

lemma peek_bounds:
  assumes "peek s p toks = (p', b)"
  shows "p \<le> p'" "p \<le> length s \<Longrightarrow> p' \<le> length s" "b \<Longrightarrow> p' < length s"
proof -
  have e: "p' = skip_space s p" "b \<longrightarrow> char_at s p' \<noteq> EOS" using assms by (auto simp: peek_def Let_def)
  show "p \<le> p'" "p \<le> length s \<Longrightarrow> p' \<le> length s" unfolding e by simp_all
  show "b \<Longrightarrow> p' < length s" using e(2) char_at_less by blast
qed

lemma skip_word_more:
  assumes "q < length s" "s ! q \<notin> set whitespace" "s ! q \<notin> set symbols"
  shows "q < skip_word s q"
proof -
  have "drop q s = s ! q # drop (Suc q) s" using assms(1) by (rule Cons_nth_drop_Suc [symmetric])
  then show ?thesis using assms by (simp add: skip_word_def skip_while_def)
qed

lemma skip_space_stops: "char_at s (skip_space s p) \<notin> set whitespace"
proof (cases "skip_space s p < length s")
  case True
  let ?n = "length (takeWhile (\<lambda>c. c \<in> set whitespace) (drop p s))"
  have "?n < length (drop p s)" using True by (simp add: skip_space_def skip_while_def)
  then have "drop p s ! ?n \<notin> set whitespace" by (rule nth_length_takeWhile)
  then show ?thesis using True by (simp add: char_at_def skip_space_def skip_while_def)
next
  case False
  then show ?thesis by (simp add: char_at_def EOS_def whitespace_def)
qed

definition token_at :: "string \<Rightarrow> nat \<Rightarrow> char \<times> nat" where
  "token_at s q =
     (let c = char_at s q in
      if c = EOS then (c, q)
      else if c \<in> set one_char then (c, q + 1)
      else if c = CHR ''>'' then
        (if char_at s (q + 1) = CHR ''>'' then (CHR ''+'', q + 2) else (c, q + 1))
      else (CHR ''a'', skip_word s q))"

lemma gettoken_at:
  "gettoken s p = (let q = skip_space s p; (ret, eq) = token_at s q in (ret, (q, eq), skip_space s eq))"
  by (simp add: gettoken_def token_at_def Let_def)

lemma symbols_cases: "c \<in> set symbols \<longleftrightarrow> c \<in> set one_char \<or> c = CHR ''>''"
  by (auto simp: symbols_def one_char_def)

lemma token_at_bounds:
  assumes "token_at s q = (t, eq)"
  shows "q \<le> eq" "q \<le> length s \<Longrightarrow> eq \<le> length s"
    "t \<noteq> EOS \<Longrightarrow> char_at s q \<notin> set whitespace \<Longrightarrow> q < eq"
proof -
  have "(char_at s q = EOS \<and> t = EOS \<and> eq = q) \<or> (char_at s q \<noteq> EOS \<and> eq = q + 1) \<or>
      (char_at s (q + 1) = CHR ''>'' \<and> eq = q + 2) \<or>
      (char_at s q \<noteq> EOS \<and> char_at s q \<notin> set symbols \<and> eq = skip_word s q)"
    using assms unfolding token_at_def Let_def symbols_cases by (simp split: if_splits)
  then consider (eos) "t = EOS" "eq = q"
    | (one) "char_at s q \<noteq> EOS" "eq = q + 1"
    | (two) "char_at s (q + 1) = CHR ''>''" "eq = q + 2"
    | (word) "char_at s q \<noteq> EOS" "char_at s q \<notin> set symbols" "eq = skip_word s q" by blast
  note c = this
  from c show "q \<le> eq" by cases (simp_all add: skip_word_def skip_while_bounds)
  from c show "eq \<le> length s" if "q \<le> length s"
    by cases (use that char_at_less [of s q] char_at_less [of s "q + 1"] in
      \<open>auto simp: skip_word_def skip_while_bounds EOS_def\<close>)
  from c show "q < eq" if "t \<noteq> EOS" "char_at s q \<notin> set whitespace"
  proof cases
    case word
    then have "q < length s" using char_at_less by blast
    then show ?thesis using word that(2) by (simp add: skip_word_more char_at_def)
  qed (use that in auto)
qed

lemma gettoken_bounds:
  assumes "gettoken s p = (t, (q, eq), p')"
  shows "p \<le> q" "q \<le> eq" "eq \<le> p'" "p \<le> length s \<Longrightarrow> p' \<le> length s" "t \<noteq> EOS \<Longrightarrow> q < eq"
    "q = skip_space s p" "token_at s q = (t, eq)" "p' = skip_space s eq"
proof -
  show e: "q = skip_space s p" "token_at s q = (t, eq)" "p' = skip_space s eq"
    using assms by (auto simp: gettoken_at Let_def split: prod.splits)
  note b = token_at_bounds [OF e(2)]
  show "p \<le> q" "q \<le> eq" "eq \<le> p'" using e b(1) by simp_all
  show "p \<le> length s \<Longrightarrow> p' \<le> length s" using e b(2) by simp
  show "t \<noteq> EOS \<Longrightarrow> q < eq" using b(3) e(1) skip_space_stops by blast
qed

lemma gettoken_after_peek:
  assumes "peek s p toks = (p1, True)" "gettoken s p1 = (t, w, p2)"
  shows "p1 < p2" "p1 < length s"
proof -
  obtain q eq where w: "w = (q, eq)" by (cases w)
  note b = gettoken_bounds [OF assms(2) [unfolded w]]
  have p1: "p1 = skip_space s p" "char_at s p1 \<noteq> EOS" using assms(1) by (auto simp: peek_def Let_def)
  then have "skip_space s p1 = p1"
    using skip_space_stops [of s p] char_at_less [OF p1(2)]
    by (simp add: skip_space_def skip_while_def char_at_def takeWhile_eq_Nil_iff hd_drop_conv_nth split: if_splits)
  then have "t \<noteq> EOS" using b(6,7) p1(2) by (auto simp: token_at_def Let_def EOS_def split: if_splits)
  then show "p1 < p2" using b(1,3,5) by linarith
  show "p1 < length s" using p1(2) char_at_less by blast
qed

lemma gettoken_forward: "gettoken s p = (t, w, p') \<Longrightarrow> p \<le> p'"
  using gettoken_bounds(1-3) [of s p t "fst w" "snd w" p'] by simp

lemma redirs_advance:
  assumes "peek s p toks = (p1, True)" "gettoken s p1 = (t, w, p2)" "gettoken s p2 = (t', w', p3)"
  shows "length s - p3 < length s - p"
  using peek_bounds(1) [OF assms(1)] gettoken_after_peek [OF assms(1,2)] gettoken_forward [OF assms(3)] by simp

lemma back_advance:
  assumes "peek s p toks = (p1, True)" "gettoken s p1 = (t, w, p2)"
  shows "length s - p2 < length s - p"
  using peek_bounds(1) [OF assms(1)] gettoken_after_peek [OF assms] by simp

section \<open>The parser\<close>

function parseredirs :: "string \<Rightarrow> cmd \<Rightarrow> nat \<Rightarrow> (cmd \<times> nat) res" where
  "parseredirs s cmd p =
     (case peek s p ''<>'' of (p1, more) \<Rightarrow>
        if \<not> more then Ret (cmd, p1)
        else
          (case gettoken s p1 of (tok, _, p2) \<Rightarrow>
             (case gettoken s p2 of (tok', w, p3) \<Rightarrow>
                if tok' \<noteq> CHR ''a'' then panic ''missing file for redirection''
                else
                  parseredirs s
                    (if tok = CHR ''<'' then REDIR cmd w O_RDONLY 0
                     else if tok = CHR ''>'' then REDIR cmd w (O_WRONLY OR O_CREATE OR O_TRUNC) 1
                     else if tok = CHR ''+'' then REDIR cmd w (O_WRONLY OR O_CREATE) 1
                     else cmd) p3)))"
  by pat_completeness auto
termination
  by (relation "measure (\<lambda>(s, cmd, p). length s - p)") (auto dest: redirs_advance [OF sym sym sym])

declare parseredirs.simps [simp del]

text \<open>
  \<open>parseexec\<close> fills the argument vector of the \<open>execcmd\<close> it made, to which the redirections that
  \<open>parseredirs\<close> wraps around it point.
\<close>

fun put_arg :: "word_at \<Rightarrow> cmd \<Rightarrow> cmd" where
  "put_arg w (EXEC ws) = EXEC (ws @ [w])"
| "put_arg w (REDIR c f mode fd) = REDIR (put_arg w c) f mode fd"
| "put_arg w c = c"

function parseargs :: "string \<Rightarrow> cmd \<Rightarrow> nat \<Rightarrow> nat \<Rightarrow> (cmd \<times> nat) res" where
  "parseargs s ret argc p =
     (case peek s p ''|)&;'' of (p1, stop) \<Rightarrow>
        if stop then Ret (ret, p1)
        else
          (case gettoken s p1 of (tok, w, p2) \<Rightarrow>
             if tok = EOS then Ret (ret, p2)
             else if tok \<noteq> CHR ''a'' then panic ''syntax''
             else if argc + 1 \<ge> MAXARGS then panic ''too many args''
             else bindR (parseredirs s (put_arg w ret) p2) (\<lambda>(ret', p3). parseargs s ret' (argc + 1) p3)))"
  by pat_completeness auto
termination
  by (relation "measure (\<lambda>(s, ret, argc, p). MAXARGS - argc)") auto

text \<open>The loop of \<open>parseline\<close> over the ampersands.\<close>

function parseback :: "string \<Rightarrow> cmd \<Rightarrow> nat \<Rightarrow> cmd \<times> nat" where
  "parseback s cmd p =
     (case peek s p ''&'' of (p1, more) \<Rightarrow>
        if \<not> more then (cmd, p1)
        else (case gettoken s p1 of (_, _, p2) \<Rightarrow> parseback s (BACK cmd) p2))"
  by pat_completeness auto
termination
  by (relation "measure (\<lambda>(s, cmd, p). length s - p)") (auto dest: back_advance [OF sym sym])

declare parseargs.simps [simp del] parseback.simps [simp del]

text \<open>
  The mutual recursion of the parser, with the depth of the recursion bounded by the first argument; a
  deeper recursion would be \<open>Diverge\<close>.
\<close>

fun parseline :: "nat \<Rightarrow> string \<Rightarrow> nat \<Rightarrow> (cmd \<times> nat) res"
  and parsepipe :: "nat \<Rightarrow> string \<Rightarrow> nat \<Rightarrow> (cmd \<times> nat) res"
  and parseexec :: "nat \<Rightarrow> string \<Rightarrow> nat \<Rightarrow> (cmd \<times> nat) res"
  and parseblock :: "nat \<Rightarrow> string \<Rightarrow> nat \<Rightarrow> (cmd \<times> nat) res" where
  "parseline 0 s p = Fail Diverge"
| "parseline (Suc n) s p =
     bindR (parsepipe n s p) (\<lambda>(cmd, p1).
       case parseback s cmd p1 of (cmd1, p2) \<Rightarrow>
       case peek s p2 '';'' of (p3, more) \<Rightarrow>
       if more then
         (case gettoken s p3 of (_, _, p4) \<Rightarrow>
            bindR (parseline n s p4) (\<lambda>(right, p5). Ret (LIST cmd1 right, p5)))
       else Ret (cmd1, p3))"
| "parsepipe 0 s p = Fail Diverge"
| "parsepipe (Suc n) s p =
     bindR (parseexec n s p) (\<lambda>(cmd, p1).
       case peek s p1 ''|'' of (p2, more) \<Rightarrow>
       if more then
         (case gettoken s p2 of (_, _, p3) \<Rightarrow>
            bindR (parsepipe n s p3) (\<lambda>(right, p4). Ret (PIPE cmd right, p4)))
       else Ret (cmd, p2))"
| "parseexec 0 s p = Fail Diverge"
| "parseexec (Suc n) s p =
     (case peek s p ''('' of (p1, block) \<Rightarrow>
        if block then parseblock n s p1
        else bindR (parseredirs s (EXEC []) p1) (\<lambda>(ret, p2). parseargs s ret 0 p2))"
| "parseblock 0 s p = Fail Diverge"
| "parseblock (Suc n) s p =
     (case peek s p ''('' of (p1, block) \<Rightarrow>
        if \<not> block then panic ''parseblock''
        else
          (case gettoken s p1 of (_, _, p2) \<Rightarrow>
             bindR (parseline n s p2) (\<lambda>(cmd, p3).
               case peek s p3 '')'' of (p4, close) \<Rightarrow>
               if \<not> close then panic ''syntax - missing )''
               else (case gettoken s p4 of (_, _, p5) \<Rightarrow> parseredirs s cmd p5))))"

text \<open>The buffer with its terminating zero, after the zeros have been written.\<close>

primrec nulterminate :: "cmd \<Rightarrow> string \<Rightarrow> string" where
  "nulterminate (EXEC ws) b = fold (\<lambda>(q, eq) b. b[eq := EOS]) ws b"
| "nulterminate (REDIR c f mode fd) b = (nulterminate c b)[snd f := EOS]"
| "nulterminate (PIPE l r) b = nulterminate r (nulterminate l b)"
| "nulterminate (LIST l r) b = nulterminate r (nulterminate l b)"
| "nulterminate (BACK c) b = nulterminate c b"

text \<open>The command and the buffer its words point into.\<close>

definition parsecmd :: "string \<Rightarrow> (cmd \<times> string) res" where
  "parsecmd s =
     bindR (parseline (4 * length s + 4) s 0) (\<lambda>(cmd, p).
       case peek s p [] of (p1, _) \<Rightarrow>
       if p1 \<noteq> length s then panic ''syntax'' else Ret (cmd, nulterminate cmd (s @ [EOS])))"

section \<open>The parser ends, and its words are those of the line\<close>

definition delimiter :: "char \<Rightarrow> bool" where
  "delimiter c \<longleftrightarrow> c \<in> set whitespace \<or> c \<in> set symbols"

text \<open>A word is not empty, has no delimiter in it, and ends at a delimiter or at the end of the line.\<close>

definition good_word :: "string \<Rightarrow> word_at \<Rightarrow> bool" where
  "good_word s w \<longleftrightarrow>
     fst w < snd w \<and> snd w \<le> length s \<and> (\<forall>i. fst w \<le> i \<and> i < snd w \<longrightarrow> \<not> delimiter (s ! i)) \<and>
     (snd w < length s \<longrightarrow> delimiter (s ! snd w))"

primrec cmd_words :: "cmd \<Rightarrow> word_at list" where
  "cmd_words (EXEC ws) = ws"
| "cmd_words (REDIR c f mode fd) = cmd_words c @ [f]"
| "cmd_words (PIPE l r) = cmd_words l @ cmd_words r"
| "cmd_words (LIST l r) = cmd_words l @ cmd_words r"
| "cmd_words (BACK c) = cmd_words c"

primrec args_fit :: "cmd \<Rightarrow> bool" where
  "args_fit (EXEC ws) \<longleftrightarrow> length ws < MAXARGS"
| "args_fit (REDIR c f mode fd) \<longleftrightarrow> args_fit c"
| "args_fit (PIPE l r) \<longleftrightarrow> args_fit l \<and> args_fit r"
| "args_fit (LIST l r) \<longleftrightarrow> args_fit l \<and> args_fit r"
| "args_fit (BACK c) \<longleftrightarrow> args_fit c"

definition cmd_ok :: "string \<Rightarrow> cmd \<Rightarrow> bool" where
  "cmd_ok s c \<longleftrightarrow> list_all (good_word s) (cmd_words c) \<and> args_fit c"

lemma cmd_ok_simps [simp]:
  "cmd_ok s (EXEC ws) \<longleftrightarrow> list_all (good_word s) ws \<and> length ws < MAXARGS"
  "cmd_ok s (REDIR c f mode fd) \<longleftrightarrow> cmd_ok s c \<and> good_word s f"
  "cmd_ok s (PIPE l r) \<longleftrightarrow> cmd_ok s l \<and> cmd_ok s r"
  "cmd_ok s (LIST l r) \<longleftrightarrow> cmd_ok s l \<and> cmd_ok s r"
  "cmd_ok s (BACK c) \<longleftrightarrow> cmd_ok s c"
  by (auto simp: cmd_ok_def)

lemma gettoken_word:
  assumes "gettoken s p = (CHR ''a'', w, p')" "p \<le> length s"
  shows "good_word s w"
proof -
  obtain q eq where w: "w = (q, eq)" by (cases w)
  note b = gettoken_bounds [OF assms(1) [unfolded w]]
  let ?P = "\<lambda>c. c \<notin> set whitespace \<and> c \<notin> set symbols" and ?n = "eq - q"
  have "eq = skip_word s q"
    using b(7) by (auto simp: token_at_def Let_def one_char_def EOS_def split: if_splits)
  then have n: "?n = length (takeWhile ?P (drop q s))" by (simp add: skip_word_def skip_while_def)
  have "q < eq" by (rule b(5)) (simp add: EOS_def)
  have "eq \<le> length s" using assms(2) b(3,4) by simp
  have "\<not> delimiter (s ! i)" if "q \<le> i" "i < eq" for i
  proof -
    have "i - q < length (takeWhile ?P (drop q s))" using that n by linarith
    then have "takeWhile ?P (drop q s) ! (i - q) \<in> set (takeWhile ?P (drop q s))"
      "takeWhile ?P (drop q s) ! (i - q) = drop q s ! (i - q)"
      by (rule nth_mem, rule takeWhile_nth)
    then have "?P (drop q s ! (i - q))" by (metis (no_types, lifting) set_takeWhileD)
    then show ?thesis using that \<open>eq \<le> length s\<close> by (simp add: delimiter_def)
  qed
  moreover have "delimiter (s ! eq)" if "eq < length s"
  proof -
    have "length (takeWhile ?P (drop q s)) < length (drop q s)" using that n \<open>q < eq\<close> by simp
    from nth_length_takeWhile [OF this] show ?thesis
      using that n \<open>q < eq\<close> unfolding n [symmetric] by (auto simp: delimiter_def)
  qed
  ultimately show ?thesis using \<open>q < eq\<close> \<open>eq \<le> length s\<close> by (simp add: good_word_def w)
qed

text \<open>What every parsing function gives when it starts at \<open>p\<close>.\<close>

definition parse_ok :: "string \<Rightarrow> nat \<Rightarrow> (cmd \<times> nat) res \<Rightarrow> bool" where
  "parse_ok s p r \<longleftrightarrow>
     (case r of Inl f \<Rightarrow> (\<exists>m. f = Panic m) | Inr (c, p') \<Rightarrow> p \<le> p' \<and> p' \<le> length s \<and> cmd_ok s c)"

lemma parse_ok_simps [simp]:
  "parse_ok s p (panic m)"
  "parse_ok s p (Ret (c, p')) \<longleftrightarrow> p \<le> p' \<and> p' \<le> length s \<and> cmd_ok s c"
  by (simp_all add: parse_ok_def)

lemma parse_ok_bind:
  assumes "parse_ok s p r" "\<And>c p'. r = Ret (c, p') \<Longrightarrow> p \<le> p' \<Longrightarrow> p' \<le> length s \<Longrightarrow> cmd_ok s c \<Longrightarrow> parse_ok s p0 (f (c, p'))"
  shows "parse_ok s p0 (bindR r f)"
  using assms by (cases r) (auto simp: parse_ok_def)

lemma parse_ok_mono: "parse_ok s p r \<Longrightarrow> p0 \<le> p \<Longrightarrow> parse_ok s p0 r"
  by (auto simp: parse_ok_def split: sum.splits)

text \<open>The argument vector that \<open>parseexec\<close> fills.\<close>

fun args_of :: "cmd \<Rightarrow> word_at list option" where
  "args_of (EXEC ws) = Some ws"
| "args_of (REDIR c f mode fd) = args_of c"
| "args_of c = None"

lemma put_arg_ok:
  "args_of c = Some ws \<Longrightarrow> cmd_ok s c \<Longrightarrow> good_word s w \<Longrightarrow> length ws + 1 < MAXARGS \<Longrightarrow>
   cmd_ok s (put_arg w c) \<and> args_of (put_arg w c) = Some (ws @ [w])"
  by (induction c) auto

lemma parseredirs_ok:
  assumes "p \<le> length s" "cmd_ok s c"
  shows "parse_ok s p (parseredirs s c p) \<and> (\<forall>c' p'. parseredirs s c p = Ret (c', p') \<longrightarrow> args_of c' = args_of c)"
  using assms
proof (induction "length s - p" arbitrary: c p rule: less_induct)
  case less
  obtain p1 more where k: "peek s p ''<>'' = (p1, more)" by (cases "peek s p ''<>''")
  obtain t u p2 where g: "gettoken s p1 = (t, u, p2)" by (cases "gettoken s p1")
  obtain t' w p3 where g': "gettoken s p2 = (t', w, p3)" by (cases "gettoken s p2")
  have p1: "p \<le> p1" "p1 \<le> length s" using peek_bounds(1,2) [OF k] less.prems(1) by simp_all
  show ?case
  proof (cases "more \<and> t' = CHR ''a''")
    case True
    have "p2 \<le> length s" using gettoken_bounds(4) [of s p1 t "fst u" "snd u" p2] g p1 by simp
    then have "p3 \<le> length s" using gettoken_bounds(4) [of s p2 t' "fst w" "snd w" p3] g' by simp
    have "good_word s w" using gettoken_word g' True \<open>p2 \<le> length s\<close> by blast
    have le: "p \<le> p3" using p1 gettoken_forward [OF g] gettoken_forward [OF g'] by simp
    let ?c = "if t = CHR ''<'' then REDIR c w O_RDONLY 0
              else if t = CHR ''>'' then REDIR c w (O_WRONLY OR O_CREATE OR O_TRUNC) 1
              else if t = CHR ''+'' then REDIR c w (O_WRONLY OR O_CREATE) 1 else c"
    have "cmd_ok s ?c" "args_of ?c = args_of c" using less.prems(2) \<open>good_word s w\<close> by simp_all
    moreover have "parseredirs s c p = parseredirs s ?c p3"
      using True k g g' by (subst parseredirs.simps) simp
    moreover have "parse_ok s p3 (parseredirs s ?c p3) \<and>
        (\<forall>c' p'. parseredirs s ?c p3 = Ret (c', p') \<longrightarrow> args_of c' = args_of ?c)"
    proof (rule less.hyps)
      show "length s - p3 < length s - p" by (rule redirs_advance [OF _ g g']) (use True k in simp)
    qed (use \<open>p3 \<le> length s\<close> \<open>cmd_ok s ?c\<close> in auto)
    ultimately show ?thesis using parse_ok_mono [OF _ le] by simp
  next
    case False
    then show ?thesis using k g g' p1 less.prems(2) by (subst (1 2) parseredirs.simps) auto
  qed
qed

lemma parseargs_ok:
  assumes "p \<le> length s" "cmd_ok s c" "args_of c = Some ws" "length ws = argc"
  shows "parse_ok s p (parseargs s c argc p)"
  using assms
proof (induction "MAXARGS - argc" arbitrary: c argc p ws rule: less_induct)
  case less
  obtain p1 stop where k: "peek s p ''|)&;'' = (p1, stop)" by (cases "peek s p ''|)&;''")
  obtain t w p2 where g: "gettoken s p1 = (t, w, p2)" by (cases "gettoken s p1")
  have p1: "p \<le> p1" "p1 \<le> length s" using peek_bounds(1,2) [OF k] less.prems(1) by simp_all
  have p2: "p1 \<le> p2" "p2 \<le> length s"
    using gettoken_forward [OF g] gettoken_bounds(4) [of s p1 t "fst w" "snd w" p2] g p1 by simp_all
  show ?case
  proof (cases "\<not> stop \<and> t = CHR ''a'' \<and> argc + 1 < MAXARGS")
    case True
    have "good_word s w" using gettoken_word g True p1 by blast
    then have c: "cmd_ok s (put_arg w c) \<and> args_of (put_arg w c) = Some (ws @ [w])"
      using put_arg_ok less.prems(2-4) True by blast
    have e: "parseargs s c argc p =
        bindR (parseredirs s (put_arg w c) p2) (\<lambda>(c', p3). parseargs s c' (argc + 1) p3)"
      using True k g by (subst parseargs.simps) (simp add: EOS_def)
    have r: "parse_ok s p2 (parseredirs s (put_arg w c) p2)"
      "\<And>c' p'. parseredirs s (put_arg w c) p2 = Ret (c', p') \<Longrightarrow> args_of c' = Some (ws @ [w])"
      using parseredirs_ok [OF p2(2) conjunct1 [OF c]] c by auto
    show ?thesis unfolding e
    proof (rule parse_ok_bind [OF r(1)], simp only: prod.case)
      fix c' p3 assume a: "parseredirs s (put_arg w c) p2 = Ret (c', p3)" "p2 \<le> p3" "p3 \<le> length s" "cmd_ok s c'"
      have "parse_ok s p3 (parseargs s c' (argc + 1) p3)"
        by (rule less.hyps [OF _ a(3,4) r(2) [OF a(1)]]) (use True less.prems(4) in auto)
      then show "parse_ok s p (parseargs s c' (argc + 1) p3)" by (rule parse_ok_mono) (use a p1 p2 in simp)
    qed
  next
    case False
    then show ?thesis using k g p1 p2 less.prems(2) by (subst parseargs.simps) auto
  qed
qed

lemma parseback_ok:
  assumes "p \<le> length s" "cmd_ok s c"
  shows "parse_ok s p (Ret (parseback s c p))"
  using assms
proof (induction "length s - p" arbitrary: c p rule: less_induct)
  case less
  obtain p1 more where k: "peek s p ''&'' = (p1, more)" by (cases "peek s p ''&''")
  obtain t w p2 where g: "gettoken s p1 = (t, w, p2)" by (cases "gettoken s p1")
  have p1: "p \<le> p1" "p1 \<le> length s" using peek_bounds(1,2) [OF k] less.prems(1) by simp_all
  show ?case
  proof (cases more)
    case True
    have p2: "p1 \<le> p2" "p2 \<le> length s"
      using gettoken_forward [OF g] gettoken_bounds(4) [of s p1 t "fst w" "snd w" p2] g p1 by simp_all
    have "parse_ok s p2 (Ret (parseback s (BACK c) p2))"
      by (rule less.hyps) (use True k g back_advance p2 less.prems(2) in auto)
    then show ?thesis using True k g p1 p2 parse_ok_mono [of s p2 _ p] by (subst parseback.simps) simp
  next
    case False
    then show ?thesis using k p1 less.prems(2) by (subst parseback.simps) simp
  qed
qed

lemma token_step:
  assumes "peek s p toks = (p1, more)" "more" "gettoken s p1 = (t, w, p2)" "p \<le> length s"
  shows "p < p2" "p2 \<le> length s"
  using peek_bounds(1,2) [OF assms(1)] gettoken_after_peek [of s p toks p1 t w p2] assms
    gettoken_bounds(4) [of s p1 t "fst w" "snd w" p2] by simp_all

lemma parser_ok:
  "(\<forall>p \<le> length s. 4 * (length s - p) + 4 \<le> n \<longrightarrow> parse_ok s p (parseline n s p)) \<and>
   (\<forall>p \<le> length s. 4 * (length s - p) + 3 \<le> n \<longrightarrow> parse_ok s p (parsepipe n s p)) \<and>
   (\<forall>p \<le> length s. 4 * (length s - p) + 2 \<le> n \<longrightarrow> parse_ok s p (parseexec n s p)) \<and>
   (\<forall>p \<le> length s. 4 * (length s - p) + 1 \<le> n \<longrightarrow> parse_ok s p (parseblock n s p))"
proof (induction n)
  case (Suc n)
  note line = Suc.IH [THEN conjunct1, rule_format] and pipe = Suc.IH [THEN conjunct2, THEN conjunct1, rule_format]
    and exec = Suc.IH [THEN conjunct2, THEN conjunct2, THEN conjunct1, rule_format]
    and block = Suc.IH [THEN conjunct2, THEN conjunct2, THEN conjunct2, rule_format]
  have "parse_ok s p (parseline (Suc n) s p)" if p: "p \<le> length s" "4 * (length s - p) + 4 \<le> Suc n" for p
    unfolding parseline.simps
  proof (rule parse_ok_bind [OF pipe], goal_cases)
    case (3 c p1)
    obtain c1 p2 where b: "parseback s c p1 = (c1, p2)" by (cases "parseback s c p1")
    have c1: "p1 \<le> p2" "p2 \<le> length s" "cmd_ok s c1" using parseback_ok [of p1 s c] 3 b by simp_all
    obtain p3 more where k: "peek s p2 '';'' = (p3, more)" by (cases "peek s p2 '';''")
    obtain t w p4 where g: "gettoken s p3 = (t, w, p4)" by (cases "gettoken s p3")
    show ?case
    proof (cases more)
      case True
      have p4: "p2 < p4" "p4 \<le> length s" using token_step [OF k True g] c1 by simp_all
      have "parse_ok s p4 (parseline n s p4)" by (rule line) (use p4 c1 3 p in auto)
      then show ?thesis using True b k g c1 p4 3 by (auto intro: parse_ok_bind)
    next
      case False
      then show ?thesis using b k c1 3 peek_bounds(1,2) [OF k] by auto
    qed
  qed (use p in auto)
  moreover have "parse_ok s p (parsepipe (Suc n) s p)" if p: "p \<le> length s" "4 * (length s - p) + 3 \<le> Suc n" for p
    unfolding parsepipe.simps
  proof (rule parse_ok_bind [OF exec], goal_cases)
    case (3 c p1)
    obtain p2 more where k: "peek s p1 ''|'' = (p2, more)" by (cases "peek s p1 ''|''")
    obtain t w p3 where g: "gettoken s p2 = (t, w, p3)" by (cases "gettoken s p2")
    show ?case
    proof (cases more)
      case True
      have p3: "p1 < p3" "p3 \<le> length s" using token_step [OF k True g] 3 by simp_all
      have "parse_ok s p3 (parsepipe n s p3)" by (rule pipe) (use p3 3 p in auto)
      then show ?thesis using True k g p3 3 by (auto intro: parse_ok_bind)
    next
      case False
      then show ?thesis using k 3 peek_bounds(1,2) [OF k] by auto
    qed
  qed (use p in auto)
  moreover have "parse_ok s p (parseexec (Suc n) s p)" if p: "p \<le> length s" "4 * (length s - p) + 2 \<le> Suc n" for p
  proof -
    obtain p1 blk where k: "peek s p ''('' = (p1, blk)" by (cases "peek s p ''(''")
    have p1: "p \<le> p1" "p1 \<le> length s" using peek_bounds(1,2) [OF k] p by simp_all
    have r: "parse_ok s p1 (parseredirs s (EXEC []) p1)"
      "\<And>c' p'. parseredirs s (EXEC []) p1 = Ret (c', p') \<Longrightarrow> args_of c' = Some []"
      using parseredirs_ok [OF p1(2), of "EXEC []"] by (auto simp: MAXARGS_def)
    have "parse_ok s p1 (bindR (parseredirs s (EXEC []) p1) (\<lambda>(ret, p2). parseargs s ret 0 p2))"
      by (rule parse_ok_bind [OF r(1)]) (use r(2) parseargs_ok parse_ok_mono in fastforce)
    moreover have "parse_ok s p1 (parseblock n s p1)" by (rule block) (use p p1 in auto)
    ultimately show ?thesis using k parse_ok_mono [OF _ p1(1)] by simp
  qed
  moreover have "parse_ok s p (parseblock (Suc n) s p)" if p: "p \<le> length s" "4 * (length s - p) + 1 \<le> Suc n" for p
  proof -
    obtain p1 blk where k: "peek s p ''('' = (p1, blk)" by (cases "peek s p ''(''")
    obtain t w p2 where g: "gettoken s p1 = (t, w, p2)" by (cases "gettoken s p1")
    show ?thesis
    proof (cases blk)
      case True
      have p2: "p < p2" "p2 \<le> length s" using token_step [OF k True g] p by simp_all
      have "parse_ok s p (bindR (parseline n s p2) (\<lambda>(cmd, p3).
               case peek s p3 '')'' of (p4, close) \<Rightarrow>
               if \<not> close then panic ''syntax - missing )''
               else (case gettoken s p4 of (_, _, p5) \<Rightarrow> parseredirs s cmd p5)))"
      proof (rule parse_ok_bind [OF line], goal_cases)
        case (3 c p3)
        obtain p4 close where k': "peek s p3 '')'' = (p4, close)" by (cases "peek s p3 '')''")
        obtain t' w' p5 where g': "gettoken s p4 = (t', w', p5)" by (cases "gettoken s p4")
        show ?case
        proof (cases close)
          case True
          have p5: "p3 < p5" "p5 \<le> length s" using token_step [OF k' True g'] 3 by simp_all
          then have "parse_ok s p5 (parseredirs s c p5)" using parseredirs_ok 3 by blast
          then show ?thesis using True k' g' p5 p2 3 parse_ok_mono [of s p5 _ p] by simp
        qed (use k' in simp)
      qed (use p p2 in auto)
      then show ?thesis using True k g by simp
    qed (use k in simp)
  qed
  ultimately show ?case by blast
qed simp

text \<open>The zeros written by \<open>nulterminate\<close> are at the ends of the words.\<close>

lemma fold_zeros:
  "fold (\<lambda>(q, eq) b. b[eq := EOS]) ws b = fold (\<lambda>e b. b[e := EOS]) (map snd ws) b"
  by (induction ws arbitrary: b) auto

lemma nulterminate_fold: "nulterminate c b = fold (\<lambda>e b. b[e := EOS]) (map snd (cmd_words c)) b"
  by (induction c arbitrary: b) (simp_all add: fold_zeros)

lemma fold_zeros_nth:
  "length (fold (\<lambda>e b. b[e := EOS]) es b) = length b"
  "i < length b \<Longrightarrow> fold (\<lambda>e b. b[e := EOS]) es b ! i = (if i \<in> set es then EOS else b ! i)"
proof -
  show l: "length (fold (\<lambda>e b. b[e := EOS]) es b) = length b" for b by (induction es arbitrary: b) auto
  show "i < length b \<Longrightarrow> fold (\<lambda>e b. b[e := EOS]) es b ! i = (if i \<in> set es then EOS else b ! i)"
    by (induction es arbitrary: b) (auto simp: nth_list_update)
qed

text \<open>The C string at a position of a buffer, and the characters of a word.\<close>

definition string_at :: "string \<Rightarrow> nat \<Rightarrow> string" where
  "string_at b q = takeWhile (\<lambda>c. c \<noteq> EOS) (drop q b)"

definition word_of :: "string \<Rightarrow> word_at \<Rightarrow> string" where
  "word_of s w = take (snd w - fst w) (drop (fst w) s)"

lemma string_at_word:
  assumes "list_all (good_word s) ws" "w \<in> set ws" "EOS \<notin> set s"
  shows "string_at (fold (\<lambda>e b. b[e := EOS]) (map snd ws) (s @ [EOS])) (fst w) = word_of s w"
proof -
  define b where "b = fold (\<lambda>e b. b[e := EOS]) (map snd ws) (s @ [EOS])"
  have g: "good_word s w" using assms(1,2) by (simp add: list_all_iff)
  have len: "length b = length s + 1" by (simp add: b_def fold_zeros_nth)
  have stop: "b ! snd w = EOS" using g assms(2) by (auto simp: b_def fold_zeros_nth good_word_def)
  have in_word: "b ! i = s ! i" if i: "fst w \<le> i" "i < snd w" for i
  proof -
    have "i \<notin> snd ` set ws"
    proof
      assume "i \<in> snd ` set ws"
      then obtain v where v: "v \<in> set ws" "i = snd v" by blast
      then have "good_word s v" using assms(1) by (simp add: list_all_iff)
      moreover have "\<not> delimiter (s ! i)" "i < length s" using g i by (simp_all add: good_word_def)
      ultimately show False using v by (simp add: good_word_def)
    qed
    moreover have "i < length s" using g i by (simp add: good_word_def)
    ultimately show ?thesis by (simp add: b_def fold_zeros_nth nth_append)
  qed
  have l: "fst w < snd w" "snd w \<le> length s" using g by (simp_all add: good_word_def)
  have "take (snd w - fst w) (drop (fst w) b) = word_of s w"
    unfolding word_of_def by (rule nth_equalityI) (use l in_word in \<open>auto simp: len\<close>)
  moreover have "drop (snd w - fst w) (drop (fst w) b) = EOS # drop (Suc (snd w)) b"
    using Cons_nth_drop_Suc [of "snd w" b] l stop by (simp add: len)
  ultimately have split: "drop (fst w) b = word_of s w @ EOS # drop (Suc (snd w)) b"
    by (metis append_take_drop_id)
  have "\<forall>c \<in> set (word_of s w). c \<noteq> EOS"
    using assms(3) by (auto simp: word_of_def dest!: in_set_takeD in_set_dropD)
  then show ?thesis unfolding string_at_def b_def [symmetric] split by (simp add: takeWhile_append2)
qed

text \<open>
  C13. \<open>parsecmd\<close> ends on every line, with a command or with the panic of a syntax error. Every word of the
  command is a maximal piece of the line without white space and symbols, and it is the C string that \<open>argv\<close>
  or \<open>file\<close> points to in the buffer after \<open>nulterminate\<close>: no zero written for another word cuts it short. No
  argument vector has more than \<open>MAXARGS - 1\<close> words, so there is room for the null pointer at its end.
\<close>

theorem parsecmd_words:
  assumes "EOS \<notin> set s"
  shows "(\<exists>m. parsecmd s = panic m) \<or>
         (\<exists>cmd b. parsecmd s = Ret (cmd, b) \<and> args_fit cmd \<and>
            (\<forall>w \<in> set (cmd_words cmd). good_word s w \<and> string_at b (fst w) = word_of s w))"
proof -
  have ok: "parse_ok s 0 (parseline (4 * length s + 4) s 0)" using parser_ok [of s "4 * length s + 4"] by simp
  show ?thesis
  proof (cases "parseline (4 * length s + 4) s 0")
    case (Inl f)
    then show ?thesis using ok by (auto simp: parse_ok_def parsecmd_def)
  next
    case (Inr r)
    obtain c p where r: "r = (c, p)" by (cases r)
    then have c: "cmd_ok s c" using ok Inr by simp
    obtain p1 x where k: "peek s p [] = (p1, x)" by (cases "peek s p []")
    show ?thesis
    proof (cases "p1 = length s")
      case True
      then have "parsecmd s = Ret (c, nulterminate c (s @ [EOS]))" using Inr r k by (simp add: parsecmd_def)
      then show ?thesis
        using c string_at_word [of s "cmd_words c"] assms by (simp add: cmd_ok_def nulterminate_fold list_all_iff)
    qed (use Inr r k in \<open>simp add: parsecmd_def\<close>)
  qed
qed

theorem parsecmd_words_witness:
  "\<exists>b. parsecmd ''ls>f'' = Ret (REDIR (EXEC [(0, 2)]) (3, 4) 0x601 1, b) \<and>
       string_at b 0 = ''ls'' \<and> string_at b 3 = ''f''"
proof -
  have e: "parsecmd ''ls>f'' = Ret (REDIR (EXEC [(0, 2)]) (3, 4) 0x601 1, [CHR ''l'', CHR ''s'', EOS, CHR ''f'', EOS])"
    by code_simp
  have "EOS \<notin> set ''ls>f''" by (simp add: EOS_def)
  from parsecmd_words [OF this] show ?thesis unfolding e by (simp add: word_of_def)
qed

end
