(* ===== verification/Trampoline.thy ===== *)
theory Trampoline
  imports Kstate
begin

text \<open>
  The assembly code that saves and restores registers: \<^verbatim>\<open>src/kernel/startup/trampoline.S\<close>, \<^verbatim>\<open>kernelvec.S\<close> and
  \<^verbatim>\<open>src/kernel/process/swtch.S\<close>, as lists of instructions with an interpreter for the instructions they use. A
  memory access goes through the page table in \<open>satp\<close>, which is a parameter: \<open>tr satp va\<close> is the
  physical address.
\<close>

section \<open>Instructions\<close>

datatype reg = Ra | Sp | Gp | Tp | T0 | T1 | T2 | S0 | S1 | A0 | A1 | A2 | A3 | A4 | A5 | A6 | A7
  | S2 | S3 | S4 | S5 | S6 | S7 | S8 | S9 | S10 | S11 | T3 | T4 | T5 | T6

datatype csr = Sscratch | Satp | Mscratch | Sip

datatype instr =
    Sd reg nat reg
  | Ld reg nat reg
  | Li reg u64
  | Addi reg reg u64
  | Add reg reg reg
  | Csrw csr reg
  | Csrr reg csr
  | Csrrw reg csr reg
  | Sfence
  | Jr reg

record mach =
  rg :: "reg \<Rightarrow> u64"
  csrs :: "csr \<Rightarrow> u64"
  dram :: "nat \<Rightarrow> u8"
  jump_to :: "u64 option"

type_synonym trans = "u64 \<Rightarrow> u64 \<Rightarrow> nat"

definition addr_of :: "trans \<Rightarrow> mach \<Rightarrow> reg \<Rightarrow> nat \<Rightarrow> nat" where
  "addr_of tr m b off = tr (csrs m Satp) (rg m b + of_nat off)"

fun step_instr :: "trans \<Rightarrow> instr \<Rightarrow> mach \<Rightarrow> mach" where
  "step_instr tr (Sd r off b) m = m\<lparr>dram := store64 (addr_of tr m b off) (rg m r) (dram m)\<rparr>"
| "step_instr tr (Ld r off b) m = m\<lparr>rg := (rg m)(r := load64 (dram m) (addr_of tr m b off))\<rparr>"
| "step_instr tr (Li r x) m = m\<lparr>rg := (rg m)(r := x)\<rparr>"
| "step_instr tr (Addi r q x) m = m\<lparr>rg := (rg m)(r := rg m q + x)\<rparr>"
| "step_instr tr (Add r q x) m = m\<lparr>rg := (rg m)(r := rg m q + rg m x)\<rparr>"
| "step_instr tr (Csrw c r) m = m\<lparr>csrs := (csrs m)(c := rg m r)\<rparr>"
| "step_instr tr (Csrr r c) m = m\<lparr>rg := (rg m)(r := csrs m c)\<rparr>"
| "step_instr tr (Csrrw r c q) m = m\<lparr>rg := (rg m)(r := csrs m c), csrs := (csrs m)(c := rg m q)\<rparr>"
| "step_instr tr Sfence m = m"
| "step_instr tr (Jr r) m = m\<lparr>jump_to := Some (rg m r)\<rparr>"

definition run_code :: "trans \<Rightarrow> instr list \<Rightarrow> mach \<Rightarrow> mach" where
  "run_code tr is m = fold (step_instr tr) is m"

section \<open>The code\<close>

definition uservec :: "instr list" where
  "uservec =
     [Csrw Sscratch A0, Li A0 TRAPFRAME,
      Sd Ra 40 A0, Sd Sp 48 A0, Sd Gp 56 A0, Sd Tp 64 A0, Sd T0 72 A0, Sd T1 80 A0, Sd T2 88 A0, Sd S0 96 A0, Sd S1 104 A0,
      Sd A1 120 A0, Sd A2 128 A0, Sd A3 136 A0, Sd A4 144 A0, Sd A5 152 A0, Sd A6 160 A0, Sd A7 168 A0,
      Sd S2 176 A0, Sd S3 184 A0, Sd S4 192 A0, Sd S5 200 A0, Sd S6 208 A0, Sd S7 216 A0, Sd S8 224 A0, Sd S9 232 A0,
      Sd S10 240 A0, Sd S11 248 A0, Sd T3 256 A0, Sd T4 264 A0, Sd T5 272 A0, Sd T6 280 A0,
      Csrr T0 Sscratch, Sd T0 112 A0,
      Ld Sp 8 A0, Ld Tp 32 A0, Ld T0 16 A0, Ld T1 0 A0,
      Sfence, Csrw Satp T1, Sfence, Jr T0]"

text \<open>\<open>userret\<close>, up to \<open>sret\<close>.\<close>

definition userret :: "instr list" where
  "userret =
     [Sfence, Csrw Satp A0, Sfence, Li A0 TRAPFRAME,
      Ld Ra 40 A0, Ld Sp 48 A0, Ld Gp 56 A0, Ld Tp 64 A0, Ld T0 72 A0, Ld T1 80 A0, Ld T2 88 A0, Ld S0 96 A0, Ld S1 104 A0,
      Ld A1 120 A0, Ld A2 128 A0, Ld A3 136 A0, Ld A4 144 A0, Ld A5 152 A0, Ld A6 160 A0, Ld A7 168 A0,
      Ld S2 176 A0, Ld S3 184 A0, Ld S4 192 A0, Ld S5 200 A0, Ld S6 208 A0, Ld S7 216 A0, Ld S8 224 A0, Ld S9 232 A0,
      Ld S10 240 A0, Ld S11 248 A0, Ld T3 256 A0, Ld T4 264 A0, Ld T5 272 A0, Ld T6 280 A0,
      Ld A0 112 A0]"

definition swtch :: "instr list" where
  "swtch =
     [Sd Ra 0 A0, Sd Sp 8 A0, Sd S0 16 A0, Sd S1 24 A0, Sd S2 32 A0, Sd S3 40 A0, Sd S4 48 A0, Sd S5 56 A0, Sd S6 64 A0,
      Sd S7 72 A0, Sd S8 80 A0, Sd S9 88 A0, Sd S10 96 A0, Sd S11 104 A0,
      Ld Ra 0 A1, Ld Sp 8 A1, Ld S0 16 A1, Ld S1 24 A1, Ld S2 32 A1, Ld S3 40 A1, Ld S4 48 A1, Ld S5 56 A1, Ld S6 64 A1,
      Ld S7 72 A1, Ld S8 80 A1, Ld S9 88 A1, Ld S10 96 A1, Ld S11 104 A1,
      Jr Ra]"

text \<open>\<open>kernelvec\<close> before and after its call of \<open>kerneltrap\<close>, up to \<open>sret\<close>.\<close>

definition kernelvec_save :: "instr list" where
  "kernelvec_save =
     [Addi Sp Sp (- 256),
      Sd Ra 0 Sp, Sd Sp 8 Sp, Sd Gp 16 Sp, Sd Tp 24 Sp, Sd T0 32 Sp, Sd T1 40 Sp, Sd T2 48 Sp, Sd S0 56 Sp, Sd S1 64 Sp,
      Sd A0 72 Sp, Sd A1 80 Sp, Sd A2 88 Sp, Sd A3 96 Sp, Sd A4 104 Sp, Sd A5 112 Sp, Sd A6 120 Sp, Sd A7 128 Sp,
      Sd S2 136 Sp, Sd S3 144 Sp, Sd S4 152 Sp, Sd S5 160 Sp, Sd S6 168 Sp, Sd S7 176 Sp, Sd S8 184 Sp, Sd S9 192 Sp,
      Sd S10 200 Sp, Sd S11 208 Sp, Sd T3 216 Sp, Sd T4 224 Sp, Sd T5 232 Sp, Sd T6 240 Sp]"

definition kernelvec_restore :: "instr list" where
  "kernelvec_restore =
     [Ld Ra 0 Sp, Ld Sp 8 Sp, Ld Gp 16 Sp, Ld T0 32 Sp, Ld T1 40 Sp, Ld T2 48 Sp, Ld S0 56 Sp, Ld S1 64 Sp,
      Ld A0 72 Sp, Ld A1 80 Sp, Ld A2 88 Sp, Ld A3 96 Sp, Ld A4 104 Sp, Ld A5 112 Sp, Ld A6 120 Sp, Ld A7 128 Sp,
      Ld S2 136 Sp, Ld S3 144 Sp, Ld S4 152 Sp, Ld S5 160 Sp, Ld S6 168 Sp, Ld S7 176 Sp, Ld S8 184 Sp, Ld S9 192 Sp,
      Ld S10 200 Sp, Ld S11 208 Sp, Ld T3 216 Sp, Ld T4 224 Sp, Ld T5 232 Sp, Ld T6 240 Sp,
      Addi Sp Sp 256]"

text \<open>\<open>timervec\<close>, up to \<open>mret\<close>.\<close>

definition timervec :: "instr list" where
  "timervec =
     [Csrrw A0 Mscratch A0, Sd A1 0 A0, Sd A2 8 A0, Sd A3 16 A0,
      Ld A1 24 A0, Ld A2 32 A0, Ld A3 0 A1, Add A3 A3 A2, Sd A3 0 A1,
      Li A1 2, Csrw Sip A1,
      Ld A3 16 A0, Ld A2 8 A0, Ld A1 0 A0, Csrrw A0 Mscratch A0]"

section \<open>Layout\<close>

definition reg_name :: "reg \<Rightarrow> string" where
  "reg_name r =
     (case r of Ra \<Rightarrow> ''ra'' | Sp \<Rightarrow> ''sp'' | Gp \<Rightarrow> ''gp'' | Tp \<Rightarrow> ''tp'' | T0 \<Rightarrow> ''t0'' | T1 \<Rightarrow> ''t1'' | T2 \<Rightarrow> ''t2''
      | S0 \<Rightarrow> ''s0'' | S1 \<Rightarrow> ''s1'' | A0 \<Rightarrow> ''a0'' | A1 \<Rightarrow> ''a1'' | A2 \<Rightarrow> ''a2'' | A3 \<Rightarrow> ''a3'' | A4 \<Rightarrow> ''a4'' | A5 \<Rightarrow> ''a5''
      | A6 \<Rightarrow> ''a6'' | A7 \<Rightarrow> ''a7'' | S2 \<Rightarrow> ''s2'' | S3 \<Rightarrow> ''s3'' | S4 \<Rightarrow> ''s4'' | S5 \<Rightarrow> ''s5'' | S6 \<Rightarrow> ''s6'' | S7 \<Rightarrow> ''s7''
      | S8 \<Rightarrow> ''s8'' | S9 \<Rightarrow> ''s9'' | S10 \<Rightarrow> ''s10'' | S11 \<Rightarrow> ''s11'' | T3 \<Rightarrow> ''t3'' | T4 \<Rightarrow> ''t4'' | T5 \<Rightarrow> ''t5'' | T6 \<Rightarrow> ''t6'')"

fun stores :: "instr list \<Rightarrow> (reg \<times> nat) list" where
  "stores [] = []"
| "stores (Sd r off b # is) = (r, off) # stores is"
| "stores (i # is) = stores is"

fun loads :: "instr list \<Rightarrow> (reg \<times> nat) list" where
  "loads [] = []"
| "loads (Ld r off b # is) = (r, off) # loads is"
| "loads (i # is) = loads is"

definition in_trapframe :: "reg \<times> nat \<Rightarrow> bool" where
  "in_trapframe x \<longleftrightarrow> (case x of (r, off) \<Rightarrow> off mod 8 = 0 \<and> off div 8 < length trapframe \<and> trapframe ! (off div 8) = reg_name r)"

definition all_regs :: "reg list" where
  "all_regs = [Ra, Sp, Gp, Tp, T0, T1, T2, S0, S1, A0, A1, A2, A3, A4, A5, A6, A7, S2, S3, S4, S5, S6, S7, S8, S9, S10, S11,
     T3, T4, T5, T6]"


section \<open>Saving and restoring\<close>

lemma run_code_simps [simp]:
  "run_code tr [] m = m" "run_code tr (i # is) m = run_code tr is (step_instr tr i m)"
  "run_code tr (is @ js) m = run_code tr js (run_code tr is m)"
  by (simp_all add: run_code_def)

text \<open>The memory after stores at the addresses \<open>a off\<close>.\<close>

definition saved :: "(nat \<Rightarrow> nat) \<Rightarrow> (reg \<Rightarrow> u64) \<Rightarrow> (reg \<times> nat) list \<Rightarrow> (nat \<Rightarrow> u8) \<Rightarrow> (nat \<Rightarrow> u8)" where
  "saved a g xs d = fold (\<lambda>(r, off). store64 (a off) (g r)) xs d"

lemma run_stores:
  "run_code tr (map (\<lambda>(r, off). Sd r off b) xs) m = m\<lparr>dram := saved (addr_of tr m b) (rg m) xs (dram m)\<rparr>"
proof (induction xs arbitrary: m)
  case (Cons x xs)
  then show ?case by (cases x) (simp add: saved_def addr_of_def)
qed (simp add: saved_def)

definition loaded :: "(nat \<Rightarrow> nat) \<Rightarrow> (nat \<Rightarrow> u8) \<Rightarrow> (reg \<times> nat) list \<Rightarrow> (reg \<Rightarrow> u64) \<Rightarrow> (reg \<Rightarrow> u64)" where
  "loaded a d xs g = fold (\<lambda>(r, off) g. g(r := load64 d (a off))) xs g"

lemma loaded_simps [simp]:
  "loaded a d [] g = g" "loaded a d ((r, off) # xs) g = loaded a d xs (g(r := load64 d (a off)))"
  by (simp_all add: loaded_def)

lemma run_loads:
  "b \<notin> fst ` set xs \<Longrightarrow>
   run_code tr (map (\<lambda>(r, off). Ld r off b) xs) m = m\<lparr>rg := loaded (addr_of tr m b) (dram m) xs (rg m)\<rparr>"
proof (induction xs arbitrary: m)
  case (Cons x xs)
  obtain r off where x: "x = (r, off)" by (cases x)
  let ?m = "step_instr tr (Ld r off b) m"
  have "r \<noteq> b" using Cons.prems x by auto
  then have "addr_of tr ?m b = addr_of tr m b" by (simp add: addr_of_def fun_eq_iff)
  then show ?case using Cons.IH [of ?m] Cons.prems by (simp add: x fun_upd_def)
qed simp

lemma loaded_other: "r \<notin> fst ` set xs \<Longrightarrow> loaded a d xs g r = g r"
  by (induction xs arbitrary: g) auto

lemma loaded_at: "(r, off) \<in> set xs \<Longrightarrow> distinct (map fst xs) \<Longrightarrow> loaded a d xs g r = load64 d (a off)"
proof (induction xs arbitrary: g)
  case (Cons x xs)
  obtain q off' where x: "x = (q, off')" by (cases x)
  show ?case
  proof (cases "(r, off) \<in> set xs")
    case True
    then show ?thesis using Cons by (simp add: x)
  next
    case False
    then have "q = r" "off' = off" "r \<notin> fst ` set xs" using Cons.prems x by auto
    then show ?thesis by (simp add: x loaded_other)
  qed
qed simp

text \<open>Words at different multiples of 8 from a base do not overlap.\<close>

definition words_at :: "(nat \<Rightarrow> nat) \<Rightarrow> nat \<Rightarrow> (reg \<times> nat) list \<Rightarrow> bool" where
  "words_at a base xs \<longleftrightarrow> distinct (map snd xs) \<and> (\<forall>(r, off) \<in> set xs. off mod 8 = 0 \<and> a off = base + off)"

lemma apart: "off mod 8 = 0 \<Longrightarrow> off' mod 8 = 0 \<Longrightarrow> off \<noteq> off' \<Longrightarrow> off' + 8 \<le> off \<or> off + 8 \<le> (off' :: nat)"
  by presburger

lemma saved_other:
  "(\<forall>(r, off) \<in> set xs. off mod 8 = 0 \<and> a off = base + off) \<Longrightarrow> off' mod 8 = 0 \<Longrightarrow> off' \<notin> snd ` set xs \<Longrightarrow>
   load64 (saved a g xs d) (base + off') = load64 d (base + off')"
proof (induction xs arbitrary: d)
  case (Cons x xs)
  obtain r off where x: "x = (r, off)" by (cases x)
  have "load64 (saved a g (x # xs) d) (base + off') = load64 (store64 (a off) (g r) d) (base + off')"
    using Cons by (simp add: saved_def x)
  also have "\<dots> = load64 d (base + off')"
    using Cons.prems apart [of off off'] by (intro load64_store64_other) (auto simp: x)
  finally show ?case .
qed (simp add: saved_def)

lemma saved_at:
  "words_at a base xs \<Longrightarrow> (r, off) \<in> set xs \<Longrightarrow> load64 (saved a g xs d) (base + off) = g r"
proof (induction xs arbitrary: d)
  case (Cons x xs)
  have w: "words_at a base xs" using Cons.prems(1) by (auto simp: words_at_def)
  show ?case
  proof (cases "(r, off) \<in> set xs")
    case True
    then show ?thesis using Cons.IH [OF w True] by (cases x) (simp add: saved_def)
  next
    case False
    then have x: "x = (r, off)" using Cons.prems(2) by auto
    then have "load64 (saved a g xs (store64 (a off) (g r) d)) (base + off) = load64 (store64 (a off) (g r) d) (base + off)"
      using Cons.prems(1) by (intro saved_other) (auto simp: words_at_def)
    also have "\<dots> = g r" using Cons.prems(1) x by (simp add: words_at_def)
    finally show ?thesis by (simp add: saved_def x)
  qed
qed simp

section \<open>Traps from user space\<close>

text \<open>\<open>tf\<close> is the physical address of the page that a user page table maps at \<open>TRAPFRAME\<close>.\<close>

definition maps_trapframe :: "trans \<Rightarrow> u64 \<Rightarrow> nat \<Rightarrow> bool" where
  "maps_trapframe tr satp tf \<longleftrightarrow> (\<forall>off < 4096. tr satp (TRAPFRAME + of_nat off) = tf + off)"

definition user_saves :: "(reg \<times> nat) list" where
  "user_saves = removeAll (A0, 112) (loads userret)"

lemma uservec_parts:
  "uservec = [Csrw Sscratch A0, Li A0 TRAPFRAME] @ map (\<lambda>(r, off). Sd r off A0) user_saves @
     [Csrr T0 Sscratch, Sd T0 112 A0, Ld Sp 8 A0, Ld Tp 32 A0, Ld T0 16 A0, Ld T1 0 A0, Sfence, Csrw Satp T1, Sfence, Jr T0]"
  by (simp add: uservec_def user_saves_def userret_def)

lemma userret_parts:
  "userret = [Sfence, Csrw Satp A0, Sfence, Li A0 TRAPFRAME] @ map (\<lambda>(r, off). Ld r off A0) user_saves @ [Ld A0 112 A0]"
  by (simp add: user_saves_def userret_def)

lemma user_saves_facts:
  "distinct (map fst user_saves)" "distinct (map snd user_saves)" "A0 \<notin> fst ` set user_saves"
  "list_all (\<lambda>(r, off). off mod 8 = 0 \<and> off < 288 \<and> 40 \<le> off \<and> off \<noteq> 112) user_saves" "r \<noteq> A0 \<Longrightarrow> r \<in> fst ` set user_saves"
  by (simp_all add: user_saves_def userret_def) (cases r; simp)

lemma user_words:
  assumes "maps_trapframe tr (csrs m Satp) tf" "rg m A0 = TRAPFRAME"
  shows "off < 4096 \<Longrightarrow> addr_of tr m A0 off = tf + off" "words_at (addr_of tr m A0) tf user_saves"
proof -
  show a: "addr_of tr m A0 off = tf + off" if "off < 4096" for off
    using assms that by (simp add: maps_trapframe_def addr_of_def)
  show "words_at (addr_of tr m A0) tf user_saves"
    using user_saves_facts(2,4) a by (force simp: words_at_def list_all_iff)
qed

text \<open>The memory after \<open>uservec\<close>, and what is in it.\<close>

definition trapped :: "nat \<Rightarrow> (reg \<Rightarrow> u64) \<Rightarrow> (nat \<Rightarrow> u8) \<Rightarrow> (nat \<Rightarrow> u8)" where
  "trapped tf g d = store64 (tf + 112) (g A0) (saved (\<lambda>off. tf + off) g user_saves d)"

lemma saved_cong:
  "(\<And>r off. (r, off) \<in> set xs \<Longrightarrow> a off = a' off \<and> g r = g' r) \<Longrightarrow> saved a g xs d = saved a' g' xs d"
  unfolding saved_def by (rule fold_cong) auto

lemma trapped_loads:
  "(r, off) \<in> set user_saves \<Longrightarrow> load64 (trapped tf g d) (tf + off) = g r"
  "load64 (trapped tf g d) (tf + 112) = g A0"
  "off \<in> {0, 8, 16, 24, 32} \<Longrightarrow> load64 (trapped tf g d) (tf + off) = load64 d (tf + off)"
proof -
  have w: "words_at (\<lambda>off. tf + off) tf user_saves" using user_saves_facts(2,4) by (auto simp: words_at_def list_all_iff)
  have eight: "off mod 8 = 0 \<and> 40 \<le> off \<and> off \<noteq> 112" if "(r, off) \<in> set user_saves" for r off
    using user_saves_facts(4) that by (auto simp: list_all_iff)
  show "load64 (trapped tf g d) (tf + off) = g r" if "(r, off) \<in> set user_saves" for r off
  proof -
    have "load64 (trapped tf g d) (tf + off) = load64 (saved (\<lambda>off. tf + off) g user_saves d) (tf + off)"
      unfolding trapped_def using eight [OF that] apart [of 112 off] by (intro load64_store64_other) auto
    then show ?thesis using saved_at [OF w that] by simp
  qed
  show "load64 (trapped tf g d) (tf + 112) = g A0" by (simp add: trapped_def)
  show "load64 (trapped tf g d) (tf + off) = load64 d (tf + off)" if "off \<in> {0, 8, 16, 24, 32}" for off
  proof -
    have "load64 (trapped tf g d) (tf + off) = load64 (saved (\<lambda>off. tf + off) g user_saves d) (tf + off)"
      unfolding trapped_def using that by (intro load64_store64_other) auto
    also have "\<dots> = load64 d (tf + off)"
      using eight that by (intro saved_other) force+
    finally show ?thesis .
  qed
qed

lemma uservec_run:
  assumes u: "maps_trapframe tr (csrs m Satp) tf"
  shows "dram (run_code tr uservec m) = trapped tf (rg m) (dram m)"
    "rg (run_code tr uservec m) Sp = load64 (dram m) (tf + 8)" "rg (run_code tr uservec m) Tp = load64 (dram m) (tf + 32)"
    "csrs (run_code tr uservec m) Satp = load64 (dram m) tf" "jump_to (run_code tr uservec m) = Some (load64 (dram m) (tf + 16))"
proof -
  let ?m0 = "m\<lparr>rg := (rg m)(A0 := TRAPFRAME), csrs := (csrs m)(Sscratch := rg m A0)\<rparr>"
  have "maps_trapframe tr (csrs ?m0 Satp) tf" "rg ?m0 A0 = TRAPFRAME" using u by simp_all
  note w = user_words [OF this]
  have tr: "tr (csrs m Satp) TRAPFRAME = tf" "tr (csrs m Satp) (TRAPFRAME + 8) = tf + 8"
      "tr (csrs m Satp) (TRAPFRAME + 16) = tf + 16" "tr (csrs m Satp) (TRAPFRAME + 32) = tf + 32"
      "tr (csrs m Satp) (TRAPFRAME + 112) = tf + 112"
    using u [unfolded maps_trapframe_def, rule_format, of 0] u [unfolded maps_trapframe_def, rule_format, of 8]
      u [unfolded maps_trapframe_def, rule_format, of 16] u [unfolded maps_trapframe_def, rule_format, of 32]
      u [unfolded maps_trapframe_def, rule_format, of 112] by simp_all
  have "saved (addr_of tr ?m0 A0) (rg ?m0) user_saves (dram m) = saved (\<lambda>off. tf + off) (rg m) user_saves (dram m)"
    using user_saves_facts(3,4) w(1) by (intro saved_cong) (force simp: list_all_iff)
  then have s: "run_code tr (map (\<lambda>(r, off). Sd r off A0) user_saves) ?m0 =
      ?m0\<lparr>dram := saved (\<lambda>off. tf + off) (rg m) user_saves (dram m)\<rparr>"
    by (simp add: run_stores)
  have "run_code tr [Csrw Sscratch A0, Li A0 TRAPFRAME] m = ?m0" by simp
  then have "run_code tr uservec m = run_code tr
      [Csrr T0 Sscratch, Sd T0 112 A0, Ld Sp 8 A0, Ld Tp 32 A0, Ld T0 16 A0, Ld T1 0 A0, Sfence, Csrw Satp T1, Sfence, Jr T0]
      (?m0\<lparr>dram := saved (\<lambda>off. tf + off) (rg m) user_saves (dram m)\<rparr>)"
    by (simp only: uservec_parts run_code_simps(3) s)
  then show "dram (run_code tr uservec m) = trapped tf (rg m) (dram m)"
    "rg (run_code tr uservec m) Sp = load64 (dram m) (tf + 8)" "rg (run_code tr uservec m) Tp = load64 (dram m) (tf + 32)"
    "csrs (run_code tr uservec m) Satp = load64 (dram m) tf" "jump_to (run_code tr uservec m) = Some (load64 (dram m) (tf + 16))"
    using trapped_loads(3) [of 8 tf "rg m" "dram m"] trapped_loads(3) [of 32 tf "rg m" "dram m"]
      trapped_loads(3) [of 16 tf "rg m" "dram m"] trapped_loads(3) [of 0 tf "rg m" "dram m"]
    by (simp_all add: addr_of_def tr trapped_def)
qed

text \<open>
  C15. A trap from user space enters the kernel with the kernel's stack, hart number, page table and handler
  from the trapframe, and \<open>userret\<close> gives the process back all 31 registers as they were and its page table,
  provided that the kernel has left the saved registers in the trapframe alone.
\<close>

theorem user_registers_survive_trap:
  assumes u: "maps_trapframe tr (csrs m Satp) tf"
    and k: "get_bytes (dram m2) (tf + 40) 248 = get_bytes (dram (run_code tr uservec m)) (tf + 40) 248"
    and a0: "rg m2 A0 = csrs m Satp"
  shows "rg (run_code tr userret m2) = rg m \<and> csrs (run_code tr userret m2) Satp = csrs m Satp \<and>
    rg (run_code tr uservec m) Sp = load64 (dram m) (tf + TF_kernel_sp) \<and>
    rg (run_code tr uservec m) Tp = load64 (dram m) (tf + TF_kernel_hartid) \<and>
    csrs (run_code tr uservec m) Satp = load64 (dram m) (tf + TF_kernel_satp) \<and>
    jump_to (run_code tr uservec m) = Some (load64 (dram m) (tf + TF_kernel_trap))"
proof -
  let ?d = "trapped tf (rg m) (dram m)" and ?m = "m2\<lparr>csrs := (csrs m2)(Satp := csrs m Satp), rg := (rg m2)(A0 := TRAPFRAME)\<rparr>"
  have "dram m2 (tf + 40 + i) = ?d (tf + 40 + i)" if "i < 248" for i
    using k uservec_run(1) [OF u] that by (auto simp: get_bytes_def)
  note eq = this
  have "dram m2 (tf + off + i) = ?d (tf + off + i)" if "40 \<le> off" "off + i < 288" for off i
    using eq [of "off - 40 + i"] that by (simp add: add.assoc)
  then have same: "load64 (dram m2) (tf + off) = load64 ?d (tf + off)" if "40 \<le> off" "off + 8 \<le> 288" for off
    using that by (intro load64_cong) auto
  have "maps_trapframe tr (csrs ?m Satp) tf" "rg ?m A0 = TRAPFRAME" using u by simp_all
  note w = user_words [OF this]
  have l: "run_code tr (map (\<lambda>(r, off). Ld r off A0) user_saves) ?m = ?m\<lparr>rg := loaded (addr_of tr ?m A0) (dram m2) user_saves (rg ?m)\<rparr>"
    using run_loads [OF user_saves_facts(3), of tr ?m] by simp
  have "run_code tr [Sfence, Csrw Satp A0, Sfence, Li A0 TRAPFRAME] m2 = ?m" using a0 by simp
  then have "run_code tr userret m2 = run_code tr [Ld A0 112 A0] (?m\<lparr>rg := loaded (addr_of tr ?m A0) (dram m2) user_saves (rg ?m)\<rparr>)"
    by (simp only: userret_parts run_code_simps(3) l)
  moreover have "addr_of tr (?m\<lparr>rg := loaded (addr_of tr ?m A0) (dram m2) user_saves (rg ?m)\<rparr>) A0 112 = tf + 112"
    using w(1) [of 112] loaded_other [OF user_saves_facts(3)] by (simp add: addr_of_def)
  ultimately have r: "rg (run_code tr userret m2) =
      (loaded (addr_of tr ?m A0) (dram m2) user_saves (rg ?m))(A0 := load64 (dram m2) (tf + 112))"
    and c: "csrs (run_code tr userret m2) Satp = csrs m Satp"
    by simp_all
  have "rg (run_code tr userret m2) q = rg m q" for q
  proof (cases "q = A0")
    case True
    then show ?thesis using r same [of 112] trapped_loads(2) by simp
  next
    case False
    then obtain off where o: "(q, off) \<in> set user_saves" using user_saves_facts(5) [of q] by force
    then have b: "40 \<le> off" "off mod 8 = 0" "off < 288" using user_saves_facts(4) by (auto simp: list_all_iff)
    then have "off + 8 \<le> 288" by presburger
    then show ?thesis
      using False b r same [of off] w(1) [of off] loaded_at [OF o user_saves_facts(1)] trapped_loads(1) [OF o] by simp
  qed
  then have "rg (run_code tr userret m2) = rg m" ..
  then show ?thesis
    using c uservec_run(2-5) [OF u]
    by (simp add: TF_kernel_sp_def TF_kernel_hartid_def TF_kernel_satp_def TF_kernel_trap_def)
qed

text \<open>A process whose trapframe is at the physical address 0, with a0 = 7 and all other registers 5.\<close>

definition sample_trans :: trans where
  "sample_trans satp va = unat (va - TRAPFRAME)"

definition sample_mach :: mach where
  "sample_mach = \<lparr>rg = (\<lambda>_. 5)(A0 := 7), csrs = (\<lambda>_. 1), dram = (\<lambda>_. 0), jump_to = None\<rparr>"

definition sample_return :: mach where
  "sample_return = (run_code sample_trans uservec sample_mach)\<lparr>rg := (\<lambda>_. 0)(A0 := 1)\<rparr>"

theorem user_registers_survive_trap_witness:
  "maps_trapframe sample_trans (csrs sample_mach Satp) 0 \<and>
   rg (run_code sample_trans userret sample_return) A0 = 7 \<and> rg (run_code sample_trans userret sample_return) T6 = 5 \<and>
   csrs (run_code sample_trans userret sample_return) Satp = 1"
proof -
  have u: "maps_trapframe sample_trans (csrs sample_mach Satp) 0"
    by (auto simp: maps_trapframe_def sample_trans_def unat_of_nat take_bit_eq_mod)
  show ?thesis
    using u user_registers_survive_trap [OF u, of sample_return] by (simp add: sample_return_def sample_mach_def)
qed

section \<open>Context switches\<close>

definition callee_saves :: "(reg \<times> nat) list" where
  "callee_saves = loads swtch"

lemma swtch_parts:
  "swtch = map (\<lambda>(r, off). Sd r off A0) callee_saves @ map (\<lambda>(r, off). Ld r off A1) callee_saves @ [Jr Ra]"
  by (simp add: callee_saves_def swtch_def)

lemma callee_saves_facts:
  "distinct (map fst callee_saves)" "distinct (map snd callee_saves)" "A1 \<notin> fst ` set callee_saves"
  "list_all (\<lambda>(r, off). off mod 8 = 0 \<and> off < 112) callee_saves" "(Ra, 0) \<in> set callee_saves"
  by (simp_all add: callee_saves_def swtch_def)

text \<open>\<open>c\<close> is the physical address of the \<open>struct context\<close> that the register \<open>b\<close> points to.\<close>

definition maps_context :: "trans \<Rightarrow> mach \<Rightarrow> reg \<Rightarrow> nat \<Rightarrow> bool" where
  "maps_context tr m b c \<longleftrightarrow> (\<forall>off < 112. addr_of tr m b off = c + off)"

lemma context_words: "maps_context tr m b c \<Longrightarrow> words_at (addr_of tr m b) c callee_saves"
  using callee_saves_facts(2,4) by (auto simp: words_at_def maps_context_def list_all_iff)

lemma saved_apart:
  "(\<forall>(r, off) \<in> set xs. a off + 8 \<le> x \<or> x + 8 \<le> a off) \<Longrightarrow> load64 (saved a g xs d) x = load64 d x"
proof (induction xs arbitrary: d)
  case (Cons y xs)
  then show ?case by (cases y) (auto simp: saved_def load64_store64_other)
qed (simp add: saved_def)

lemma swtch_run:
  assumes "maps_context tr m A1 c"
  shows "(r, off) \<in> set callee_saves \<Longrightarrow>
      rg (run_code tr swtch m) r = load64 (saved (addr_of tr m A0) (rg m) callee_saves (dram m)) (c + off)"
    "dram (run_code tr swtch m) = saved (addr_of tr m A0) (rg m) callee_saves (dram m)"
    "jump_to (run_code tr swtch m) = Some (rg (run_code tr swtch m) Ra)"
proof -
  let ?d = "saved (addr_of tr m A0) (rg m) callee_saves (dram m)"
  let ?m = "m\<lparr>dram := ?d\<rparr>"
  have a: "addr_of tr ?m A1 off = c + off" if "off < 112" for off
    using assms that by (simp add: maps_context_def addr_of_def)
  have run: "run_code tr swtch m = run_code tr [Jr Ra] (?m\<lparr>rg := loaded (addr_of tr ?m A1) ?d callee_saves (rg m)\<rparr>)"
    using run_loads [OF callee_saves_facts(3), of tr ?m] by (simp only: swtch_parts run_code_simps(3) run_stores) simp
  show "rg (run_code tr swtch m) r = load64 ?d (c + off)" if "(r, off) \<in> set callee_saves" for r off
    using that callee_saves_facts(4) a loaded_at [OF that callee_saves_facts(1)] by (auto simp: run list_all_iff)
  show "dram (run_code tr swtch m) = ?d" "jump_to (run_code tr swtch m) = Some (rg (run_code tr swtch m) Ra)"
    by (simp_all add: run)
qed

text \<open>
  C16. \<open>swtch(old, new)\<close> suspends a thread until some later \<open>swtch(other, old)\<close> resumes it: that call returns to
  where the thread had called \<open>swtch\<close>, with its stack pointer and s0 to s11, provided that the bytes of its
  \<open>struct context\<close> were left alone in between and that \<open>other\<close> is elsewhere in memory.
\<close>

theorem swtch_resumes:
  assumes old: "maps_context tr m A0 c" and new: "maps_context tr m A1 c1" "c + 112 \<le> c1 \<or> c1 + 112 \<le> c"
    and return: "maps_context tr m2 A1 c" "maps_context tr m2 A0 c2" "c + 112 \<le> c2 \<or> c2 + 112 \<le> c"
    and same: "get_bytes (dram m2) c 112 = get_bytes (dram (run_code tr swtch m)) c 112"
    and r: "r \<in> {Ra, Sp, S0, S1, S2, S3, S4, S5, S6, S7, S8, S9, S10, S11}"
  shows "rg (run_code tr swtch m2) r = rg m r \<and> jump_to (run_code tr swtch m2) = Some (rg m Ra)"
proof -
  let ?d = "saved (addr_of tr m A0) (rg m) callee_saves (dram m)"
  have d: "dram m2 (c + i) = ?d (c + i)" if "i < 112" for i
    using same swtch_run(2) [OF new(1)] that by (auto simp: get_bytes_def)
  have reg: "rg (run_code tr swtch m2) q = rg m q" if q: "(q, off) \<in> set callee_saves" for q off
  proof -
    have off: "off mod 8 = 0" "off < 112" using callee_saves_facts(4) q by (auto simp: list_all_iff)
    then have off8: "off + 8 \<le> 112" by presburger
    have "rg (run_code tr swtch m2) q = load64 (dram m2) (c + off)"
      unfolding swtch_run(1) [OF return(1) q] using return(2,3) off8 callee_saves_facts(4)
      by (intro saved_apart) (fastforce simp: maps_context_def list_all_iff)
    also have "\<dots> = load64 ?d (c + off)" using d off8 by (intro load64_cong) (simp add: add.assoc)
    also have "\<dots> = rg m q" by (rule saved_at [OF context_words [OF old] q])
    finally show ?thesis .
  qed
  have "\<exists>off. (r, off) \<in> set callee_saves" using r by (auto simp: callee_saves_def swtch_def)
  then show ?thesis using reg callee_saves_facts(5) swtch_run(3) [OF return(1)] by auto
qed

text \<open>A thread with ra = 9 whose context is at 0, switched to a context at 200 and back.\<close>

definition flat :: trans where
  "flat satp va = unat va"

definition sample_thread :: mach where
  "sample_thread = \<lparr>rg = (\<lambda>_. 5)(A0 := 0, A1 := 200, Ra := 9), csrs = (\<lambda>_. 1), dram = (\<lambda>_. 0), jump_to = None\<rparr>"

definition sample_back :: mach where
  "sample_back = (run_code flat swtch sample_thread)\<lparr>rg := (\<lambda>_. 3)(A0 := 200, A1 := 0)\<rparr>"

theorem swtch_resumes_witness:
  "rg (run_code flat swtch sample_back) S11 = 5 \<and> jump_to (run_code flat swtch sample_back) = Some 9"
proof -
  have a: "unat (of_nat off :: u64) = off" "unat (200 + of_nat off :: u64) = 200 + off" if "off < 112" for off
  proof -
    show "unat (of_nat off :: u64) = off" using that by (simp add: unat_of_nat take_bit_eq_mod)
    have "unat (of_nat (200 + off) :: u64) = 200 + off" using that unfolding unat_of_nat by (simp add: take_bit_eq_mod)
    then show "unat (200 + of_nat off :: u64) = 200 + off" by simp
  qed
  have "maps_context flat sample_thread A0 0" "maps_context flat sample_thread A1 200"
    "maps_context flat sample_back A0 200" "maps_context flat sample_back A1 0"
    using a by (simp_all add: maps_context_def addr_of_def flat_def sample_thread_def sample_back_def)
  note r = swtch_resumes [OF this(1) this(2) _ this(4) this(3)]
  show ?thesis using r [of S11] by (simp add: sample_back_def sample_thread_def)
qed

end
