(* ===== verification/Ulib.thy ===== *)
theory Ulib
  imports Kstring Printf
begin

text \<open>
  The C library of user programs (\<^verbatim>\<open>src/user/ulib.c\<close>). The copying routines work on a byte store as those
  of the kernel do; the routines that only read a string take the characters before its terminating zero.
  The names carry a \<open>u\<close> where the kernel has a function of the same name.
\<close>

section \<open>Definitions\<close>

partial_function (option) ustrcpy :: "nat \<Rightarrow> nat \<Rightarrow> mem \<Rightarrow> mem option" where
  "ustrcpy s t m =
     (let m' = m(s := m t) in if m t \<noteq> 0 then ustrcpy (s + 1) (t + 1) m' else Some m')"

fun strcmp :: "string \<Rightarrow> string \<Rightarrow> int" where
  "strcmp [] [] = 0"
| "strcmp [] (d # q) = - int (of_char d)"
| "strcmp (c # p) [] = int (of_char c)"
| "strcmp (c # p) (d # q) = (if c = d then strcmp p q else int (of_char c) - int (of_char d))"

primrec ustrlen_loop :: "string \<Rightarrow> nat \<Rightarrow> nat" where
  "ustrlen_loop [] n = n"
| "ustrlen_loop (c # s) n = ustrlen_loop s (n + 1)"

definition ustrlen :: "string \<Rightarrow> nat" where
  "ustrlen s = ustrlen_loop s 0"

definition umemset :: "mem \<Rightarrow> nat \<Rightarrow> u32 \<Rightarrow> nat \<Rightarrow> mem" where
  "umemset m dst c n = fold (\<lambda>i m. m(dst + i := ucast c)) [0..<n] m"

text \<open>The result of \<open>strchr\<close> is the string from the character on.\<close>

primrec strchr :: "string \<Rightarrow> char \<Rightarrow> string option" where
  "strchr [] c = None"
| "strchr (d # s) c = (if d = c then Some (d # s) else strchr s c)"

text \<open>
  \<open>gets\<close> with room for \<open>k\<close> more characters: what it puts into the buffer, and the input left. Reading a
  character fails at the end of the input.
\<close>

fun gets_loop :: "nat \<Rightarrow> string \<Rightarrow> string \<times> string" where
  "gets_loop 0 input = ([], input)"
| "gets_loop (Suc k) [] = ([], [])"
| "gets_loop (Suc k) (c # input) =
     (if c = CHR 0x0A \<or> c = CHR 0x0D then ([c], input)
      else let (line, rest) = gets_loop k input in (c # line, rest))"

definition gets :: "int \<Rightarrow> string \<Rightarrow> string \<times> string" where
  "gets max_len input = gets_loop (nat (max_len - 1)) input"

text \<open>\<open>n * 10 + *s++ - '0'\<close> is computed in an \<open>int\<close>.\<close>

primrec atoi_loop :: "string \<Rightarrow> u32 \<Rightarrow> u32" where
  "atoi_loop [] n = n"
| "atoi_loop (c # s) n =
     (if (48::nat) \<le> of_char c \<and> of_char c \<le> (57::nat) then atoi_loop s (n * 10 + of_char c - 48) else n)"

definition atoi :: "string \<Rightarrow> u32" where
  "atoi s = atoi_loop s 0"

definition umemmove :: "mem \<Rightarrow> nat \<Rightarrow> nat \<Rightarrow> int \<Rightarrow> mem" where
  "umemmove m vdst vsrc n =
     (if vsrc > vdst then copy_forward vdst vsrc (nat n) m else copy_backward vdst vsrc (nat n) m)"

fun umemcmp :: "mem \<Rightarrow> nat \<Rightarrow> nat \<Rightarrow> nat \<Rightarrow> int" where
  "umemcmp m s1 s2 0 = 0"
| "umemcmp m s1 s2 (Suc n) =
     (if m s1 \<noteq> m s2 then uint (m s1) - uint (m s2) else umemcmp m (s1 + 1) (s2 + 1) n)"

definition umemcpy :: "mem \<Rightarrow> nat \<Rightarrow> nat \<Rightarrow> nat \<Rightarrow> mem" where
  "umemcpy m dst src n = umemmove m dst src (int n)"

section \<open>Properties\<close>

lemma ustrlen_length: "ustrlen s = length s"
proof -
  have "ustrlen_loop s n = n + length s" for n by (induction s arbitrary: n) auto
  then show ?thesis by (simp add: ustrlen_def)
qed

lemma of_char_zero: "of_char c = (0::nat) \<longleftrightarrow> c = CHR 0x00"
proof -
  have "of_char (CHR 0x00) = (0::nat)" by simp
  then show ?thesis by (metis of_char_eq_iff)
qed

lemma strcmp_zero: "strcmp p q = 0 \<Longrightarrow> CHR 0x00 \<notin> set (p @ q) \<Longrightarrow> p = q"
  by (induction p q rule: strcmp.induct) (auto simp: of_char_zero split: if_splits)

text \<open>The user version of \<open>memmove\<close> copies correctly for every overlap, like that of the kernel.\<close>

lemma umemmove_eq:
  "umemmove m dst src n = (\<lambda>a. if dst \<le> a \<and> a < dst + nat n then m (src + (a - dst)) else m a)"
  using copy_backward_eq [of src dst "nat n" m] copy_forward_eq [of dst src "nat n" m]
  by (auto simp: umemmove_def)

lemma gets_bounded:
  assumes "gets_loop k input = (line, rest)"
  shows "input = line @ rest \<and> length line \<le> k \<and>
    (length line < k \<longrightarrow> rest = [] \<or> line \<noteq> [] \<and> (last line = CHR 0x0A \<or> last line = CHR 0x0D))"
  using assms
  by (induction k input arbitrary: line rest rule: gets_loop.induct) (auto split: if_splits prod.splits)

text \<open>\<open>atoi\<close> on the numerals that \<open>printint\<close> prints.\<close>

lemma digit_char:
  assumes "d < 10"
  shows "of_char (user_digits ! d) = (48 + d :: nat)" "of_char (user_digits ! d) = (of_nat (48 + d) :: u32)"
proof -
  have "list_all (\<lambda>d. of_char (user_digits ! d) = (48 + d :: nat)) [0..<10]" by code_simp
  then show c: "of_char (user_digits ! d) = (48 + d :: nat)" using assms by (simp add: list_all_iff del: upt_Suc)
  show "of_char (user_digits ! d) = (of_nat (48 + d) :: u32)"
    using arg_cong [OF c, of "of_nat :: nat \<Rightarrow> u32"] by (simp only: of_nat_of_char)
qed

lemma atoi_digit_loop:
  "atoi_loop (rev (digit_loop user_digits 10 x) @ s) n =
     atoi_loop s (n * 10 ^ length (digit_loop user_digits 10 x) + of_nat x)"
proof (induction x arbitrary: s rule: less_induct)
  case (less x)
  have d: "x mod 10 < 10" by simp
  have step: "atoi_loop (user_digits ! (x mod 10) # s) m = atoi_loop s (m * 10 + of_nat (x mod 10))" for m
  proof -
    have "x mod 10 \<le> 9" using d by linarith
    then show ?thesis using digit_char [OF d] by (simp add: algebra_simps)
  qed
  show ?case
  proof (cases "x div 10 = 0")
    case True
    then have "x mod 10 = x" by simp
    then show ?thesis using True step [of n] by (subst (1 2) digit_loop.simps) simp
  next
    case False
    then have "x div 10 < x" by simp
    have "atoi_loop (rev (digit_loop user_digits 10 x) @ s) n =
        atoi_loop (user_digits ! (x mod 10) # s)
          (n * 10 ^ length (digit_loop user_digits 10 (x div 10)) + of_nat (x div 10))"
      using less.IH [OF \<open>x div 10 < x\<close>, of "user_digits ! (x mod 10) # s"] False
      by (subst digit_loop.simps) simp
    also have "\<dots> = atoi_loop s (n * 10 ^ length (digit_loop user_digits 10 x) + of_nat x)"
    proof -
      have "of_nat (x div 10 * 10 + x mod 10) = (of_nat x :: u32)" by (simp only: div_mult_mod_eq)
      then have e: "(of_nat x :: u32) = of_nat (x div 10) * 10 + of_nat (x mod 10)" by (metis of_nat_add of_nat_mult of_nat_numeral)
      have l: "length (digit_loop user_digits 10 x) = Suc (length (digit_loop user_digits 10 (x div 10)))"
        using False by (subst digit_loop.simps) simp
      show ?thesis unfolding step l e by (simp add: algebra_simps)
    qed
    finally show ?thesis .
  qed
qed

text \<open>
  C35. \<open>atoi\<close> undoes \<open>printf("%d")\<close> on the non-negative numbers: the numeral that the user library prints
  for an \<open>int\<close> that is not negative is read back by \<open>atoi\<close> as the same number.
\<close>

theorem atoi_printint:
  assumes "\<not> xx <s 0"
  shows "\<exists>cs. vprintf str False ''%d'' [ucast xx] = Ret cs \<and> atoi cs = xx"
proof -
  let ?buf = "digit_loop user_digits 10 (unat xx)"
  have "unat xx < 2 ^ LENGTH(32)" by (rule unsigned_less)
  then have "length ?buf \<le> Suc 9" by (intro digit_loop_length) simp_all
  then have "user_printint xx 10 True = Ret (rev ?buf)"
    using assms by (simp add: user_printint_def flush_buf_def Let_def)
  moreover have "ucast (ucast xx :: u64) = xx" by (auto simp: bit_eq_iff bit_simps)
  ultimately have "vprintf str False ''%d'' [ucast xx] = Ret (rev ?buf)" by (simp add: va_arg_def)
  moreover have "atoi (rev ?buf) = xx" using atoi_digit_loop [of "unat xx" "[]" 0] by (simp add: atoi_def)
  ultimately show ?thesis by blast
qed

theorem atoi_printint_witness:
  "vprintf (\<lambda>_. []) False ''%d'' [1045] = Ret ''1045'' \<and> atoi ''1045'' = 1045"
proof -
  have "\<exists>cs. vprintf (\<lambda>_. []) False ''%d'' [ucast (1045 :: u32)] = Ret cs \<and> atoi cs = 1045"
    by (rule atoi_printint) (simp add: word_sless_alt)
  moreover have "vprintf (\<lambda>_. []) False ''%d'' [1045] = Ret ''1045''"
    by (simp add: va_arg_def user_printint_def digit_loop.simps flush_buf_def user_digits_def word_sless_alt)
  ultimately show ?thesis by simp
qed

end
