(* ===== verification/Vm_User.thy ===== *)
theory Vm_User
  imports Vm_Maps
begin

text \<open>
  Mapping and unmapping pages. \<open>vm_ok\<close> ties a page table to the page allocator: its tables are pages the
  allocator has handed out. \<open>mappages\<close> changes the map of the page table and takes pages for tables only;
  \<open>uvmalloc\<close> adds zeroed pages, and when memory runs out it gives back the ones it took.
\<close>

section \<open>Walking with allocation\<close>

definition vm_ok :: "vmst \<Rightarrow> nat \<Rightarrow> nat set \<Rightarrow> bool" where
  "vm_ok s root P \<longleftrightarrow> pt_wf (ram s) root \<and> pages_out (kheap s) P \<and> tables (ram s) root \<subseteq> P"

definition no_memory :: "vmst \<Rightarrow> bool" where
  "no_memory s \<longleftrightarrow> kalloc (kheap s) = Ret (nullptr, kheap s)"

text \<open>
  From \<open>s\<close> with the pages \<open>P\<close> handed out to \<open>s'\<close> with \<open>P'\<close>: the page table stands for the map \<open>f\<close>, the
  new pages are tables, and memory outside the tables is the same.
\<close>

definition vm_to :: "nat \<Rightarrow> vmst \<Rightarrow> nat set \<Rightarrow> (u64 \<Rightarrow> u64 option) \<Rightarrow> vmst \<Rightarrow> nat set \<Rightarrow> bool" where
  "vm_to root s P f s' P' \<longleftrightarrow>
     vm_ok s' root P' \<and> P \<subseteq> P' \<and> tables (ram s') root = tables (ram s) root \<union> (P' - P) \<and> pmap (ram s') root = f \<and>
     (\<forall>x. \<not> in_tables (ram s') root x \<longrightarrow> ram s' x = ram s x)"

lemma vm_to_refl: "vm_ok s root P \<Longrightarrow> vm_to root s P (pmap (ram s) root) s P"
  by (simp add: vm_to_def)

lemma vm_to_trans:
  assumes "vm_to root s P f s1 P1" "vm_to root s1 P1 g s2 P2"
  shows "vm_to root s P g s2 P2"
  using assms by (auto simp: vm_to_def in_tables_def)

definition next_table :: "bool \<Rightarrow> nat \<Rightarrow> (vmst, nat option) kmon" where
  "next_table alloc pte =
     bindK (read64 pte) (\<lambda>e.
     if e AND PTE_V \<noteq> 0 then retK (Some (PTE2PA e))
     else if \<not> alloc then retK None
     else bindK vm_kalloc (\<lambda>p.
       if p = nullptr then retK None
       else thenK (zero_page p) (thenK (write64 pte (PA2PTE p OR PTE_V)) (retK (Some p)))))"

lemma walk_levels_next:
  "walk_levels alloc va (level # ls) p =
     bindK (next_table alloc (p + 8 * PX level va)) (\<lambda>r. case r of None \<Rightarrow> retK None | Some q \<Rightarrow> walk_levels alloc va ls q)"
  by (auto simp: next_table_def bindK_assoc thenK_assoc Let_def fun_eq_iff bindK_def thenK_def bindR_def split: sum.split)

lemma zero_page_run: "p \<noteq> nullptr \<Longrightarrow> zero_page p s = Ret ((), s\<lparr>ram := put_bytes p (replicate PGSIZE 0) (ram s)\<rparr>)"
  by (simp add: zero_page_def write_bytes_def)

lemma page_iff: "pages_out b P \<Longrightarrow> p \<in> P \<Longrightarrow> page p"
  using kmem.page_law by (auto simp: page_def)

lemma next_table_ok:
  assumes s: "vm_ok s root P" and p: "tbl (ram s) root xs = Some p" "path_ok (xs @ [i])"
  shows "ok (next_table True (p + 8 * i)) s (\<lambda>r s'. \<exists>P'. vm_to root s P (pmap (ram s) root) s' P' \<and>
    (case r of None \<Rightarrow> no_memory s' | Some q \<Rightarrow> tbl (ram s') root (xs @ [i]) = Some q))"
proof (cases "child (ram s) p i")
  case (Some q)
  then have "next_table True (p + 8 * i) s = Ret (Some q, s)"
    by (auto simp: next_table_def child_def read64_def Let_def split: if_splits)
  moreover have "tbl (ram s) root (xs @ [i]) = Some q" using p Some by (simp add: tbl_append)
  ultimately show ?thesis using vm_to_refl [OF s] by (intro okI) auto
next
  case None
  note S = s [unfolded vm_ok_def]
  have e: "load64 (ram s) (p + 8 * i) AND PTE_V = 0" using None by (auto simp: child_def Let_def split: if_splits)
  obtain q b where q: "kalloc (kheap s) = Ret (q, b)"
    "q = nullptr \<and> b = kheap s \<or> q \<noteq> nullptr \<and> q \<notin> P \<and> pages_out b (insert q P)"
    using kmem.alloc_law S by blast
  show ?thesis
  proof (cases "q = nullptr")
    case True
    then have "next_table True (p + 8 * i) s = Ret (None, s)"
      using q e by (simp add: next_table_def read64_def vm_kalloc_def bindK_def)
    moreover have "no_memory s" using True q by (simp add: no_memory_def)
    ultimately show ?thesis using vm_to_refl [OF s] by (intro okI) auto
  next
    case False
    then have b: "q \<notin> P" "pages_out b (insert q P)" using q(2) by auto
    let ?s = "s\<lparr>kheap := b, ram := with_table p i q (ram s)\<rparr>"
    have "next_table True (p + 8 * i) s = Ret (Some q, ?s)"
      using q(1) False e
      by (simp add: next_table_def read64_def vm_kalloc_def bindK_def thenK_def zero_page_run write64_def with_table_def)
    moreover have pq: "page q" "q \<notin> tables (ram s) root" using page_iff [OF b(2)] b(1) S by auto
    note grow = grow_wf [OF _ p None pq] tbl_grow [OF _ p None pq p(2)]
    have "vm_to root s P (pmap (ram s) root) ?s (insert q P)"
      using grow S b by (auto simp: vm_to_def vm_ok_def)
    ultimately show ?thesis using grow(5) S by (intro okI) auto
  qed
qed

lemma walk_alloc_ok:
  assumes s: "vm_ok s root P" and va: "va < MAXVA"
  shows "ok (walk root va True) s (\<lambda>r s'. \<exists>P'. vm_to root s P (pmap (ram s) root) s' P' \<and>
    (case r of None \<Rightarrow> no_memory s'
     | Some a \<Rightarrow> \<exists>p. tbl (ram s') root [PX 2 va, PX 1 va] = Some p \<and> a = p + 8 * PX 0 va))"
proof -
  have path: "path_ok ([] @ [PX 2 va])" "path_ok ([PX 2 va] @ [PX 1 va])" by (auto simp: path_ok_def PX_less)
  obtain r1 s1 P1 where 1: "next_table True (root + 8 * PX 2 va) s = Ret (r1, s1)" "vm_to root s P (pmap (ram s) root) s1 P1"
    "case r1 of None \<Rightarrow> no_memory s1 | Some q \<Rightarrow> tbl (ram s1) root [PX 2 va] = Some q"
    using next_table_ok [OF s tbl.simps(1) path(1), unfolded append_Nil] by (elim okE exE conjE) (simp only: that)
  have W: "walk root va True s = (case r1 of None \<Rightarrow> retK None | Some q \<Rightarrow> walk_levels True va [1] q) s1"
    using va 1(1) by (simp add: walk_def walk_levels_next not_le [symmetric] bindK_def del: walk_levels.simps One_nat_def)
  show ?thesis
  proof (cases r1)
    case None
    then show ?thesis using W 1 by (intro okI [of _ _ None s1]) auto
  next
    case (Some q)
    then have q: "tbl (ram s1) root [PX 2 va] = Some q" using 1(3) by simp
    have "vm_ok s1 root P1" using 1(2) by (simp add: vm_to_def)
    then obtain r2 s2 P2 where 2: "next_table True (q + 8 * PX 1 va) s1 = Ret (r2, s2)"
      "vm_to root s1 P1 (pmap (ram s1) root) s2 P2"
      "case r2 of None \<Rightarrow> no_memory s2 | Some q \<Rightarrow> tbl (ram s2) root [PX 2 va, PX 1 va] = Some q"
      using next_table_ok [OF _ q path(2), unfolded append_Cons append_Nil, THEN okE] by blast
    have "vm_to root s P (pmap (ram s) root) s2 P2" using vm_to_trans [OF 1(2) 2(2)] 1(2) by (simp add: vm_to_def)
    moreover have "walk root va True s = Ret (map_option (\<lambda>p. p + 8 * PX 0 va) r2, s2)"
      using W Some 2(1) by (cases r2) (simp_all add: walk_levels_next bindK_def del: walk_levels.simps(2) One_nat_def)
    ultimately show ?thesis using 2(3) by (intro okI) (auto split: option.splits simp del: tbl.simps)
  qed
qed

section \<open>Mapping pages\<close>

definition map_set :: "(u64 \<Rightarrow> u64 option) \<Rightarrow> u64 \<Rightarrow> u64 option \<Rightarrow> (u64 \<Rightarrow> u64 option)" where
  "map_set f va e = (\<lambda>vb. if pg_down vb = pg_down va then e else f vb)"

lemma pmap_pg_down: "pg_down vb = pg_down va \<Longrightarrow> pmap m root vb = pmap m root va"
proof -
  assume a: "pg_down vb = pg_down va"
  then have "PX l vb = PX l va" for l by (metis PX_pg_down)
  moreover have "MAXVA \<le> vb \<longleftrightarrow> MAXVA \<le> va" using a pg_down_less_MAXVA by (metis not_le)
  ultimately show ?thesis by (simp only: pmap_def)
qed

text \<open>Storing an entry through the address that \<open>walk\<close> gave.\<close>

lemma write_leaf:
  assumes s: "vm_ok s root P" and va: "va < MAXVA" and p: "tbl (ram s) root [PX 2 va, PX 1 va] = Some p"
    and s'_def: "s' = s\<lparr>ram := store64 (p + 8 * PX 0 va) e (ram s)\<rparr>"
  shows "write64 (p + 8 * PX 0 va) e s = Ret ((), s')"
    and "vm_to root s P (map_set (pmap (ram s) root) va (if e AND PTE_V \<noteq> 0 then Some e else None)) s' P"
proof -
  note S = s [unfolded vm_ok_def]
  show "write64 (p + 8 * PX 0 va) e s = Ret ((), s')" by (simp add: write64_def s'_def)
  note leaf = leaf_wf [OF _ va p refl, where e = e]
  show "vm_to root s P (map_set (pmap (ram s) root) va (if e AND PTE_V \<noteq> 0 then Some e else None)) s' P"
    using S leaf(2-5) by (auto simp: vm_to_def vm_ok_def s'_def map_set_def fun_eq_iff in_tables_def)
qed

lemma map_page_ok:
  assumes s: "vm_ok s root P" and va: "va < MAXVA" and free: "pmap (ram s) root va = None"
  shows "ok (map_page root perm va pa) s (\<lambda>r s'. \<exists>P'.
    r = 0 \<and> vm_to root s P (map_set (pmap (ram s) root) va (Some (PA2PTE pa OR perm OR PTE_V))) s' P' \<or>
    r = -1 \<and> vm_to root s P (pmap (ram s) root) s' P' \<and> no_memory s')"
proof -
  obtain r s1 P1 where 1: "walk root va True s = Ret (r, s1)" "vm_to root s P (pmap (ram s) root) s1 P1"
    "case r of None \<Rightarrow> no_memory s1 | Some a \<Rightarrow> \<exists>p. tbl (ram s1) root [PX 2 va, PX 1 va] = Some p \<and> a = p + 8 * PX 0 va"
    using walk_alloc_ok [OF s va] by (auto elim!: okE simp del: tbl.simps)
  show ?thesis
  proof (cases r)
    case None
    then show ?thesis using 1 by (intro okI [of _ _ "-1" s1]) (auto simp: map_page_def bindK_def)
  next
    case (Some a)
    then obtain p where p: "tbl (ram s1) root [PX 2 va, PX 1 va] = Some p" "a = p + 8 * PX 0 va" using 1(3) by (auto simp del: tbl.simps)
    have v: "vm_ok s1 root P1" and same: "pmap (ram s1) root = pmap (ram s) root" using 1(2) by (auto simp: vm_to_def)
    have "load64 (ram s1) a AND PTE_V = 0"
      using free va p unfolding same [symmetric] pmap_def p(1) by (auto simp: Let_def not_le [symmetric] split: if_splits)
    moreover note w = write_leaf [OF v va p(1) refl, of "PA2PTE pa OR perm OR PTE_V"]
    moreover have "(PA2PTE pa OR perm OR PTE_V) AND PTE_V \<noteq> 0" using PTE_V_flag(2) [of "PA2PTE pa OR perm"] by (simp add: or.assoc)
    ultimately show ?thesis
      using 1 Some p(2) vm_to_trans [OF 1(2) w(2)] same
      by (intro okI [of _ _ 0]) (auto simp: map_page_def bindK_def thenK_def read64_def)
  qed
qed

text \<open>The map after the first \<open>k\<close> pages from \<open>a\<close> are mapped to the memory from \<open>pa\<close> on.\<close>

definition map_range :: "(u64 \<Rightarrow> u64 option) \<Rightarrow> u64 \<Rightarrow> nat \<Rightarrow> (nat \<Rightarrow> u64 option) \<Rightarrow> (u64 \<Rightarrow> u64 option)" where
  "map_range f a k g = (\<lambda>vb. let n = unat vb div PGSIZE; n0 = unat a div PGSIZE in
     if n0 \<le> n \<and> n < n0 + k then g (n - n0) else f vb)"

definition page_addr :: "u64 \<Rightarrow> nat \<Rightarrow> u64" where
  "page_addr a k = a + of_nat k * 4096"

lemma page_addr_unat:
  assumes "unat a + k * PGSIZE < 2 ^ 64"
  shows "unat (page_addr a k) = unat a + k * PGSIZE"
proof -
  have "page_addr a k = a + of_nat (k * PGSIZE)" by (simp add: page_addr_def PGSIZE_def)
  then show ?thesis using assms by (simp add: unat_word_ariths unat_of_nat del: of_nat_mult)
qed

lemma page_addr_Suc: "page_addr (a + 4096) k = page_addr a (Suc k)"
  by (simp add: page_addr_def algebra_simps)

lemma map_range_0 [simp]: "map_range f a 0 g = f"
  by (auto simp: map_range_def Let_def fun_eq_iff)

lemma map_range_Suc:
  assumes "unat a + k * PGSIZE < 2 ^ 64"
  shows "map_set (map_range f a k g) (page_addr a k) (g k) = map_range f a (Suc k) g"
proof -
  have "unat (page_addr a k) div PGSIZE = unat a div PGSIZE + k"
    unfolding page_addr_unat [OF assms] by (simp add: PGSIZE_def)
  then show ?thesis by (auto simp: map_set_def map_range_def pg_down_eq_iff Let_def fun_eq_iff less_Suc_eq)
qed

lemma map_range_page:
  assumes s: "vm_to root s0 P0 (map_range f a k g) s P" and b: "unat a + k * PGSIZE < 2 ^ 38"
    and free: "f (page_addr a k) = None" and g: "g k = Some (PA2PTE pa OR perm OR PTE_V)"
  shows "ok (map_page root perm (page_addr a k) pa) s (\<lambda>r s'. \<exists>P'.
    r = 0 \<and> vm_to root s0 P0 (map_range f a (Suc k) g) s' P' \<or>
    r = -1 \<and> vm_to root s0 P0 (map_range f a k g) s' P' \<and> no_memory s')"
proof -
  have b2: "unat a + k * PGSIZE < 2 ^ 64" using b by simp
  have va: "page_addr a k < MAXVA" using b page_addr_unat [OF b2] by (simp add: MAXVA_def word_less_nat_alt)
  have v: "vm_ok s root P" "pmap (ram s) root = map_range f a k g" using s by (auto simp: vm_to_def)
  have "map_range f a k g (page_addr a k) = f (page_addr a k)"
    unfolding map_range_def page_addr_unat [OF b2] by (simp add: PGSIZE_def Let_def)
  then have "pmap (ram s) root (page_addr a k) = None" using v free by simp
  from map_page_ok [OF v(1) va this, of perm pa] show ?thesis
  proof (rule ok_mono)
    fix r :: int and s'
    assume "\<exists>P'. r = 0 \<and> vm_to root s P (map_set (pmap (ram s) root) (page_addr a k) (Some (PA2PTE pa OR perm OR PTE_V))) s' P' \<or>
      r = -1 \<and> vm_to root s P (pmap (ram s) root) s' P' \<and> no_memory s'"
    then show "\<exists>P'. r = 0 \<and> vm_to root s0 P0 (map_range f a (Suc k) g) s' P' \<or>
      r = -1 \<and> vm_to root s0 P0 (map_range f a k g) s' P' \<and> no_memory s'"
      using vm_to_trans [OF s] v(2) map_range_Suc [OF b2, of f g] g by auto
  qed
qed

lemma mappages_loop_ok:
  assumes "vm_to root s0 P0 (map_range f a k g) s P" "unat a + (k + n) * PGSIZE < 2 ^ 38"
    and "\<And>j. j \<le> k + n \<Longrightarrow> f (page_addr a j) = None"
    and "\<And>j. g j = Some (PA2PTE (pa + j * PGSIZE) OR perm OR PTE_V)"
  shows "ok (mappages_loop root perm n (page_addr a k) (pa + k * PGSIZE)) s (\<lambda>r s'. \<exists>P' j.
    vm_to root s0 P0 (map_range f a j g) s' P' \<and> (r = 0 \<and> j = Suc (k + n) \<or> r = -1 \<and> j \<le> k + n \<and> no_memory s'))"
  using assms
proof (induction n arbitrary: k s P)
  case (0 k s P)
  have "ok (map_page root perm (page_addr a k) (pa + k * PGSIZE)) s (\<lambda>r s'. \<exists>P'.
    r = 0 \<and> vm_to root s0 P0 (map_range f a (Suc k) g) s' P' \<or>
    r = -1 \<and> vm_to root s0 P0 (map_range f a k g) s' P' \<and> no_memory s')"
    by (rule map_range_page [OF "0.prems"(1)]) (use "0.prems" in auto)
  then show ?case unfolding mappages_loop.simps by (rule ok_mono) fastforce
next
  case (Suc n k s P)
  have "ok (map_page root perm (page_addr a k) (pa + k * PGSIZE)) s (\<lambda>r s'. \<exists>P'.
    r = 0 \<and> vm_to root s0 P0 (map_range f a (Suc k) g) s' P' \<or>
    r = -1 \<and> vm_to root s0 P0 (map_range f a k g) s' P' \<and> no_memory s')"
    by (rule map_range_page [OF Suc.prems(1)]) (use Suc.prems in \<open>auto simp: algebra_simps\<close>)
  then show ?case unfolding mappages_loop.simps
  proof (rule ok_bindE)
    fix r :: int and s'
    assume "\<exists>P'. r = 0 \<and> vm_to root s0 P0 (map_range f a (Suc k) g) s' P' \<or>
      r = -1 \<and> vm_to root s0 P0 (map_range f a k g) s' P' \<and> no_memory s'"
    then consider P' where "r = 0" "vm_to root s0 P0 (map_range f a (Suc k) g) s' P'"
      | P' where "r = -1" "vm_to root s0 P0 (map_range f a k g) s' P'" "no_memory s'" by blast
    then show "ok (if r \<noteq> 0 then retK r else mappages_loop root perm n (page_addr a k + 4096) (pa + k * PGSIZE + PGSIZE)) s'
      (\<lambda>r s'. \<exists>P' j. vm_to root s0 P0 (map_range f a j g) s' P' \<and> (r = 0 \<and> j = Suc (k + Suc n) \<or> r = -1 \<and> j \<le> k + Suc n \<and> no_memory s'))"
    proof cases
      case 1
      have "page_addr a k + 4096 = page_addr a (Suc k)" by (simp add: page_addr_def algebra_simps)
      moreover have "ok (mappages_loop root perm n (page_addr a (Suc k)) (pa + Suc k * PGSIZE)) s' (\<lambda>r s'. \<exists>P' j.
          vm_to root s0 P0 (map_range f a j g) s' P' \<and> (r = 0 \<and> j = Suc (Suc k + n) \<or> r = -1 \<and> j \<le> Suc k + n \<and> no_memory s'))"
        by (rule Suc.IH [OF 1(2)]) (use Suc.prems in auto)
      ultimately show ?thesis using 1(1) by (simp add: add.commute add.left_commute)
    next
      case 2
      then have "\<exists>P' j. vm_to root s0 P0 (map_range f a j g) s' P' \<and> j \<le> k + Suc n" by (metis le_add1)
      then show ?thesis using 2 by simp
    qed
  qed
qed

lemma mappages_ok:
  assumes s: "vm_ok s root P" and sz: "0 < sz" "unat va + unat sz \<le> 2 ^ 38"
    and free: "\<And>vb. pg_down va \<le> vb \<Longrightarrow> vb < va + sz \<Longrightarrow> pmap (ram s) root vb = None"
  shows "ok (mappages root va sz pa perm) s (\<lambda>r s'. \<exists>P' j.
    vm_to root s P (map_range (pmap (ram s) root) va j (\<lambda>i. Some (PA2PTE (pa + i * PGSIZE) OR perm OR PTE_V))) s' P' \<and>
    (r = 0 \<and> j = Suc (unat (va + sz - 1) div PGSIZE - unat va div PGSIZE) \<or>
     r = -1 \<and> j \<le> unat (va + sz - 1) div PGSIZE - unat va div PGSIZE \<and> no_memory s'))"
proof -
  let ?a = "pg_down va" and ?l = "va + sz - 1"
  let ?n = "unat ?l div PGSIZE - unat va div PGSIZE" and ?f = "pmap (ram s) root"
  have "0 < unat sz" using sz(1) by (simp add: word_less_nat_alt)
  then have ends: "unat (va + sz) = unat va + unat sz" "unat ?l = unat va + unat sz - 1"
    using sz(2) by (simp_all add: unat_word_ariths unat_sub_if')
  have le: "unat va div PGSIZE \<le> unat ?l div PGSIZE" using ends \<open>0 < unat sz\<close> by (intro div_le_mono) simp
  have "unat ?l div PGSIZE * PGSIZE - unat va div PGSIZE * PGSIZE = ?n * PGSIZE" by (simp add: diff_mult_distrib)
  moreover have "?a \<le> pg_down ?l" using le by (simp add: word_le_nat_alt unat_pg_down)
  ultimately have n: "unat (pg_down ?l - ?a) div PGSIZE = ?n" by (simp add: unat_sub unat_pg_down PGSIZE_def)
  have top: "unat ?a + ?n * PGSIZE = unat ?l div PGSIZE * PGSIZE"
    using le by (simp add: unat_pg_down flip: add_mult_distrib)
  also have "\<dots> \<le> unat ?l" by (rule div_times_less_eq_dividend)
  finally have b: "unat ?a + ?n * PGSIZE < 2 ^ 38" using ends sz(2) \<open>0 < unat sz\<close> by linarith
  have r: "map_range ?f ?a j g = map_range ?f va j g" for j g by (simp add: map_range_def unat_pg_down PGSIZE_def)
  have none: "?f (page_addr ?a j) = None" if "j \<le> 0 + ?n" for j
  proof (rule free)
    have j: "unat ?a + j * PGSIZE \<le> unat ?a + ?n * PGSIZE" using that by (simp add: PGSIZE_def)
    then have u: "unat (page_addr ?a j) = unat ?a + j * PGSIZE" using le_less_trans [OF j b] by (intro page_addr_unat) simp
    then show "?a \<le> page_addr ?a j" by (simp add: word_le_nat_alt)
    show "page_addr ?a j < va + sz"
      using u j top div_times_less_eq_dividend [of "unat ?l" PGSIZE] ends \<open>0 < unat sz\<close>
      unfolding word_less_nat_alt by linarith
  qed
  have "ok (mappages_loop root perm ?n (page_addr ?a 0) (pa + 0 * PGSIZE)) s (\<lambda>r s'. \<exists>P' j.
    vm_to root s P (map_range ?f ?a j (\<lambda>i. Some (PA2PTE (pa + i * PGSIZE) OR perm OR PTE_V))) s' P' \<and>
    (r = 0 \<and> j = Suc (0 + ?n) \<or> r = -1 \<and> j \<le> 0 + ?n \<and> no_memory s'))"
    by (rule mappages_loop_ok) (use vm_to_refl [OF s] b none in auto)
  then show ?thesis using sz(1) n by (simp add: mappages_def Let_def page_addr_def r)
qed

section \<open>Unmapping pages\<close>

text \<open>Memory outside the tables does not matter to the page table.\<close>

lemma pt_cong:
  assumes wf: "pt_wf m root" and same: "\<And>x. in_tables m root x \<Longrightarrow> m' x = m x"
  shows "pt_wf m' root" "tables m' root = tables m root" "pmap m' root = pmap m root"
proof -
  have entry: "load64 m' (p + 8 * i) = load64 m (p + 8 * i)" if "p \<in> tables m root" "i < 512" for p i
    using that by (intro load64_cong same) (auto simp: in_tables_def PGSIZE_def intro!: bexI [of _ p])
  have T: "tbl m' root xs = tbl m root xs" if "path_ok xs" for xs
    using that
  proof (induction xs rule: rev_induct)
    case (snoc j zs)
    note zs = path_snoc [OF snoc.prems]
    then have "child m' r j = child m r j" if "tbl m root zs = Some r" for r
      using entry [OF tablesI [OF _ that]] by (simp add: child_def)
    then show ?case using snoc.IH zs by (simp add: tbl_append split: option.split)
  qed simp
  then show t: "tables m' root = tables m root" by (auto simp: tables_def)
  show "pt_wf m' root" using wf t T by (auto simp: pt_wf_def)
  show "pmap m' root = pmap m root"
  proof
    fix va
    have "tbl m' root [PX 2 va, PX 1 va] = tbl m root [PX 2 va, PX 1 va]" by (rule T [OF path_leaf])
    moreover have "load64 m' (p + 8 * PX 0 va) = load64 m (p + 8 * PX 0 va)" if "tbl m root [PX 2 va, PX 1 va] = Some p" for p
      using entry [OF tablesI [OF path_leaf that] PX_less] .
    ultimately show "pmap m' root va = pmap m root va" unfolding pmap_def by (auto simp del: tbl.simps split: option.split)
  qed
qed

definition frees :: "nat \<Rightarrow> vmst \<Rightarrow> (u64 \<Rightarrow> u64 option) \<Rightarrow> vmst \<Rightarrow> nat set \<Rightarrow> bool" where
  "frees root s f s' P' \<longleftrightarrow>
     vm_ok s' root P' \<and> tables (ram s') root = tables (ram s) root \<and> pmap (ram s') root = f \<and>
     (\<forall>x. \<not> in_tables (ram s) root x \<longrightarrow> ram s' x = ram s x)"

lemma uvmunmap_page_ok:
  assumes s: "vm_ok s root P" and va: "pmap (ram s) root va = Some e" "PTE_FLAGS e \<noteq> PTE_V"
    and pa: "PTE2PA e \<in> P" "PTE2PA e \<notin> tables (ram s) root"
  shows "ok (uvmunmap_page root True va) s (\<lambda>_ s'. frees root s (map_set (pmap (ram s) root) va None) s' (P - {PTE2PA e}))"
proof -
  note S = s [unfolded vm_ok_def]
  have lt: "va < MAXVA" using va(1) by (auto simp: pmap_def not_le split: if_splits)
  then obtain p where p: "tbl (ram s) root [PX 2 va, PX 1 va] = Some p" "load64 (ram s) (p + 8 * PX 0 va) = e" "e AND PTE_V \<noteq> 0"
    using va(1) by (auto simp: pmap_def Let_def not_le [symmetric] simp del: tbl.simps split: option.splits if_splits)
  obtain b where b: "kfree (kheap s) (PTE2PA e) = Ret b" "pages_out b (P - {PTE2PA e})" using kmem.release_law S pa(1) by blast
  let ?s = "s\<lparr>kheap := b\<rparr>" let ?s' = "?s\<lparr>ram := store64 (p + 8 * PX 0 va) 0 (ram ?s)\<rparr>"
  have v: "vm_ok ?s root (P - {PTE2PA e})" using S b(2) pa(2) by (auto simp: vm_ok_def)
  have "uvmunmap_page root True va s = Ret ((), ?s')"
    using lt p va(2) b(1)
    by (simp add: uvmunmap_page_def walk_lookup read64_def bindK_def thenK_def vm_kfree_def write64_def del: tbl.simps)
  moreover have "vm_to root ?s (P - {PTE2PA e}) (map_set (pmap (ram ?s) root) va None) ?s' (P - {PTE2PA e})"
    using write_leaf(2) [OF v lt, of p ?s' 0] p(1) by simp
  ultimately show ?thesis by (intro okI [of _ _ "()" ?s']) (auto simp: frees_def vm_to_def in_tables_def)
qed

text \<open>Unmapping and freeing the first \<open>n\<close> of the pages from \<open>a\<close>, page \<open>i\<close> of which is \<open>fr i\<close>.\<close>

lemma frees_trans: "frees root s f s1 P1 \<Longrightarrow> frees root s1 g s2 P2 \<Longrightarrow> frees root s g s2 P2"
  by (auto simp: frees_def in_tables_def)

lemma frees_refl: "vm_ok s root P \<Longrightarrow> frees root s (pmap (ram s) root) s P"
  by (simp add: frees_def)

lemma unmap_range_step:
  assumes "unat a + n * PGSIZE < 2 ^ 64" "i < n"
  shows "map_set (\<lambda>vb. if unat a div PGSIZE \<le> unat vb div PGSIZE \<and> unat vb div PGSIZE < unat a div PGSIZE + i then None else map_range f a n g vb)
      (page_addr a i) None =
    (\<lambda>vb. if unat a div PGSIZE \<le> unat vb div PGSIZE \<and> unat vb div PGSIZE < unat a div PGSIZE + Suc i then None else map_range f a n g vb)"
proof -
  have "unat a + i * PGSIZE \<le> unat a + n * PGSIZE" using assms(2) by simp
  then have u: "unat (page_addr a i) = unat a + i * PGSIZE" using le_less_trans [OF _ assms(1)] by (intro page_addr_unat) blast
  have "unat (page_addr a i) div PGSIZE = unat a div PGSIZE + i" unfolding u by (simp add: PGSIZE_def)
  then show ?thesis by (auto simp: map_set_def pg_down_eq_iff fun_eq_iff less_Suc_eq)
qed

lemma uvmunmap_range:
  assumes s: "vm_ok s root P" and f: "pmap (ram s) root = map_range f a n g"
    and a: "unat a + n * PGSIZE < 2 ^ 64" "unat a mod PGSIZE = 0"
    and none: "\<And>i. i < n \<Longrightarrow> f (page_addr a i) = None"
    and fdown: "\<And>va vb. pg_down va = pg_down vb \<Longrightarrow> f va = f vb"
    and g: "\<And>i. i < n \<Longrightarrow> \<exists>e. g i = Some e \<and> PTE2PA e = fr i \<and> PTE_FLAGS e \<noteq> PTE_V"
    and fr: "inj_on fr {..<n}" "fr ` {..<n} \<subseteq> P" "fr ` {..<n} \<inter> tables (ram s) root = {}"
  shows "ok (uvmunmap root a (of_nat n) True) s (\<lambda>_ s'. frees root s f s' (P - fr ` {..<n}))"
proof -
  let ?n0 = "unat a div PGSIZE"
  define h where "h i = (\<lambda>vb. if ?n0 \<le> unat vb div PGSIZE \<and> unat vb div PGSIZE < ?n0 + i then None else map_range f a n g vb)" for i
  have n: "unat (of_nat n * 4096 :: u64) = n * PGSIZE"
    using page_addr_unat [of 0 n] a(1) by (simp add: page_addr_def)
  have ai: "unat (page_addr a i) = unat a + i * PGSIZE" "unat (page_addr a i) div PGSIZE = ?n0 + i" if "i < n" for i
  proof -
    have "unat a + i * PGSIZE \<le> unat a + n * PGSIZE" using that by simp
    then show u: "unat (page_addr a i) = unat a + i * PGSIZE" using le_less_trans [OF _ a(1)] by (intro page_addr_unat) blast
    show "unat (page_addr a i) div PGSIZE = ?n0 + i" unfolding u by (simp add: PGSIZE_def)
  qed
  have hi: "h i (page_addr a i) = g i" if "i < n" for i using that ai(2) [OF that] by (simp add: h_def map_range_def Let_def)
  have "ok (forK [0..<n] (\<lambda>i. uvmunmap_page root True (page_addr a i))) s (\<lambda>_ s'. frees root s (h n) s' (P - fr ` {..<n}))"
  proof (rule ok_forK)
    have "h 0 = map_range f a n g" by (auto simp: h_def fun_eq_iff)
    then show "frees root s (h 0) s (P - fr ` {..<0})" using frees_refl [OF s] f by simp
    fix i t assume i: "i < n" and t: "frees root s (h i) t (P - fr ` {..<i})"
    obtain e where e: "g i = Some e" "PTE2PA e = fr i" "PTE_FLAGS e \<noteq> PTE_V" using g [OF i] by blast
    have T: "vm_ok t root (P - fr ` {..<i})" "tables (ram t) root = tables (ram s) root" "pmap (ram t) root = h i" using t by (auto simp: frees_def)
    have "fr i \<in> P - fr ` {..<i}" using fr(1,2) i inj_onD [OF fr(1), of i] by fastforce
    moreover have "fr i \<notin> tables (ram t) root" using fr(3) i T(2) by auto
    ultimately have "ok (uvmunmap_page root True (page_addr a i)) t
        (\<lambda>_ s'. frees root t (map_set (h i) (page_addr a i) None) s' (P - fr ` {..<i} - {fr i}))"
      using uvmunmap_page_ok [OF T(1), of "page_addr a i" e] T(3) hi [OF i] e by simp
    moreover have "map_set (h i) (page_addr a i) None = h (Suc i)" unfolding h_def by (rule unmap_range_step [OF a(1) i])
    moreover have "P - fr ` {..<i} - {fr i} = P - fr ` {..<Suc i}" by (auto simp: lessThan_Suc)
    ultimately show "ok (uvmunmap_page root True (page_addr a i)) t (\<lambda>_ s'. frees root s (h (Suc i)) s' (P - fr ` {..<Suc i}))"
      using frees_trans [OF t] by (auto elim!: ok_mono)
  qed
  moreover have "h n = f"
  proof
    fix vb
    show "h n vb = f vb"
    proof (cases "?n0 \<le> unat vb div PGSIZE \<and> unat vb div PGSIZE < ?n0 + n")
      case True
      then have j: "unat vb div PGSIZE - ?n0 < n" "pg_down vb = pg_down (page_addr a (unat vb div PGSIZE - ?n0))"
        using ai(2) [of "unat vb div PGSIZE - ?n0"] by (auto simp: pg_down_eq_iff)
      have "f vb = None" unfolding fdown [OF j(2)] by (rule none [OF j(1)])
      then show ?thesis using True by (simp add: h_def)
    qed (auto simp: h_def map_range_def Let_def)
  qed
  moreover have "uvmunmap root a (of_nat n) True = forK [0..<n] (\<lambda>i. uvmunmap_page root True (page_addr a i))"
  proof -
    have "unat (a mod 4096) = 0" using a(2) by (simp add: unat_mod PGSIZE_def)
    then have "a mod 4096 = 0" by (simp add: unat_eq_0)
    moreover have "unat (a + of_nat n * 4096) = unat a + n * PGSIZE" using page_addr_unat [OF a(1)] by (simp add: page_addr_def)
    then have "a < a + of_nat n * 4096 \<longleftrightarrow> 0 < n" by (simp add: word_less_nat_alt PGSIZE_def)
    moreover have "unat (of_nat n * 4096 :: u64) div PGSIZE = n" using n by (simp add: PGSIZE_def)
    ultimately show ?thesis by (simp add: uvmunmap_def Let_def page_addr_def)
  qed
  ultimately show ?thesis by simp
qed

section \<open>Growing a process\<close>

text \<open>
  From \<open>s\<close> with pages \<open>P\<close> in use to \<open>s'\<close>: \<open>k\<close> zeroed pages \<open>fr 0, ...\<close> are mapped from \<open>a\<close> on, the other
  new pages are tables, and the pages that were in use before keep their bytes.
\<close>

definition grown ::
  "nat \<Rightarrow> vmst \<Rightarrow> nat set \<Rightarrow> u64 \<Rightarrow> u64 \<Rightarrow> nat \<Rightarrow> vmst \<Rightarrow> nat set \<Rightarrow> (nat \<Rightarrow> nat) \<Rightarrow> bool" where
  "grown root s P a perm k s' P' fr \<longleftrightarrow>
     vm_ok s' root P' \<and>
     pmap (ram s') root = map_range (pmap (ram s) root) a k (\<lambda>i. Some (PA2PTE (fr i) OR perm OR PTE_V)) \<and>
     P \<union> fr ` {..<k} \<subseteq> P' \<and> tables (ram s') root = tables (ram s) root \<union> (P' - P - fr ` {..<k}) \<and>
     inj_on fr {..<k} \<and> fr ` {..<k} \<inter> P = {} \<and>
     (\<forall>i < k. \<forall>j < PGSIZE. ram s' (fr i + j) = 0) \<and>
     (\<forall>p \<in> P - tables (ram s') root. \<forall>j < PGSIZE. ram s' (p + j) = ram s (p + j))"

lemma grown_start: "vm_ok s root P \<Longrightarrow> grown root s P a perm 0 s P fr"
  by (auto simp: grown_def)

lemma grown_none:
  "grown root s P a perm 0 s' P' fr \<longleftrightarrow>
     vm_ok s' root P' \<and> pmap (ram s') root = pmap (ram s) root \<and> P \<subseteq> P' \<and>
     tables (ram s') root = tables (ram s) root \<union> (P' - P) \<and>
     (\<forall>p \<in> P - tables (ram s') root. \<forall>j < PGSIZE. ram s' (p + j) = ram s (p + j))"
  by (simp add: grown_def)

lemma not_in_tables:
  assumes "vm_ok s root P" "p \<in> P" "p \<notin> tables (ram s) root" "j < PGSIZE"
  shows "\<not> in_tables (ram s) root (p + j)"
proof
  assume "in_tables (ram s) root (p + j)"
  then obtain q where q: "q \<in> tables (ram s) root" "q \<le> p + j" "p + j < q + PGSIZE" by (auto simp: in_tables_def)
  have "page p" "page q" "p \<noteq> q" using assms q(1) page_iff by (auto simp: vm_ok_def)
  then show False using page_apart [of p q] q assms(4) by auto
qed

lemma grown_disjoint: "vm_ok s root P \<Longrightarrow> grown root s P a perm k s' P' fr \<Longrightarrow> fr ` {..<k} \<inter> tables (ram s') root = {}"
  by (auto simp: grown_def vm_ok_def)

lemma put_page_other:
  assumes "page p" "page q" "p \<noteq> q" "j < PGSIZE"
  shows "put_bytes q (replicate PGSIZE 0) m (p + j) = m (p + j)"
  using page_apart [OF assms(1-3)] assms(4) by (intro put_bytes_out) auto

lemma grown_page:
  assumes s: "vm_ok s root P" and g: "grown root s P a perm k s1 P1 fr"
    and mem: "mem \<notin> P1" "pages_out b (insert mem P1)"
    and s2: "s2 = s1\<lparr>kheap := b, ram := put_bytes mem (replicate PGSIZE 0) (ram s1)\<rparr>"
  shows "vm_ok s2 root (insert mem P1)" "pmap (ram s2) root = pmap (ram s1) root" "tables (ram s2) root = tables (ram s1) root"
    and "\<forall>j < PGSIZE. ram s2 (mem + j) = 0" "\<forall>p \<in> P1. \<forall>j < PGSIZE. ram s2 (p + j) = ram s1 (p + j)"
proof -
  note G = g [unfolded grown_def]
  have page: "page p" if "p \<in> insert mem P1" for p using page_iff [OF mem(2) that] .
  show same: "\<forall>p \<in> P1. \<forall>j < PGSIZE. ram s2 (p + j) = ram s1 (p + j)"
    using put_page_other [OF page page, of _ mem] mem(1) by (auto simp: s2)
  have "ram s2 x = ram s1 x" if "in_tables (ram s1) root x" for x
  proof -
    obtain p where p: "p \<in> tables (ram s1) root" "p \<le> x" "x < p + PGSIZE" using \<open>in_tables (ram s1) root x\<close> by (auto simp: in_tables_def)
    then have "p \<in> P1" "x = p + (x - p)" "x - p < PGSIZE" using G by (auto simp: vm_ok_def)
    then show ?thesis using same by metis
  qed
  moreover have "pt_wf (ram s1) root" using G by (auto simp: vm_ok_def)
  ultimately have c: "pt_wf (ram s2) root" "tables (ram s2) root = tables (ram s1) root" "pmap (ram s2) root = pmap (ram s1) root"
    using pt_cong [of "ram s1" root "ram s2"] by blast+
  then show "vm_ok s2 root (insert mem P1)" "pmap (ram s2) root = pmap (ram s1) root" "tables (ram s2) root = tables (ram s1) root"
    using G mem(2) by (auto simp: vm_ok_def s2)
  show "\<forall>j < PGSIZE. ram s2 (mem + j) = 0" by (auto simp: s2 put_bytes_in)
qed

lemma grown_after:
  assumes s: "vm_ok s root P" and g: "grown root s P a perm k s1 P1 fr"
    and mem: "mem \<notin> P1" "pages_out b (insert mem P1)"
    and s2: "s2 = s1\<lparr>kheap := b, ram := put_bytes mem (replicate PGSIZE 0) (ram s1)\<rparr>"
    and v: "vm_to root s2 (insert mem P1) f s3 P3"
  shows "tables (ram s3) root = tables (ram s) root \<union> (P3 - P - insert mem (fr ` {..<k}))"
    and "mem \<notin> P" "mem \<notin> fr ` {..<k}" "insert mem (P \<union> fr ` {..<k}) \<subseteq> P3"
    and "\<forall>j < PGSIZE. ram s3 (mem + j) = 0" "\<forall>i < k. \<forall>j < PGSIZE. ram s3 (fr i + j) = 0"
    and "\<forall>p \<in> P - tables (ram s3) root. \<forall>j < PGSIZE. ram s3 (p + j) = ram s (p + j)"
proof -
  note g2 = grown_page [OF s g mem s2]
  have G: "P \<union> fr ` {..<k} \<subseteq> P1" "tables (ram s1) root = tables (ram s) root \<union> (P1 - P - fr ` {..<k})"
      "fr ` {..<k} \<inter> P = {}" and zero: "\<forall>i < k. \<forall>j < PGSIZE. ram s1 (fr i + j) = 0"
      and kept: "\<forall>p \<in> P - tables (ram s1) root. \<forall>j < PGSIZE. ram s1 (p + j) = ram s (p + j)"
    using g unfolding grown_def by blast+
  have V: "vm_ok s3 root P3" "insert mem P1 \<subseteq> P3" "tables (ram s3) root = tables (ram s1) root \<union> (P3 - insert mem P1)"
      and frame: "\<And>x. \<not> in_tables (ram s3) root x \<Longrightarrow> ram s3 x = ram s2 x"
    using v g2(3) unfolding vm_to_def by simp_all
  have sub: "tables (ram s) root \<subseteq> P" using s by (simp add: vm_ok_def)
  show new: "mem \<notin> P" "mem \<notin> fr ` {..<k}" "insert mem (P \<union> fr ` {..<k}) \<subseteq> P3" using G(1) V(2) mem(1) by blast+
  show T: "tables (ram s3) root = tables (ram s) root \<union> (P3 - P - insert mem (fr ` {..<k}))"
  proof -
    have "(P1 - P - F) \<union> (P3 - insert mem P1) = P3 - P - insert mem F" if "F \<subseteq> P1" for F
      using that G(1) V(2) mem(1) by auto
    from this [of "fr ` {..<k}"] show ?thesis using G(1) unfolding V(3) G(2) by auto
  qed
  have keep: "ram s3 (p + j) = ram s2 (p + j)" if "p \<in> P3" "p \<notin> tables (ram s3) root" "j < PGSIZE" for p j
    by (rule frame [OF not_in_tables [OF V(1) that]])
  have frames: "x \<in> P3" "x \<notin> tables (ram s3) root" if "x \<in> insert mem (fr ` {..<k})" for x
    using that new G(3) sub unfolding T by auto
  show "\<forall>j < PGSIZE. ram s3 (mem + j) = 0" using keep [OF frames(1,2) [of mem]] g2(4) by simp
  show "\<forall>i < k. \<forall>j < PGSIZE. ram s3 (fr i + j) = 0"
  proof (intro allI impI)
    fix i j assume i: "i < k" and j: "j < PGSIZE"
    then have "fr i \<in> P1" "fr i \<in> insert mem (fr ` {..<k})" using G(1) by auto
    then show "ram s3 (fr i + j) = 0" using keep [OF frames(1,2) j] g2(5) zero i j by simp
  qed
  show "\<forall>p \<in> P - tables (ram s3) root. \<forall>j < PGSIZE. ram s3 (p + j) = ram s (p + j)"
  proof (intro ballI allI impI)
    fix p j assume p: "p \<in> P - tables (ram s3) root" and j: "j < PGSIZE"
    then have "p \<in> P3" "p \<notin> tables (ram s3) root" "p \<in> P1" "p \<in> P - tables (ram s1) root" using new G(1) V(3) by auto
    then show "ram s3 (p + j) = ram s (p + j)" using keep [OF _ _ j] g2(5) kept j by simp
  qed
qed

lemma grown_Suc:
  assumes s: "vm_ok s root P" and g: "grown root s P a perm k s1 P1 fr" and b: "unat a + k * PGSIZE < 2 ^ 64"
    and mem: "mem \<notin> P1" "pages_out b (insert mem P1)"
    and s2: "s2 = s1\<lparr>kheap := b, ram := put_bytes mem (replicate PGSIZE 0) (ram s1)\<rparr>"
    and v: "vm_to root s2 (insert mem P1) (map_set (pmap (ram s2) root) (page_addr a k) (Some (PA2PTE mem OR perm OR PTE_V))) s3 P3"
  shows "grown root s P a perm (Suc k) s3 P3 (fr(k := mem))"
proof -
  note after = grown_after [OF s g mem s2 v]
  let ?g = "\<lambda>i. Some (PA2PTE ((fr(k := mem)) i) OR perm OR PTE_V)" let ?fr = "fr(k := mem)"
  have G: "pmap (ram s1) root = map_range (pmap (ram s) root) a k (\<lambda>i. Some (PA2PTE (fr i) OR perm OR PTE_V))"
    "inj_on fr {..<k}" "fr ` {..<k} \<inter> P = {}" using g unfolding grown_def by blast+
  have im: "?fr ` {..<Suc k} = insert mem (fr ` {..<k})" by (auto simp: lessThan_Suc)
  have "pmap (ram s2) root = map_range (pmap (ram s) root) a k ?g"
    unfolding grown_page(2) [OF s g mem s2] G(1) by (auto simp: map_range_def Let_def fun_eq_iff)
  then have "pmap (ram s3) root = map_set (map_range (pmap (ram s) root) a k ?g) (page_addr a k) (?g k)"
    using v unfolding vm_to_def by simp
  then have "pmap (ram s3) root = map_range (pmap (ram s) root) a (Suc k) ?g" using map_range_Suc [OF b, of _ ?g] by metis
  moreover have "inj_on ?fr {..<Suc k}" using G(2) after(3) by (auto simp: lessThan_Suc inj_on_def)
  moreover have "\<forall>i < Suc k. \<forall>j < PGSIZE. ram s3 (?fr i + j) = 0" using after(5,6) by (simp add: less_Suc_eq)
  moreover have "vm_ok s3 root P3" using v unfolding vm_to_def by blast
  ultimately show ?thesis using after(1,2,4,7) G(3) unfolding grown_def im by auto
qed

lemma grown_undo:
  assumes s: "vm_ok s root P" and g: "grown root s P a perm k s1 P1 fr"
    and mem: "mem \<notin> P1" "pages_out b (insert mem P1)"
    and s2: "s2 = s1\<lparr>kheap := b, ram := put_bytes mem (replicate PGSIZE 0) (ram s1)\<rparr>"
    and v: "vm_to root s2 (insert mem P1) (pmap (ram s2) root) s3 P3" and b': "pages_out b' (P3 - {mem})"
  shows "grown root s P a perm k (s3\<lparr>kheap := b'\<rparr>) (P3 - {mem}) fr"
proof -
  note after = grown_after [OF s g mem s2 v]
  have G: "pmap (ram s1) root = map_range (pmap (ram s) root) a k (\<lambda>i. Some (PA2PTE (fr i) OR perm OR PTE_V))"
    "inj_on fr {..<k}" "fr ` {..<k} \<inter> P = {}" using g unfolding grown_def by blast+
  have "pmap (ram s3) root = map_range (pmap (ram s) root) a k (\<lambda>i. Some (PA2PTE (fr i) OR perm OR PTE_V))"
    using v G(1) grown_page(2) [OF s g mem s2] unfolding vm_to_def by simp
  moreover have "tables (ram s3) root = tables (ram s) root \<union> (P3 - {mem} - P - fr ` {..<k})" using after(1,2) by auto
  moreover have "tables (ram s3) root \<subseteq> P3 - {mem}"
    unfolding after(1) using s after(2,4) by (auto simp: vm_ok_def)
  then have "vm_ok (s3\<lparr>kheap := b'\<rparr>) root (P3 - {mem})" using v b' by (auto simp: vm_to_def vm_ok_def)
  moreover have "P \<union> fr ` {..<k} \<subseteq> P3 - {mem}" using after(2-4) by auto
  ultimately show ?thesis using after(6,7) G(2,3) unfolding grown_def by simp
qed

lemma user_entry:
  assumes "page p" "xperm AND NOT 0x3FF = 0"
  defines "e \<equiv> PA2PTE p OR (PTE_R OR PTE_U OR xperm) OR PTE_V"
  shows "PTE2PA e = p" "PTE_FLAGS e \<noteq> PTE_V"
proof -
  have "(PTE_R OR PTE_U OR xperm OR PTE_V) AND NOT 0x3FF = (PTE_R AND NOT 0x3FF) OR (PTE_U AND NOT 0x3FF) OR (xperm AND NOT 0x3FF) OR (PTE_V AND NOT 0x3FF)"
    by (simp only: bit.conj_disj_distrib2)
  also have "\<dots> = 0" unfolding assms(2) by (simp add: PTE_R_def PTE_U_def PTE_V_def)
  finally show "PTE2PA e = p" unfolding e_def using PTE2PA_PA2PTE [OF assms(1)] by (simp add: or.assoc)
  have "bit e 1" by (simp add: e_def bit_or_iff PTE_R_def bit_simps)
  then have "bit (PTE_FLAGS e) 1" by (simp add: PTE_FLAGS_def bit_and_iff)
  then show "PTE_FLAGS e \<noteq> PTE_V" by (auto simp: PTE_V_def)
qed

lemma pg_up_aligned: "unat a mod PGSIZE = 0 \<Longrightarrow> pg_up a = a"
proof -
  assume a: "unat a mod PGSIZE = 0"
  then have "unat a mod PGSIZE + 4095 < PGSIZE" by (simp add: PGSIZE_def)
  then have "pg_down (a + of_nat 4095) = pg_down a" by (rule pg_down_in_page)
  moreover have "pg_down a = a" using a unat_pg_down [of a] by (simp add: word_unat_eq_iff mod_eq_0_iff_dvd)
  ultimately show ?thesis by (simp add: pg_up_def pg_down_def add.commute)
qed

lemma grown_dealloc:
  assumes s: "vm_ok s root P" and g: "grown root s P a (PTE_R OR PTE_U OR xperm) k s1 P1 fr"
    and a: "unat a mod PGSIZE = 0" "unat a + k * PGSIZE \<le> 2 ^ 38" and x: "xperm AND NOT 0x3FF = 0"
    and none: "\<And>i. i < k \<Longrightarrow> pmap (ram s) root (page_addr a i) = None"
  shows "ok (uvmdealloc root (page_addr a k) a) s1 (\<lambda>_ s'. \<exists>P'. grown root s P a (PTE_R OR PTE_U OR xperm) 0 s' P' fr)"
proof -
  note G = g [unfolded grown_def]
  let ?perm = "PTE_R OR PTE_U OR xperm"
  have u: "unat (page_addr a k) = unat a + k * PGSIZE" using a(2) by (intro page_addr_unat) simp
  have al: "unat (page_addr a k) mod PGSIZE = 0" using a(1) u by simp
  have "ok (uvmunmap root a (of_nat k) True) s1 (\<lambda>_ s'. frees root s1 (pmap (ram s) root) s' (P1 - fr ` {..<k}))"
  proof (rule uvmunmap_range)
    show "vm_ok s1 root P1" using G by blast
    show "pmap (ram s1) root = map_range (pmap (ram s) root) a k (\<lambda>i. Some (PA2PTE (fr i) OR ?perm OR PTE_V))" using G by blast
    show "unat a + k * PGSIZE < 2 ^ 64" "unat a mod PGSIZE = 0" using a by simp_all
    show "pmap (ram s) root (page_addr a i) = None" if "i < k" for i using none [OF that] .
    show "pmap (ram s) root va = pmap (ram s) root vb" if "pg_down va = pg_down vb" for va vb using pmap_pg_down [OF that] .
    have "page (fr i)" if "i < k" for i using G that page_iff [of "kheap s1" P1] by (auto simp: vm_ok_def)
    then show "\<exists>e. Some (PA2PTE (fr i) OR ?perm OR PTE_V) = Some e \<and> PTE2PA e = fr i \<and> PTE_FLAGS e \<noteq> PTE_V" if "i < k" for i
      using user_entry [OF _ x] that by blast
    show "inj_on fr {..<k}" "fr ` {..<k} \<subseteq> P1" using G by auto
    show "fr ` {..<k} \<inter> tables (ram s1) root = {}" by (rule grown_disjoint [OF s g])
  qed
  moreover have "grown root s P a ?perm 0 s' (P1 - fr ` {..<k}) fr" if F: "frees root s1 (pmap (ram s) root) s' (P1 - fr ` {..<k})" for s'
  proof -
    note f = F [unfolded frees_def]
    have "ram s' (p + j) = ram s1 (p + j)" if "p \<in> P1" "p \<notin> tables (ram s1) root" "j < PGSIZE" for p j
      using not_in_tables [OF _ that] G f by blast
    then have "\<forall>p \<in> P - tables (ram s') root. \<forall>j < PGSIZE. ram s' (p + j) = ram s (p + j)" using G f by auto
    then show ?thesis using G f unfolding grown_def by auto
  qed
  moreover have "uvmdealloc root (page_addr a k) a s1 = thenK (whenK (0 < k) (uvmunmap root a (of_nat k) True)) (retK (if 0 < k then a else page_addr a k)) s1"
  proof (cases "k = 0")
    case True
    then show ?thesis by (simp add: uvmdealloc_def page_addr_def)
  next
    case False
    then have lt: "a < page_addr a k" using u by (simp add: word_less_nat_alt PGSIZE_def)
    have "k \<le> 2 ^ 26" using a(2) by (simp add: PGSIZE_def)
    have "unat (page_addr a k - a) = k * PGSIZE" using lt u by (simp add: unat_sub less_imp_le)
    then have "unat ((page_addr a k - a) div 4096) = k" by (simp add: unat_div PGSIZE_def)
    moreover have "unat (of_nat k :: u64) = k" using \<open>k \<le> 2 ^ 26\<close> by (simp add: unat_of_nat)
    ultimately have d: "(page_addr a k - a) div 4096 = of_nat k" by (metis word_unat_eq_iff)
    have "sint (of_nat k :: u32) = int k"
      using \<open>k \<le> 2 ^ 26\<close> by (simp add: signed_of_nat signed_take_bit_int_eq_self)
    then have sc: "scast (ucast (of_nat k :: u64) :: u32) = (of_nat k :: u64)"
      using \<open>k \<le> 2 ^ 26\<close> by (simp add: scast_eq unsigned_of_nat take_bit_nat_eq_self)
    have nle: "\<not> page_addr a k \<le> a" using lt by (simp only: not_le)
    show ?thesis
      unfolding uvmdealloc_def pg_up_aligned [OF a(1)] pg_up_aligned [OF al] d sc Let_def using nle lt False by simp
  qed
  ultimately show ?thesis
    by (cases "k = 0") (use g in \<open>auto simp: ok_def thenK_def bindK_def\<close>, blast)
qed

lemma mappages_page: "unat a mod PGSIZE = 0 \<Longrightarrow> mappages root a 4096 pa perm = map_page root perm a pa"
proof -
  assume a: "unat a mod PGSIZE = 0"
  then have "unat a mod PGSIZE + 4095 < PGSIZE" by (simp add: PGSIZE_def)
  then have "pg_down (a + of_nat 4095) = pg_down a" by (rule pg_down_in_page)
  moreover have "pg_down a = a" using a unat_pg_down [of a] by (simp add: word_unat_eq_iff mod_eq_0_iff_dvd)
  moreover have "(4096 :: u64) \<noteq> 0" using unat_eq_0 [of "4096 :: u64"] by simp
  ultimately show ?thesis by (simp add: mappages_def Let_def add.commute)
qed

lemma uvmalloc_loop_ok:
  assumes s: "vm_ok s root P" and x: "xperm AND NOT 0x3FF = 0" and a: "unat a mod PGSIZE = 0"
    and none: "\<And>i. i < N \<Longrightarrow> pmap (ram s) root (page_addr a i) = None" and top: "unat a + N * PGSIZE \<le> 2 ^ 38"
    and g: "grown root s P a (PTE_R OR PTE_U OR xperm) k s1 P1 fr" and n: "k + n = N"
  shows "ok (uvmalloc_loop root a newsz xperm n (page_addr a k)) s1 (\<lambda>r s'. \<exists>P' fr.
    r = newsz \<and> grown root s P a (PTE_R OR PTE_U OR xperm) N s' P' fr \<or>
    r = 0 \<and> grown root s P a (PTE_R OR PTE_U OR xperm) 0 s' P' fr)"
  using g n
proof (induction n arbitrary: k s1 P1 fr)
  case (0 k s1 P1 fr)
  then show ?case by (intro okI [of _ _ newsz s1]) auto
next
  case (Suc n k s1 P1 fr)
  let ?perm = "PTE_R OR PTE_U OR xperm"
  note G = Suc.prems(1) [unfolded grown_def]
  have kN: "k < N" using Suc.prems(2) by simp
  then have "Suc k * PGSIZE \<le> N * PGSIZE" by (intro mult_le_mono1) simp
  then have b: "unat a + k * PGSIZE < 2 ^ 38" "unat a + k * PGSIZE < 2 ^ 64" using top by (simp_all add: PGSIZE_def)
  have u: "unat (page_addr a k) = unat a + k * PGSIZE" by (rule page_addr_unat [OF b(2)])
  have undo: "ok (thenK (uvmdealloc root (page_addr a k) a) (retK 0)) t (\<lambda>r s'. \<exists>P' fr.
      r = newsz \<and> grown root s P a ?perm N s' P' fr \<or> r = 0 \<and> grown root s P a ?perm 0 s' P' fr)"
    if "grown root s P a ?perm k t Q fr" for t Q
    by (rule ok_thenE [OF grown_dealloc [OF s that a _ x]]) (use b none kN in auto)
  have out: "pages_out (kheap s1) P1" using G by (simp add: vm_ok_def)
  obtain mem bd where m: "kalloc (kheap s1) = Ret (mem, bd)"
    "mem = nullptr \<and> bd = kheap s1 \<or> mem \<noteq> nullptr \<and> mem \<notin> P1 \<and> pages_out bd (insert mem P1)"
    using kmem.alloc_law [OF out] by blast
  show ?case
  proof (cases "mem = nullptr")
    case True
    then have "uvmalloc_loop root a newsz xperm (Suc n) (page_addr a k) s1 = thenK (uvmdealloc root (page_addr a k) a) (retK 0) s1"
      using m by (simp add: vm_kalloc_def bindK_def)
    then show ?thesis using undo [OF Suc.prems(1)] by (simp add: ok_def)
  next
    case False
    then have mem: "mem \<notin> P1" "pages_out bd (insert mem P1)" using m(2) by auto
    define s2 where "s2 = s1\<lparr>kheap := bd, ram := put_bytes mem (replicate PGSIZE 0) (ram s1)\<rparr>"
    note g2 = grown_page [OF s Suc.prems(1) mem s2_def]
    have lt: "page_addr a k < MAXVA" using b(1) u by (simp add: MAXVA_def word_less_nat_alt)
    have "map_range (pmap (ram s) root) a k g (page_addr a k) = pmap (ram s) root (page_addr a k)" for g
      unfolding map_range_def u by (simp add: PGSIZE_def Let_def)
    then have free: "pmap (ram s2) root (page_addr a k) = None" using g2(2) G none [OF kN] by simp
    obtain r s3 P3 where r: "map_page root ?perm (page_addr a k) mem s2 = Ret (r, s3)"
      "r = 0 \<and> vm_to root s2 (insert mem P1) (map_set (pmap (ram s2) root) (page_addr a k) (Some (PA2PTE mem OR ?perm OR PTE_V))) s3 P3 \<or>
       r = -1 \<and> vm_to root s2 (insert mem P1) (pmap (ram s2) root) s3 P3"
      using map_page_ok [OF g2(1) lt free, of ?perm mem] by (auto elim!: okE)
    have step: "uvmalloc_loop root a newsz xperm (Suc n) (page_addr a k) s1 =
        (if r \<noteq> 0 then thenK (vm_kfree mem) (thenK (uvmdealloc root (page_addr a k) a) (retK 0))
         else uvmalloc_loop root a newsz xperm n (page_addr a k + 4096)) s3"
      using m(1) False r(1) u a
      by (simp add: vm_kalloc_def bindK_def thenK_def zero_page_run s2_def mappages_page)
    from r(2) consider "r = 0" "vm_to root s2 (insert mem P1) (map_set (pmap (ram s2) root) (page_addr a k) (Some (PA2PTE mem OR ?perm OR PTE_V))) s3 P3"
      | "r = -1" "vm_to root s2 (insert mem P1) (pmap (ram s2) root) s3 P3" by blast
    then show ?thesis
    proof cases
      case 1
      have "grown root s P a ?perm (Suc k) s3 P3 (fr(k := mem))"
        by (rule grown_Suc [OF s Suc.prems(1) b(2) mem s2_def 1(2)])
      from Suc.IH [OF this] Suc.prems(2) have "ok (uvmalloc_loop root a newsz xperm n (page_addr a (Suc k))) s3 (\<lambda>r s'. \<exists>P' fr.
        r = newsz \<and> grown root s P a ?perm N s' P' fr \<or> r = 0 \<and> grown root s P a ?perm 0 s' P' fr)" by simp
      moreover have "page_addr a (Suc k) = page_addr a k + 4096" by (simp add: page_addr_def algebra_simps)
      ultimately show ?thesis unfolding ok_def step using 1(1) by simp
    next
      case 2
      have "mem \<in> P3" "pages_out (kheap s3) P3" using 2(2) by (auto simp: vm_to_def vm_ok_def)
      then obtain b' where b': "kfree (kheap s3) mem = Ret b'" "pages_out b' (P3 - {mem})" using kmem.release_law by blast
      have "grown root s P a ?perm k (s3\<lparr>kheap := b'\<rparr>) (P3 - {mem}) fr"
        by (rule grown_undo [OF s Suc.prems(1) mem s2_def 2(2) b'(2)])
      from undo [OF this] show ?thesis unfolding ok_def step using 2(1) b'(1) by (simp add: vm_kfree_def thenK_def bindK_def)
    qed
  qed
qed

lemma pages_below_aligned: "unat a mod PGSIZE = 0 \<Longrightarrow> pages_below a newsz = (unat newsz - unat a + PGSIZE - 1) div PGSIZE"
  by (auto simp: pages_below_def word_less_nat_alt unat_sub word_le_nat_alt PGSIZE_def)

lemma unat_pg_up:
  assumes "unat a + 4095 < 2 ^ 64"
  shows "unat (pg_up a) = (unat a + 4095) div PGSIZE * PGSIZE"
proof -
  have "pg_up a = pg_down (a + 4095)" by (simp add: pg_up_def pg_down_def add.commute)
  moreover have "unat (a + 4095) = unat a + 4095" using assms by (simp add: unat_word_ariths)
  ultimately show ?thesis by (simp add: unat_pg_down)
qed

lemma uvmalloc_ok:
  assumes s: "vm_ok s root P" and x: "xperm AND NOT 0x3FF = 0" and sz: "oldsz \<le> newsz" "newsz \<le> MAXVA"
    and none: "\<And>va. pg_up oldsz \<le> va \<Longrightarrow> va < newsz \<Longrightarrow> pmap (ram s) root va = None"
  shows "ok (uvmalloc root oldsz newsz xperm) s (\<lambda>r s'. \<exists>P' fr.
    r = newsz \<and> grown root s P (pg_up oldsz) (PTE_R OR PTE_U OR xperm) (pages_below (pg_up oldsz) newsz) s' P' fr \<or>
    r = 0 \<and> grown root s P (pg_up oldsz) (PTE_R OR PTE_U OR xperm) 0 s' P' fr)"
proof -
  let ?a = "pg_up oldsz" let ?N = "pages_below ?a newsz"
  have n: "unat newsz \<le> 2 ^ 38" "unat oldsz \<le> unat newsz" using sz by (simp_all add: MAXVA_def word_le_nat_alt)
  then have u: "unat ?a = (unat oldsz + 4095) div PGSIZE * PGSIZE" by (intro unat_pg_up) simp
  then have al: "unat ?a mod PGSIZE = 0" by simp
  note N = pages_below_aligned [OF al, of newsz]
  have top: "unat ?a + ?N * PGSIZE \<le> 2 ^ 38"
  proof (cases "unat ?a < unat newsz")
    case True
    obtain q where q: "unat ?a = q * PGSIZE" using u by blast
    have "unat newsz - unat ?a + PGSIZE - 1 = unat newsz + PGSIZE - 1 - q * PGSIZE" using True q by simp
    then have "?N = (unat newsz + PGSIZE - 1) div PGSIZE - q" unfolding N by (simp add: PGSIZE_def)
    moreover have "(unat newsz + PGSIZE - 1) div PGSIZE \<le> (2 ^ 38 + PGSIZE - 1) div PGSIZE" using n(1) by (intro div_le_mono) simp
    moreover have "q \<le> (unat newsz + PGSIZE - 1) div PGSIZE" using True q by (simp add: PGSIZE_def)
    ultimately show ?thesis using q by (simp add: PGSIZE_def)
  next
    case False
    then have "?N = 0" unfolding N by (simp add: PGSIZE_def)
    moreover have "unat ?a \<le> 2 ^ 38" unfolding u using n by (simp add: PGSIZE_def)
    ultimately show ?thesis by simp
  qed
  have free: "pmap (ram s) root (page_addr ?a i) = None" if "i < ?N" for i
  proof (rule none)
    have "Suc i \<le> ?N" using that by simp
    then have "Suc i * PGSIZE \<le> ?N * PGSIZE" by (intro mult_le_mono1)
    also have "\<dots> \<le> unat newsz - unat ?a + PGSIZE - 1" unfolding N by (rule div_times_less_eq_dividend)
    finally have lt: "unat ?a + i * PGSIZE < unat newsz" by (simp add: PGSIZE_def)
    then have "unat (page_addr ?a i) = unat ?a + i * PGSIZE" using n(1) by (intro page_addr_unat) simp
    then show "?a \<le> page_addr ?a i" "page_addr ?a i < newsz" using lt by (simp_all add: word_le_nat_alt word_less_nat_alt)
  qed
  have "ok (uvmalloc_loop root ?a newsz xperm ?N (page_addr ?a 0)) s (\<lambda>r s'. \<exists>P' fr.
    r = newsz \<and> grown root s P ?a (PTE_R OR PTE_U OR xperm) ?N s' P' fr \<or> r = 0 \<and> grown root s P ?a (PTE_R OR PTE_U OR xperm) 0 s' P' fr)"
    by (rule uvmalloc_loop_ok [OF s x al free top grown_start [OF s]]) simp_all
  moreover have "\<not> newsz < oldsz" using sz(1) by (simp only: not_less)
  ultimately show ?thesis by (simp add: uvmalloc_def Let_def page_addr_def)
qed

section \<open>Properties\<close>

text \<open>An empty page table.\<close>

lemma empty_table:
  assumes "pages_out b {p}"
  shows "vm_ok \<lparr>ram = \<lambda>_. 0, kheap = b\<rparr> p {p}" "pmap (\<lambda>_. 0) p va = None"
proof -
  have z: "load64 (\<lambda>_. 0) a = 0" for a by (rule load64_zero) simp
  then have c: "child (\<lambda>_. 0) q i = None" for q i by (simp add: child_def)
  have t: "tbl (\<lambda>_. 0) p xs = Some q \<longleftrightarrow> xs = [] \<and> q = p" for xs q by (cases xs) (auto simp: c)
  then have "tables (\<lambda>_. 0) p = {p}" by (auto simp: tables_def path_ok_def)
  then show "vm_ok \<lparr>ram = \<lambda>_. 0, kheap = b\<rparr> p {p}"
    using assms page_iff [OF assms] t by (auto simp: vm_ok_def pt_wf_def)
  show "pmap (\<lambda>_. 0) p va = None" by (simp add: pmap_def c)
qed

lemma sample_vm: "\<exists>b p. vm_ok \<lparr>ram = \<lambda>_. 0, kheap = b\<rparr> p {p}"
proof -
  obtain b p b' where b: "pages_out b {}" "kalloc b = Ret (p, b')" "p \<noteq> nullptr"
    using kinit_pages [of "KERNBASE + 0x30000" "\<lambda>_. \<lparr>nxt = 0, prv = 0\<rparr>"] by auto
  then have "pages_out b' {p}" using kmem.alloc_law [OF b(1)] by auto
  then show ?thesis using empty_table by blast
qed



text \<open>
  C30. Mapping. For a range below \<open>MAXVA\<close> none of whose pages is mapped, \<open>mappages\<close> never faults. It returns 0
  and exactly the pages of the range are mapped, in order, to the pages from \<open>pa\<close> on with the given
  permissions; or it returns -1 because no page is left for a table, and a proper prefix is mapped.
  In both cases no other address changes its mapping and memory outside the tables is kept.
\<close>

theorem mappages_maps:
  assumes "vm_ok s root P" "0 < sz" "unat va + unat sz \<le> 2 ^ 38"
    and "\<And>vb. pg_down va \<le> vb \<Longrightarrow> vb < va + sz \<Longrightarrow> pmap (ram s) root vb = None"
  defines "n \<equiv> Suc (unat (va + sz - 1) div PGSIZE - unat va div PGSIZE)"
  shows "ok (mappages root va sz pa perm) s (\<lambda>r s'. \<exists>P' k.
    (\<forall>vb. pmap (ram s') root vb =
       (let i = unat vb div PGSIZE - unat va div PGSIZE
        in if unat va div PGSIZE \<le> unat vb div PGSIZE \<and> i < k then Some (PA2PTE (pa + i * PGSIZE) OR perm OR PTE_V)
           else pmap (ram s) root vb)) \<and>
    vm_ok s' root P' \<and> P \<subseteq> P' \<and> tables (ram s') root = tables (ram s) root \<union> (P' - P) \<and>
    (\<forall>x. \<not> in_tables (ram s') root x \<longrightarrow> ram s' x = ram s x) \<and>
    (r = 0 \<and> k = n \<or> r = -1 \<and> k < n \<and> no_memory s'))"
proof (rule ok_mono [OF mappages_ok [OF assms(1-4)]])
  fix r :: int and s'
  let ?g = "\<lambda>i. Some (PA2PTE (pa + i * PGSIZE) OR perm OR PTE_V)"
  assume "\<exists>P' j. vm_to root s P (map_range (pmap (ram s) root) va j ?g) s' P' \<and>
    (r = 0 \<and> j = Suc (unat (va + sz - 1) div PGSIZE - unat va div PGSIZE) \<or>
     r = -1 \<and> j \<le> unat (va + sz - 1) div PGSIZE - unat va div PGSIZE \<and> no_memory s')"
  then obtain P' j where j: "vm_to root s P (map_range (pmap (ram s) root) va j ?g) s' P'"
    "r = 0 \<and> j = n \<or> r = -1 \<and> j < n \<and> no_memory s'" unfolding n_def less_Suc_eq_le by blast
  have "\<forall>vb. pmap (ram s') root vb = (let i = unat vb div PGSIZE - unat va div PGSIZE
        in if unat va div PGSIZE \<le> unat vb div PGSIZE \<and> i < j then ?g i else pmap (ram s) root vb)"
    using j(1) unfolding vm_to_def map_range_def Let_def by auto
  then show "\<exists>P' k. (\<forall>vb. pmap (ram s') root vb = (let i = unat vb div PGSIZE - unat va div PGSIZE
        in if unat va div PGSIZE \<le> unat vb div PGSIZE \<and> i < k then ?g i else pmap (ram s) root vb)) \<and>
    vm_ok s' root P' \<and> P \<subseteq> P' \<and> tables (ram s') root = tables (ram s) root \<union> (P' - P) \<and>
    (\<forall>x. \<not> in_tables (ram s') root x \<longrightarrow> ram s' x = ram s x) \<and> (r = 0 \<and> k = n \<or> r = -1 \<and> k < n \<and> no_memory s')"
    using j unfolding vm_to_def by blast
qed

theorem mappages_maps_witness:
  "\<exists>s root P. vm_ok s root P \<and> ok (mappages root 0x1000 4096 0x1000 PTE_R) s (\<lambda>r s'.
     r = 0 \<and> pmap (ram s') root 0x1000 = Some (PA2PTE 0x1000 OR PTE_R OR PTE_V) \<or> r = -1 \<and> no_memory s')"
proof -
  obtain b p where v: "vm_ok \<lparr>ram = \<lambda>_. 0, kheap = b\<rparr> p {p}" using sample_vm by blast
  then have "pages_out b {p}" by (simp add: vm_ok_def)
  then have e: "pmap (\<lambda>_. 0) p va = None" for va by (rule empty_table(2))
  have sz: "(0 :: u64) < 4096" "unat (0x1000 :: u64) + unat (4096 :: u64) \<le> 2 ^ 38" by simp_all
  have "ok (mappages p 0x1000 4096 0x1000 PTE_R) \<lparr>ram = \<lambda>_. 0, kheap = b\<rparr> (\<lambda>r s'.
     r = 0 \<and> pmap (ram s') p 0x1000 = Some (PA2PTE 0x1000 OR PTE_R OR PTE_V) \<or> r = -1 \<and> no_memory s')"
    by (rule ok_mono [OF mappages_maps [OF v sz, of "0x1000" PTE_R]]) (use e in \<open>auto simp: Let_def PGSIZE_def\<close>)
  then show ?thesis using v by blast
qed

text \<open>
  C31. Reading user memory. On every page table, well formed or not, \<open>copyin\<close> and \<open>copyinstr\<close> end without a
  fault, change nothing, and agree with the references that translate each byte by itself: \<open>copyin\<close>
  returns 0 exactly when every byte of the range is mapped for the user, \<open>copyinstr\<close> exactly when a zero
  byte comes within the limit and before the first unmapped byte; ranges that wrap around the address
  space are included.
\<close>

theorem copy_from_user_reference:
  "copyin pt va n s = Ret (read_user (ram s) pt va n, s) \<and> copyinstr pt va n s = Ret (read_string (ram s) pt va n, s)"
  by (simp add: copyin_eq copyinstr_eq)

end
