(* ===== verification/Spec2Isabelle.thy ===== *)
theory Spec2Isabelle
  imports Bio Bits Buddy Buddy_Correct Buddy_Init Buddy_Tree Bytes Console Exec Fcntl File Frame Free_List Fs Fs_Blocks Fs_Files Grep Kalloc Kernel Kmonad Kstate Kstring Locks Log Pipe Printf Proc Proc_Inv Proc_Props Ring Sh Sysargs Syscall Sysfile Trampoline Trap Uart Ulib Virtio Vm Vm_Maps Vm_User Xv6_Prelude
begin

text \<open>
  A verification of the xv6 kernel in \<^verbatim>\<open>src/kernel/\<close> and of parts of its user programs in \<^verbatim>\<open>src/user/\<close>: a
  RISC-V teaching kernel with a buddy allocator for physical memory, open files that live in that
  allocator, and two system calls (\<open>dump\<close> and \<open>dump2\<close>) that inspect saved registers of processes.

  \<^bold>\<open>The program.\<close> At the bottom is the memory: \<^verbatim>\<open>buddy.c\<close> manages the physical memory with the bit
  vectors of \<^verbatim>\<open>bits.c\<close> and the lists of \<^verbatim>\<open>list.c\<close>, \<^verbatim>\<open>kalloc.c\<close> gives out pages, and \<^verbatim>\<open>vm.c\<close> builds page tables from
  them. The disk side is a tower: the driver \<^verbatim>\<open>virtio_disk.c\<close>, the buffer cache \<^verbatim>\<open>bio.c\<close>, the write-ahead log \<^verbatim>\<open>log.c\<close>
  and the file system \<^verbatim>\<open>fs.c\<close>. Over both sides stand the processes of \<^verbatim>\<open>proc.c\<close>, the open files of \<^verbatim>\<open>file.c\<close> and
  \<^verbatim>\<open>pipe.c\<close>, the loader \<^verbatim>\<open>exec.c\<close> and the system calls of \<^verbatim>\<open>syscall.c\<close>, \<^verbatim>\<open>sysproc.c\<close> and \<^verbatim>\<open>sysfile.c\<close>. \<^verbatim>\<open>trap.c\<close> enters
  the kernel, and the assembly files save and restore registers around it. \<^verbatim>\<open>uart.c\<close> and \<^verbatim>\<open>console.c\<close> are the
  terminal.

  \<^bold>\<open>The state.\<close> The records extend each other as the layers do: \<open>bio\<close> (cache and disk), \<open>logst\<close>, \<open>fsst\<close>
  (inodes) and \<open>kst\<close> (process table, files, pipes, page tables and physical memory, console, serial port, disk
  driver, clock). The smaller parts have records of their own. Code that can call \<open>panic\<close>, index out of bounds,
  follow a null or a freed pointer, loop forever or sleep has a result in \<open>'a res\<close>, and each of these is a value
  of \<open>fault\<close>. Code on a state is a function of the state monad in \<^theory_text>\<open>Kmonad\<close>.

  \<^bold>\<open>Theories and sources.\<close>

  \<^item> \<^theory_text>\<open>Xv6_Prelude\<close>, \<^theory_text>\<open>Kmonad\<close>, \<^theory_text>\<open>Bytes\<close>: integer widths, faults, sequencing, the judgement \<open>ok\<close>, and
    the integers in C structures on disk blocks.
  \<^item> \<^theory_text>\<open>Bits\<close>, \<^theory_text>\<open>Free_List\<close>, \<^theory_text>\<open>Buddy\<close>, \<^theory_text>\<open>Buddy_Init\<close>: \<^verbatim>\<open>bits.c\<close>, \<^verbatim>\<open>list.c\<close> and \<^verbatim>\<open>buddy.c\<close>. \<^theory_text>\<open>Buddy_Tree\<close> is the abstract
    allocator, a tree of free, used and split blocks, and \<^theory_text>\<open>Buddy_Correct\<close> the simulation: \<open>buddy_malloc\<close>,
    \<open>buddy_free\<close> and \<open>buddy_init\<close> implement its steps, and its leaves partition the memory. \<^theory_text>\<open>Kalloc\<close> is
    \<^verbatim>\<open>kalloc.c\<close> with its contract, the locale \<open>page_allocator\<close>.
  \<^item> \<^theory_text>\<open>Vm\<close>: \<^verbatim>\<open>vm.c\<close> on a byte memory with the page tables in it. \<^theory_text>\<open>Vm_Maps\<close> reads a page table as a map and
    compares the copying functions with a reference; \<^theory_text>\<open>Vm_User\<close> shows what \<open>mappages\<close> and \<open>uvmalloc\<close> do to the map
    and to the pages in use, out of memory included.
  \<^item> \<^theory_text>\<open>Bio\<close>: \<^verbatim>\<open>bio.c\<close>, with the locale \<open>block_store\<close>; the cache is transparent. \<^theory_text>\<open>Log\<close>: \<^verbatim>\<open>log.c\<close>; transactions are
    atomic across crashes, also during recovery. \<^theory_text>\<open>Fs\<close>, \<^theory_text>\<open>Fs_Blocks\<close>, \<^theory_text>\<open>Fs_Files\<close>: \<^verbatim>\<open>fs.c\<close>; the block
    allocator, and that reading gives back what was written. \<^theory_text>\<open>Virtio\<close>: \<^verbatim>\<open>virtio_disk.c\<close>, the cycle of a request.
  \<^item> \<^theory_text>\<open>Locks\<close>: \<^verbatim>\<open>spinlock.c\<close> and \<^verbatim>\<open>sleeplock.c\<close>; mutual exclusion on every interleaving of the CPUs.
  \<^item> \<^theory_text>\<open>Ring\<close>: the locale \<open>fifo\<close> for ring buffers with wrapping counters, with the interpretations in \<^theory_text>\<open>Pipe\<close> (\<^verbatim>\<open>pipe.c\<close>)
    and \<^theory_text>\<open>Uart\<close> (\<^verbatim>\<open>uart.c\<close>): bytes arrive once and in order. \<^theory_text>\<open>Console\<close>: \<^verbatim>\<open>console.c\<close> refines a line editor.
  \<^item> \<^theory_text>\<open>Kstring\<close> and \<^theory_text>\<open>Printf\<close>: \<^verbatim>\<open>string.c\<close>, and \<^verbatim>\<open>printf.c\<close> of the kernel and of user programs.
  \<^item> \<^theory_text>\<open>Kstate\<close>, \<^theory_text>\<open>Proc\<close>, \<^theory_text>\<open>File\<close>, \<^theory_text>\<open>Exec\<close>: the state of the kernel, \<^verbatim>\<open>proc.c\<close>, \<^verbatim>\<open>file.c\<close>, \<^verbatim>\<open>exec.c\<close>. \<^theory_text>\<open>Fcntl\<close>, \<^theory_text>\<open>Sysargs\<close>,
    \<^theory_text>\<open>Sysfile\<close>, \<^theory_text>\<open>Syscall\<close>: \<^verbatim>\<open>fcntl.h\<close>, \<^verbatim>\<open>syscall.c\<close>, \<^verbatim>\<open>sysfile.c\<close>, \<^verbatim>\<open>sysproc.c\<close>. \<^theory_text>\<open>Trap\<close>: \<^verbatim>\<open>trap.c\<close> and \<^verbatim>\<open>plic.c\<close>.
  \<^item> \<^theory_text>\<open>Trampoline\<close>: \<^verbatim>\<open>trampoline.S\<close>, \<^verbatim>\<open>kernelvec.S\<close> and \<^verbatim>\<open>swtch.S\<close> as instruction lists with an interpreter. The offsets
    agree with the C structures, the registers of a process survive a trap, and \<open>swtch\<close> resumes a thread.
  \<^item> \<^theory_text>\<open>Frame\<close>: the locale \<open>frame\<close>, which follows the code once for every reflexive and transitive relation
    between the states before and after, with ten interpretations there and in \<^theory_text>\<open>Proc_Inv\<close>. \<^theory_text>\<open>Proc_Inv\<close>: the invariant of
    the process table through \<open>allocproc\<close>, \<open>fork\<close>, \<open>exit\<close> and \<open>wait\<close>. \<^theory_text>\<open>Kernel\<close>: every system call and trap keeps it, and
    so does the step relation \<open>kstep\<close> of dispatches, calls, traps, sleeps and interrupts. \<^theory_text>\<open>Proc_Props\<close>: \<open>kill\<close>,
    \<open>wakeup\<close>, \<open>dump2\<close>, \<open>exit\<close> with \<open>wait\<close>, and the closing of pipes; the scheduler serves every runnable process, and
    \<open>sleep\<close> ends.
  \<^item> \<^theory_text>\<open>Ulib\<close>, \<^theory_text>\<open>Grep\<close>, \<^theory_text>\<open>Sh\<close>: \<^verbatim>\<open>ulib.c\<close>, the matcher and the loop of \<^verbatim>\<open>grep.c\<close> with the language of its patterns, and the
    parser of \<^verbatim>\<open>sh.c\<close>.

  \<^bold>\<open>Bounds.\<close> \<open>freewalk\<close> runs with depth 3, the number of levels of a page table; a deeper table is the fault
  \<open>Diverge\<close>. The parser of the shell runs with depth \<open>4 * length s + 4\<close>, and it is proved that this is never used up:
  each of the four mutually recursive functions calls at most three others before it consumes a character.
  Loops that may run forever in the source (the list walks of \<^verbatim>\<open>bio.c\<close> and \<^verbatim>\<open>list.c\<close>, \<open>firstk\<close>, \<open>strlen\<close>, \<open>strcpy\<close> and the
  search of \<open>proc_is_child\<close>) are partial functions into \<open>option\<close>. Lemmas say when the walks, \<open>firstk\<close>, \<open>strlen\<close>
  and the search return, and for \<open>firstk\<close> and \<open>proc_is_child\<close> this is a theorem; \<open>strcpy\<close> has no such lemma, since on
  overlapping strings it may run forever.

  \<^bold>\<open>Assumptions of the model.\<close>

  \<^item> Addresses and block indices of the allocator are natural numbers, process numbers and \<open>nextpid\<close> unbounded
    integers; sizes, counters, offsets and virtual addresses keep their width and wrap around.
  \<^item> The kernel state has one CPU. A kernel function runs undisturbed until it returns or sleeps; a call that
    sleeps ends with \<open>Blocked\<close>, and pipes, the console, the disk driver and \<open>sys_sleep\<close> are cut at the place where they
    sleep. An interrupt is handled as a whole, and does not fall into the middle of a system call. Only
    \<^theory_text>\<open>Locks\<close> interleaves CPUs, under sequential consistency.
  \<^item> Devices are parameters: the values that the registers of the disk, the serial port and the interrupt
    controller give. So is the translation of addresses in \<^theory_text>\<open>Trampoline\<close>, and the copying to and from user memory in
    \<^theory_text>\<open>Pipe\<close>, \<^theory_text>\<open>Console\<close> and \<^theory_text>\<open>Fs\<close>; \<^theory_text>\<open>File\<close> instantiates it by the functions of \<^theory_text>\<open>Vm\<close>.

  \<^bold>\<open>Not modelled.\<close> The boot code (\<^verbatim>\<open>main.c\<close>, \<^verbatim>\<open>start.c\<close>, \<^verbatim>\<open>entry.S\<close>), which sets control registers and calls the
  initialisers; the inline assembly of \<^verbatim>\<open>riscv.h\<close>; \<open>kvminit\<close>, \<open>kvminithart\<close>, \<open>trapinit\<close> and \<open>trapinithart\<close>, which store one
  value or register; \<open>buddy_print\<close>; the locking of \<open>printf\<close>; \<^verbatim>\<open>ramdisk.c\<close>, which is not built; \<^verbatim>\<open>mkfs.c\<close>, a program of the host;
  \<^verbatim>\<open>umalloc.c\<close>; the stubs generated by \<^verbatim>\<open>usys.pl\<close> and \<^verbatim>\<open>initcode.S\<close>; in \<^verbatim>\<open>grep.c\<close>, \<^verbatim>\<open>sh.c\<close> and \<^verbatim>\<open>ulib.c\<close> the functions that only make
  system calls; the other small programs and the tests in \<^verbatim>\<open>src/user/\<close>.
\<close>

end
